(* ===== verification/Prelude.thy ===== *)
theory Prelude
  imports Main "HOL-Library.Word"
begin

text \<open>
  Shared vocabulary of the development.

  A NUL-terminated C string is the list of its bytes without the terminator
  (\<open>cstr\<close>, a \<open>char list\<close>); the read \<open>s[i]\<close> is \<open>char_at s i\<close>, which yields
  the terminator at \<open>i = strlen(s)\<close>.  \<open>unsigned int\<close> bit masks are \<open>32 word\<close>,
  bytes are \<open>8 word\<close>.  The C library functions that the modelled files call
  (\<open>tolower\<close>, \<open>strchr\<close>, \<open>strcasecmp\<close>, \<open>atoi\<close>, ...) and the BSD string functions
  \<open>strlcpy\<close> and \<open>strlcat\<close> are given here once, in the C locale.
\<close>

unbundle bit_operations_syntax

named_theorems cstring_simps \<open>evaluation of C string operations\<close>
named_theorems flag_simps \<open>evaluation of flag constants and masks\<close>

type_synonym cstr = string
type_synonym u8 = "8 word"
type_synonym u32 = "32 word"

section \<open>Characters of the C locale\<close>

abbreviation NUL :: char where "NUL \<equiv> CHR 0x00"

definition is_digit :: "char \<Rightarrow> bool" where
  "is_digit c \<longleftrightarrow> 48 \<le> (of_char c :: nat) \<and> (of_char c :: nat) \<le> 57"

definition is_upper :: "char \<Rightarrow> bool" where
  "is_upper c \<longleftrightarrow> 65 \<le> (of_char c :: nat) \<and> (of_char c :: nat) \<le> 90"

definition is_lower :: "char \<Rightarrow> bool" where
  "is_lower c \<longleftrightarrow> 97 \<le> (of_char c :: nat) \<and> (of_char c :: nat) \<le> 122"

definition is_alnum :: "char \<Rightarrow> bool" where
  "is_alnum c \<longleftrightarrow> is_digit c \<or> is_upper c \<or> is_lower c"

text \<open>\<open>isspace\<close>: space, \<open>\t\<close>, \<open>\n\<close>, \<open>\v\<close>, \<open>\f\<close> and \<open>\r\<close>.\<close>

definition is_space :: "char \<Rightarrow> bool" where
  "is_space c \<longleftrightarrow> (of_char c :: nat) = 32 \<or> (9 \<le> (of_char c :: nat) \<and> (of_char c :: nat) \<le> 13)"

definition c_tolower :: "char \<Rightarrow> char" where
  "c_tolower c = (if is_upper c then char_of (of_char c + 32 :: nat) else c)"

definition c_toupper :: "char \<Rightarrow> char" where
  "c_toupper c = (if is_lower c then char_of (of_char c - 32 :: nat) else c)"

lemma of_char_eq_0_iff [simp]: "(of_char c :: nat) = 0 \<longleftrightarrow> c = NUL"
  using of_char_eq_iff [where ?'a = nat, of c NUL] by simp

lemma c_tolower_idem [simp]: "c_tolower (c_tolower c) = c_tolower c"
  by (auto simp: c_tolower_def is_upper_def of_char_of)

lemma c_toupper_idem [simp]: "c_toupper (c_toupper c) = c_toupper c"
  by (auto simp: c_toupper_def is_lower_def of_char_of)

lemma c_tolower_NUL [simp]: "c_tolower c = NUL \<longleftrightarrow> c = NUL"
  by (auto simp: c_tolower_def is_upper_def of_char_of dest!: arg_cong [of _ NUL "of_char :: char \<Rightarrow> nat"])

section \<open>C strings\<close>

text \<open>\<open>s[i]\<close>: the terminator when \<open>i\<close> is the length (and, only to make the function total, beyond).\<close>

definition char_at :: "cstr \<Rightarrow> nat \<Rightarrow> char" where
  "char_at s i = (if i < length s then s ! i else NUL)"

text \<open>A C string holds no NUL byte.\<close>

definition no_nul :: "cstr \<Rightarrow> bool" where
  "no_nul s \<longleftrightarrow> NUL \<notin> set s"

lemma char_at_in [simp]: "i < length s \<Longrightarrow> char_at s i = s ! i"
  by (simp add: char_at_def)

lemma char_at_end [simp]: "length s \<le> i \<Longrightarrow> char_at s i = NUL"
  by (simp add: char_at_def)

lemma char_at_Nil [simp]: "char_at [] i = NUL"
  by (simp add: char_at_def)

lemma char_at_Cons_0 [simp]: "char_at (c # s) 0 = c"
  by (simp add: char_at_def)

lemma char_at_Cons_Suc [simp]: "char_at (c # s) (Suc i) = char_at s i"
  by (simp add: char_at_def)

lemma char_at_Cons_numeral [simp]:
  "char_at (c # s) (numeral k) = char_at s (pred_numeral k)"
  by (simp add: numeral_eq_Suc)

lemma char_at_NUL_iff: "no_nul s \<Longrightarrow> char_at s i = NUL \<longleftrightarrow> length s \<le> i"
  by (auto simp: char_at_def no_nul_def) (metis nth_mem)

lemma no_nul_Nil [simp]: "no_nul []"
  by (simp add: no_nul_def)

lemma no_nul_Cons [simp]: "no_nul (c # s) \<longleftrightarrow> c \<noteq> NUL \<and> no_nul s"
  by (auto simp: no_nul_def)

lemma no_nul_append [simp]: "no_nul (s @ t) \<longleftrightarrow> no_nul s \<and> no_nul t"
  by (auto simp: no_nul_def)

lemma drop_Cons_char_at: "i < length s \<Longrightarrow> drop i s = char_at s i # drop (Suc i) s"
  by (simp add: Cons_nth_drop_Suc)

text \<open>\<open>strchr(s, c)\<close>: the index of the first occurrence; searching for the terminator finds it.\<close>

fun strchr :: "cstr \<Rightarrow> char \<Rightarrow> nat option" where
  "strchr [] c = (if c = NUL then Some 0 else None)"
| "strchr (d # s) c = (if d = c then Some 0 else map_option Suc (strchr s c))"

definition strrchr :: "cstr \<Rightarrow> char \<Rightarrow> nat option" where
  "strrchr s c = map_option (\<lambda>i. length s - Suc i) (if c = NUL then None else strchr (rev s) c)"

lemma strchr_SomeD: "strchr s c = Some i \<Longrightarrow> c \<noteq> NUL \<Longrightarrow> i < length s \<and> s ! i = c \<and> c \<notin> set (take i s)"
  by (induction s c arbitrary: i rule: strchr.induct) (auto split: if_splits)

lemma strchr_None_iff: "c \<noteq> NUL \<Longrightarrow> strchr s c = None \<longleftrightarrow> c \<notin> set s"
  by (induction s c rule: strchr.induct) auto

text \<open>
  \<open>strcasecmp\<close> (the difference of the first bytes that differ in the lower-case mapping), and the
  tests \<open>!strcasecmp(s, t)\<close> and \<open>!strncasecmp(s, t, n)\<close>.
\<close>

fun strcasecmp :: "cstr \<Rightarrow> cstr \<Rightarrow> int" where
  "strcasecmp [] [] = 0"
| "strcasecmp [] (d # t) = - int (of_char (c_tolower d))"
| "strcasecmp (c # s) [] = int (of_char (c_tolower c))"
| "strcasecmp (c # s) (d # t) =
     (if c_tolower c = c_tolower d then strcasecmp s t
      else int (of_char (c_tolower c)) - int (of_char (c_tolower d)))"

definition strcaseeq :: "cstr \<Rightarrow> cstr \<Rightarrow> bool" where
  "strcaseeq s t \<longleftrightarrow> map c_tolower s = map c_tolower t"

definition strncaseeq :: "cstr \<Rightarrow> cstr \<Rightarrow> nat \<Rightarrow> bool" where
  "strncaseeq s t n \<longleftrightarrow> map c_tolower (take n s) = map c_tolower (take n t)"

lemma strcasecmp_0_iff: "no_nul s \<Longrightarrow> no_nul t \<Longrightarrow> strcasecmp s t = 0 \<longleftrightarrow> strcaseeq s t"
proof (induction s t rule: strcasecmp.induct)
  case (2 d t)
  then have "c_tolower d \<noteq> NUL" by simp
  then show ?case by (simp add: strcaseeq_def)
next
  case (3 c s)
  then have "c_tolower c \<noteq> NUL" by simp
  then show ?case by (simp add: strcaseeq_def)
qed (auto simp: strcaseeq_def)

lemma strcaseeq_refl [simp]: "strcaseeq s s"
  by (simp add: strcaseeq_def)

lemma strcaseeq_sym: "strcaseeq s t \<Longrightarrow> strcaseeq t s"
  by (simp add: strcaseeq_def)

lemma strcaseeq_trans: "strcaseeq s t \<Longrightarrow> strcaseeq t u \<Longrightarrow> strcaseeq s u"
  by (simp add: strcaseeq_def)

text \<open>
  BSD \<open>strlcpy(dst, src, size)\<close> and \<open>strlcat(dst, src, size)\<close>: the string left in a buffer of
  \<open>size\<close> bytes, the last of them the terminator.
\<close>

definition strlcpy :: "cstr \<Rightarrow> nat \<Rightarrow> cstr" where
  "strlcpy src sz = take (sz - 1) src"

definition strlcat :: "cstr \<Rightarrow> cstr \<Rightarrow> nat \<Rightarrow> cstr" where
  "strlcat dst src sz = (if length dst < sz then dst @ take (sz - 1 - length dst) src else dst)"

lemma length_strlcpy: "0 < sz \<Longrightarrow> length (strlcpy src sz) < sz"
  by (simp add: strlcpy_def)

lemma length_strlcat: "length dst < sz \<Longrightarrow> length (strlcat dst src sz) < sz"
  by (simp add: strlcat_def)

lemma strlcpy_fits: "length src < sz \<Longrightarrow> strlcpy src sz = src"
  by (simp add: strlcpy_def)

lemma strlcat_fits: "length dst + length src < sz \<Longrightarrow> strlcat dst src sz = dst @ src"
  by (simp add: strlcat_def)

lemma no_nul_take: "no_nul s \<Longrightarrow> no_nul (take n s)"
  by (auto simp: no_nul_def dest: in_set_takeD)

lemma no_nul_drop: "no_nul s \<Longrightarrow> no_nul (drop n s)"
  by (auto simp: no_nul_def dest: in_set_dropD)

lemma no_nul_strlcpy [simp]: "no_nul s \<Longrightarrow> no_nul (strlcpy s n)"
  by (simp add: strlcpy_def no_nul_take)

lemma no_nul_strlcat [simp]: "no_nul d \<Longrightarrow> no_nul s \<Longrightarrow> no_nul (strlcat d s n)"
  by (simp add: strlcat_def no_nul_take)

section \<open>Buffer sizes\<close>

text \<open>\<open>common.h\<close>\<close>

definition BUFSIZE :: nat where "BUFSIZE = 1024"
definition MAXMODES :: nat where "MAXMODES = 4"
definition HOSTLEN :: nat where "HOSTLEN = 64"
definition NICKLEN :: nat where "NICKLEN = 32"
definition USERLEN :: nat where "USERLEN = 12"
definition IDLEN :: nat where "IDLEN = 10"
definition EMAILLEN :: nat where "EMAILLEN = 120"
definition HOSTIPLEN :: nat where "HOSTIPLEN = 54"

section \<open>Decimal numbers\<close>

definition digit_value :: "char \<Rightarrow> nat" where
  "digit_value c = of_char c - 48"

fun digits_value :: "nat \<Rightarrow> cstr \<Rightarrow> nat" where
  "digits_value acc [] = acc"
| "digits_value acc (c # s) = (if is_digit c then digits_value (acc * 10 + digit_value c) s else acc)"

text \<open>
  \<open>atoi\<close>: white space, an optional sign, decimal digits.  The value is the mathematical one; the C
  result is undefined when it is not an \<open>int\<close>, which the callers' ranges exclude.
\<close>

definition atoi :: "cstr \<Rightarrow> int" where
  "atoi s =
     (let t = dropWhile is_space s
      in case t of
           [] \<Rightarrow> 0
         | c # u \<Rightarrow> if c = CHR ''-'' then - int (digits_value 0 u)
                    else if c = CHR ''+'' then int (digits_value 0 u)
                    else int (digits_value 0 t))"

definition digit_char :: "nat \<Rightarrow> char" where
  "digit_char d = char_of (48 + d)"

text \<open>\<open>"%u"\<close> and \<open>"%d"\<close>.\<close>

fun show_nat :: "nat \<Rightarrow> cstr" where
  "show_nat n = (if n < 10 then [digit_char n] else show_nat (n div 10) @ [digit_char (n mod 10)])"

declare show_nat.simps [simp del]

definition show_int :: "int \<Rightarrow> cstr" where
  "show_int i = (if i < 0 then CHR ''-'' # show_nat (nat (- i)) else show_nat (nat i))"

lemma show_nat_nonempty [simp]: "show_nat n \<noteq> []"
  by (subst show_nat.simps) simp

lemma is_digit_digit_char: "d < 10 \<Longrightarrow> is_digit (digit_char d)"
  by (simp add: is_digit_def digit_char_def of_char_of)

lemma digit_value_digit_char: "d < 10 \<Longrightarrow> digit_value (digit_char d) = d"
  by (simp add: digit_value_def digit_char_def of_char_of)

lemma show_nat_digits: "\<forall>c \<in> set (show_nat n). is_digit c"
proof (induction n rule: show_nat.induct)
  case (1 n)
  then show ?case
    by (subst show_nat.simps) (auto simp: is_digit_digit_char)
qed

lemma digits_value_append:
  "\<forall>c \<in> set s. is_digit c \<Longrightarrow> digits_value acc (s @ t) = digits_value (digits_value acc s) t"
  by (induction s arbitrary: acc) auto

lemma digits_value_show_nat: "digits_value 0 (show_nat n) = n"
proof (induction n rule: show_nat.induct)
  case (1 n)
  show ?case
  proof (cases "n < 10")
    case True
    then show ?thesis
      by (subst show_nat.simps) (simp add: is_digit_digit_char digit_value_digit_char)
  next
    case False
    with "1.IH" have "digits_value 0 (show_nat (n div 10)) = n div 10" by simp
    with False show ?thesis
      by (subst show_nat.simps)
        (simp add: digits_value_append show_nat_digits is_digit_digit_char digit_value_digit_char)
  qed
qed

lemma length_show_nat_le: "n < 10 ^ k \<Longrightarrow> 0 < k \<Longrightarrow> length (show_nat n) \<le> k"
proof (induction k arbitrary: n)
  case 0
  then show ?case by simp
next
  case (Suc k)
  show ?case
  proof (cases "n < 10")
    case True
    then show ?thesis by (subst show_nat.simps) simp
  next
    case False
    with Suc.prems have "n div 10 < 10 ^ k" "0 < k"
      by (auto simp: less_mult_imp_div_less mult.commute intro: gr0I)
    with Suc.IH have "length (show_nat (n div 10)) \<le> k" by blast
    with False show ?thesis by (subst show_nat.simps) simp
  qed
qed

section \<open>Options\<close>

lemma map_option_eq_Some_iff [simp]: "map_option f x = Some y \<longleftrightarrow> (\<exists>z. x = Some z \<and> y = f z)"
  by (cases x) auto

lemma find_SomeD: "find P xs = Some x \<Longrightarrow> x \<in> set xs \<and> P x"
  by (metis find_Some_iff nth_mem)

end
