(* ===== verification/Match.thy ===== *)
theory Match
  imports Prelude
begin

text \<open>
  \<open>libathemecore/match.c\<close>: IRC case mapping (\<open>ToLower\<close>, \<open>ToUpper\<close> and their tables), the case
  insensitive comparison and the canonicalisers used by every dictionary, and the iterative wildcard
  matcher \<open>match()\<close> with its bound \<open>MAX_ITERATIONS\<close>.
\<close>

section \<open>Case mapping\<close>

text \<open>\<open>match_mapping\<close> is a global \<open>int\<close>; here it is the parameter \<open>mm\<close>.\<close>

definition MATCH_RFC1459 :: int where "MATCH_RFC1459 = 0"
definition MATCH_ASCII :: int where "MATCH_ASCII = 1"

definition ToLowerTab :: "nat list" where
  "ToLowerTab = [0..<65] @ [97..<127] @ [95..<256]"

definition ToUpperTab :: "nat list" where
  "ToUpperTab = [0..<97] @ [65..<95] @ [127..<256]"

definition ToLower :: "int \<Rightarrow> char \<Rightarrow> char" where
  "ToLower mm c =
     (if mm = MATCH_ASCII then c_tolower c else char_of (ToLowerTab ! of_char c))"

definition ToUpper :: "int \<Rightarrow> char \<Rightarrow> char" where
  "ToUpper mm c =
     (if mm = MATCH_ASCII then c_toupper c else char_of (ToUpperTab ! of_char c))"

text \<open>\<open>charattrs\<close> and the class tests of \<open>match.h\<close>.\<close>

definition C_ALPHA :: u32 where "C_ALPHA = 0x00000001"
definition C_DIGIT :: u32 where "C_DIGIT = 0x00000002"
definition C_NICK :: u32 where "C_NICK = 0x00000004"
definition C_USER :: u32 where "C_USER = 0x00000008"

definition charattrs :: "u32 list" where
  "charattrs =
     replicate 45 0 @
     [C_NICK OR C_USER] @ [C_USER] @ [0] @
     replicate 10 (C_DIGIT OR C_NICK OR C_USER) @
     replicate 7 0 @
     replicate 26 (C_ALPHA OR C_NICK OR C_USER) @
     replicate 6 (C_NICK OR C_USER) @
     replicate 26 (C_ALPHA OR C_NICK OR C_USER) @
     replicate 3 (C_NICK OR C_USER) @ [C_USER] @
     replicate 129 0"

definition IsAlpha :: "char \<Rightarrow> bool" where
  "IsAlpha c \<longleftrightarrow> charattrs ! of_char c AND C_ALPHA \<noteq> 0"

definition IsDigit :: "char \<Rightarrow> bool" where
  "IsDigit c \<longleftrightarrow> charattrs ! of_char c AND C_DIGIT \<noteq> 0"

definition IsNon :: "char \<Rightarrow> bool" where
  "IsNon c \<longleftrightarrow> \<not> (IsAlpha c \<or> IsDigit c)"

text \<open>\<open>irccasecmp\<close> outside ASCII mode, and the canonicalisers.\<close>

fun irccasecmp_loop :: "int \<Rightarrow> cstr \<Rightarrow> cstr \<Rightarrow> int" where
  "irccasecmp_loop mm s1 s2 =
     (let res = int (of_char (ToUpper mm (char_at s1 0))) - int (of_char (ToUpper mm (char_at s2 0)))
      in if res \<noteq> 0 then res
         else if s1 = [] then 0
         else irccasecmp_loop mm (tl s1) (tl s2))"

declare irccasecmp_loop.simps [simp del]

definition irccasecmp :: "int \<Rightarrow> cstr option \<Rightarrow> cstr option \<Rightarrow> int" where
  "irccasecmp mm s1 s2 =
     (case (s1, s2) of
        (Some str1, Some str2) \<Rightarrow>
          if mm = MATCH_ASCII then strcasecmp str1 str2 else irccasecmp_loop mm str1 str2
      | _ \<Rightarrow> -1)"

definition irccasecanon :: "int \<Rightarrow> cstr \<Rightarrow> cstr" where
  "irccasecanon mm str = map (ToUpper mm) str"

definition strcasecanon :: "cstr \<Rightarrow> cstr" where
  "strcasecanon str = map c_toupper str"

definition noopcanon :: "cstr \<Rightarrow> cstr" where
  "noopcanon str = str"

section \<open>The matcher\<close>

text \<open>
  The pointers \<open>m\<close>, \<open>ma\<close> into the mask and \<open>n\<close>, \<open>na\<close> into the name are indices; a read through a
  pointer past the terminator, which is undefined in C, is the outcome \<open>OutOfBounds\<close>.
\<close>

definition MAX_ITERATIONS :: nat where "MAX_ITERATIONS = 512"

record match_state =
  ms_m :: nat
  ms_n :: nat
  ms_ma :: nat
  ms_na :: nat
  ms_wild :: bool

datatype match_outcome = Returns nat | OutOfBounds

fun skip_stars :: "cstr \<Rightarrow> nat" where
  "skip_stars (c # s) = (if c = CHR ''*'' then Suc (skip_stars s) else 0)"
| "skip_stars [] = 0"

definition is_escapable :: "char \<Rightarrow> bool" where
  "is_escapable c \<longleftrightarrow> c \<in> {CHR ''*'', CHR ''?'', CHR ''&'', CHR ''#'', CHR ''%''}"

text \<open>\<open>for (m--; m > mask && (*m == '?' || *m == '&' || *m == '#'); m--);\<close> entered at \<open>m - 1\<close>.\<close>

fun scan_back :: "cstr \<Rightarrow> nat \<Rightarrow> nat" where
  "scan_back msk 0 = 0"
| "scan_back msk (Suc b) =
     (if char_at msk (Suc b) \<in> {CHR ''?'', CHR ''&'', CHR ''#''} then scan_back msk b else Suc b)"

text \<open>The mask character at \<open>m\<close> (\<open>q\<close>: it was escaped) does not accept the character \<open>c\<close> of the name.\<close>

definition char_rejects :: "int \<Rightarrow> char \<Rightarrow> bool \<Rightarrow> char \<Rightarrow> bool" where
  "char_rejects mm p q c \<longleftrightarrow>
     ToLower mm p \<noteq> ToLower mm c \<and>
     (p \<noteq> CHR ''?'' \<and> \<not> (p = CHR ''&'' \<and> IsAlpha c) \<and>
      \<not> (p = CHR ''#'' \<and> IsDigit c) \<and> \<not> (p = CHR ''%'' \<and> IsNon c) \<or> q)"

text \<open>The second half of the loop body: escape handling, comparison, advance or back up.\<close>

definition match_compare ::
    "int \<Rightarrow> cstr \<Rightarrow> cstr \<Rightarrow> match_state \<Rightarrow> match_outcome + match_state" where
  "match_compare mm msk name s =
     (if length msk < ms_m s \<or> length name < ms_n s then Inl OutOfBounds
      else
        let q = char_at msk (ms_m s) = CHR 0x5C \<and> is_escapable (char_at msk (Suc (ms_m s)));
            m = (if q then Suc (ms_m s) else ms_m s)
        in if char_rejects mm (char_at msk m) q (char_at name (ms_n s)) then
             (if \<not> ms_wild s then Inl (Returns 1)
              else Inr (s\<lparr>ms_m := ms_ma s, ms_n := Suc (ms_na s), ms_na := Suc (ms_na s)\<rparr>))
           else
             Inr (s\<lparr>ms_m := (if char_at msk m \<noteq> NUL then Suc m else m),
                    ms_n := (if char_at name (ms_n s) \<noteq> NUL then Suc (ms_n s) else ms_n s)\<rparr>))"

definition match_step ::
    "int \<Rightarrow> cstr \<Rightarrow> cstr \<Rightarrow> match_state \<Rightarrow> match_outcome + match_state" where
  "match_step mm msk name s0 =
     (if length msk < ms_m s0 \<or> length name < ms_n s0 then Inl OutOfBounds
      else
        let s = (if char_at msk (ms_m s0) = CHR ''*'' then
                   (let m = ms_m s0 + skip_stars (drop (ms_m s0) msk)
                    in s0\<lparr>ms_m := m, ms_wild := True, ms_ma := m, ms_na := ms_n s0\<rparr>)
                 else s0)
        in if char_at msk (ms_m s) = NUL then
             (if char_at name (ms_n s) = NUL then Inl (Returns 0)
              else
                let b = scan_back msk (ms_m s - 1)
                in if 0 < b \<and> char_at msk b = CHR ''*'' \<and> char_at msk (b - 1) \<noteq> CHR 0x5C
                   then Inl (Returns 0)
                   else if \<not> ms_wild s then Inl (Returns 1)
                   else match_compare mm msk name
                          (s\<lparr>ms_m := ms_ma s, ms_n := Suc (ms_na s), ms_na := Suc (ms_na s)\<rparr>))
           else if char_at name (ms_n s) = NUL then Inl (Returns 1)
           else match_compare mm msk name s)"

text \<open>\<open>k\<close> is the number of iterations left; \<open>calls++ > MAX_ITERATIONS\<close> ends the loop with no match.\<close>

fun match_loop :: "int \<Rightarrow> cstr \<Rightarrow> cstr \<Rightarrow> nat \<Rightarrow> match_state \<Rightarrow> match_outcome" where
  "match_loop mm msk name 0 s = Returns 1"
| "match_loop mm msk name (Suc k) s =
     (case match_step mm msk name s of
        Inl r \<Rightarrow> r
      | Inr s' \<Rightarrow> match_loop mm msk name k s')"

definition match_init :: match_state where
  "match_init = \<lparr>ms_m = 0, ms_n = 0, ms_ma = 0, ms_na = 0, ms_wild = False\<rparr>"

definition match_outcome :: "int \<Rightarrow> cstr option \<Rightarrow> cstr option \<Rightarrow> match_outcome" where
  "match_outcome mm msk name =
     (case (msk, name) of
        (Some m, Some n) \<Rightarrow>
          if char_at m 0 = CHR ''*'' \<and> char_at m 1 = NUL then Returns 0
          else match_loop mm m n (MAX_ITERATIONS + 1) match_init
      | _ \<Rightarrow> Returns 1)"

text \<open>The \<open>int\<close> that \<open>match()\<close> returns: 0 on a match.\<close>

definition match :: "int \<Rightarrow> cstr option \<Rightarrow> cstr option \<Rightarrow> nat" where
  "match mm msk name = (case match_outcome mm msk name of Returns r \<Rightarrow> r | OutOfBounds \<Rightarrow> 2)"

section \<open>The language of a mask\<close>

function glob :: "int \<Rightarrow> cstr \<Rightarrow> cstr \<Rightarrow> bool" where
  "glob mm [] ys = (ys = [])"
| "glob mm (p # ps) ys =
     (if p = CHR ''*'' then
        glob mm ps ys \<or> (case ys of [] \<Rightarrow> False | y # ys' \<Rightarrow> glob mm (p # ps) ys')
      else
        (case ys of
           [] \<Rightarrow> False
         | y # ys' \<Rightarrow>
             if p = CHR 0x5C \<and> ps \<noteq> [] \<and> is_escapable (hd ps)
             then \<not> char_rejects mm (hd ps) True y \<and> glob mm (tl ps) ys'
             else \<not> char_rejects mm p False y \<and> glob mm ps ys'))"
  by pat_completeness auto
termination
  by (relation "measure (\<lambda>(_, ps, ys). length ps + length ys)") auto

declare glob.simps [simp del]

lemma glob_Nil [simp]: "glob mm [] ys = (ys = [])"
  by (simp add: glob.simps)

lemma glob_star: "glob mm (CHR ''*'' # ps) ys \<longleftrightarrow> (\<exists>j \<le> length ys. glob mm ps (drop j ys))"
proof (induction ys)
  case Nil
  show ?case by (simp add: glob.simps)
next
  case (Cons y ys)
  have "glob mm (CHR ''*'' # ps) (y # ys) \<longleftrightarrow> glob mm ps (y # ys) \<or> glob mm (CHR ''*'' # ps) ys"
    by (subst glob.simps) simp
  also have "\<dots> \<longleftrightarrow> glob mm ps (y # ys) \<or> (\<exists>j \<le> length ys. glob mm ps (drop j ys))"
    by (simp only: Cons.IH)
  also have "\<dots> \<longleftrightarrow> (\<exists>j \<le> length (y # ys). glob mm ps (drop j (y # ys)))"
    by (metis (no_types, lifting) Suc_le_mono drop_Suc_Cons drop_0 length_Cons not0_implies_Suc zero_le)
  finally show ?case .
qed

lemma glob_star_drop: "glob mm (CHR ''*'' # ps) (drop j ys) \<Longrightarrow> glob mm (CHR ''*'' # ps) ys"
  unfolding glob_star
  by (metis (no_types, opaque_lifting) add.commute drop_all drop_drop le_add2 length_drop nat_le_linear ordered_cancel_comm_monoid_diff_class.add_diff_inverse add_le_cancel_left le_refl)

text \<open>The number of mask characters of the first element of a mask that does not start with a star.\<close>

definition tok_len :: "cstr \<Rightarrow> nat" where
  "tok_len M = (if hd M = CHR 0x5C \<and> tl M \<noteq> [] \<and> is_escapable (hd (tl M)) then 2 else 1)"

definition tok_accepts :: "int \<Rightarrow> cstr \<Rightarrow> char \<Rightarrow> bool" where
  "tok_accepts mm M c =
     (if tok_len M = 2 then \<not> char_rejects mm (hd (tl M)) True c else \<not> char_rejects mm (hd M) False c)"

lemma glob_token:
  assumes "M \<noteq> []" and "hd M \<noteq> CHR ''*''"
  shows "glob mm M ys \<longleftrightarrow> ys \<noteq> [] \<and> tok_accepts mm M (hd ys) \<and> glob mm (drop (tok_len M) M) (tl ys)"
  using assms
  by (cases M; cases ys) (auto simp: glob.simps tok_len_def tok_accepts_def drop_Suc)

lemma skip_stars_le: "skip_stars s \<le> length s"
  by (induction s) auto

lemma skip_stars_stop: "skip_stars s < length s \<Longrightarrow> s ! skip_stars s \<noteq> CHR ''*''"
  by (induction s) auto

lemma skip_stars_star: "i < skip_stars s \<Longrightarrow> s ! i = CHR ''*''"
  by (induction s arbitrary: i) (auto simp: nth_Cons split: nat.splits if_splits)

lemma glob_skip_stars:
  "s \<noteq> [] \<Longrightarrow> hd s = CHR ''*'' \<Longrightarrow>
    glob mm s ys \<longleftrightarrow> glob mm (CHR ''*'' # drop (skip_stars s) s) ys"
proof (induction s arbitrary: ys)
  case Nil
  then show ?case by simp
next
  case (Cons c s)
  show ?case
  proof (cases "s \<noteq> [] \<and> hd s = CHR ''*''")
    case True
    have "glob mm (CHR ''*'' # s) ys \<longleftrightarrow> glob mm s ys"
    proof
      assume "glob mm (CHR ''*'' # s) ys"
      then obtain j where "glob mm s (drop j ys)" by (auto simp: glob_star)
      with True show "glob mm s ys" by (metis glob_star_drop list.collapse)
    next
      assume "glob mm s ys"
      then show "glob mm (CHR ''*'' # s) ys" by (auto simp: glob_star intro!: exI [of _ 0])
    qed
    with True Cons show ?thesis by simp
  next
    case False
    then have "skip_stars s = 0" by (cases s) auto
    with Cons.prems show ?thesis by simp
  qed
qed

section \<open>The loop invariant\<close>

text \<open>Where the pointers are.\<close>

definition match_ok :: "cstr \<Rightarrow> cstr \<Rightarrow> match_state \<Rightarrow> bool" where
  "match_ok msk name s \<longleftrightarrow>
     ms_ma s \<le> ms_m s \<and> ms_m s \<le> length msk \<and> ms_na s \<le> ms_n s \<and> ms_n s \<le> length name \<and>
     (\<not> ms_wild s \<longrightarrow> ms_ma s = 0 \<and> ms_na s = 0) \<and>
     (ms_wild s \<longrightarrow> 0 < ms_ma s \<and> msk ! (ms_ma s - 1) = CHR ''*'' \<and>
        (1 < ms_ma s \<longrightarrow> msk ! (ms_ma s - 2) \<noteq> CHR 0x5C) \<and>
        (ms_ma s < length msk \<longrightarrow> msk ! ms_ma s \<noteq> CHR ''*'')) \<and>
     (\<forall>i. ms_ma s \<le> i \<and> i < ms_m s \<and> msk ! i = CHR ''*'' \<longrightarrow> 0 < i \<and> msk ! (i - 1) = CHR 0x5C) \<and>
     (0 < ms_m s \<and> ms_m s < length msk \<and> msk ! (ms_m s - 1) = CHR 0x5C \<longrightarrow>
        \<not> is_escapable (msk ! ms_m s)) \<and>
     ms_n s - ms_na s \<le> ms_m s - ms_ma s \<and> (ms_ma s < ms_m s \<longrightarrow> ms_na s < ms_n s)"

text \<open>What is still to be matched.\<close>

definition match_sem :: "int \<Rightarrow> cstr \<Rightarrow> cstr \<Rightarrow> match_state \<Rightarrow> bool" where
  "match_sem mm msk name s \<longleftrightarrow>
     (glob mm msk name \<longleftrightarrow>
        (if ms_wild s then glob mm (CHR ''*'' # drop (ms_ma s) msk) (drop (ms_na s) name)
         else glob mm (drop (ms_ma s) msk) (drop (ms_na s) name))) \<and>
     (glob mm (drop (ms_m s) msk) (drop (ms_n s) name) \<longrightarrow>
        glob mm (drop (ms_ma s) msk) (drop (ms_na s) name)) \<and>
     (\<forall>zs. glob mm (drop (ms_ma s) msk) zs \<longrightarrow>
        ms_n s - ms_na s \<le> length zs \<and> glob mm (drop (ms_m s) msk) (drop (ms_n s - ms_na s) zs))"

lemma match_init_ok: "match_ok msk name match_init"
  by (simp add: match_ok_def match_init_def)

lemma match_init_sem: "match_sem mm msk name match_init"
  by (simp add: match_sem_def match_init_def)

text \<open>The three moves.\<close>

definition star_move :: "cstr \<Rightarrow> match_state \<Rightarrow> match_state" where
  "star_move msk s =
     (let m = ms_m s + skip_stars (drop (ms_m s) msk)
      in s\<lparr>ms_m := m, ms_wild := True, ms_ma := m, ms_na := ms_n s\<rparr>)"

definition shift_move :: "match_state \<Rightarrow> match_state" where
  "shift_move s = s\<lparr>ms_m := ms_ma s, ms_n := Suc (ms_na s), ms_na := Suc (ms_na s)\<rparr>"

definition token_move :: "cstr \<Rightarrow> match_state \<Rightarrow> match_state" where
  "token_move msk s = s\<lparr>ms_m := ms_m s + tok_len (drop (ms_m s) msk), ms_n := Suc (ms_n s)\<rparr>"

lemma star_not_escapable_pred:
  "match_ok msk name s \<Longrightarrow> ms_m s < length msk \<Longrightarrow> msk ! ms_m s = CHR ''*'' \<Longrightarrow>
    0 < ms_m s \<Longrightarrow> msk ! (ms_m s - 1) \<noteq> CHR 0x5C"
  by (auto simp: match_ok_def is_escapable_def)

lemma star_move_ok:
  assumes ok: "match_ok msk name s" and m: "ms_m s < length msk" "msk ! ms_m s = CHR ''*''"
  shows "match_ok msk name (star_move msk s)"
proof -
  let ?k = "skip_stars (drop (ms_m s) msk)"
  have d: "drop (ms_m s) msk = CHR ''*'' # drop (Suc (ms_m s)) msk"
    using m by (metis Cons_nth_drop_Suc)
  have k: "0 < ?k" "?k \<le> length msk - ms_m s"
    using skip_stars_le [of "drop (ms_m s) msk"] m by (auto simp: d)
  have all: "msk ! (ms_m s + i) = CHR ''*''" if "i < ?k" for i
    using skip_stars_star [OF that] that k m by simp
  have stop: "msk ! (ms_m s + ?k) \<noteq> CHR ''*''" if "ms_m s + ?k < length msk"
    using skip_stars_stop [of "drop (ms_m s) msk"] that by simp
  have last: "msk ! (ms_m s + ?k - 1) = CHR ''*''"
    using all [of "?k - 1"] k by simp
  have before: "msk ! (ms_m s + ?k - 2) \<noteq> CHR 0x5C" if "1 < ms_m s + ?k"
  proof (cases "?k = 1")
    case True
    with that star_not_escapable_pred [OF ok m] show ?thesis by simp
  next
    case False
    with k all [of "?k - 2"] show ?thesis by simp
  qed
  show ?thesis
    using ok k last before stop m unfolding match_ok_def star_move_def Let_def by auto
qed

lemma star_move_sem:
  assumes ok: "match_ok msk name s" and sem: "match_sem mm msk name s"
    and m: "ms_m s < length msk" "msk ! ms_m s = CHR ''*''"
  shows "match_sem mm msk name (star_move msk s)"
proof -
  let ?k = "skip_stars (drop (ms_m s) msk)"
  let ?R = "drop (ms_ma s) msk" and ?na = "ms_na s" and ?n = "ms_n s"
  let ?R' = "drop (ms_m s + ?k) msk"
  have M: "glob mm (drop (ms_m s) msk) ys \<longleftrightarrow> glob mm (CHR ''*'' # ?R') ys" for ys
    using glob_skip_stars [of "drop (ms_m s) msk" mm ys] m
    by (simp add: hd_drop_conv_nth add.commute)
  have le: "?na \<le> ?n" "?n \<le> length name" using ok by (auto simp: match_ok_def)
  have reach: "glob mm (CHR ''*'' # ?R') (drop ?n name)" if "glob mm ?R (drop j name)" "?na \<le> j" for j
  proof -
    have "glob mm (drop (ms_m s) msk) (drop (?n - ?na) (drop j name))"
      using sem that(1) unfolding match_sem_def by blast
    then have "glob mm (CHR ''*'' # ?R') (drop (j - ?na) (drop ?n name))"
      using that(2) le by (simp add: M add.commute)
    then show ?thesis by (rule glob_star_drop)
  qed
  have fwd: "glob mm (CHR ''*'' # ?R') (drop ?n name) \<Longrightarrow> glob mm ?R (drop ?na name)"
    using sem unfolding match_sem_def M by blast
  have "glob mm msk name \<longleftrightarrow> glob mm (CHR ''*'' # ?R') (drop ?n name)"
  proof (cases "ms_wild s")
    case True
    with sem have "glob mm msk name \<longleftrightarrow> (\<exists>j \<le> length (drop ?na name). glob mm ?R (drop j (drop ?na name)))"
      by (simp add: match_sem_def glob_star)
    also have "\<dots> \<longleftrightarrow> glob mm (CHR ''*'' # ?R') (drop ?n name)"
      using reach fwd by (metis drop_drop le_add2 drop_0 zero_le)
    finally show ?thesis .
  next
    case False
    with sem have "glob mm msk name \<longleftrightarrow> glob mm ?R (drop ?na name)" by (simp add: match_sem_def)
    with reach [of ?na] fwd show ?thesis by blast
  qed
  then show ?thesis
    by (simp add: match_sem_def star_move_def Let_def)
qed

lemma shift_move_ok:
  assumes "match_ok msk name s" "ms_wild s" "ms_na s < length name"
  shows "match_ok msk name (shift_move s)"
  using assms by (auto simp: match_ok_def shift_move_def is_escapable_def)

lemma shift_move_sem:
  assumes sem: "match_sem mm msk name s" and "ms_wild s" "ms_na s < length name"
    and fail: "\<not> glob mm (drop (ms_ma s) msk) (drop (ms_na s) name)"
  shows "match_sem mm msk name (shift_move s)"
proof -
  have "drop (ms_na s) name = name ! ms_na s # drop (Suc (ms_na s)) name"
    using assms(3) by (simp add: Cons_nth_drop_Suc)
  then have "glob mm (CHR ''*'' # drop (ms_ma s) msk) (drop (ms_na s) name) \<longleftrightarrow>
      glob mm (CHR ''*'' # drop (ms_ma s) msk) (drop (Suc (ms_na s)) name)"
    using fail by (simp add: glob.simps(2) [of mm "CHR ''*''"])
  with assms show ?thesis by (simp add: match_sem_def shift_move_def)
qed

lemma token_move_ok:
  assumes ok: "match_ok msk name s" and m: "ms_m s < length msk" "msk ! ms_m s \<noteq> CHR ''*''"
    and n: "ms_n s < length name"
  shows "match_ok msk name (token_move msk s)"
proof -
  let ?m = "ms_m s"
  have hd: "hd (drop ?m msk) = msk ! ?m" "tl (drop ?m msk) = drop (Suc ?m) msk"
    using m by (simp_all add: hd_drop_conv_nth tl_drop drop_Suc [symmetric])
  show ?thesis
  proof (cases "tok_len (drop ?m msk) = 2")
    case True
    then have e: "msk ! ?m = CHR 0x5C" "Suc ?m < length msk" "is_escapable (msk ! Suc ?m)"
      by (auto simp: tok_len_def hd hd_drop_conv_nth split: if_splits)
    then have "msk ! Suc ?m \<noteq> CHR 0x5C" by (auto simp: is_escapable_def)
    with ok e m n True show ?thesis
      unfolding match_ok_def token_move_def
      by (auto simp: less_Suc_eq)
  next
    case False
    then have l: "tok_len (drop ?m msk) = 1" by (auto simp: tok_len_def)
    then have "msk ! ?m = CHR 0x5C \<Longrightarrow> Suc ?m < length msk \<Longrightarrow> \<not> is_escapable (msk ! Suc ?m)"
      by (auto simp: tok_len_def hd hd_drop_conv_nth split: if_splits)
    with ok l m n show ?thesis
      unfolding match_ok_def token_move_def
      by (auto simp: less_Suc_eq)
  qed
qed

lemma token_move_sem:
  assumes ok: "match_ok msk name s" and sem: "match_sem mm msk name s"
    and m: "ms_m s < length msk" "msk ! ms_m s \<noteq> CHR ''*''" and n: "ms_n s < length name"
    and acc: "tok_accepts mm (drop (ms_m s) msk) (name ! ms_n s)"
  shows "match_sem mm msk name (token_move msk s)"
proof -
  let ?M = "drop (ms_m s) msk"
  have tok: "glob mm ?M ys \<longleftrightarrow> ys \<noteq> [] \<and> tok_accepts mm ?M (hd ys) \<and> glob mm (drop (tok_len ?M) ?M) (tl ys)" for ys
    using m by (intro glob_token) (auto simp: hd_drop_conv_nth)
  have d: "drop (ms_n s) name = name ! ms_n s # drop (Suc (ms_n s)) name"
    using n by (simp add: Cons_nth_drop_Suc)
  have le: "ms_na s \<le> ms_n s" using ok by (simp add: match_ok_def)
  have "Suc (ms_n s) - ms_na s \<le> length zs \<and>
      glob mm (drop (ms_m s + tok_len ?M) msk) (drop (Suc (ms_n s) - ms_na s) zs)"
    if "glob mm (drop (ms_ma s) msk) zs" for zs
  proof -
    from sem that have z: "ms_n s - ms_na s \<le> length zs" "glob mm ?M (drop (ms_n s - ms_na s) zs)"
      by (auto simp: match_sem_def)
    from z(2) show ?thesis
      unfolding tok using le
      by (auto simp: Suc_diff_le drop_Suc tl_drop add.commute)
  qed
  moreover have "glob mm (drop (ms_m s + tok_len ?M) msk) (drop (Suc (ms_n s)) name) \<Longrightarrow>
      glob mm ?M (drop (ms_n s) name)"
    unfolding tok by (simp add: d acc add.commute)
  ultimately show ?thesis
    using sem by (simp add: match_sem_def token_move_def)
qed

text \<open>
  \<open>for (m--; ...)\<close> skips a run of \<open>?\<close>, \<open>&\<close> and \<open>#\<close> at the end of the mask without looking at the
  name.  \<open>tail_ok\<close>: that run holds no class wildcard (\<open>&\<close>, \<open>#\<close>).
\<close>

definition tail_run :: "cstr \<Rightarrow> cstr" where
  "tail_run msk = takeWhile (\<lambda>c. c \<in> {CHR ''?'', CHR ''&'', CHR ''#''}) (rev msk)"

definition tail_ok :: "cstr \<Rightarrow> bool" where
  "tail_ok msk \<longleftrightarrow> CHR ''&'' \<notin> set (tail_run msk) \<and> CHR ''#'' \<notin> set (tail_run msk)"

lemma scan_back_le: "scan_back msk b \<le> b"
  by (induction b) (auto simp: le_Suc_eq)

lemma scan_back_run:
  "scan_back msk b < i \<Longrightarrow> i \<le> b \<Longrightarrow> char_at msk i \<in> {CHR ''?'', CHR ''&'', CHR ''#''}"
  by (induction b) (auto simp: le_Suc_eq split: if_splits)

lemma takeWhile_prefix_in:
  "i < length xs \<Longrightarrow> (\<And>j. j \<le> i \<Longrightarrow> P (xs ! j)) \<Longrightarrow> xs ! i \<in> set (takeWhile P xs)"
  by (induction xs arbitrary: i) (force simp: nth_Cons split: nat.splits)+

lemma tail_run_mem:
  assumes "i < length msk"
    and "\<And>j. i \<le> j \<Longrightarrow> j < length msk \<Longrightarrow> msk ! j \<in> {CHR ''?'', CHR ''&'', CHR ''#''}"
  shows "msk ! i \<in> set (tail_run msk)"
proof -
  have "rev msk ! (length msk - Suc i) \<in> set (tail_run msk)"
    unfolding tail_run_def
  proof (rule takeWhile_prefix_in)
    fix j assume "j \<le> length msk - Suc i"
    with assms show "rev msk ! j \<in> {CHR ''?'', CHR ''&'', CHR ''#''}"
      by (auto simp: rev_nth)
  qed (use assms in simp)
  with assms show ?thesis by (simp add: rev_nth)
qed

lemma char_rejects_question: "\<not> char_rejects mm (CHR ''?'') False c"
  by (simp add: char_rejects_def)

lemma glob_questions: "glob mm (replicate k (CHR ''?'')) ys \<longleftrightarrow> length ys = k"
proof (induction k arbitrary: ys)
  case (Suc k)
  have "glob mm (replicate (Suc k) (CHR ''?'')) ys \<longleftrightarrow> ys \<noteq> [] \<and> glob mm (replicate k (CHR ''?'')) (tl ys)"
    by (subst glob_token) (auto simp: tok_len_def tok_accepts_def char_rejects_question)
  with Suc.IH show ?case by (cases ys) auto
qed simp

text \<open>The early return in the middle of the loop.\<close>

lemma scan_back_early:
  assumes ok: "match_ok msk name s" and sem: "match_sem mm msk name s" and tail: "tail_ok msk"
    and m: "ms_m s = length msk"
    and b: "b = scan_back msk (ms_m s - 1)" "0 < b" "msk ! b = CHR ''*''" "msk ! (b - 1) \<noteq> CHR 0x5C"
  shows "glob mm msk name"
proof -
  have bl: "b < length msk" using b scan_back_le [of msk "ms_m s - 1"] m by (cases msk) auto
  have run: "msk ! i \<in> {CHR ''?'', CHR ''&'', CHR ''#''}" if "b < i" "i < length msk" for i
    using scan_back_run [of msk "ms_m s - 1" i] that b m by auto
  have q: "msk ! i = CHR ''?''" if "b < i" "i < length msk" for i
  proof -
    have "msk ! i \<in> set (tail_run msk)" using run that by (intro tail_run_mem) auto
    with run [OF that] tail show ?thesis by (auto simp: tail_ok_def)
  qed
  have mab: "b < ms_ma s"
  proof (rule ccontr)
    assume "\<not> b < ms_ma s"
    with ok m bl b(3) have "msk ! (b - 1) = CHR 0x5C" by (auto simp: match_ok_def)
    with b(4) show False by simp
  qed
  then have w: "ms_wild s" using ok by (auto simp: match_ok_def)
  have ma: "ms_ma s = Suc b"
  proof (rule ccontr)
    assume "ms_ma s \<noteq> Suc b"
    with mab ok m have "b < ms_ma s - 1" "ms_ma s - 1 < length msk" by (auto simp: match_ok_def)
    then have "msk ! (ms_ma s - 1) = CHR ''?''" by (rule q)
    with ok w show False by (auto simp: match_ok_def)
  qed
  let ?k = "length msk - Suc b"
  have R: "drop (ms_ma s) msk = replicate ?k (CHR ''?'')"
    using q ma by (intro nth_equalityI) auto
  have "?k = ms_n s - ms_na s"
    using sem m R glob_questions [of mm ?k "replicate ?k (CHR ''a'')"]
    by (auto simp: match_sem_def)
  then have "?k \<le> length (drop (ms_na s) name)"
    using ok by (auto simp: match_ok_def)
  then have "glob mm (CHR ''*'' # drop (ms_ma s) msk) (drop (ms_na s) name)"
    unfolding glob_star R glob_questions
    by (intro exI [of _ "length (drop (ms_na s) name) - ?k"]) auto
  with sem w show ?thesis by (simp add: match_sem_def)
qed

lemma match_compare_eq:
  assumes "no_nul msk" "no_nul name" and m: "ms_m s < length msk" and n: "ms_n s < length name"
  shows "match_compare mm msk name s =
    (if tok_accepts mm (drop (ms_m s) msk) (name ! ms_n s) then Inr (token_move msk s)
     else if ms_wild s then Inr (shift_move s) else Inl (Returns 1))"
proof -
  have q: "char_at msk (ms_m s) = CHR 0x5C \<and> is_escapable (char_at msk (Suc (ms_m s))) \<longleftrightarrow>
      tok_len (drop (ms_m s) msk) = 2"
    using m by (auto simp: tok_len_def hd_drop_conv_nth tl_drop drop_Suc [symmetric] char_at_def is_escapable_def
        simp flip: drop_Suc)
  have nn: "i < length msk \<Longrightarrow> msk ! i \<noteq> NUL" "i < length name \<Longrightarrow> name ! i \<noteq> NUL" for i
    using assms by (metis no_nul_def nth_mem)+
  show ?thesis
  proof (cases "tok_len (drop (ms_m s) msk) = 2")
    case True
    then have "Suc (ms_m s) < length msk"
      using m by (auto simp: tok_len_def tl_drop split: if_splits)
    moreover from this have "hd (tl (drop (ms_m s) msk)) = msk ! Suc (ms_m s)"
      by (simp add: hd_drop_conv_nth tl_drop drop_Suc [symmetric] flip: drop_Suc)
    ultimately show ?thesis
      using True q m n nn
      by (simp add: match_compare_def Let_def tok_accepts_def token_move_def shift_move_def)
  next
    case False
    then have t: "tok_len (drop (ms_m s) msk) = 1" by (simp add: tok_len_def split: if_splits)
    have nq: "(msk ! ms_m s = CHR 0x5C \<and> is_escapable (char_at msk (Suc (ms_m s)))) = False"
      using False q m by simp
    show ?thesis
      using m n nn t
      by (simp add: match_compare_def Let_def tok_accepts_def token_move_def shift_move_def hd_drop_conv_nth nq)
  qed
qed

text \<open>Every iteration consumes this measure.\<close>

definition match_measure :: "cstr \<Rightarrow> cstr \<Rightarrow> match_state \<Rightarrow> nat" where
  "match_measure msk name s =
     (length name - ms_na s) * (length msk + 1) + (length name - ms_n s)"

lemma token_move_measure:
  "ms_n s < length name \<Longrightarrow> match_measure msk name (token_move msk s) < match_measure msk name s"
  by (simp add: match_measure_def token_move_def)

lemma star_move_measure:
  "match_ok msk name s \<Longrightarrow> match_measure msk name (star_move msk s) \<le> match_measure msk name s"
  unfolding match_measure_def star_move_def Let_def
  by (intro add_mono mult_le_mono) (auto simp: match_ok_def)

lemma shift_move_measure:
  assumes ok: "match_ok msk name s" and "ms_na s < length name"
  shows "match_measure msk name (shift_move s) < match_measure msk name s"
proof -
  have "length name - ms_na s = Suc (length name - Suc (ms_na s))" using assms by simp
  moreover have "ms_n s \<le> ms_na s + length msk" "ms_n s \<le> length name" using ok by (auto simp: match_ok_def)
  ultimately show ?thesis by (simp add: match_measure_def shift_move_def)
qed

text \<open>What one iteration establishes.\<close>

definition step_good :: "int \<Rightarrow> cstr \<Rightarrow> cstr \<Rightarrow> nat \<Rightarrow> match_outcome + match_state \<Rightarrow> bool" where
  "step_good mm msk name k r \<longleftrightarrow>
     (case r of
        Inl (Returns v) \<Rightarrow> v = 0 \<and> (tail_ok msk \<longrightarrow> glob mm msk name) \<or> v = 1 \<and> \<not> glob mm msk name
      | Inl OutOfBounds \<Rightarrow> False
      | Inr s \<Rightarrow> match_ok msk name s \<and> match_sem mm msk name s \<and> match_measure msk name s < k)"

lemma match_compare_good:
  assumes nul: "no_nul msk" "no_nul name"
    and ok: "match_ok msk name s" and sem: "match_sem mm msk name s"
    and m: "ms_m s < length msk" "msk ! ms_m s \<noteq> CHR ''*''" and n: "ms_n s < length name"
    and k: "match_measure msk name s \<le> k"
  shows "step_good mm msk name k (match_compare mm msk name s)"
proof (cases "tok_accepts mm (drop (ms_m s) msk) (name ! ms_n s)")
  case True
  with token_move_ok [OF ok m n] token_move_sem [OF ok sem m n] token_move_measure [OF n, of msk] k
  show ?thesis by (simp add: step_good_def match_compare_eq nul m n)
next
  case False
  have na: "ms_na s < length name" using ok n by (auto simp: match_ok_def)
  have "\<not> glob mm (drop (ms_m s) msk) (drop (ms_n s) name)"
    using False m n glob_token [of "drop (ms_m s) msk" mm "drop (ms_n s) name"]
    by (auto simp: hd_drop_conv_nth)
  moreover have "ms_n s - ms_na s \<le> length (drop (ms_na s) name) \<and> drop (ms_n s - ms_na s) (drop (ms_na s) name) = drop (ms_n s) name"
    using ok n by (auto simp: match_ok_def)
  ultimately have fail: "\<not> glob mm (drop (ms_ma s) msk) (drop (ms_na s) name)"
    using sem unfolding match_sem_def by metis
  show ?thesis
  proof (cases "ms_wild s")
    case True
    with False shift_move_ok [OF ok True na] shift_move_sem [OF sem True na fail] shift_move_measure [OF ok na] k
    show ?thesis by (simp add: step_good_def match_compare_eq nul m n)
  next
    case wild: False
    with sem fail have "\<not> glob mm msk name" by (simp add: match_sem_def)
    with False wild show ?thesis by (simp add: step_good_def match_compare_eq nul m n)
  qed
qed

text \<open>The second part of the body, once leading stars are skipped.\<close>

definition match_tail :: "int \<Rightarrow> cstr \<Rightarrow> cstr \<Rightarrow> match_state \<Rightarrow> match_outcome + match_state" where
  "match_tail mm msk name s =
     (if char_at msk (ms_m s) = NUL then
        (if char_at name (ms_n s) = NUL then Inl (Returns 0)
         else
           let b = scan_back msk (ms_m s - 1)
           in if 0 < b \<and> char_at msk b = CHR ''*'' \<and> char_at msk (b - 1) \<noteq> CHR 0x5C
              then Inl (Returns 0)
              else if \<not> ms_wild s then Inl (Returns 1)
              else match_compare mm msk name (shift_move s))
      else if char_at name (ms_n s) = NUL then Inl (Returns 1)
      else match_compare mm msk name s)"

lemma match_step_eq:
  "match_step mm msk name s =
    (if length msk < ms_m s \<or> length name < ms_n s then Inl OutOfBounds
     else match_tail mm msk name
            (if char_at msk (ms_m s) = CHR ''*'' then star_move msk s else s))"
  by (simp add: match_step_def match_tail_def star_move_def shift_move_def Let_def)

lemma match_tail_good:
  assumes nul: "no_nul msk" "no_nul name"
    and ok: "match_ok msk name s" and sem: "match_sem mm msk name s"
    and m: "ms_m s < length msk \<longrightarrow> msk ! ms_m s \<noteq> CHR ''*''" and star: "msk \<noteq> ''*''"
    and k: "match_measure msk name s \<le> k"
  shows "step_good mm msk name k (match_tail mm msk name s)"
proof -
  have le: "ms_m s \<le> length msk" "ms_n s \<le> length name" "ms_na s \<le> ms_n s" "ms_ma s \<le> ms_m s"
    using ok by (auto simp: match_ok_def)
  have nn: "char_at msk (ms_m s) = NUL \<longleftrightarrow> ms_m s = length msk"
    "char_at name (ms_n s) = NUL \<longleftrightarrow> ms_n s = length name"
    using nul le by (auto simp: char_at_NUL_iff)
  have align: "glob mm (drop (ms_ma s) msk) (drop (ms_na s) name) \<longleftrightarrow>
      glob mm (drop (ms_m s) msk) (drop (ms_n s) name)"
    using sem le unfolding match_sem_def by (metis drop_drop le_add_diff_inverse2)
  consider (both) "ms_m s = length msk" "ms_n s = length name"
    | (msk) "ms_m s = length msk" "ms_n s < length name"
    | (name) "ms_m s < length msk" "ms_n s = length name"
    | (none) "ms_m s < length msk" "ms_n s < length name"
    using le by linarith
  then show ?thesis
  proof cases
    case both
    then have "glob mm (drop (ms_ma s) msk) (drop (ms_na s) name)" by (simp add: align)
    moreover from this have "glob mm (CHR ''*'' # drop (ms_ma s) msk) (drop (ms_na s) name)"
      by (auto simp: glob_star intro!: exI [of _ 0])
    ultimately have "glob mm msk name" using sem by (simp add: match_sem_def)
    with both nn show ?thesis by (simp add: match_tail_def step_good_def)
  next
    case msk
    let ?b = "scan_back msk (ms_m s - 1)"
    have bl: "0 < ?b \<Longrightarrow> ?b < length msk"
      using scan_back_le [of msk "ms_m s - 1"] msk by (cases "length msk") auto
    show ?thesis
    proof (cases "0 < ?b \<and> char_at msk ?b = CHR ''*'' \<and> char_at msk (?b - 1) \<noteq> CHR 0x5C")
      case True
      then have "tail_ok msk \<Longrightarrow> glob mm msk name"
        using bl by (intro scan_back_early [OF ok sem _ msk(1) refl]) auto
      with True msk nn show ?thesis by (simp add: match_tail_def step_good_def Let_def)
    next
      case False
      have fail: "\<not> glob mm (drop (ms_ma s) msk) (drop (ms_na s) name)"
        using msk by (simp add: align)
      show ?thesis
      proof (cases "ms_wild s")
        case wild: True
        have "ms_ma s < length msk"
        proof (rule ccontr)
          assume "\<not> ms_ma s < length msk"
          with le msk have ma: "ms_ma s = length msk" by simp
          with ok wild have st: "0 < length msk" "msk ! (length msk - 1) = CHR ''*''"
            "1 < length msk \<Longrightarrow> msk ! (length msk - 2) \<noteq> CHR 0x5C" by (auto simp: match_ok_def)
          then have "?b = length msk - 1"
            using msk by (cases "length msk - 1") auto
          moreover have "length msk \<noteq> 1"
          proof
            assume "length msk = 1"
            with st(2) have "msk = ''*''" by (cases msk) auto
            with star show False by simp
          qed
          moreover from calculation(2) st(1) have "1 < length msk" by linarith
          ultimately show False using False st by (simp add: numeral_2_eq_2)
        qed
        moreover from this ok wild have "msk ! ms_ma s \<noteq> CHR ''*''" by (auto simp: match_ok_def)
        moreover have na: "ms_na s < length name" "Suc (ms_na s) < length name"
          using ok msk calculation(1) by (auto simp: match_ok_def)
        ultimately have "step_good mm msk name k (match_compare mm msk name (shift_move s))"
          using shift_move_ok [OF ok wild na(1)] shift_move_sem [OF sem wild na(1) fail]
            shift_move_measure [OF ok na(1)] k
          by (intro match_compare_good [OF nul]) (auto simp: shift_move_def)
        with wild msk nn show ?thesis
          unfolding match_tail_def Let_def if_not_P [OF False] by simp
      next
        case wild: False
        with sem fail have "\<not> glob mm msk name" by (simp add: match_sem_def)
        with wild msk nn show ?thesis
          unfolding match_tail_def Let_def if_not_P [OF False] by (simp add: step_good_def)
      qed
    qed
  next
    case name
    let ?M = "drop (ms_m s) msk"
    have M: "\<not> glob mm ?M []"
      using name m glob_token [of ?M mm "[]"] by (auto simp: hd_drop_conv_nth)
    have "\<not> glob mm (drop (ms_ma s) msk) (drop j (drop (ms_na s) name))" for j
    proof
      assume g: "glob mm (drop (ms_ma s) msk) (drop j (drop (ms_na s) name))"
      from sem have "\<forall>zs. glob mm (drop (ms_ma s) msk) zs \<longrightarrow> glob mm ?M (drop (ms_n s - ms_na s) zs)"
        unfolding match_sem_def by blast
      with g have "glob mm ?M (drop (ms_n s - ms_na s) (drop j (drop (ms_na s) name)))" by blast
      moreover have "drop (ms_n s - ms_na s) (drop j (drop (ms_na s) name)) = []"
        using name le by simp
      ultimately show False using M by simp
    qed
    then have "\<not> glob mm msk name"
      using sem by (metis (no_types, lifting) drop_0 glob_star match_sem_def)
    with name nn show ?thesis by (simp add: match_tail_def step_good_def)
  next
    case none
    with match_compare_good [OF nul ok sem _ _ _ k] m nn show ?thesis
      by (simp add: match_tail_def)
  qed
qed

lemma match_step_good:
  assumes nul: "no_nul msk" "no_nul name"
    and ok: "match_ok msk name s" and sem: "match_sem mm msk name s" and star: "msk \<noteq> ''*''"
  shows "step_good mm msk name (match_measure msk name s) (match_step mm msk name s)"
proof -
  have le: "ms_m s \<le> length msk" "ms_n s \<le> length name"
    using ok by (auto simp: match_ok_def)
  show ?thesis
  proof (cases "ms_m s < length msk \<and> msk ! ms_m s = CHR ''*''")
    case True
    then have t: "ms_m s < length msk" "msk ! ms_m s = CHR ''*''" by auto
    have ok': "match_ok msk name (star_move msk s)" by (rule star_move_ok [OF ok t])
    then have "ms_m (star_move msk s) < length msk \<longrightarrow> msk ! ms_m (star_move msk s) \<noteq> CHR ''*''"
      by (auto simp: match_ok_def star_move_def Let_def)
    from match_tail_good [OF nul ok' star_move_sem [OF ok sem t] this star star_move_measure [OF ok]]
    show ?thesis using t le by (simp add: match_step_eq)
  next
    case False
    then have "char_at msk (ms_m s) \<noteq> CHR ''*''" by (auto simp: char_at_def)
    moreover from False have "ms_m s < length msk \<longrightarrow> msk ! ms_m s \<noteq> CHR ''*''" by blast
    from match_tail_good [OF nul ok sem this star order_refl]
    have "step_good mm msk name (match_measure msk name s) (match_tail mm msk name s)" .
    ultimately show ?thesis using le by (simp add: match_step_eq)
  qed
qed

lemma match_loop_good:
  assumes "no_nul msk" "no_nul name" and "msk \<noteq> ''*''"
    and "match_ok msk name s" "match_sem mm msk name s"
  shows "\<exists>r. match_loop mm msk name k s = Returns r \<and>
    (r = 0 \<and> (tail_ok msk \<longrightarrow> glob mm msk name) \<or>
     r = 1 \<and> (match_measure msk name s < k \<longrightarrow> \<not> glob mm msk name))"
  using assms(4,5)
proof (induction k arbitrary: s)
  case 0
  then show ?case by simp
next
  case (Suc k)
  note g = match_step_good [OF assms(1,2) Suc.prems assms(3)]
  show ?case
  proof (cases "match_step mm msk name s")
    case (Inl r)
    with g show ?thesis by (cases r) (auto simp: step_good_def)
  next
    case (Inr s')
    with g have "match_ok msk name s'" "match_sem mm msk name s'"
      "match_measure msk name s' < match_measure msk name s"
      by (auto simp: step_good_def)
    with Suc.IH [of s'] Inr show ?thesis by auto
  qed
qed


lemma match_returns:
  assumes "no_nul msk" "no_nul name"
  shows "\<exists>r. match_outcome mm (Some msk) (Some name) = Returns r \<and>
    (r = 0 \<and> (tail_ok msk \<longrightarrow> glob mm msk name) \<or>
     r = 1 \<and> (length name * (length msk + 2) \<le> MAX_ITERATIONS \<longrightarrow> \<not> glob mm msk name))"
proof (cases "msk = ''*''")
  case True
  then show ?thesis by (auto simp: match_outcome_def glob_star intro!: exI [of _ "length name"])
next
  case False
  have ns: "\<not> (char_at msk 0 = CHR ''*'' \<and> char_at msk 1 = NUL)"
  proof
    assume a: "char_at msk 0 = CHR ''*'' \<and> char_at msk 1 = NUL"
    then have "length msk \<le> 1" using assms(1) by (simp add: char_at_NUL_iff)
    with a have "msk = ''*''" by (cases msk) auto
    with False show False by simp
  qed
  have out: "match_outcome mm (Some msk) (Some name) =
      match_loop mm msk name (MAX_ITERATIONS + 1) match_init"
    by (simp only: match_outcome_def prod.case option.case if_not_P [OF ns])
  have m: "match_measure msk name match_init = length name * (length msk + 2)"
    by (simp add: match_measure_def match_init_def algebra_simps)
  show ?thesis
    unfolding out
    using match_loop_good [OF assms False match_init_ok match_init_sem,
        where k = "MAX_ITERATIONS + 1" and mm = mm, unfolded m]
    by (simp add: less_Suc_eq_le del: match_loop.simps)
qed

section \<open>Properties of the matcher\<close>

text \<open>
  C8: on NUL-terminated strings \<open>match()\<close> never dereferences a pointer past a terminator, whatever
  the mask, and its result is 0 or 1.
\<close>

theorem match_no_fault:
  assumes "no_nul msk" and "no_nul name"
  shows "match_outcome mm (Some msk) (Some name) \<noteq> OutOfBounds \<and>
    match mm (Some msk) (Some name) \<in> {0, 1}"
  using match_returns [OF assms, of mm] by (auto simp: match_def)

theorem match_no_fault_witness:
  "match_outcome 0 (Some ''a*b'') (Some ''axxb'') \<noteq> OutOfBounds \<and>
    match 0 (Some ''a*b'') (Some ''axxb'') \<in> {0, 1}"
  by (rule match_no_fault) (simp_all add: no_nul_def)



text \<open>
  C6: the converse within the iteration bound: a name of the language of the mask is matched when
  \<open>strlen(name) * (strlen(mask) + 2)\<close> does not exceed \<open>MAX_ITERATIONS\<close>, for every mask.
\<close>

theorem match_complete:
  assumes "no_nul msk" "no_nul name" and "length name * (length msk + 2) \<le> MAX_ITERATIONS"
    and "glob mm msk name"
  shows "match mm (Some msk) (Some name) = 0"
  using match_returns [OF assms(1,2), of mm] assms(3,4) by (auto simp: match_def)

theorem match_complete_witness: "match 0 (Some ''a*#'') (Some ''abc1'') = 0"
  by (rule match_complete) (code_simp)+

text \<open>
  The scan back over a trailing run of wildcards accepts a name whose last character is not in
  the class: \<open>x*#\<close> matches \<open>x1a\<close>, which is not in its language, while \<open>*#\<close> does not match \<open>1a\<close>.
\<close>

theorem match_trailing_class:
  "match MATCH_RFC1459 (Some ''x*#'') (Some ''x1a'') = 0 \<and> \<not> glob MATCH_RFC1459 ''x*#'' ''x1a'' \<and>
   match MATCH_RFC1459 (Some ''*#'') (Some ''1a'') = 1"
  by code_simp


section \<open>Comparison and canonicalisation agree\<close>

lemma ToUpper_NUL_iff: "ToUpper mm c = NUL \<longleftrightarrow> c = NUL"
proof -
  have "ToUpperTab ! n = 0 \<longleftrightarrow> n = 0" if "n < 256" for n
    using that by (auto simp: ToUpperTab_def nth_append simp del: upt_rec_numeral)
  moreover have "ToUpperTab ! n < 256" if "n < 256" for n
    using that by (auto simp: ToUpperTab_def nth_append simp del: upt_rec_numeral)
  moreover have "c_toupper c = NUL \<longleftrightarrow> c = NUL"
    by (auto simp: c_toupper_def is_lower_def of_char_of dest!: arg_cong [of _ NUL "of_char :: char \<Rightarrow> nat"])
  moreover have "char_of (ToUpperTab ! of_char c) = NUL \<longleftrightarrow> (ToUpperTab ! of_char c) mod 256 = 0"
    by (metis of_char_eq_0_iff of_char_of)
  ultimately show ?thesis by (simp add: ToUpper_def)
qed

lemma ToUpper_NUL [simp]: "ToUpper mm NUL = NUL"
  by (simp add: ToUpper_NUL_iff)

lemma ToUpper_eq_NUL: "NUL = ToUpper mm c \<longleftrightarrow> c = NUL"
  by (metis ToUpper_NUL_iff)

lemma irccasecmp_loop_0:
  "no_nul s \<Longrightarrow> no_nul t \<Longrightarrow> irccasecmp_loop mm s t = 0 \<longleftrightarrow> map (ToUpper mm) s = map (ToUpper mm) t"
proof (induction s arbitrary: t)
  case Nil
  then show ?case
    by (cases t) (auto simp: irccasecmp_loop.simps [of mm "[]"] ToUpper_eq_NUL ToUpper_NUL_iff)
next
  case (Cons c s)
  show ?case
  proof (cases t)
    case Nil
    have "ToUpper mm c \<noteq> ToUpper mm NUL"
      using Cons.prems by (metis ToUpper_NUL_iff no_nul_Cons)
    with Nil show ?thesis by (simp add: irccasecmp_loop.simps [of mm "c # s"])
  next
    case (Cons d t')
    with Cons.prems Cons.IH [of t'] show ?thesis
      by (simp add: irccasecmp_loop.simps [of mm "c # s"])
  qed
qed

lemma c_toupper_eq_iff: "c_toupper c = c_toupper d \<longleftrightarrow> c_tolower c = c_tolower d"
proof -
  have "(of_char (c_toupper c) :: nat) = of_char (c_toupper d) \<longleftrightarrow>
      (of_char (c_tolower c) :: nat) = of_char (c_tolower d)"
    by (auto simp: c_toupper_def c_tolower_def is_lower_def is_upper_def of_char_of simp del: of_char_eq_iff)
  then show ?thesis by simp
qed

lemma map_toupper_eq_iff: "map c_toupper s = map c_toupper t \<longleftrightarrow> map c_tolower s = map c_tolower t"
proof (induction s arbitrary: t)
  case (Cons c s)
  then show ?case by (cases t) (auto simp: c_toupper_eq_iff)
qed simp

lemma strcaseeq_canon: "strcaseeq s t \<longleftrightarrow> strcasecanon s = strcasecanon t"
  by (simp add: strcaseeq_def strcasecanon_def map_toupper_eq_iff)

lemma irccasecmp_0_iff:
  assumes "no_nul s" and "no_nul t"
  shows "irccasecmp mm (Some s) (Some t) = 0 \<longleftrightarrow> irccasecanon mm s = irccasecanon mm t"
proof (cases "mm = MATCH_ASCII")
  case True
  then have "ToUpper mm = c_toupper" by (auto simp: ToUpper_def)
  with True assms show ?thesis
    by (simp add: irccasecmp_def irccasecanon_def strcasecmp_0_iff strcaseeq_def map_toupper_eq_iff)
next
  case False
  with assms show ?thesis by (simp add: irccasecmp_def irccasecanon_def irccasecmp_loop_0)
qed

text \<open>
  The comparison used on lists and the canonicaliser used by the dictionaries identify the same
  names, under either case mapping: \<open>irccasecmp(s, t) == 0\<close> exactly when \<open>irccasecanon\<close> makes \<open>s\<close>
  and \<open>t\<close> equal.
\<close>

theorem irccasecmp_canon:
  assumes "no_nul s" and "no_nul t"
  shows "irccasecmp mm (Some s) (Some t) = 0 \<longleftrightarrow> irccasecanon mm s = irccasecanon mm t"
  using assms by (rule irccasecmp_0_iff)

theorem irccasecmp_canon_witness:
  "irccasecmp MATCH_RFC1459 (Some ''Nick[x]'') (Some ''nICK{X}'') = 0 \<longleftrightarrow>
    irccasecanon MATCH_RFC1459 ''Nick[x]'' = irccasecanon MATCH_RFC1459 ''nICK{X}''"
  by (rule irccasecmp_canon) (simp_all add: no_nul_def)

end
