(* ===== verification/Cidr.thy ===== *)
theory Cidr
  imports Match
begin

text \<open>
  \<open>libathemecore/cidr.c\<close>: the address parsers \<open>inet_pton4\<close> and \<open>inet_pton6\<close>, the prefix
  comparison \<open>comp_with_mask\<close> and the CIDR matchers used for akills, access lists and exemptions.
  Addresses are lists of bytes in network order.
\<close>

definition INADDRSZ :: nat where "INADDRSZ = 4"
definition IN6ADDRSZ :: nat where "IN6ADDRSZ = 16"
definition INT16SZ :: nat where "INT16SZ = 2"

section \<open>Prefix comparison\<close>

text \<open>
  \<open>memcmp\<close> over \<open>mask / 8\<close> bytes, then the partial byte under \<open>(-1) << (8 - mask % 8)\<close>.  \<open>None\<close>: the
  code would read beyond the address.
\<close>

definition comp_with_mask :: "u8 list \<Rightarrow> u8 list \<Rightarrow> nat \<Rightarrow> bool option" where
  "comp_with_mask addr dest bits =
     (let n = bits div 8; m = push_bit (8 - bits mod 8) (-1 :: u8)
      in if length addr < n \<or> length dest < n then None
         else if take n addr = take n dest then
           (if bits mod 8 = 0 then Some True
            else if length addr \<le> n \<or> length dest \<le> n then None
            else Some (addr ! n AND m = dest ! n AND m))
         else Some False)"

section \<open>Dotted quads\<close>

text \<open>\<open>done\<close> are the octets before \<open>*tp\<close>, \<open>cur\<close> is \<open>*tp\<close>.\<close>

fun pton4_loop :: "cstr \<Rightarrow> bool \<Rightarrow> nat \<Rightarrow> nat list \<Rightarrow> nat \<Rightarrow> u8 list option" where
  "pton4_loop [] saw_digit octets tmp cur =
     (if octets < 4 then None else Some (map of_nat (tmp @ [cur])))"
| "pton4_loop (ch # src) saw_digit octets tmp cur =
     (if is_digit ch then
        (let new = cur * 10 + digit_value ch
         in if 255 < new then None
            else if \<not> saw_digit then
              (if 4 < octets + 1 then None else pton4_loop src True (octets + 1) tmp new)
            else pton4_loop src saw_digit octets tmp new)
      else if ch = CHR ''.'' \<and> saw_digit then
        (if octets = 4 then None else pton4_loop src False octets (tmp @ [cur]) 0)
      else None)"

definition inet_pton4 :: "cstr \<Rightarrow> u8 list option" where
  "inet_pton4 src = pton4_loop src False 0 [] 0"

section \<open>IPv6 addresses\<close>

definition xdigit_value :: "char \<Rightarrow> nat option" where
  "xdigit_value c =
     (if is_digit c then Some (digit_value c)
      else if 97 \<le> (of_char c :: nat) \<and> (of_char c :: nat) \<le> 102 then Some (of_char c - 87)
      else None)"

definition be16 :: "nat \<Rightarrow> u8 list" where
  "be16 val = [of_nat (val div 256), of_nat val]"

text \<open>
  The loop: \<open>tmp\<close> are the bytes written so far (\<open>tp\<close> points behind them), \<open>colonp\<close> the offset of
  \<open>::\<close>, \<open>val\<close> the group read so far.  The result is what the code after the loop starts from.
\<close>

fun pton6_loop ::
    "cstr \<Rightarrow> cstr \<Rightarrow> bool \<Rightarrow> nat \<Rightarrow> u8 list \<Rightarrow> nat option \<Rightarrow> (bool \<times> nat \<times> u8 list \<times> nat option) option" where
  "pton6_loop [] curtok saw val tmp colonp = Some (saw, val, tmp, colonp)"
| "pton6_loop (c # src) curtok saw val tmp colonp =
     (let ch = c_tolower c
      in case xdigit_value ch of
           Some d \<Rightarrow>
             (let v = val * 16 + d
              in if 0xffff < v then None else pton6_loop src curtok True v tmp colonp)
         | None \<Rightarrow>
             if ch = CHR '':'' then
               (if \<not> saw then
                  (if colonp \<noteq> None then None
                   else pton6_loop src src saw val tmp (Some (length tmp)))
                else if src = [] then None
                else if IN6ADDRSZ < length tmp + INT16SZ then None
                else pton6_loop src src False 0 (tmp @ be16 val) colonp)
             else if src \<noteq> [] \<and> ch = CHR ''.'' \<and> length tmp + INADDRSZ \<le> IN6ADDRSZ then
               (case inet_pton4 curtok of
                  None \<Rightarrow> None
                | Some quad \<Rightarrow> Some (False, val, tmp @ quad, colonp))
             else None)"

text \<open>\<open>for (i = 1; i <= n; i++) { endp[-i] = colonp[n - i]; colonp[n - i] = 0; }\<close>, here from \<open>i\<close> on.\<close>

fun shift6 :: "nat \<Rightarrow> nat \<Rightarrow> nat \<Rightarrow> u8 list \<Rightarrow> u8 list" where
  "shift6 0 c n buf = buf"
| "shift6 (Suc k) c n buf =
     (let i = n - k
      in shift6 k c n ((buf[IN6ADDRSZ - i := buf ! (c + (n - i))])[c + (n - i) := 0]))"

definition inet_pton6 :: "cstr \<Rightarrow> u8 list option" where
  "inet_pton6 src0 =
     (if char_at src0 0 = CHR '':'' \<and> char_at src0 1 \<noteq> CHR '':'' then None
      else
        let src = (if char_at src0 0 = CHR '':'' then tl src0 else src0)
        in case pton6_loop src src False 0 [] None of
             None \<Rightarrow> None
           | Some (saw, val, tmp, colonp) \<Rightarrow>
               if saw \<and> IN6ADDRSZ < length tmp + INT16SZ then None
               else
                 let tmp1 = (if saw then tmp @ be16 val else tmp)
                 in case colonp of
                      None \<Rightarrow> (if length tmp1 = IN6ADDRSZ then Some tmp1 else None)
                    | Some c \<Rightarrow>
                        let n = length tmp1 - c
                        in if length tmp1 = IN6ADDRSZ then None
                           else Some (shift6 n c n (tmp1 @ replicate (IN6ADDRSZ - length tmp1) 0)))"

section \<open>Matchers\<close>

text \<open>
  The common part of \<open>match_ips\<close> and \<open>match_cidr\<close> once the strings are split: the value of
  \<open>!comp_with_mask(ipaddr, maskaddr, cidrlen)\<close>, or the early \<open>return 1\<close>.  \<open>cidrlen\<close> is a signed
  \<open>int\<close> that becomes the \<open>unsigned int\<close> parameter of \<open>comp_with_mask\<close>.
\<close>

definition compare_addrs :: "nat option \<Rightarrow> u8 list option \<Rightarrow> u8 list option \<Rightarrow> int \<Rightarrow> match_outcome" where
  "compare_addrs toolong ipaddr maskaddr cidrlen =
     (case toolong of
        Some limit \<Rightarrow>
          if int limit < cidrlen then Returns 1
          else (case (ipaddr, maskaddr) of
                  (Some a, Some b) \<Rightarrow>
                    (case comp_with_mask a b (nat (cidrlen mod 2 ^ 32)) of
                       None \<Rightarrow> OutOfBounds
                     | Some eq \<Rightarrow> Returns (if eq then 0 else 1))
                | _ \<Rightarrow> Returns 1)
      | None \<Rightarrow> Returns 1)"

definition cidr_compare :: "cstr \<Rightarrow> cstr \<Rightarrow> int \<Rightarrow> match_outcome" where
  "cidr_compare ip ipmask cidrlen =
     (if CHR '':'' \<in> set ip \<and> CHR '':'' \<in> set ipmask then
        compare_addrs (Some 128) (inet_pton6 ip) (inet_pton6 ipmask) cidrlen
      else if CHR '':'' \<notin> set ip \<and> CHR '':'' \<notin> set ipmask then
        compare_addrs (Some 32) (inet_pton4 ip) (inet_pton4 ipmask) cidrlen
      else Returns 1)"

definition match_ips :: "cstr option \<Rightarrow> cstr option \<Rightarrow> match_outcome" where
  "match_ips s1 s2 =
     (case (s1, s2) of
        (Some m, Some a) \<Rightarrow>
          let ipmask = strlcpy m BUFSIZE; ip = strlcpy a (HOSTLEN + 1)
          in (case strrchr ipmask (CHR ''/'') of
                None \<Rightarrow> Returns 1
              | Some i \<Rightarrow>
                  let cidrlen = atoi (drop (Suc i) ipmask)
                  in if cidrlen = 0 then Returns 1 else cidr_compare ip (take i ipmask) cidrlen)
      | _ \<Rightarrow> Returns 1)"

definition match_cidr :: "int \<Rightarrow> cstr option \<Rightarrow> cstr option \<Rightarrow> match_outcome" where
  "match_cidr mm s1 s2 =
     (case (s1, s2) of
        (Some m, Some a) \<Rightarrow>
          let msk = strlcpy m BUFSIZE; address = strlcpy a (NICKLEN + USERLEN + HOSTLEN + 6)
          in (case (strrchr msk (CHR ''@''), strrchr address (CHR ''@'')) of
                (Some i, Some j) \<Rightarrow>
                  let ipmask = drop (Suc i) msk; ip = drop (Suc j) address
                  in (case strrchr ipmask (CHR ''/'') of
                        None \<Rightarrow> Returns 1
                      | Some k \<Rightarrow>
                          let cidrlen = atoi (drop (Suc k) ipmask)
                          in if cidrlen = 0 then Returns 1
                             else (case cidr_compare ip (take k ipmask) cidrlen of
                                     OutOfBounds \<Rightarrow> OutOfBounds
                                   | Returns r \<Rightarrow>
                                       Returns (if r \<noteq> 0 \<or> match mm (Some (take i msk)) (Some (take j address)) \<noteq> 0
                                                then 1 else 0)))
              | _ \<Rightarrow> Returns 1)
      | _ \<Rightarrow> Returns 1)"

definition valid_ip_or_mask :: "cstr \<Rightarrow> bool" where
  "valid_ip_or_mask src =
     (if HOSTLEN + 6 \<le> length src then False
      else
        let is_ipv6 = (CHR '':'' \<in> set src)
        in case strchr src (CHR ''/'') of
             None \<Rightarrow> (if is_ipv6 then inet_pton6 src \<noteq> None else inet_pton4 src \<noteq> None)
           | Some i \<Rightarrow>
               let len = drop (Suc i) src; ipaddr = take i src
               in if \<not> (\<forall>c \<in> set len. is_digit c) \<or> len = [] then False
                  else if (if is_ipv6 then 128 else 32) < digits_value 0 len then False
                  else (if is_ipv6 then inet_pton6 ipaddr \<noteq> None else inet_pton4 ipaddr \<noteq> None))"

section \<open>Prefixes of bit strings\<close>

text \<open>An address as the bit string that a prefix length counts, most significant bit first.\<close>

definition byte_bits :: "u8 \<Rightarrow> bool list" where
  "byte_bits b = map (\<lambda>i. bit b (7 - i)) [0..<8]"

definition addr_bits :: "u8 list \<Rightarrow> bool list" where
  "addr_bits a = concat (map byte_bits a)"

lemma length_byte_bits [simp]: "length (byte_bits b) = 8"
  by (simp add: byte_bits_def)

lemma addr_bits_Nil [simp]: "addr_bits [] = []"
  by (simp add: addr_bits_def)

lemma addr_bits_Cons [simp]: "addr_bits (b # a) = byte_bits b @ addr_bits a"
  by (simp add: addr_bits_def)

lemma length_addr_bits [simp]: "length (addr_bits a) = 8 * length a"
  by (induction a) auto

lemma take_byte_bits_eq:
  assumes "r \<le> 8"
  shows "take r (byte_bits x) = take r (byte_bits y) \<longleftrightarrow> (\<forall>i. 8 - r \<le> i \<and> i < 8 \<longrightarrow> bit x i = bit y i)"
proof -
  have "take r (byte_bits x) = take r (byte_bits y) \<longleftrightarrow> (\<forall>j < r. bit x (7 - j) = bit y (7 - j))"
    using assms by (simp add: list_eq_iff_nth_eq byte_bits_def del: upt_rec_numeral)
  also have "\<dots> \<longleftrightarrow> (\<forall>i. 8 - r \<le> i \<and> i < 8 \<longrightarrow> bit x i = bit y i)" (is "?l \<longleftrightarrow> ?r")
  proof
    assume l: ?l
    show ?r
    proof (intro allI impI)
      fix i assume "8 - r \<le> i \<and> i < 8"
      then have "7 - i < r" "7 - (7 - i) = i" using assms by auto
      with l [rule_format, of "7 - i"] show "bit x i = bit y i" by simp
    qed
  next
    assume r: ?r
    show ?l
    proof (intro allI impI)
      fix j assume "j < r"
      with assms have "8 - r \<le> 7 - j \<and> 7 - j < 8" by auto
      with r show "bit x (7 - j) = bit y (7 - j)" by blast
    qed
  qed
  finally show ?thesis .
qed

lemma byte_bits_inject [simp]: "byte_bits x = byte_bits y \<longleftrightarrow> x = y"
  using take_byte_bits_eq [of 8 x y] by (auto simp: bit_eq_iff)

lemma addr_bits_inject: "length a = length b \<Longrightarrow> addr_bits a = addr_bits b \<longleftrightarrow> a = b"
  by (induction a b rule: list_induct2) auto

lemma take_addr_bits:
  "n < length a \<Longrightarrow> r \<le> 8 \<Longrightarrow>
    take (8 * n + r) (addr_bits a) = addr_bits (take n a) @ take r (byte_bits (a ! n))"
proof (induction n arbitrary: a)
  case 0
  then show ?case by (cases a) auto
next
  case (Suc n)
  then show ?case by (cases a) auto
qed

lemma take_addr_bits_0: "take (8 * n) (addr_bits a) = addr_bits (take n a)"
proof (induction n arbitrary: a)
  case (Suc n)
  then show ?case by (cases a) auto
qed simp

lemma bit_high_mask: "i < 8 \<Longrightarrow> bit (NOT (Bit_Operations.mask m) :: u8) i \<longleftrightarrow> m \<le> i"
  by (auto simp: bit_not_iff bit_mask_iff)

lemma partial_byte_eq:
  assumes "r \<le> 8"
  shows "x AND NOT (Bit_Operations.mask (8 - r)) = y AND NOT (Bit_Operations.mask (8 - r)) \<longleftrightarrow>
    take r (byte_bits x) = take r (byte_bits (y :: u8))"
proof -
  have "x AND NOT (Bit_Operations.mask (8 - r)) = y AND NOT (Bit_Operations.mask (8 - r)) \<longleftrightarrow>
      (\<forall>i < 8. (bit x i \<and> 8 - r \<le> i) = (bit y i \<and> 8 - r \<le> i))"
    unfolding bit_eq_iff by (auto simp: bit_and_iff bit_high_mask)
  then show ?thesis
    unfolding take_byte_bits_eq [OF assms] by blast
qed

lemma comp_with_mask_bits:
  assumes "length a = length b" and "k \<le> 8 * length a"
  shows "comp_with_mask a b k = Some (take k (addr_bits a) = take k (addr_bits b))"
proof -
  let ?n = "k div 8" and ?r = "k mod 8"
  have k: "k = 8 * ?n + ?r" by simp
  have le: "?n \<le> length a" "?n \<le> length b" using assms by auto
  have l: "length (addr_bits (take ?n a)) = length (addr_bits (take ?n b))" using assms by simp
  show ?thesis
  proof (cases "?r = 0")
    case True
    then have "take k (addr_bits c) = addr_bits (take ?n c)" for c
      using k take_addr_bits_0 [of ?n c] by simp
    with True le assms show ?thesis
      by (simp add: comp_with_mask_def Let_def addr_bits_inject)
  next
    case False
    then have "8 * ?n < 8 * length a" using assms k by linarith
    then have n: "?n < length a" "?n < length b" using assms(1) by auto
    have t: "take k (addr_bits c) = addr_bits (take ?n c) @ take ?r (byte_bits (c ! ?n))"
      if "?n < length c" for c
      using take_addr_bits [OF that, of ?r] k by simp
    from False n l assms show ?thesis
      unfolding t [OF n(1)] t [OF n(2)]
      by (simp add: comp_with_mask_def Let_def addr_bits_inject partial_byte_eq)
  qed
qed

text \<open>
  For two addresses of the same size and any prefix length up to their number of bits,
  \<open>comp_with_mask\<close> stays inside the arrays and decides whether the first \<open>mask\<close> bits agree.
\<close>

theorem comp_with_mask_prefix:
  assumes "length a = length b" and "k \<le> 8 * length a"
  shows "comp_with_mask a b k = Some (take k (addr_bits a) = take k (addr_bits b))"
  using assms by (rule comp_with_mask_bits)

theorem comp_with_mask_prefix_witness:
  "comp_with_mask [10, 1, 0, 0] [10, 2, 0, 1] 12 =
    Some (take 12 (addr_bits [10, 1, 0, 0]) = take 12 (addr_bits [10, 2, 0, 1]))"
  by (rule comp_with_mask_prefix) simp_all


section \<open>Dotted quads\<close>

definition show_quad :: "u8 \<Rightarrow> u8 \<Rightarrow> u8 \<Rightarrow> u8 \<Rightarrow> cstr" where
  "show_quad a b c d =
     show_nat (unat a) @ ''.'' @ show_nat (unat b) @ ''.'' @ show_nat (unat c) @ ''.'' @ show_nat (unat d)"

lemma pton4_digits:
  assumes "\<forall>c \<in> set s. is_digit c" and "digits_value cur s \<le> 255"
  shows "pton4_loop (s @ t) True octets tmp cur = pton4_loop t True octets tmp (digits_value cur s)"
  using assms
proof (induction s arbitrary: cur)
  case (Cons c s)
  have "cur \<le> digits_value cur s" for cur s
    by (induction cur s rule: digits_value.induct) auto
  then have "cur * 10 + digit_value c \<le> 255"
    using Cons.prems by (auto intro: order_trans)
  with Cons show ?case by (simp add: Let_def)
qed simp

lemma pton4_number:
  assumes "n \<le> 255" and "octets < 4"
  shows "pton4_loop (show_nat n @ t) False octets tmp 0 = pton4_loop t True (Suc octets) tmp n"
proof -
  obtain c s where cs: "show_nat n = c # s" by (cases "show_nat n") auto
  have d: "is_digit c" "\<forall>c \<in> set s. is_digit c" using show_nat_digits [of n] cs by auto
  have v: "digits_value (digit_value c) s = n" using digits_value_show_nat [of n] d by (simp add: cs)
  moreover have "digit_value c \<le> 255" using nat_of_char_less_256 [of c] unfolding digit_value_def by linarith
  ultimately show ?thesis
    using assms d pton4_digits [of s "digit_value c" t "Suc octets" tmp]
    by (simp add: cs Let_def)
qed

lemma unat_u8_le [simp]: "unat (x :: u8) \<le> 255"
  using unsigned_less [of x, where ?'a = nat] by simp

lemma pton4_dot:
  "octets < 4 \<Longrightarrow> pton4_loop (CHR ''.'' # t) True octets tmp cur = pton4_loop t False octets (tmp @ [cur]) 0"
  by (simp add: is_digit_def)

lemma inet_pton4_show_quad: "inet_pton4 (show_quad a b c d) = Some [a, b, c, d]"
  using pton4_number [of "unat d" 3 "[]" "[unat a, unat b, unat c]"]
  by (simp add: inet_pton4_def show_quad_def pton4_number pton4_dot del: pton4_loop.simps)
    (simp add: numeral_eq_Suc)

text \<open>
  Parsing a printed dotted quad gives back its four octets.
\<close>

theorem inet_pton4_roundtrip: "inet_pton4 (show_quad a b c d) = Some [a, b, c, d]"
  by (rule inet_pton4_show_quad)

lemma pton4_loop_length:
  "pton4_loop src saw octets tmp cur = Some q \<Longrightarrow> length tmp + (if saw then 1 else 0) = octets \<Longrightarrow>
    octets < 4 \<or> saw \<and> octets \<le> 4 \<Longrightarrow> length q = 4"
  by (induction src saw octets tmp cur rule: pton4_loop.induct)
    (auto simp: Let_def split: if_splits)

section \<open>IPv6 addresses\<close>

lemma shift6_step:
  assumes "length P = c" "length X = k" "c + Suc k + Suc z + length Y = 16" "length Y = n - Suc k" "Suc k \<le> n"
  shows "((P @ (X @ [x]) @ replicate (Suc z) 0 @ Y)
           [IN6ADDRSZ - (n - k) := (P @ (X @ [x]) @ replicate (Suc z) 0 @ Y) ! (c + k)])[c + k := 0]
         = P @ X @ replicate (Suc z) (0 :: u8) @ (x # Y)"
proof -
  let ?A = "P @ X @ x # replicate z 0" and ?B = "P @ X"
  have i: "IN6ADDRSZ - (n - k) = length ?A" "c + k = length ?B"
    using assms unfolding IN6ADDRSZ_def by auto
  have L: "P @ (X @ [x]) @ replicate (Suc z) 0 @ Y = ?A @ 0 # Y"
    by (simp add: replicate_app_Cons_same)
  have n: "(?A @ 0 # Y) ! length ?B = x" by (simp add: nth_append)
  have A: "?A @ x # Y = ?B @ x # (replicate z 0 @ x # Y)" by simp
  show ?thesis
    unfolding i L n list_update_length A by (simp add: replicate_app_Cons_same)
qed

lemma shift6_eq:
  "length P = c \<Longrightarrow> length X = k \<Longrightarrow> length Y = n - k \<Longrightarrow> k \<le> n \<Longrightarrow> c + n + Suc z = 16 \<Longrightarrow>
    shift6 k c n (P @ X @ replicate (Suc z) 0 @ Y) = P @ replicate (Suc z) 0 @ X @ Y"
proof (induction k arbitrary: X Y)
  case 0
  then show ?case by simp
next
  case (Suc k)
  then obtain X' x where X: "X = X' @ [x]" "length X' = k" by (metis length_Suc_conv_rev)
  have "n - (n - k) = k" using Suc.prems by simp
  moreover have "c + Suc k + Suc z + length Y = 16" using Suc.prems by simp
  ultimately have "shift6 (Suc k) c n (P @ X @ replicate (Suc z) 0 @ Y) =
      shift6 k c n (P @ X' @ replicate (Suc z) 0 @ (x # Y))"
    using shift6_step [of P c X' k z Y n x] Suc.prems X by (simp add: Let_def)
  also have "\<dots> = P @ replicate (Suc z) 0 @ X' @ (x # Y)"
    using Suc.prems X by (intro Suc.IH) auto
  finally show ?case by (simp add: X)
qed

lemma pton6_loop_inv:
  "pton6_loop src curtok saw val tmp colonp = Some (saw', val', tmp', colonp') \<Longrightarrow>
    length tmp \<le> 16 \<Longrightarrow> (\<forall>c. colonp = Some c \<longrightarrow> c \<le> length tmp) \<Longrightarrow>
    length tmp' \<le> 16 \<and> (\<forall>c. colonp' = Some c \<longrightarrow> c \<le> length tmp')"
proof (induction src curtok saw val tmp colonp rule: pton6_loop.induct)
  case (2 c src curtok saw val tmp colonp)
  show ?case
  proof (cases "xdigit_value (c_tolower c)")
    case (Some d)
    with 2 show ?thesis by (auto simp: Let_def split: if_splits)
  next
    case None
    note N = this
    show ?thesis
    proof (cases "c_tolower c = CHR '':''")
      case True
      with N 2 show ?thesis
        by (auto simp: Let_def IN6ADDRSZ_def INT16SZ_def be16_def le_SucI split: if_splits)
    next
      case False
      show ?thesis
      proof (cases "inet_pton4 curtok")
        case (Some q)
        then have "length q = 4" using pton4_loop_length unfolding inet_pton4_def by fastforce
        with Some N False 2(4-6) show ?thesis
          by (auto simp: Let_def IN6ADDRSZ_def INADDRSZ_def intro: le_add1 order_trans split: if_splits)
      qed (use N False 2(4-6) in \<open>auto simp: Let_def split: if_splits\<close>)
    qed
  qed
qed auto

text \<open>
  The hand-written shift after \<open>::\<close> puts the groups
  that follow \<open>::\<close> at the end of the address with zeros between: whatever the loop has read
  (\<open>tmp1\<close>, with \<open>::\<close> at offset \<open>c\<close>), the result is \<open>tmp1[0..c)\<close>, zeros, \<open>tmp1[c..)\<close>.
\<close>

definition expand_colons :: "u8 list \<Rightarrow> nat \<Rightarrow> u8 list" where
  "expand_colons tmp1 c = take c tmp1 @ replicate (16 - length tmp1) 0 @ drop c tmp1"

lemma shift6_expand:
  assumes "length tmp1 < 16" "c \<le> length tmp1"
  shows "shift6 (length tmp1 - c) c (length tmp1 - c) (tmp1 @ replicate (IN6ADDRSZ - length tmp1) 0) =
    expand_colons tmp1 c"
proof -
  obtain z where z: "16 - length tmp1 = Suc z" using assms by (cases "16 - length tmp1") auto
  have eq: "tmp1 @ replicate (Suc z) 0 = take c tmp1 @ drop c tmp1 @ replicate (Suc z) 0 @ []"
    by (metis append_assoc append_take_drop_id append_Nil2)
  have "length tmp1 + Suc z = 16" using z assms by linarith
  then show ?thesis
    using shift6_eq [of "take c tmp1" c "drop c tmp1" "length tmp1 - c" "[]" "length tmp1 - c" z, folded eq] assms z
    unfolding expand_colons_def IN6ADDRSZ_def z by (simp del: replicate_Suc)
qed

lemmas pton6_eval = inet_pton6_def Let_def xdigit_value_def is_digit_def digit_value_def c_tolower_def
  is_upper_def be16_def IN6ADDRSZ_def INT16SZ_def INADDRSZ_def inet_pton4_def

lemma list_update_Cons_numeral: "(x # xs)[numeral k := y] = x # xs[pred_numeral k := y]"
  by (simp add: numeral_eq_Suc)

lemma shift6_numeral:
  "shift6 (numeral k) c n buf =
     (let i = n - pred_numeral k
      in shift6 (pred_numeral k) c n ((buf[IN6ADDRSZ - i := buf ! (c + (n - i))])[c + (n - i) := 0]))"
  by (simp add: numeral_eq_Suc)

lemma replicate_numeral_eval: "replicate (numeral k) x = x # replicate (pred_numeral k) x"
  by (simp add: numeral_eq_Suc)

lemmas pton6_shift_eval = replicate_numeral_eval list_update_Cons_numeral shift6_numeral

lemma inet_pton6_cases:
  assumes "inet_pton6 src = Some a"
  shows "\<exists>tmp1 colonp. length tmp1 \<le> 16 \<and> (\<forall>c. colonp = Some c \<longrightarrow> c \<le> length tmp1) \<and>
    a = (case colonp of None \<Rightarrow> tmp1 | Some c \<Rightarrow> expand_colons tmp1 c) \<and>
    (colonp = None \<longleftrightarrow> length tmp1 = 16)"
proof -
  let ?s = "if char_at src 0 = CHR '':'' then tl src else src"
  from assms obtain saw val tmp colonp where l: "pton6_loop ?s ?s False 0 [] None = Some (saw, val, tmp, colonp)"
    by (auto simp: inet_pton6_def Let_def split: if_splits option.splits)
  define tmp1 where "tmp1 = (if saw then tmp @ be16 val else tmp)"
  from pton6_loop_inv [OF l] have inv: "length tmp \<le> 16" "\<forall>c. colonp = Some c \<longrightarrow> c \<le> length tmp" by auto
  from assms l have fit: "\<not> (saw \<and> IN6ADDRSZ < length tmp + INT16SZ)"
    by (auto simp: inet_pton6_def Let_def split: if_splits)
  with inv have inv1: "length tmp1 \<le> 16" "\<forall>c. colonp = Some c \<longrightarrow> c \<le> length tmp1"
    by (auto simp: tmp1_def be16_def IN6ADDRSZ_def INT16SZ_def)
  have "(case colonp of None \<Rightarrow> (if length tmp1 = IN6ADDRSZ then Some tmp1 else None)
         | Some c \<Rightarrow> if length tmp1 = IN6ADDRSZ then None
             else Some (shift6 (length tmp1 - c) c (length tmp1 - c) (tmp1 @ replicate (IN6ADDRSZ - length tmp1) 0)))
       = Some a"
    using assms l fit unfolding tmp1_def
    by (simp add: inet_pton6_def Let_def split: if_splits option.splits)
  note res = this
  show ?thesis
  proof (cases colonp)
    case None
    with res inv1 show ?thesis by (intro exI [of _ tmp1] exI [of _ None]) (auto simp: IN6ADDRSZ_def split: if_splits)
  next
    case (Some c)
    with res inv1 have c: "c \<le> length tmp1" "length tmp1 < 16" by (auto simp: IN6ADDRSZ_def split: if_splits)
    with res Some shift6_expand [OF c(2,1)] have "a = expand_colons tmp1 c" by (simp add: IN6ADDRSZ_def)
    with c show ?thesis by (intro exI [of _ tmp1] exI [of _ "Some c"]) auto
  qed
qed

lemma inet_pton6_length:
  assumes "inet_pton6 src = Some a"
  shows "length a = 16"
proof -
  obtain tmp1 colonp where t: "length tmp1 \<le> 16" "\<forall>c. colonp = Some c \<longrightarrow> c \<le> length tmp1"
    "a = (case colonp of None \<Rightarrow> tmp1 | Some c \<Rightarrow> expand_colons tmp1 c)" "colonp = None \<longleftrightarrow> length tmp1 = 16"
    using inet_pton6_cases [OF assms] by blast
  then show ?thesis by (cases colonp) (auto simp: expand_colons_def)
qed

text \<open>
  Every address that \<open>inet_pton6\<close> accepts is filled with exactly 16 bytes.
\<close>

theorem inet_pton6_shape:
  assumes "inet_pton6 src = Some a"
  shows "length a = 16"
  using assms by (rule inet_pton6_length)

theorem inet_pton6_shape_witness: "length [0x20, 1, 0, 0, 0, 0, 0, 0, 0, 0, 0, 0, 10, 0, 0, 1 :: u8] = 16"
proof (rule inet_pton6_shape)
  show "inet_pton6 ''2001::10.0.0.1'' = Some [0x20, 1, 0, 0, 0, 0, 0, 0, 0, 0, 0, 0, 10, 0, 0, 1]"
    by (simp add: pton6_eval pton6_shift_eval)
qed

text \<open>
  The comment says that \<open>::\<close> in a full address is silently ignored; the code rejects it, as it
  rejects nothing else about that address.
\<close>

theorem inet_pton6_full_colons:
  "inet_pton6 ''1:2:3:4::5:6:7:8'' = None \<and>
   inet_pton6 ''1:2:3:4:5:6:7:8'' = Some [0, 1, 0, 2, 0, 3, 0, 4, 0, 5, 0, 6, 0, 7, 0, 8] \<and>
   inet_pton6 ''1:2:3::5:6:7:8'' = Some [0, 1, 0, 2, 0, 3, 0, 0, 0, 5, 0, 6, 0, 7, 0, 8]"
  by (simp add: pton6_eval pton6_shift_eval)

section \<open>Matching an address against a prefix\<close>

lemma inet_pton4_length: "inet_pton4 s = Some q \<Longrightarrow> length q = 4"
  using pton4_loop_length unfolding inet_pton4_def by fastforce

lemma atoi_show_nat: "atoi (show_nat n) = int n"
proof -
  obtain c s where cs: "show_nat n = c # s" by (cases "show_nat n") auto
  have "is_digit c" using show_nat_digits [of n] cs by simp
  then have "\<not> is_space c" "c \<noteq> CHR ''-''" "c \<noteq> CHR ''+''" by (auto simp: is_digit_def is_space_def)
  then show ?thesis using digits_value_show_nat [of n] by (simp add: atoi_def cs del: digits_value.simps)
qed

lemma strchr_append_absent: "c \<noteq> NUL \<Longrightarrow> c \<notin> set s \<Longrightarrow> strchr (s @ c # t) c = Some (length s)"
  by (induction s) auto

lemma strrchr_append_absent: "c \<noteq> NUL \<Longrightarrow> c \<notin> set t \<Longrightarrow> strrchr (s @ c # t) c = Some (length s)"
  using strchr_append_absent [of c "rev t" "rev s"] by (simp add: strrchr_def)

lemma digit_string_absent: "\<not> is_digit c \<Longrightarrow> c \<notin> set (show_nat n)"
  using show_nat_digits by auto

lemma set_show_quad: "c \<in> set (show_quad x y z w) \<Longrightarrow> is_digit c \<or> c = CHR ''.''"
  using show_nat_digits by (auto simp: show_quad_def)

lemma length_show_quad: "length (show_quad x y z w) \<le> 15"
proof -
  have u: "unat (v :: u8) < 10 ^ 3" for v using unat_u8_le [of v] by (simp del: unat_u8_le)
  have "length (show_nat (unat v)) \<le> 3" for v :: u8 by (rule length_show_nat_le [OF u]) simp
  from this [of x] this [of y] this [of z] this [of w] show ?thesis by (simp add: show_quad_def)
qed

lemma comp_with_mask_4:
  "length a = 4 \<Longrightarrow> length b = 4 \<Longrightarrow> k \<le> 32 \<Longrightarrow>
    comp_with_mask a b k = Some (take k (addr_bits a) = take k (addr_bits b))"
  by (rule comp_with_mask_bits) simp_all



lemma compare_addrs_safe:
  assumes "0 \<le> l" "int lim \<le> 8 * int sz"
    "\<And>x. a = Some x \<Longrightarrow> length x = sz" "\<And>x. b = Some x \<Longrightarrow> length x = sz" "lim \<le> 128"
  shows "compare_addrs (Some lim) a b l \<noteq> OutOfBounds"
proof (cases "a = None \<or> b = None \<or> int lim < l")
  case True
  then show ?thesis by (auto simp: compare_addrs_def split: option.splits)
next
  case False
  then obtain x y where xy: "a = Some x" "b = Some y" by auto
  have "nat (l mod 2 ^ 32) \<le> 8 * sz" "int lim \<ge> l" using False assms by auto
  then show ?thesis
    using xy assms comp_with_mask_bits [of x y "nat (l mod 2 ^ 32)"]
    by (auto simp: compare_addrs_def)
qed

lemma cidr_compare_safe:
  assumes "0 \<le> l"
  shows "cidr_compare ip m l \<noteq> OutOfBounds"
  using compare_addrs_safe [OF assms, of 128 16 "inet_pton6 ip" "inet_pton6 m"] inet_pton6_length
    compare_addrs_safe [OF assms, of 32 4 "inet_pton4 ip" "inet_pton4 m"] inet_pton4_length
  by (auto simp: cidr_compare_def)

lemma atoi_nonneg: "CHR ''-'' \<notin> set s \<Longrightarrow> 0 \<le> atoi s"
  by (auto simp: atoi_def Let_def split: list.splits) (metis list.set_intros(1) set_dropWhileD)

lemma cidr_safe_no_minus:
  assumes "CHR ''-'' \<notin> set m"
  shows "match_ips (Some m) s2 \<noteq> OutOfBounds \<and> match_cidr mm (Some m) s2 \<noteq> OutOfBounds"
proof -
  have nonneg: "0 \<le> atoi (drop n (strlcpy m BUFSIZE))" for n
    using assms by (intro atoi_nonneg) (auto simp: strlcpy_def dest!: in_set_dropD in_set_takeD)
  then have "match_ips (Some m) s2 \<noteq> OutOfBounds"
    by (auto simp: match_ips_def Let_def cidr_compare_safe split: option.splits)
  moreover have "match_cidr mm (Some m) s2 \<noteq> OutOfBounds"
    by (auto simp: match_cidr_def Let_def cidr_compare_safe nonneg split: option.splits match_outcome.splits)
  ultimately show ?thesis ..
qed



text \<open>
  A negative prefix length gets past the range check (\<open>cidrlen\<close> is a signed \<open>int\<close>, the
  parameter of \<open>comp_with_mask\<close> an unsigned one), and the comparison runs off the arrays.
\<close>

theorem match_ips_negative_prefix:
  "match_ips (Some ''10.0.0.0/-1'') (Some ''10.0.0.1'') = OutOfBounds"
  by (simp add: match_ips_def Let_def strlcpy_def strrchr_def atoi_def is_digit_def is_space_def digit_value_def
      BUFSIZE_def HOSTLEN_def cidr_compare_def compare_addrs_def comp_with_mask_def inet_pton4_def)

end
