(* ===== verification/Flags.thy ===== *)
theory Flags
  imports Prelude
begin

text \<open>
  \<open>libathemecore/flags.c\<close> (with \<open>include/flags.h\<close> and the flag constants of \<open>include/account.h\<close>):
  the run-time table of channel access flags, the parsers and printers between flag strings and
  bit masks, the registration of new flags by modules, and the fixed letter tables of user, channel
  and operator flags.
\<close>

section \<open>Channel access flags\<close>

definition CA_VOICE :: u32 where [flag_simps]: "CA_VOICE = 0x00000001"
definition CA_AUTOVOICE :: u32 where [flag_simps]: "CA_AUTOVOICE = 0x00000002"
definition CA_OP :: u32 where [flag_simps]: "CA_OP = 0x00000004"
definition CA_AUTOOP :: u32 where [flag_simps]: "CA_AUTOOP = 0x00000008"
definition CA_TOPIC :: u32 where [flag_simps]: "CA_TOPIC = 0x00000010"
definition CA_SET :: u32 where [flag_simps]: "CA_SET = 0x00000020"
definition CA_REMOVE :: u32 where [flag_simps]: "CA_REMOVE = 0x00000040"
definition CA_INVITE :: u32 where [flag_simps]: "CA_INVITE = 0x00000080"
definition CA_RECOVER :: u32 where [flag_simps]: "CA_RECOVER = 0x00000100"
definition CA_FLAGS :: u32 where [flag_simps]: "CA_FLAGS = 0x00000200"
definition CA_HALFOP :: u32 where [flag_simps]: "CA_HALFOP = 0x00000400"
definition CA_AUTOHALFOP :: u32 where [flag_simps]: "CA_AUTOHALFOP = 0x00000800"
definition CA_ACLVIEW :: u32 where [flag_simps]: "CA_ACLVIEW = 0x00001000"
definition CA_FOUNDER :: u32 where [flag_simps]: "CA_FOUNDER = 0x00002000"
definition CA_USEPROTECT :: u32 where [flag_simps]: "CA_USEPROTECT = 0x00004000"
definition CA_USEOWNER :: u32 where [flag_simps]: "CA_USEOWNER = 0x00008000"
definition CA_EXEMPT :: u32 where [flag_simps]: "CA_EXEMPT = 0x00010000"
definition CA_AKICK :: u32 where [flag_simps]: "CA_AKICK = 0x80000000"

definition CA_HIGHPRIVS :: u32 where [flag_simps]: "CA_HIGHPRIVS = CA_SET OR CA_RECOVER OR CA_FLAGS"
definition CA_USEDUPDATE :: u32 where [flag_simps]:
  "CA_USEDUPDATE = CA_VOICE OR CA_OP OR CA_AUTOOP OR CA_SET OR CA_REMOVE OR CA_RECOVER OR CA_FLAGS OR
     CA_HALFOP OR CA_AUTOHALFOP OR CA_FOUNDER OR CA_USEPROTECT OR CA_USEOWNER"
definition CA_ALLPRIVS :: u32 where [flag_simps]:
  "CA_ALLPRIVS = CA_VOICE OR CA_AUTOVOICE OR CA_OP OR CA_AUTOOP OR CA_TOPIC OR CA_SET OR CA_REMOVE OR
     CA_INVITE OR CA_RECOVER OR CA_FLAGS OR CA_HALFOP OR CA_AUTOHALFOP OR CA_ACLVIEW OR CA_FOUNDER OR
     CA_USEPROTECT OR CA_USEOWNER OR CA_EXEMPT"
definition CA_ALL_ALL :: u32 where [flag_simps]: "CA_ALL_ALL = CA_ALLPRIVS OR CA_AKICK"

section \<open>The flag table\<close>

text \<open>\<open>struct flags_table\<close>; the array \<open>chanacs_flags[256]\<close> is indexed by \<open>unsigned char\<close>.\<close>

record flags_entry =
  fe_value :: u32
  fe_restrictflags :: u32
  fe_def :: bool
  fe_name :: "cstr option"

record flags_state =
  chanacs_flags :: "char \<Rightarrow> flags_entry"
  ca_all :: u32
  ca_all_enable :: u32

record ircd_caps =
  uses_halfops :: bool
  uses_protect :: bool
  uses_owner :: bool

definition no_entry :: flags_entry where
  "no_entry = \<lparr>fe_value = 0, fe_restrictflags = 0, fe_def = False, fe_name = None\<rparr>"

definition entry :: "u32 \<Rightarrow> bool \<Rightarrow> cstr \<Rightarrow> flags_entry" where
  "entry v d n = \<lparr>fe_value = v, fe_restrictflags = 0, fe_def = d, fe_name = Some n\<rparr>"

text \<open>The designated initialisers; the other entries of the array are zero.\<close>

definition chanacs_init :: "(char \<times> flags_entry) list" where
  "chanacs_init =
    [(CHR ''v'', entry CA_VOICE True ''voice''),
     (CHR ''V'', entry CA_AUTOVOICE True ''autovoice''),
     (CHR ''o'', entry CA_OP True ''op''),
     (CHR ''O'', entry CA_AUTOOP True ''autoop''),
     (CHR ''t'', entry CA_TOPIC True ''topic''),
     (CHR ''s'', entry CA_SET True ''set''),
     (CHR ''r'', entry CA_REMOVE True ''remove''),
     (CHR ''i'', entry CA_INVITE True ''invite''),
     (CHR ''R'', entry CA_RECOVER True ''recover''),
     (CHR ''f'', entry CA_FLAGS True ''acl-change''),
     (CHR ''h'', entry CA_HALFOP True ''halfop''),
     (CHR ''H'', entry CA_AUTOHALFOP True ''autohalfop''),
     (CHR ''A'', entry CA_ACLVIEW True ''acl-view''),
     (CHR ''F'', entry CA_FOUNDER False ''founder''),
     (CHR ''q'', entry CA_USEOWNER True ''owner''),
     (CHR ''a'', entry CA_USEPROTECT True ''protect''),
     (CHR ''b'', entry CA_AKICK False ''banned''),
     (CHR ''e'', entry CA_EXEMPT True ''exempt'')]"

definition table_of :: "(char \<times> flags_entry) list \<Rightarrow> char \<Rightarrow> flags_entry" where
  "table_of l c = (case map_of l c of None \<Rightarrow> no_entry | Some e \<Rightarrow> e)"

definition flags_init :: flags_state where
  "flags_init = \<lparr>chanacs_flags = table_of chanacs_init, ca_all = CA_ALL_ALL, ca_all_enable = CA_ALL_ALL\<rparr>"

text \<open>The indices of the array in order.\<close>

definition flag_chars :: "char list" where
  "flag_chars = map char_of [0 ..< 256 :: nat]"

abbreviation flag_value :: "flags_state \<Rightarrow> char \<Rightarrow> u32" where
  "flag_value st c \<equiv> fe_value (chanacs_flags st c)"

definition or_values :: "(char \<Rightarrow> u32) \<Rightarrow> char list \<Rightarrow> u32" where
  "or_values v cs = foldl (\<lambda>a c. a OR v c) 0 cs"

definition update_chanacs_flags :: "ircd_caps \<Rightarrow> flags_state \<Rightarrow> flags_state" where
  "update_chanacs_flags ircd st =
     (let all0 = or_values (flag_value st) flag_chars;
          en = or_values (\<lambda>c. if fe_def (chanacs_flags st c) then flag_value st c else 0) flag_chars;
          all1 = (if uses_halfops ircd then all0 else all0 AND NOT (CA_HALFOP OR CA_AUTOHALFOP));
          all2 = (if uses_protect ircd then all1 else all1 AND NOT CA_USEPROTECT);
          all3 = (if uses_owner ircd then all2 else all2 AND NOT CA_USEOWNER)
      in st\<lparr>ca_all := all3, ca_all_enable := en\<rparr>)"

text \<open>
  \<open>for (flag = 1; flag && (all_flags & flag); flag <<= 1);\<close> ends after at most 32 shifts, which is
  the fuel.
\<close>

fun find_slot_loop :: "nat \<Rightarrow> u32 \<Rightarrow> u32 \<Rightarrow> u32" where
  "find_slot_loop 0 all_flags flag = flag"
| "find_slot_loop (Suc n) all_flags flag =
     (if flag \<noteq> 0 \<and> all_flags AND flag \<noteq> 0 then find_slot_loop n all_flags (push_bit 1 flag) else flag)"

definition flags_find_slot :: "flags_state \<Rightarrow> u32" where
  "flags_find_slot st = find_slot_loop 32 (or_values (flag_value st) flag_chars) 1"

definition flags_associate ::
    "ircd_caps \<Rightarrow> char \<Rightarrow> u32 \<Rightarrow> bool \<Rightarrow> cstr option \<Rightarrow> flags_state \<Rightarrow> u32 \<times> flags_state" where
  "flags_associate ircd flag restrictflags d name st =
     (if flag_value st flag \<noteq> 0 \<and> flag_value st flag \<noteq> 0xFFFFFFFF then (0, st)
      else
        let e = \<lparr>fe_value = flags_find_slot st, fe_restrictflags = restrictflags, fe_def = d, fe_name = name\<rparr>;
            st1 = update_chanacs_flags ircd (st\<lparr>chanacs_flags := (chanacs_flags st)(flag := e)\<rparr>)
        in (flag_value st1 flag, st1))"

definition flags_clear :: "char \<Rightarrow> flags_state \<Rightarrow> flags_state" where
  "flags_clear flag st =
     st\<lparr>chanacs_flags := (chanacs_flags st)
          (flag := \<lparr>fe_value = 0xFFFFFFFF, fe_restrictflags = 0, fe_def = False, fe_name = None\<rparr>)\<rparr>"

section \<open>Parsing flag strings\<close>

datatype flags_status = FLAGS_ADD | FLAGS_DEL

definition xflag_lookup :: "flags_state \<Rightarrow> cstr \<Rightarrow> u32" where
  "xflag_lookup st name =
     (case find (\<lambda>c. case fe_name (chanacs_flags st c) of None \<Rightarrow> False | Some n \<Rightarrow> strcaseeq n name) flag_chars of
        None \<Rightarrow> 0
      | Some c \<Rightarrow> flag_value st c)"

definition apply_flag :: "flags_status \<Rightarrow> u32 \<Rightarrow> u32 \<times> u32 \<Rightarrow> u32 \<times> u32" where
  "apply_flag status flag m =
     (case status of
        FLAGS_ADD \<Rightarrow> (fst m OR flag, snd m AND NOT flag)
      | FLAGS_DEL \<Rightarrow> (fst m AND NOT flag, snd m OR flag))"

text \<open>The pair is \<open>(*addflags, *removeflags)\<close>.\<close>

fun make_bitmasks_loop :: "flags_state \<Rightarrow> cstr \<Rightarrow> flags_status \<Rightarrow> bool \<Rightarrow> u32 \<times> u32 \<Rightarrow> u32 \<times> u32" where
  "make_bitmasks_loop st [] status shortflag m = (fst m AND ca_all st, snd m AND ca_all st)"
| "make_bitmasks_loop st (c # s) status shortflag m =
     (if c = CHR ''+'' then make_bitmasks_loop st s FLAGS_ADD shortflag m
      else if c = CHR ''-'' then make_bitmasks_loop st s FLAGS_DEL shortflag m
      else if c = CHR ''='' then make_bitmasks_loop st s FLAGS_ADD shortflag (0, 0xFFFFFFFF)
      else if c = CHR ''*'' then
        make_bitmasks_loop st s status shortflag
          (case status of
             FLAGS_ADD \<Rightarrow> (fst m OR ca_all_enable st, snd m OR CA_AKICK)
           | FLAGS_DEL \<Rightarrow> (0, 0xFFFFFFFF))
      else if \<not> shortflag \<and> xflag_lookup st (c # s) \<noteq> 0 then
        (let m' = apply_flag status (xflag_lookup st (c # s)) m
         in (fst m' AND ca_all st, snd m' AND ca_all st))
      else
        make_bitmasks_loop st s status True
          (if flag_value st c \<noteq> 0 then apply_flag status (flag_value st c) m else m))"

definition flags_make_bitmasks :: "flags_state \<Rightarrow> cstr \<Rightarrow> u32 \<times> u32" where
  "flags_make_bitmasks st s = make_bitmasks_loop st s FLAGS_ADD False (0, 0)"

fun to_bitmask_loop :: "flags_state \<Rightarrow> cstr \<Rightarrow> flags_status \<Rightarrow> u32 \<Rightarrow> u32" where
  "to_bitmask_loop st [] status bitmask = bitmask AND ca_all st"
| "to_bitmask_loop st (c # s) status bitmask =
     (if c = CHR ''+'' then to_bitmask_loop st s FLAGS_ADD bitmask
      else if c = CHR ''-'' then to_bitmask_loop st s FLAGS_DEL bitmask
      else if c = CHR ''='' then to_bitmask_loop st s FLAGS_ADD 0
      else if c = CHR ''*'' then
        to_bitmask_loop st s status
          (case status of
             FLAGS_ADD \<Rightarrow> bitmask OR (CA_ALLPRIVS AND ca_all_enable st AND NOT CA_FOUNDER)
           | FLAGS_DEL \<Rightarrow> 0)
      else
        to_bitmask_loop st s status
          (if flag_value st c \<noteq> 0 then
             (case status of
                FLAGS_ADD \<Rightarrow> bitmask OR flag_value st c
              | FLAGS_DEL \<Rightarrow> bitmask AND NOT (flag_value st c))
           else bitmask))"

definition flags_to_bitmask :: "flags_state \<Rightarrow> cstr \<Rightarrow> u32 \<Rightarrow> u32" where
  "flags_to_bitmask st s flags = to_bitmask_loop st s FLAGS_ADD flags"

section \<open>Printing bit masks\<close>

text \<open>What the caller reads of the static buffer: the bytes before the first NUL.\<close>

definition c_view :: "char list \<Rightarrow> cstr" where
  "c_view b = takeWhile (\<lambda>c. c \<noteq> NUL) b"

definition flag_letters :: "flags_state \<Rightarrow> u32 \<Rightarrow> char list" where
  "flag_letters st flags = filter (\<lambda>c. flag_value st c AND flags \<noteq> 0) flag_chars"

definition bitmask_to_flags :: "flags_state \<Rightarrow> u32 \<Rightarrow> cstr" where
  "bitmask_to_flags st flags = c_view (CHR ''+'' # flag_letters st flags)"

definition bitmask_to_flags2 :: "flags_state \<Rightarrow> u32 \<Rightarrow> u32 \<Rightarrow> cstr" where
  "bitmask_to_flags2 st addflags removeflags =
     c_view ((if removeflags \<noteq> 0 then CHR ''-'' # flag_letters st removeflags else []) @
             (if addflags \<noteq> 0 then CHR ''+'' # flag_letters st addflags else []))"

definition xflag_apply :: "flags_state \<Rightarrow> u32 \<Rightarrow> cstr \<Rightarrow> u32" where
  "xflag_apply st fin name =
     (case name of
        c # s \<Rightarrow>
          if c = CHR ''+'' then fin OR xflag_lookup st s
          else if c = CHR ''-'' then fin AND NOT (xflag_lookup st s)
          else fin OR xflag_lookup st name
      | [] \<Rightarrow> fin OR xflag_lookup st name)"

definition xflag_tostr :: "flags_state \<Rightarrow> u32 \<Rightarrow> cstr" where
  "xflag_tostr st flags =
     foldl (\<lambda>buf c.
       case fe_name (chanacs_flags st c) of
         None \<Rightarrow> buf
       | Some n \<Rightarrow>
           if flags AND flag_value st c = 0 then buf
           else strlcat (if buf \<noteq> [] then strlcat buf '', '' BUFSIZE else buf) n BUFSIZE)
     [] flag_chars"

section \<open>Permitted changes\<close>

text \<open>
  The configuration and the channel as \<open>allow_flags\<close> reads them: \<open>chansvs.no_leveled_flags\<close> and
  \<open>use_limitflags && mc->flags & MC_LIMITFLAGS\<close>.
\<close>

definition allow_flags :: "bool \<Rightarrow> bool \<Rightarrow> u32 \<Rightarrow> u32" where
  "allow_flags no_leveled_flags limitflags theirflags =
     (let f0 = theirflags AND NOT CA_AKICK;
          f1 = (if f0 AND CA_REMOVE \<noteq> 0 then f0 OR CA_AKICK else f0);
          f2 = (if f1 AND CA_OP \<noteq> 0 then f1 OR CA_AUTOOP else f1);
          f3 = (if f2 AND CA_HALFOP \<noteq> 0 then f2 OR CA_AUTOHALFOP else f2);
          f4 = (if f3 AND CA_VOICE \<noteq> 0 then f3 OR CA_AUTOVOICE else f3);
          f5 = (if no_leveled_flags then f4
                else
                  let g0 = (if theirflags AND CA_FLAGS \<noteq> 0 \<and> f4 AND CA_SET = 0 then f4 AND NOT CA_FLAGS else f4);
                      g1 = (if g0 AND CA_RECOVER \<noteq> 0 then g0 AND NOT CA_RECOVER else g0)
                  in if g1 AND CA_SET \<noteq> 0 \<and> theirflags AND CA_SET \<noteq> 0 then g1 AND NOT CA_SET else g1)
      in if limitflags then
           (if theirflags AND (CA_HIGHPRIVS AND NOT CA_FLAGS) = 0 then f5 AND CA_AKICK
            else if theirflags AND CA_HIGHPRIVS \<noteq> CA_HIGHPRIVS then f5 AND NOT CA_HIGHPRIVS
            else f5)
         else f5)"

section \<open>User, channel and operator flags\<close>

type_synonym gflags = "(char \<times> u32) list"

definition MU_EMAILMEMOS :: u32 where [flag_simps]: "MU_EMAILMEMOS = 0x00000080"
definition MU_EMAILNOTIFY :: u32 where [flag_simps]: "MU_EMAILNOTIFY = 0x00800000"
definition MU_NOTIFYMEMO :: u32 where [flag_simps]: "MU_NOTIFYMEMO = 0x00400000"

definition mu_flags :: gflags where
  "mu_flags =
    [(CHR ''h'', 0x00000001), (CHR ''n'', 0x00000002), (CHR ''o'', 0x00000004), (CHR ''W'', 0x00000008),
     (CHR ''s'', 0x00000010), (CHR ''m'', 0x00000040), (CHR ''e'', MU_EMAILMEMOS), (CHR ''C'', 0x00000100),
     (CHR ''b'', 0x00000400), (CHR ''E'', 0x00000800), (CHR ''P'', 0x00001000), (CHR ''p'', 0x00002000),
     (CHR ''Q'', 0x00004000), (CHR ''g'', 0x00008000), (CHR ''r'', 0x00010000), (CHR ''N'', 0x00020000),
     (CHR ''A'', 0x00080000), (CHR ''a'', 0x00100000), (CHR ''$'', 0x00200000), (CHR ''e'', MU_EMAILNOTIFY),
     (CHR ''S'', 0x01000000)]"

definition mc_flags :: gflags where
  "mc_flags =
    [(CHR ''a'', 0x00002000), (CHR ''h'', 0x00000001), (CHR ''o'', 0x00000002), (CHR ''l'', 0x00000004),
     (CHR ''z'', 0x00000008), (CHR ''v'', 0x00000010), (CHR ''r'', 0x00000020), (CHR ''k'', 0x00000040),
     (CHR ''e'', 0x00000080), (CHR ''t'', 0x00000100), (CHR ''g'', 0x00000200), (CHR ''p'', 0x00000400),
     (CHR ''n'', 0x00000800), (CHR ''f'', 0x00001000)]"

definition soper_flags :: gflags where
  "soper_flags = [(CHR ''c'', 0x00000001)]"

text \<open>The loops stop at the entry whose \<open>ch\<close> is NUL, the end of the list.\<close>

definition gflags_tostr :: "gflags \<Rightarrow> u32 \<Rightarrow> cstr" where
  "gflags_tostr gf flags = CHR ''+'' # map fst (filter (\<lambda>e. flags AND snd e \<noteq> 0) gf)"

definition gflag_fromchar :: "gflags \<Rightarrow> char \<Rightarrow> u32 \<Rightarrow> u32 option" where
  "gflag_fromchar gf f res =
     (if f = CHR ''+'' then Some res else map_option (\<lambda>v. res OR v) (map_of gf f))"

text \<open>\<open>None\<close>: the function returned \<open>false\<close>.\<close>

fun gflags_fromstr_loop :: "gflags \<Rightarrow> cstr \<Rightarrow> u32 \<Rightarrow> u32 option" where
  "gflags_fromstr_loop gf [] res = Some res"
| "gflags_fromstr_loop gf (f # s) res =
     (case gflag_fromchar gf f res of None \<Rightarrow> None | Some r \<Rightarrow> gflags_fromstr_loop gf s r)"

definition gflags_fromstr :: "gflags \<Rightarrow> cstr \<Rightarrow> u32 option" where
  "gflags_fromstr gf f = gflags_fromstr_loop gf f 0"

section \<open>Words as sets of bits\<close>

lemma u32_eq_iff: "a = (b :: u32) \<longleftrightarrow> (\<forall>i < 32. bit a i = bit b i)"
  by (auto intro: bit_word_eqI)

lemma word_or_0_iff: "(a OR b = 0) = (a = 0 \<and> b = (0 :: u32))"
  by (auto simp: bit_eq_iff bit_or_iff)

lemma word_and_or_distrib: "(a OR b) AND c = (a AND c) OR (b AND (c :: u32))"
  by (rule bit.conj_disj_distrib2)

lemma foldl_or: "foldl (\<lambda>a c. a OR v c) b cs = b OR (or_values v cs :: u32)"
proof (induction cs arbitrary: b)
  case Nil
  then show ?case by (simp add: or_values_def)
next
  case (Cons c cs)
  show ?case using Cons [of "b OR v c"] Cons [of "0 OR v c"]
    by (simp add: or_values_def or.assoc)
qed

lemma or_values_Nil [simp]: "or_values v [] = 0"
  by (simp add: or_values_def)

lemma or_values_Cons [simp]: "or_values v (c # cs) = v c OR or_values v cs"
  using foldl_or [of v "0 OR v c" cs] by (simp add: or_values_def)

lemma bit_or_values: "bit (or_values v cs) n \<longleftrightarrow> (\<exists>c \<in> set cs. bit (v c) n)"
  by (induction cs) (auto simp: bit_or_iff)

lemma set_flag_chars [simp]: "set flag_chars = UNIV"
proof -
  have "c \<in> set flag_chars" for c
  proof -
    have "c = char_of (of_char c :: nat)" "of_char c \<in> {0 ..< 256 :: nat}" by simp_all
    then show ?thesis unfolding flag_chars_def set_map set_upt by (rule image_eqI)
  qed
  then show ?thesis by auto
qed

lemma distinct_flag_chars [simp]: "distinct flag_chars"
  unfolding flag_chars_def by (auto simp: distinct_map inj_on_def simp del: upt_rec_numeral)

text \<open>A flag value is absent (0) or one bit.\<close>

definition one_bit :: "u32 \<Rightarrow> bool" where
  "one_bit v \<longleftrightarrow> (\<exists>n < 32. v = 2 ^ n)"

lemma bit_one_bit: "bit (2 ^ n :: u32) i \<longleftrightarrow> i = n \<and> n < 32"
  by (auto simp: bit_exp_iff possible_bit_word)

lemma one_bit_and: "one_bit v \<Longrightarrow> v AND f \<noteq> 0 \<Longrightarrow> v AND f = v"
  by (auto simp: one_bit_def u32_eq_iff bit_and_iff bit_one_bit)

lemma one_bit_nz: "one_bit v \<Longrightarrow> v \<noteq> 0"
  by (auto simp: one_bit_def u32_eq_iff bit_one_bit)

section \<open>Free slots\<close>

lemma find_slot_loop_spec:
  "n + k = 32 \<Longrightarrow> (\<forall>i < k. bit all i) \<Longrightarrow>
    (find_slot_loop n all (2 ^ k) = 0 \<and> (\<forall>i < 32. bit all i)) \<or>
    (\<exists>m < 32. find_slot_loop n all (2 ^ k) = 2 ^ m \<and> \<not> bit all m \<and> (\<forall>i < m. bit all i))"
proof (induction n arbitrary: k)
  case 0
  then have "k = 32" by simp
  with 0 show ?case by (auto intro: bit_word_eqI simp: bit_one_bit)
next
  case (Suc n)
  then have k: "k < 32" by simp
  then have nz: "(2 ^ k :: u32) \<noteq> 0" by (auto simp: u32_eq_iff bit_one_bit)
  have a: "all AND 2 ^ k \<noteq> 0 \<longleftrightarrow> bit all k"
    using k by (simp add: u32_eq_iff bit_and_iff bit_one_bit)
  show ?case
  proof (cases "bit all k")
    case True
    have "\<forall>i < Suc k. bit all i" using True Suc.prems(2) by (auto simp: less_Suc_eq)
    from Suc.IH [OF _ this] Suc.prems(1) True nz a show ?thesis by (simp add: mult.commute [of 2 "2 ^ k"])
  next
    case False
    with k nz a Suc.prems show ?thesis by (intro disjI2 exI [of _ k]) auto
  qed
qed


lemma find_slot_free:
  "(flags_find_slot st = 0 \<and> (\<forall>i < 32. \<exists>c. bit (flag_value st c) i)) \<or>
   (\<exists>m < 32. flags_find_slot st = 2 ^ m \<and> (\<forall>c. \<not> bit (flag_value st c) m) \<and>
      (\<forall>i < m. \<exists>c. bit (flag_value st c) i))"
  using find_slot_loop_spec [of 32 0 "or_values (flag_value st) flag_chars"]
  by (simp add: flags_find_slot_def bit_or_values)

section \<open>Well-formed tables\<close>

text \<open>
  The table the flag strings rely on: every value is one bit or absent, different letters have
  different bits, the letters with a meaning of their own in flag strings (and the string
  terminator) carry no flag, and \<open>ca_all\<close> holds bits of the table only.
\<close>

definition reserved_chars :: "char list" where
  "reserved_chars = NUL # ''+-=*''"

definition flags_ok :: "flags_state \<Rightarrow> bool" where
  "flags_ok st \<longleftrightarrow>
     (\<forall>c. flag_value st c = 0 \<or> one_bit (flag_value st c)) \<and>
     (\<forall>c d. c \<noteq> d \<longrightarrow> flag_value st c AND flag_value st d = 0) \<and>
     (\<forall>c \<in> set reserved_chars. flag_value st c = 0) \<and>
     ca_all st AND NOT (or_values (flag_value st) flag_chars) = 0"

lemma table_of_disjoint:
  assumes "distinct (map fst l)"
    and "sorted_wrt (\<lambda>x y. fe_value (snd x) AND fe_value (snd y) = 0) l" and "c \<noteq> d"
  shows "fe_value (table_of l c) AND fe_value (table_of l d) = 0"
proof (cases "map_of l c = None \<or> map_of l d = None")
  case True
  then show ?thesis by (auto simp: table_of_def no_entry_def)
next
  case False
  then obtain e f where ef: "(c, e) \<in> set l" "(d, f) \<in> set l" "map_of l c = Some e" "map_of l d = Some f"
    by (auto dest: map_of_SomeD)
  then obtain i j where ij: "i < length l" "l ! i = (c, e)" "j < length l" "l ! j = (d, f)"
    by (metis in_set_conv_nth)
  have "i \<noteq> j" using ij \<open>c \<noteq> d\<close> by auto
  have S: "fe_value (snd (l ! a)) AND fe_value (snd (l ! b)) = 0" if "a < b" "b < length l" for a b
    using assms(2) that unfolding sorted_wrt_iff_nth_less by blast
  have "fe_value e AND fe_value f = 0"
  proof (cases "i < j")
    case True
    with S [of i j] ij show ?thesis by simp
  next
    case False
    with \<open>i \<noteq> j\<close> S [of j i] ij show ?thesis by (simp add: and.commute)
  qed
  with ef show ?thesis by (simp add: table_of_def)
qed

lemma table_of_all:
  "(\<forall>x \<in> set l. P (fe_value (snd x))) \<Longrightarrow> P 0 \<Longrightarrow> P (fe_value (table_of l c))"
  by (fastforce simp: table_of_def no_entry_def split: option.splits dest: map_of_SomeD)

lemma one_bit_numerals [simp]: "n < 32 \<Longrightarrow> one_bit (2 ^ n)"
  by (auto simp: one_bit_def)


lemma CA_exp:
  "CA_VOICE = 2 ^ 0"
  "CA_AUTOVOICE = 2 ^ 1"
  "CA_OP = 2 ^ 2"
  "CA_AUTOOP = 2 ^ 3"
  "CA_TOPIC = 2 ^ 4"
  "CA_SET = 2 ^ 5"
  "CA_REMOVE = 2 ^ 6"
  "CA_INVITE = 2 ^ 7"
  "CA_RECOVER = 2 ^ 8"
  "CA_FLAGS = 2 ^ 9"
  "CA_HALFOP = 2 ^ 10"
  "CA_AUTOHALFOP = 2 ^ 11"
  "CA_ACLVIEW = 2 ^ 12"
  "CA_FOUNDER = 2 ^ 13"
  "CA_USEPROTECT = 2 ^ 14"
  "CA_USEOWNER = 2 ^ 15"
  "CA_EXEMPT = 2 ^ 16"
  "CA_AKICK = 2 ^ 31"
  by (simp_all add: flag_simps)

lemma chanacs_init_one_bit: "\<forall>x \<in> set chanacs_init. one_bit (fe_value (snd x))"
  using one_bit_numerals [of 0] one_bit_numerals [of 1]
  by (simp add: chanacs_init_def entry_def CA_exp del: power_numeral)

lemma chanacs_init_disjoint: "sorted_wrt (\<lambda>x y. fe_value (snd x) AND fe_value (snd y) = 0) chanacs_init"
  by (simp add: chanacs_init_def entry_def flag_simps)

lemma flags_init_ok: "flags_ok flags_init"
proof -
  have "flag_value flags_init c = 0 \<or> one_bit (flag_value flags_init c)" for c
    using table_of_all [of chanacs_init "\<lambda>v. v = 0 \<or> one_bit v"] chanacs_init_one_bit
    by (simp add: flags_init_def)
  moreover have "flag_value flags_init c AND flag_value flags_init d = 0" if "c \<noteq> d" for c d
    using table_of_disjoint [OF _ chanacs_init_disjoint that]
    by (simp add: flags_init_def chanacs_init_def)
  moreover have "\<forall>c \<in> set reserved_chars. flag_value flags_init c = 0"
    by (simp add: reserved_chars_def flags_init_def table_of_def chanacs_init_def no_entry_def)
  moreover have "bit (or_values (flag_value flags_init) flag_chars) n" if "bit (ca_all flags_init) n" for n
  proof -
    have "\<exists>x \<in> set chanacs_init. bit (fe_value (snd x)) n"
      using that by (simp add: flags_init_def chanacs_init_def entry_def CA_ALL_ALL_def CA_ALLPRIVS_def bit_or_iff) blast
    then obtain c e where ce: "(c, e) \<in> set chanacs_init" "bit (fe_value e) n" by auto
    moreover have "distinct (map fst chanacs_init)" by (simp add: chanacs_init_def)
    ultimately have "bit (flag_value flags_init c) n"
      by (simp add: flags_init_def table_of_def)
    then show ?thesis by (auto simp: bit_or_values)
  qed
  then have "ca_all flags_init AND NOT (or_values (flag_value flags_init) flag_chars) = 0"
    by (auto simp: u32_eq_iff bit_and_iff bit_not_iff)
  ultimately show ?thesis by (simp add: flags_ok_def)
qed

section \<open>Round trips\<close>

lemma all_ones: "(0xFFFFFFFF :: u32) = - 1"
  by simp

lemma flags_okD:
  assumes "flags_ok st"
  shows "flag_value st c = 0 \<or> one_bit (flag_value st c)"
    and "c \<noteq> d \<Longrightarrow> flag_value st c AND flag_value st d = 0"
    and "c \<in> set reserved_chars \<Longrightarrow> flag_value st c = 0"
    and "ca_all st AND NOT (or_values (flag_value st) flag_chars) = 0"
  using assms unfolding flags_ok_def by blast+

lemma flag_letters_plain:
  assumes "flags_ok st" "c \<in> set (flag_letters st f)"
  shows "c \<noteq> NUL" "c \<noteq> CHR ''+''" "c \<noteq> CHR ''-''" "c \<noteq> CHR ''=''" "c \<noteq> CHR ''*''"
  using assms flags_okD(3) [OF assms(1), of c] by (auto simp: flag_letters_def reserved_chars_def)

lemma c_view_letters:
  assumes "flags_ok st" "NUL \<notin> set p" "NUL \<notin> set q"
  shows "c_view (p @ flag_letters st f @ q) = p @ flag_letters st f @ q"
  using assms flag_letters_plain(1) [OF assms(1), of NUL f]
  by (auto simp: c_view_def takeWhile_eq_all_conv)

lemma or_values_letters:
  assumes "flags_ok st"
  shows "or_values (flag_value st) (flag_letters st f) = f AND or_values (flag_value st) flag_chars"
proof (subst u32_eq_iff, intro allI impI)
  fix i :: nat assume i: "i < 32"
  have "bit (flag_value st c) i \<and> flag_value st c AND f \<noteq> 0 \<longleftrightarrow> bit (flag_value st c) i \<and> bit f i" for c
  proof (cases "flag_value st c = 0")
    case False
    then obtain n where "flag_value st c = 2 ^ n" "n < 32"
      using flags_okD(1) [OF assms, of c] by (auto simp: one_bit_def)
    then show ?thesis using i by (auto simp: u32_eq_iff bit_and_iff bit_one_bit)
  qed simp
  then show "bit (or_values (flag_value st) (flag_letters st f)) i =
      bit (f AND or_values (flag_value st) flag_chars) i"
    by (auto simp: bit_or_values bit_and_iff flag_letters_def)
qed

lemma to_bitmask_letters:
  "\<forall>c \<in> set cs. c \<notin> set ''+-=*'' \<Longrightarrow>
    to_bitmask_loop st cs FLAGS_ADD b = (b OR or_values (flag_value st) cs) AND ca_all st"
proof (induction cs arbitrary: b)
  case (Cons c cs)
  then have "to_bitmask_loop st (c # cs) FLAGS_ADD b = to_bitmask_loop st cs FLAGS_ADD (b OR flag_value st c)"
    by simp
  with Cons show ?case by (simp add: or.assoc)
qed simp

lemma to_bitmask_print:
  assumes "flags_ok st"
  shows "flags_to_bitmask st (bitmask_to_flags st f) 0 = f AND ca_all st"
proof -
  have "bitmask_to_flags st f = CHR ''+'' # flag_letters st f"
    using c_view_letters [OF assms, of "''+''" "[]" f] by (simp add: bitmask_to_flags_def)
  moreover have "\<forall>c \<in> set (flag_letters st f). c \<notin> set ''+-=*''"
    using flag_letters_plain [OF assms] by auto
  ultimately have "flags_to_bitmask st (bitmask_to_flags st f) 0 =
      (f AND or_values (flag_value st) flag_chars) AND ca_all st"
    by (simp add: flags_to_bitmask_def to_bitmask_letters or_values_letters [OF assms])
  also have "\<dots> = f AND ca_all st"
    using flags_okD(4) [OF assms] by (auto simp: u32_eq_iff bit_and_iff bit_not_iff)
  finally show ?thesis .
qed

text \<open>
  C9: reading back a printed flag string gives the flags that were printed, as far as the table
  knows them, for every well-formed table and every mask.
\<close>

theorem flags_print_parse:
  assumes "flags_ok st"
  shows "flags_to_bitmask st (bitmask_to_flags st f) 0 = f AND ca_all st"
  using assms by (rule to_bitmask_print)

theorem flags_print_parse_witness:
  "flags_to_bitmask flags_init (bitmask_to_flags flags_init (CA_OP OR CA_AKICK)) 0 =
    (CA_OP OR CA_AKICK) AND ca_all flags_init"
  by (rule flags_print_parse) (rule flags_init_ok)

section \<open>Adding and removing\<close>

lemma make_bitmasks_disjoint_loop:
  "CHR ''*'' \<notin> set s \<Longrightarrow> fst m AND snd m = 0 \<Longrightarrow>
    fst (make_bitmasks_loop st s status sf m) AND snd (make_bitmasks_loop st s status sf m) = 0"
proof (induction st s status sf m rule: make_bitmasks_loop.induct)
  case (1 st status sf m)
  then show ?case by (auto simp: u32_eq_iff bit_and_iff)
next
  case (2 st c s status sf m)
  have ap: "fst (apply_flag status f m) AND snd (apply_flag status f m) = 0" for f
    using "2.prems"(2) by (cases status) (auto simp: apply_flag_def u32_eq_iff bit_simps)
  have [simp]: "c \<noteq> CHR ''*''" "CHR ''*'' \<notin> set s" using "2.prems"(1) by auto
  have ca: "(fst (apply_flag status f m) AND ca_all st) AND (snd (apply_flag status f m) AND ca_all st) = 0" for f
    using ap by (auto simp: u32_eq_iff bit_and_iff)
  show ?case
    using "2.IH" ca ap "2.prems"(2) by (cases "flag_value st c = 0") (simp_all add: Let_def)
qed

text \<open>
  The two masks of \<open>flags_make_bitmasks\<close> are disjoint for every string without \<open>*\<close>.
\<close>

theorem make_bitmasks_disjoint:
  assumes "CHR ''*'' \<notin> set s"
  shows "fst (flags_make_bitmasks st s) AND snd (flags_make_bitmasks st s) = 0"
  unfolding flags_make_bitmasks_def by (rule make_bitmasks_disjoint_loop) (use assms in auto)

theorem make_bitmasks_disjoint_witness:
  "fst (flags_make_bitmasks flags_init ''=v-o'') AND snd (flags_make_bitmasks flags_init ''=v-o'') = 0"
  by (rule make_bitmasks_disjoint) simp

text \<open>
  With \<open>*\<close> the masks overlap, against the comment's "Postcondition *addflags & *removeflags == 0":
  after \<open>=\<close> the mask of removals is full and \<open>*\<close> adds without taking the added flags out of it.
\<close>

theorem make_bitmasks_star_overlap:
  "fst (flags_make_bitmasks st ''=*'') AND snd (flags_make_bitmasks st ''=*'') = ca_all_enable st AND ca_all st"
  unfolding flags_make_bitmasks_def
  by (simp add: all_ones and.assoc)

lemma make_bitmasks_apply_loop:
  assumes "CHR ''*'' \<notin> set s" "\<forall>n. xflag_lookup st (drop n s) = 0" "l AND NOT (ca_all st) = 0"
  shows "(l AND NOT (snd (make_bitmasks_loop st s status sf m))) OR fst (make_bitmasks_loop st s status sf m) =
    to_bitmask_loop st s status ((l AND NOT (snd m)) OR fst m)"
  using assms(1,2)
proof (induction s arbitrary: status sf m)
  case Nil
  with assms(3) show ?case by (auto simp: u32_eq_iff bit_simps)
next
  case (Cons c s)
  have x: "xflag_lookup st (c # s) = 0" "\<forall>n. xflag_lookup st (drop n s) = 0"
    using Cons.prems(2) by (metis drop0) (metis Cons.prems(2) drop_Suc_Cons)
  have e: "(l AND NOT (snd (0 :: u32, 0xFFFFFFFF :: u32))) OR fst (0 :: u32, 0xFFFFFFFF :: u32) = 0"
    by (simp add: all_ones)
  have ap: "(l AND NOT (snd (apply_flag status f m))) OR fst (apply_flag status f m) =
      (case status of FLAGS_ADD \<Rightarrow> (l AND NOT (snd m) OR fst m) OR f
       | FLAGS_DEL \<Rightarrow> (l AND NOT (snd m) OR fst m) AND NOT f)" for f
    by (cases status) (auto simp: apply_flag_def u32_eq_iff bit_simps)
  have [simp]: "c \<noteq> CHR ''*''" "CHR ''*'' \<notin> set s" "(- 4294967296 :: u32) = 0" using Cons.prems(1) by auto
  show ?case
    using Cons.IH x e ap by simp
qed


lemma xflag_lookup_none:
  assumes "\<forall>x \<in> set chanacs_init. \<forall>n. fe_name (snd x) = Some n \<longrightarrow> \<not> strcaseeq n s"
  shows "xflag_lookup flags_init s = 0"
proof -
  have "\<not> strcaseeq n s" if "fe_name (chanacs_flags flags_init c) = Some n" for c n
    using that assms
    by (fastforce simp: flags_init_def table_of_def no_entry_def split: option.splits dest: map_of_SomeD)
  then have "find (\<lambda>c. case fe_name (chanacs_flags flags_init c) of None \<Rightarrow> False | Some n \<Rightarrow> strcaseeq n s)
      flag_chars = None"
    unfolding find_None_iff by (auto split: option.splits)
  then show ?thesis by (simp add: xflag_lookup_def)
qed


section \<open>Registering flags\<close>

lemma or_values_subset:
  "v AND NOT (or_values w flag_chars) = 0 \<longleftrightarrow> (\<forall>i < 32. bit v i \<longrightarrow> (\<exists>c. bit (w c) i))"
  by (auto simp: u32_eq_iff bit_and_iff bit_not_iff bit_or_values)

lemma update_chanacs_flags_keep [simp]: "chanacs_flags (update_chanacs_flags ircd st) = chanacs_flags st"
  by (simp add: update_chanacs_flags_def Let_def)

lemma ca_all_update: "bit (ca_all (update_chanacs_flags ircd st)) i \<Longrightarrow> \<exists>c. bit (flag_value st c) i"
  by (auto simp: update_chanacs_flags_def Let_def bit_simps bit_or_values split: if_splits)

text \<open>
  C16: registering a flag keeps the table well formed, whatever module asks for whatever free
  letter: the new entry is 0 or one bit that no other entry has.
\<close>

theorem flags_associate_ok:
  assumes "flags_ok st" and "flag \<notin> set reserved_chars"
  shows "flags_ok (snd (flags_associate ircd flag r d name st)) \<and>
    (fst (flags_associate ircd flag r d name st) \<noteq> 0 \<longrightarrow>
      (\<forall>c. flag_value st c AND fst (flags_associate ircd flag r d name st) = 0))"
proof (cases "flag_value st flag \<noteq> 0 \<and> flag_value st flag \<noteq> 0xFFFFFFFF")
  case True
  then show ?thesis using assms by (simp add: flags_associate_def)
next
  case False
  let ?s = "flags_find_slot st"
  let ?e = "\<lparr>fe_value = ?s, fe_restrictflags = r, fe_def = d, fe_name = name\<rparr>"
  let ?st = "update_chanacs_flags ircd (st\<lparr>chanacs_flags := (chanacs_flags st)(flag := ?e)\<rparr>)"
  have st: "flags_associate ircd flag r d name st = (?s, ?st)"
    using False by (auto simp: flags_associate_def Let_def)
  have slot: "?s = 0 \<or> one_bit ?s" "flag_value st c AND ?s = 0" for c
    using find_slot_free [of st] by (auto simp: one_bit_def u32_eq_iff bit_and_iff bit_one_bit)
  have v: "flag_value ?st c = (if c = flag then ?s else flag_value st c)" for c by simp
  have "flags_ok ?st"
    unfolding flags_ok_def
  proof (intro conjI allI impI ballI)
    fix c show "flag_value ?st c = 0 \<or> one_bit (flag_value ?st c)"
      using slot flags_okD(1) [OF assms(1)] by (simp add: v)
  next
    fix c d' :: char assume "c \<noteq> d'"
    then show "flag_value ?st c AND flag_value ?st d' = 0"
      using slot(2) flags_okD(2) [OF assms(1)] \<open>c \<noteq> d'\<close> unfolding v by (auto simp: and.commute)
  next
    fix c assume "c \<in> set reserved_chars"
    then show "flag_value ?st c = 0" using flags_okD(3) [OF assms(1)] assms(2) unfolding v by auto
  next
    show "ca_all ?st AND NOT (or_values (flag_value ?st) flag_chars) = 0"
      unfolding or_values_subset using ca_all_update by fastforce
  qed
  with st slot show ?thesis by simp
qed

theorem flags_associate_ok_witness:
  "let r = flags_associate \<lparr>uses_halfops = True, uses_protect = True, uses_owner = True\<rparr> (CHR ''S'') 0 False
       (Some ''successor'') flags_init
   in flags_ok (snd r) \<and> (fst r \<noteq> 0 \<longrightarrow> (\<forall>c. flag_value flags_init c AND fst r = 0))"
  unfolding Let_def by (rule flags_associate_ok) (simp_all add: flags_init_ok reserved_chars_def)

text \<open>
  After \<open>flags_clear\<close> no flag can be registered any more, the freed letter included (the free-slot
  search takes the orphan mark for 32 used bits and answers 0), and the orphaned letter in a flag
  string stands for every flag.
\<close>

theorem flags_clear_orphan:
  "flags_find_slot (flags_clear c st) = 0 \<and>
   (\<forall>d. fst (flags_associate ircd d r df nm (flags_clear c st)) = 0) \<and>
   (c \<notin> set ''+-=*'' \<longrightarrow> flags_to_bitmask (flags_clear c st) [c] 0 = ca_all st)"
proof -
  have b: "bit (flag_value (flags_clear c st) c) i" if "i < 32" for i
    using that by (simp add: flags_clear_def all_ones)
  have s: "flags_find_slot (flags_clear c st) = 0"
    using find_slot_free [of "flags_clear c st"] b by blast
  moreover have "fst (flags_associate ircd d r df nm (flags_clear c st)) = 0" for d
    by (simp add: flags_associate_def Let_def s)
  moreover have "flags_to_bitmask (flags_clear c st) [c] 0 = ca_all st" if "c \<notin> set ''+-=*''"
    using that by (simp add: flags_to_bitmask_def flags_clear_def all_ones)
  ultimately show ?thesis by blast
qed

theorem flags_clear_orphan_witness:
  "flags_find_slot (flags_clear (CHR ''S'') flags_init) = 0 \<and>
   (\<forall>d. fst (flags_associate \<lparr>uses_halfops = True, uses_protect = True, uses_owner = True\<rparr> d 0 True None
      (flags_clear (CHR ''S'') flags_init)) = 0) \<and>
   flags_to_bitmask (flags_clear (CHR ''S'') flags_init) ''S'' 0 = ca_all flags_init"
  using flags_clear_orphan [of "CHR ''S''"] by simp

section \<open>Permitted changes\<close>

lemma and_pow_0: "n < 32 \<Longrightarrow> (x AND 2 ^ n = (0 :: u32)) = (\<not> bit x n)"
  by (auto simp: u32_eq_iff bit_and_iff bit_one_bit)

lemma bit_CA:
  "bit CA_VOICE i \<longleftrightarrow> i = 0"
  "bit CA_AUTOVOICE i \<longleftrightarrow> i = 1"
  "bit CA_OP i \<longleftrightarrow> i = 2"
  "bit CA_AUTOOP i \<longleftrightarrow> i = 3"
  "bit CA_TOPIC i \<longleftrightarrow> i = 4"
  "bit CA_SET i \<longleftrightarrow> i = 5"
  "bit CA_REMOVE i \<longleftrightarrow> i = 6"
  "bit CA_INVITE i \<longleftrightarrow> i = 7"
  "bit CA_RECOVER i \<longleftrightarrow> i = 8"
  "bit CA_FLAGS i \<longleftrightarrow> i = 9"
  "bit CA_HALFOP i \<longleftrightarrow> i = 10"
  "bit CA_AUTOHALFOP i \<longleftrightarrow> i = 11"
  "bit CA_ACLVIEW i \<longleftrightarrow> i = 12"
  "bit CA_FOUNDER i \<longleftrightarrow> i = 13"
  "bit CA_USEPROTECT i \<longleftrightarrow> i = 14"
  "bit CA_USEOWNER i \<longleftrightarrow> i = 15"
  "bit CA_EXEMPT i \<longleftrightarrow> i = 16"
  "bit CA_AKICK i \<longleftrightarrow> i = 31"
  unfolding CA_exp bit_one_bit by auto

lemma and_CA_0:
  "x AND CA_VOICE = 0 \<longleftrightarrow> \<not> bit x 0"
  "x AND CA_AUTOVOICE = 0 \<longleftrightarrow> \<not> bit x 1"
  "x AND CA_OP = 0 \<longleftrightarrow> \<not> bit x 2"
  "x AND CA_AUTOOP = 0 \<longleftrightarrow> \<not> bit x 3"
  "x AND CA_TOPIC = 0 \<longleftrightarrow> \<not> bit x 4"
  "x AND CA_SET = 0 \<longleftrightarrow> \<not> bit x 5"
  "x AND CA_REMOVE = 0 \<longleftrightarrow> \<not> bit x 6"
  "x AND CA_INVITE = 0 \<longleftrightarrow> \<not> bit x 7"
  "x AND CA_RECOVER = 0 \<longleftrightarrow> \<not> bit x 8"
  "x AND CA_FLAGS = 0 \<longleftrightarrow> \<not> bit x 9"
  "x AND CA_HALFOP = 0 \<longleftrightarrow> \<not> bit x 10"
  "x AND CA_AUTOHALFOP = 0 \<longleftrightarrow> \<not> bit x 11"
  "x AND CA_ACLVIEW = 0 \<longleftrightarrow> \<not> bit x 12"
  "x AND CA_FOUNDER = 0 \<longleftrightarrow> \<not> bit x 13"
  "x AND CA_USEPROTECT = 0 \<longleftrightarrow> \<not> bit x 14"
  "x AND CA_USEOWNER = 0 \<longleftrightarrow> \<not> bit x 15"
  "x AND CA_EXEMPT = 0 \<longleftrightarrow> \<not> bit x 16"
  "x AND CA_AKICK = 0 \<longleftrightarrow> \<not> bit x 31"
  unfolding CA_exp by (rule and_pow_0, simp)+

text \<open>What \<open>allow_flags\<close> grants without the limit of \<open>MC_LIMITFLAGS\<close>, flag by flag.\<close>

definition allowed_bit :: "bool \<Rightarrow> u32 \<Rightarrow> nat \<Rightarrow> bool" where
  "allowed_bit nl f i \<longleftrightarrow>
     (if i = 31 then bit f 6
      else (bit f i \<or> i = 3 \<and> bit f 2 \<or> i = 11 \<and> bit f 10 \<or> i = 1 \<and> bit f 0) \<and>
        (nl \<or> i \<noteq> 5 \<and> i \<noteq> 8 \<and> (i = 9 \<longrightarrow> bit f 5)))"

lemma bit_grant:
  "i < 32 \<Longrightarrow> a < 32 \<Longrightarrow> bit (if x AND 2 ^ a \<noteq> 0 then x OR 2 ^ b else x :: u32) i \<longleftrightarrow> bit x i \<or> i = b \<and> bit x a"
  by (auto simp: and_pow_0 bit_or_iff bit_one_bit)

lemma bit_revoke:
  "i < 32 \<Longrightarrow> bit (if P then x AND NOT (2 ^ a) else x :: u32) i \<longleftrightarrow> bit x i \<and> (P \<longrightarrow> i \<noteq> a)"
  by (auto simp: bit_and_iff bit_not_iff bit_one_bit)

lemmas bit_grant_CA = bit_grant [of _ 6 _ 31, folded CA_exp] bit_grant [of _ 2 _ 3, folded CA_exp]
  bit_grant [of _ 10 _ 11, folded CA_exp] bit_grant [of _ 0 _ 1, folded CA_exp]

lemmas bit_revoke_CA = bit_revoke [where a = 9, folded CA_exp] bit_revoke [where a = 8, folded CA_exp]
  bit_revoke [where a = 5, folded CA_exp]

lemma allow_flags_bits:
  assumes i: "i < 32"
  shows "bit (allow_flags nl False f) i \<longleftrightarrow> allowed_bit nl f i"
proof -
  define f0 where "f0 = f AND NOT CA_AKICK"
  define f1 where "f1 = (if f0 AND CA_REMOVE \<noteq> 0 then f0 OR CA_AKICK else f0)"
  define f2 where "f2 = (if f1 AND CA_OP \<noteq> 0 then f1 OR CA_AUTOOP else f1)"
  define f3 where "f3 = (if f2 AND CA_HALFOP \<noteq> 0 then f2 OR CA_AUTOHALFOP else f2)"
  define f4 where "f4 = (if f3 AND CA_VOICE \<noteq> 0 then f3 OR CA_AUTOVOICE else f3)"
  define g0 where "g0 = (if f AND CA_FLAGS \<noteq> 0 \<and> f4 AND CA_SET = 0 then f4 AND NOT CA_FLAGS else f4)"
  define g1 where "g1 = (if g0 AND CA_RECOVER \<noteq> 0 then g0 AND NOT CA_RECOVER else g0)"
  define g2 where "g2 = (if g1 AND CA_SET \<noteq> 0 \<and> f AND CA_SET \<noteq> 0 then g1 AND NOT CA_SET else g1)"
  have b0: "bit f0 j \<longleftrightarrow> bit f j \<and> j \<noteq> 31" if "j < 32" for j
    using that by (simp add: f0_def bit_and_iff bit_not_iff bit_CA)
  have b1: "bit f1 j \<longleftrightarrow> (if j = 31 then bit f 6 else bit f j)" if "j < 32" for j
    using that by (auto simp: f1_def bit_grant_CA b0)
  have b2: "bit f2 j \<longleftrightarrow> bit f1 j \<or> j = 3 \<and> bit f 2" if "j < 32" for j
    using that by (simp add: f2_def bit_grant_CA b1)
  have b3: "bit f3 j \<longleftrightarrow> bit f2 j \<or> j = 11 \<and> bit f 10" if "j < 32" for j
    using that by (simp add: f3_def bit_grant_CA b1 b2)
  have b4: "bit f4 j \<longleftrightarrow> bit f3 j \<or> j = 1 \<and> bit f 0" if "j < 32" for j
    using that by (simp add: f4_def bit_grant_CA b1 b2 b3)
  have c0: "bit g0 j \<longleftrightarrow> bit f4 j \<and> (j = 9 \<longrightarrow> bit f 5)" if "j < 32" for j
    using that by (auto simp: g0_def bit_revoke_CA and_CA_0 b1 b2 b3 b4)
  have c1: "bit g1 j \<longleftrightarrow> bit g0 j \<and> j \<noteq> 8" if "j < 32" for j
    using that by (auto simp: g1_def bit_revoke_CA and_CA_0)
  have c2: "bit g2 j \<longleftrightarrow> bit g1 j \<and> j \<noteq> 5" if "j < 32" for j
    using that by (auto simp: g2_def bit_revoke_CA and_CA_0 b1 b2 b3 b4 c0 c1)
  have "allow_flags nl False f = (if nl then f4 else g2)"
    unfolding allow_flags_def Let_def if_False g2_def g1_def g0_def f4_def f3_def f2_def f1_def f0_def ..
  then show ?thesis
    using i by (auto simp: allowed_bit_def b1 b2 b3 b4 c0 c1 c2)
qed

lemma set_recover_0: "f AND (CA_SET OR CA_RECOVER) = 0 \<longleftrightarrow> \<not> bit f 5 \<and> \<not> bit f 8"
  by (simp add: bit.conj_disj_distrib word_or_0_iff and_CA_0)

lemma high_0: "f AND (CA_HIGHPRIVS AND NOT CA_FLAGS) = 0 \<longleftrightarrow> \<not> bit f 5 \<and> \<not> bit f 8"
proof -
  have "CA_HIGHPRIVS AND NOT CA_FLAGS = CA_SET OR CA_RECOVER"
    by (auto simp: u32_eq_iff CA_HIGHPRIVS_def bit_simps bit_CA)
  then show ?thesis by (simp add: set_recover_0)
qed

lemma high_all: "f AND CA_HIGHPRIVS = CA_HIGHPRIVS \<longleftrightarrow> bit f 5 \<and> bit f 8 \<and> bit f 9"
  (is "?l \<longleftrightarrow> ?r")
proof
  assume l: ?l
  have "bit (f AND CA_HIGHPRIVS) i = bit CA_HIGHPRIVS i" for i by (simp add: l)
  from this [of 5] this [of 8] this [of 9] show ?r by (simp_all add: CA_HIGHPRIVS_def bit_simps bit_CA)
qed (auto simp: u32_eq_iff CA_HIGHPRIVS_def bit_simps bit_CA)

lemma allow_flags_limit:
  "allow_flags nl True f =
     (if \<not> bit f 5 \<and> \<not> bit f 8 then allow_flags nl False f AND CA_AKICK
      else if \<not> (bit f 5 \<and> bit f 8 \<and> bit f 9) then allow_flags nl False f AND NOT CA_HIGHPRIVS
      else allow_flags nl False f)"
  unfolding allow_flags_def Let_def if_False if_True high_0 high_all ..



section \<open>Letter tables\<close>

text \<open>
  The contract of a flag codec: reading a printed mask gives the bits that the table knows.  Under
  it the printed form identifies the known bits of a mask.
\<close>

locale flag_codec =
  fixes print :: "u32 \<Rightarrow> cstr" and parse :: "cstr \<Rightarrow> u32 option" and known :: u32
  assumes parse_print: "parse (print f) = Some (f AND known)"
begin

lemma print_determines: "print f = print g \<Longrightarrow> f AND known = g AND known"
  by (metis parse_print option.inject)

lemma print_stable: "parse (print f) = Some g \<Longrightarrow> parse (print g) = Some g"
  by (auto simp: parse_print and.assoc)

lemma lossless: "f AND NOT known = 0 \<Longrightarrow> parse (print f) = Some f"
  by (auto simp: parse_print u32_eq_iff bit_simps)

end

definition gflags_known :: "gflags \<Rightarrow> u32" where
  "gflags_known gf = foldr (\<lambda>e k. snd e OR k) gf 0"

definition gflags_ok :: "gflags \<Rightarrow> bool" where
  "gflags_ok gf \<longleftrightarrow> distinct (map fst gf) \<and> CHR ''+'' \<notin> set (map fst gf) \<and> (\<forall>e \<in> set gf. one_bit (snd e))"

lemma gflags_fromstr_letters:
  "set es \<subseteq> set gf \<Longrightarrow> distinct (map fst gf) \<Longrightarrow> CHR ''+'' \<notin> set (map fst gf) \<Longrightarrow>
    gflags_fromstr_loop gf (map fst es) r = Some (r OR gflags_known es)"
proof (induction es arbitrary: r)
  case (Cons e es)
  then have "map_of gf (fst e) = Some (snd e)" "fst e \<noteq> CHR ''+''" by (simp, force)
  moreover have "gflags_fromstr_loop gf (map fst es) (r OR snd e) = Some ((r OR snd e) OR gflags_known es)"
    using Cons by auto
  ultimately show ?case by (simp add: gflag_fromchar_def gflags_known_def or.assoc del: map_of_eq_Some_iff)
qed (simp add: gflags_known_def)

lemma gflags_known_filter:
  assumes "\<forall>e \<in> set gf. one_bit (snd e)"
  shows "gflags_known (filter (\<lambda>e. f AND snd e \<noteq> 0) gf) = f AND gflags_known gf"
  using assms
proof (induction gf)
  case (Cons e gf)
  then have "f AND snd e = 0 \<or> f AND snd e = snd e"
    using one_bit_and [of "snd e" f] by (auto simp: and.commute)
  with Cons show ?case
    by (auto simp: gflags_known_def bit.conj_disj_distrib)
qed (simp add: gflags_known_def)

lemma gflags_codec:
  assumes "gflags_ok gf"
  shows "gflags_fromstr gf (gflags_tostr gf f) = Some (f AND gflags_known gf)"
  using assms gflags_fromstr_letters [of "filter (\<lambda>e. f AND snd e \<noteq> 0) gf" gf 0]
  by (auto simp: gflags_ok_def gflags_fromstr_def gflags_tostr_def gflag_fromchar_def gflags_known_filter)

lemma one_bit_mult2: "one_bit (2 ^ n :: u32) \<longleftrightarrow> n < 32"
  using one_bit_nz by (auto simp: one_bit_def u32_eq_iff bit_one_bit)

lemma mc_flags_ok: "gflags_ok mc_flags"
  using one_bit_numerals [of 0] one_bit_numerals [of 1] one_bit_numerals [of 2] one_bit_numerals [of 3]
    one_bit_numerals [of 4] one_bit_numerals [of 5] one_bit_numerals [of 6] one_bit_numerals [of 7]
    one_bit_numerals [of 8] one_bit_numerals [of 9] one_bit_numerals [of 10] one_bit_numerals [of 11]
    one_bit_numerals [of 12] one_bit_numerals [of 13]
  by (simp add: gflags_ok_def mc_flags_def)

lemma soper_flags_ok: "gflags_ok soper_flags"
  using one_bit_numerals [of 0] by (simp add: gflags_ok_def soper_flags_def)

interpretation mc_codec: flag_codec "gflags_tostr mc_flags" "gflags_fromstr mc_flags" "gflags_known mc_flags"
  by unfold_locales (rule gflags_codec [OF mc_flags_ok])

interpretation soper_codec:
  flag_codec "gflags_tostr soper_flags" "gflags_fromstr soper_flags" "gflags_known soper_flags"
  by unfold_locales (rule gflags_codec [OF soper_flags_ok])

interpretation chanacs_codec:
  flag_codec "bitmask_to_flags flags_init" "\<lambda>s. Some (flags_to_bitmask flags_init s 0)" "ca_all flags_init"
  by unfold_locales (simp add: to_bitmask_print flags_init_ok)

text \<open>
  The channel flags written to the database are read back unchanged.
\<close>

theorem mc_flags_lossless:
  assumes "f AND NOT 0x3FFF = 0"
  shows "gflags_fromstr mc_flags (gflags_tostr mc_flags f) = Some f"
proof -
  have "gflags_known mc_flags = 0x3FFF" by (simp add: gflags_known_def mc_flags_def)
  with assms show ?thesis by (intro mc_codec.lossless) simp
qed

theorem mc_flags_lossless_witness:
  "gflags_fromstr mc_flags (gflags_tostr mc_flags 0x2481) = Some 0x2481"
  by (rule mc_flags_lossless) simp

text \<open>
  The user flags are not: \<open>MU_EMAILNOTIFY\<close> is written with the letter of \<open>MU_EMAILMEMOS\<close> and comes
  back as that flag, and \<open>MU_NOTIFYMEMO\<close>, which has no letter, is lost.
\<close>

theorem mu_flags_lossy:
  "gflags_fromstr mu_flags (gflags_tostr mu_flags MU_EMAILNOTIFY) = Some MU_EMAILMEMOS \<and>
   gflags_fromstr mu_flags (gflags_tostr mu_flags MU_NOTIFYMEMO) = Some 0 \<and>
   MU_EMAILNOTIFY \<noteq> MU_EMAILMEMOS \<and> MU_NOTIFYMEMO \<noteq> 0"
  by (simp add: gflags_fromstr_def gflags_tostr_def mu_flags_def gflag_fromchar_def flag_simps)

end
