(* ===== verification/Object.thy ===== *)
theory Object
  imports Match
begin

text \<open>
  \<open>libathemecore/object.c\<close>: reference counted objects, their disposal, and the metadata and private
  data dictionaries every object carries.  \<open>mowgli_patricia\<close> belongs to libmowgli (a submodule without
  files here): its operations are a parameter (\<open>patricia\<close>), what the code relies on is the contract
  \<open>dictionary\<close>.
\<close>

section \<open>The dictionary interface\<close>

record ('d, 'v) patricia =
  pt_create :: 'd
  pt_retrieve :: "'d \<Rightarrow> cstr \<Rightarrow> 'v option"
  pt_add :: "'d \<Rightarrow> cstr \<Rightarrow> 'v \<Rightarrow> 'd \<times> bool"
  pt_delete :: "'d \<Rightarrow> cstr \<Rightarrow> 'd \<times> 'v option"
  pt_list :: "'d \<Rightarrow> (cstr \<times> 'v) list"

text \<open>
  The documented behaviour: keys are compared after the canonizing function given at creation, adding
  fails when the key is there, deleting returns what was removed, and iteration visits every entry
  once.
\<close>

locale dictionary =
  fixes canon :: "cstr \<Rightarrow> cstr" and D :: "('d, 'v) patricia"
  assumes retrieve_create: "pt_retrieve D (pt_create D) k = None"
    and retrieve_add: "pt_retrieve D (fst (pt_add D d k v)) k' =
      (if canon k = canon k' \<and> pt_retrieve D d k = None then Some v else pt_retrieve D d k')"
    and add_result: "snd (pt_add D d k v) \<longleftrightarrow> pt_retrieve D d k = None"
    and retrieve_delete: "pt_retrieve D (fst (pt_delete D d k)) k' =
      (if canon k = canon k' then None else pt_retrieve D d k')"
    and delete_result: "snd (pt_delete D d k) = pt_retrieve D d k"
    and retrieve_list: "pt_retrieve D d k = map_of (pt_list D d) (canon k)"
    and distinct_list: "distinct (map fst (pt_list D d))"
begin

lemma retrieve_canon: "canon k = canon k' \<Longrightarrow> pt_retrieve D d k = pt_retrieve D d k'"
  by (simp add: retrieve_list)

lemma add_new: "pt_retrieve D d k = None \<Longrightarrow> pt_retrieve D (fst (pt_add D d k v)) k = Some v"
  by (simp add: retrieve_add)

lemma add_other: "canon k \<noteq> canon k' \<Longrightarrow> pt_retrieve D (fst (pt_add D d k v)) k' = pt_retrieve D d k'"
  by (simp add: retrieve_add)

lemma delete_add: "canon k = canon k' \<Longrightarrow> pt_retrieve D (fst (pt_delete D d k)) k' = None"
  by (simp add: retrieve_delete)

end

text \<open>A provider of the contract: association lists over canonical keys.\<close>

type_synonym 'v assoc = "(cstr \<times> 'v) list"

definition assoc_dict :: "(cstr \<Rightarrow> cstr) \<Rightarrow> ((cstr \<times> 'v) list, 'v) patricia" where
  "assoc_dict canon =
     \<lparr>pt_create = [],
      pt_retrieve = (\<lambda>d k. map_of d (canon k)),
      pt_add = (\<lambda>d k v. if map_of d (canon k) = None then (d @ [(canon k, v)], True) else (d, False)),
      pt_delete = (\<lambda>d k. (filter (\<lambda>e. fst e \<noteq> canon k) d, map_of d (canon k))),
      pt_list = (\<lambda>d. map (\<lambda>k. (k, the (map_of d k))) (remdups (map fst d)))\<rparr>"

lemma map_of_pairs: "map_of (map (\<lambda>k. (k, f k)) ks) k = (if k \<in> set ks then Some (f k) else None)"
  by (induction ks) auto

lemma map_of_filter_neq: "map_of (filter (\<lambda>e. fst e \<noteq> a) d) k = (if k = a then None else map_of d k)"
  by (induction d) auto

lemma assoc_dictionary: "dictionary canon (assoc_dict canon :: ('v assoc, 'v) patricia)"
proof unfold_locales
  fix d :: "(cstr \<times> 'v) list" and k
  have "map_of d (canon k) = (if canon k \<in> fst ` set d then Some (the (map_of d (canon k))) else None)"
    by (simp add: map_of_eq_None_iff)
  then show "pt_retrieve (assoc_dict canon) d k = map_of (pt_list (assoc_dict canon) d) (canon k)"
    by (simp add: assoc_dict_def map_of_pairs)
qed (auto simp: assoc_dict_def map_add_def map_of_filter_neq comp_def split: option.splits)

interpretation assoc: dictionary canon "assoc_dict canon" for canon
  by (rule assoc_dictionary)

section \<open>Objects\<close>

text \<open>
  \<open>object_t\<close>: the reference count (\<open>-1\<close> once the object is being disposed of), whether a destructor
  is set, and the two dictionaries, created on first use.
\<close>

record ('m, 'p) object =
  refcount :: int
  destructor :: bool
  metadata :: "'m option"
  privatedata :: "'p option"

text \<open>The effects of a disposal, in order.\<close>

datatype object_effect = Call_destructor | Delete_metadata | Free_object | Destroy_privatedata | Destroy_metadata

definition object_init :: "bool \<Rightarrow> ('m, 'p) object \<Rightarrow> ('m, 'p) object" where
  "object_init des obj = obj\<lparr>destructor := des, refcount := 1\<rparr>"

definition object_ref :: "('m, 'p) object \<Rightarrow> ('m, 'p) object" where
  "object_ref obj = (if refcount obj \<ge> 0 then obj\<lparr>refcount := refcount obj + 1\<rparr> else obj)"

definition object_sink_ref :: "('m, 'p) object \<Rightarrow> ('m, 'p) object" where
  "object_sink_ref obj = (if refcount obj > 0 then obj\<lparr>refcount := refcount obj - 1\<rparr> else obj)"

definition object_dispose :: "('m, 'p) object \<Rightarrow> ('m, 'p) object \<times> object_effect list" where
  "object_dispose obj =
     (if refcount obj = - 1 then (obj, [])
      else
        (obj\<lparr>refcount := - 1\<rparr>,
         (if destructor obj then [Call_destructor] else [Delete_metadata, Free_object]) @
         (if privatedata obj \<noteq> None then [Destroy_privatedata] else []) @
         (if metadata obj \<noteq> None then [Destroy_metadata] else [])))"

definition object_unref :: "('m, 'p) object \<Rightarrow> ('m, 'p) object \<times> object_effect list" where
  "object_unref obj =
     (if \<not> refcount obj \<ge> - 1 then (obj, [])
      else if refcount obj = - 1 then (obj, [])
      else if refcount obj > 0 then
        (let o1 = object_sink_ref obj
         in if refcount o1 = 0 then object_dispose o1 else (o1, []))
      else (obj, []))"

section \<open>Life cycle\<close>

datatype object_op = Ref | Sink_ref | Unref

fun object_step :: "object_op \<Rightarrow> ('m, 'p) object \<Rightarrow> ('m, 'p) object \<times> object_effect list" where
  "object_step Ref obj = (object_ref obj, [])"
| "object_step Sink_ref obj = (object_sink_ref obj, [])"
| "object_step Unref obj = object_unref obj"

fun object_run :: "object_op list \<Rightarrow> ('m, 'p) object \<Rightarrow> ('m, 'p) object \<times> object_effect list" where
  "object_run [] obj = (obj, [])"
| "object_run (a # as) obj =
     (let (o1, e1) = object_step a obj; (o2, e2) = object_run as o1 in (o2, e1 @ e2))"

definition disposals :: "object_effect list \<Rightarrow> nat" where
  "disposals es = count_list es Call_destructor + count_list es Free_object"

lemma disposals_append [simp]: "disposals (xs @ ys) = disposals xs + disposals ys"
  by (simp add: disposals_def)

lemma disposals_Nil [simp]: "disposals [] = 0"
  by (simp add: disposals_def)

lemma object_step_count:
  assumes "refcount obj \<ge> - 1"
  shows "refcount (fst (object_step a obj)) \<ge> - 1 \<and>
    (refcount obj = - 1 \<longrightarrow> refcount (fst (object_step a obj)) = - 1) \<and>
    disposals (snd (object_step a obj)) =
      (if refcount obj \<noteq> - 1 \<and> refcount (fst (object_step a obj)) = - 1 then 1 else 0)"
  using assms
  by (cases a)
    (auto simp: object_ref_def object_sink_ref_def object_unref_def object_dispose_def Let_def disposals_def)

lemma object_run_count:
  assumes "refcount obj \<ge> - 1"
  shows "refcount (fst (object_run as obj)) \<ge> - 1 \<and>
    (refcount obj = - 1 \<longrightarrow> refcount (fst (object_run as obj)) = - 1) \<and>
    disposals (snd (object_run as obj)) =
      (if refcount obj \<noteq> - 1 \<and> refcount (fst (object_run as obj)) = - 1 then 1 else 0)"
  using assms
proof (induction as arbitrary: obj)
  case (Cons a as)
  obtain o1 e1 where 1: "object_step a obj = (o1, e1)" by (cases "object_step a obj") auto
  obtain o2 e2 where 2: "object_run as o1 = (o2, e2)" by (cases "object_run as o1") auto
  from object_step_count [OF Cons.prems, of a] 1
  have s: "refcount o1 \<ge> - 1" "refcount obj = - 1 \<longrightarrow> refcount o1 = - 1"
    "disposals e1 = (if refcount obj \<noteq> - 1 \<and> refcount o1 = - 1 then 1 else 0)" by auto
  from Cons.IH [OF s(1)] 2
  have "refcount o2 \<ge> - 1" "refcount o1 = - 1 \<longrightarrow> refcount o2 = - 1"
    "disposals e2 = (if refcount o1 \<noteq> - 1 \<and> refcount o2 = - 1 then 1 else 0)" by auto
  with s 1 2 show ?case by auto
qed auto



text \<open>
  Balanced use: after \<open>n\<close> further references, an object with count 1 survives \<open>n\<close> releases and the
  next one disposes of it.
\<close>

lemma object_run_refs:
  "refcount obj \<ge> 0 \<Longrightarrow>
    object_run (replicate n Ref @ as) obj = object_run as (obj\<lparr>refcount := refcount obj + int n\<rparr>)"
proof (induction n arbitrary: obj)
  case (Suc n)
  then show ?case by (simp add: object_ref_def Let_def split: prod.splits) (simp add: algebra_simps)
qed simp

lemma object_run_unrefs:
  "refcount obj = int n + 1 \<Longrightarrow>
    object_run (replicate n Unref @ as) obj = object_run as (obj\<lparr>refcount := 1\<rparr>)"
proof (induction n arbitrary: obj)
  case 0
  then have "obj\<lparr>refcount := 1\<rparr> = obj" by (cases obj) simp
  then show ?case by simp
next
  case (Suc n)
  then show ?case
    by (simp add: object_unref_def object_sink_ref_def Let_def split: prod.splits)
qed

theorem object_balanced:
  assumes "refcount obj = 1"
  shows "snd (object_run (replicate n Ref @ replicate n Unref) obj) = [] \<and>
    disposals (snd (object_run (replicate n Ref @ replicate n Unref @ [Unref]) obj)) = 1"
proof -
  have "refcount (obj\<lparr>refcount := refcount obj + int n\<rparr>) = int n + 1" using assms by simp
  note unref = object_run_unrefs [OF this, of "[]"] object_run_unrefs [OF this, of "[Unref]"]
  have "disposals (snd (object_run [Unref] (obj\<lparr>refcount := 1\<rparr>))) = 1"
    by (simp add: object_unref_def object_sink_ref_def object_dispose_def Let_def disposals_def)
  then show ?thesis
    using assms unref by (simp add: object_run_refs)
qed

theorem object_balanced_witness:
  "let obj = object_init False \<lparr>refcount = 0, destructor = False, metadata = None :: nat option, privatedata = None :: nat option\<rparr>
   in snd (object_run (replicate 3 Ref @ replicate 3 Unref) obj) = [] \<and>
      disposals (snd (object_run (replicate 3 Ref @ replicate 3 Unref @ [Unref]) obj)) = 1"
  unfolding Let_def by (rule object_balanced) (simp add: object_init_def)

section \<open>Metadata\<close>

record metadata_entry =
  md_name :: cstr
  md_value :: cstr

type_synonym ('d, 'p) mobject = "('d, 'p) object"

text \<open>\<open>if (obj->metadata == NULL) obj->metadata = mowgli_patricia_create(strcasecanon);\<close>\<close>

definition ensure_metadata :: "('d, metadata_entry) patricia \<Rightarrow> ('d, 'p) object \<Rightarrow> ('d, 'p) object" where
  "ensure_metadata D obj =
     (case metadata obj of None \<Rightarrow> obj\<lparr>metadata := Some (pt_create D)\<rparr> | Some _ \<Rightarrow> obj)"

definition metadata_find ::
    "('d, metadata_entry) patricia \<Rightarrow> ('d, 'p) object \<Rightarrow> cstr \<Rightarrow> metadata_entry option \<times> ('d, 'p) object" where
  "metadata_find D obj name =
     (let o1 = ensure_metadata D obj in (pt_retrieve D (the (metadata o1)) name, o1))"

definition metadata_delete ::
    "('d, metadata_entry) patricia \<Rightarrow> ('d, 'p) object \<Rightarrow> cstr \<Rightarrow> ('d, 'p) object" where
  "metadata_delete D obj name =
     (let (md, o1) = metadata_find D obj name
      in case md of
           None \<Rightarrow> o1
         | Some _ \<Rightarrow>
             (let o2 = ensure_metadata D o1
              in o2\<lparr>metadata := Some (fst (pt_delete D (the (metadata o2)) name))\<rparr>))"

definition metadata_add ::
    "('d, metadata_entry) patricia \<Rightarrow> ('d, 'p) object \<Rightarrow> cstr \<Rightarrow> cstr \<Rightarrow> metadata_entry \<times> ('d, 'p) object" where
  "metadata_add D obj name val =
     (let o1 = ensure_metadata D obj;
          (found, o2) = metadata_find D o1 name;
          o3 = (if found \<noteq> None then metadata_delete D o2 name else o2);
          md = \<lparr>md_name = name, md_value = val\<rparr>
      in (md, o3\<lparr>metadata := Some (fst (pt_add D (the (metadata o3)) (md_name md) md))\<rparr>))"

text \<open>\<open>MOWGLI_PATRICIA_FOREACH\<close> over the entries there are at the start; the body deletes the current one.\<close>

definition metadata_delete_all :: "('d, metadata_entry) patricia \<Rightarrow> ('d, 'p) object \<Rightarrow> ('d, 'p) object" where
  "metadata_delete_all D obj =
     (let o1 = ensure_metadata D obj
      in fold (\<lambda>e ob. metadata_delete D ob (md_name (snd e))) (pt_list D (the (metadata o1))) o1)"

definition privatedata_get :: "('d, 'v) patricia \<Rightarrow> ('m, 'd) object \<Rightarrow> cstr \<Rightarrow> 'v option" where
  "privatedata_get D obj key =
     (case privatedata obj of None \<Rightarrow> None | Some d \<Rightarrow> pt_retrieve D d key)"

definition privatedata_set :: "('d, 'v) patricia \<Rightarrow> ('m, 'd) object \<Rightarrow> cstr \<Rightarrow> 'v \<Rightarrow> ('m, 'd) object" where
  "privatedata_set D obj key dat =
     (let d = (case privatedata obj of None \<Rightarrow> pt_create D | Some d \<Rightarrow> d)
      in obj\<lparr>privatedata := Some (fst (pt_add D d key dat))\<rparr>)"

text \<open>The value of a metadata key, the abstract view of the dictionary.\<close>

definition metadata_value :: "('d, metadata_entry) patricia \<Rightarrow> ('d, 'p) object \<Rightarrow> cstr \<Rightarrow> cstr option" where
  "metadata_value D obj k = map_option md_value (fst (metadata_find D obj k))"

text \<open>Every entry is stored under its own name.\<close>

definition metadata_ok :: "('d, metadata_entry) patricia \<Rightarrow> ('d, 'p) object \<Rightarrow> bool" where
  "metadata_ok D obj \<longleftrightarrow>
     (\<forall>k md. fst (metadata_find D obj k) = Some md \<longrightarrow> strcasecanon (md_name md) = strcasecanon k)"

lemma ensure_metadata_Some: "\<exists>d. metadata (ensure_metadata D obj) = Some d"
  by (cases "metadata obj") (simp_all add: ensure_metadata_def)

lemma metadata_delete_Some: "\<exists>d. metadata (metadata_delete D obj k) = Some d"
  using ensure_metadata_Some [of D obj] by (auto simp: metadata_delete_def metadata_find_def Let_def split: option.splits)

locale metadata_store = dictionary strcasecanon D for D :: "('d, metadata_entry) patricia"
begin

lemma metadata_find_ensure [simp]:
  "fst (metadata_find D (ensure_metadata D obj) k) = fst (metadata_find D obj k)"
  by (simp add: metadata_find_def ensure_metadata_def Let_def split: option.splits)

lemma find_delete:
  "fst (metadata_find D (metadata_delete D obj k) k') =
    (if strcasecanon k = strcasecanon k' then None else fst (metadata_find D obj k'))"
proof (cases "metadata obj")
  case None
  then show ?thesis
    by (auto simp: metadata_delete_def metadata_find_def ensure_metadata_def Let_def retrieve_create)
next
  case (Some d)
  then show ?thesis
    using retrieve_canon [of k k' d]
    by (auto simp: metadata_delete_def metadata_find_def ensure_metadata_def Let_def retrieve_delete
        split: option.splits)
qed

lemma find_add:
  "fst (metadata_find D (snd (metadata_add D obj k v)) k') =
    (if strcasecanon k = strcasecanon k' then Some \<lparr>md_name = k, md_value = v\<rparr> else fst (metadata_find D obj k'))"
proof -
  let ?o1 = "ensure_metadata D obj"
  define o3 where "o3 = (if fst (metadata_find D ?o1 k) \<noteq> None then metadata_delete D ?o1 k else ?o1)"
  have o2: "snd (metadata_find D ?o1 k) = ?o1"
    by (simp add: metadata_find_def ensure_metadata_def Let_def split: option.splits)
  have f3: "fst (metadata_find D o3 q) = (if strcasecanon k = strcasecanon q then None else fst (metadata_find D obj q))" for q
  proof (cases "fst (metadata_find D obj k) = None")
    case True
    have "fst (metadata_find D obj q) = None" if "strcasecanon k = strcasecanon q"
      using True retrieve_canon [OF that] by (simp add: metadata_find_def Let_def)
    with True show ?thesis by (simp add: o3_def)
  next
    case False
    then show ?thesis by (simp add: o3_def find_delete)
  qed
  obtain d where d: "metadata o3 = Some d"
    unfolding o3_def
    using ensure_metadata_Some [of D obj] metadata_delete_Some [of D ?o1 k] by (cases "fst (metadata_find D ?o1 k) \<noteq> None") auto
  have r: "pt_retrieve D d q = fst (metadata_find D o3 q)" for q
    using d unfolding metadata_find_def [of D o3] by (simp add: ensure_metadata_def Let_def)
  have "snd (metadata_add D obj k v) =
      o3\<lparr>metadata := Some (fst (pt_add D d k \<lparr>md_name = k, md_value = v\<rparr>))\<rparr>"
    using d unfolding metadata_add_def Let_def case_prod_unfold o2 o3_def by simp
  then have "fst (metadata_find D (snd (metadata_add D obj k v)) k') =
      pt_retrieve D (fst (pt_add D d k \<lparr>md_name = k, md_value = v\<rparr>)) k'"
    by (simp add: metadata_find_def [of D "_ \<lparr>metadata := _\<rparr>"] ensure_metadata_def Let_def)
  then show ?thesis by (simp add: retrieve_add r f3)
qed

lemma fold_delete_find:
  "fst (metadata_find D (fold (\<lambda>e ob. metadata_delete D ob (md_name (snd e))) es obj) k) =
    (if \<exists>e \<in> set es. strcasecanon (md_name (snd e)) = strcasecanon k then None else fst (metadata_find D obj k))"
  by (induction es arbitrary: obj) (auto simp: find_delete)

lemma metadata_ok_add: "metadata_ok D obj \<Longrightarrow> metadata_ok D (snd (metadata_add D obj k v))"
  by (auto simp: metadata_ok_def find_add)

lemma metadata_ok_delete: "metadata_ok D obj \<Longrightarrow> metadata_ok D (metadata_delete D obj k)"
  by (auto simp: metadata_ok_def find_delete)

lemma delete_all_find:
  assumes "metadata_ok D obj"
  shows "fst (metadata_find D (metadata_delete_all D obj) k) = None"
proof -
  let ?o = "ensure_metadata D obj"
  obtain d where d: "metadata ?o = Some d" using ensure_metadata_Some [of D obj] by blast
  have r: "fst (metadata_find D obj k) = pt_retrieve D d k"
    using d by (simp add: metadata_find_def Let_def)
  show ?thesis
  proof (cases "pt_retrieve D d k")
    case None
    then show ?thesis using d r by (simp add: metadata_delete_all_def Let_def fold_delete_find)
  next
    case (Some md)
    then have "strcasecanon (md_name md) = strcasecanon k"
      using assms r by (auto simp: metadata_ok_def)
    moreover have "(strcasecanon k, md) \<in> set (pt_list D d)"
      using Some by (auto simp: retrieve_list intro: map_of_SomeD)
    ultimately have "\<exists>e \<in> set (pt_list D d). strcasecanon (md_name (snd e)) = strcasecanon k" by force
    then show ?thesis using d by (simp add: metadata_delete_all_def Let_def fold_delete_find)
  qed
qed

end

interpretation assoc_md: metadata_store "assoc_dict strcasecanon"
  by (simp add: metadata_store_def assoc_dictionary)

text \<open>
  A metadata entry that was added is the one found under every spelling of its name, replacing
  what was there; all other names keep their entries; deleting takes away exactly that name.
\<close>

theorem metadata_add_find:
  assumes "dictionary strcasecanon D"
  shows "metadata_value D (snd (metadata_add D obj k v)) k' =
      (if strcasecanon k = strcasecanon k' then Some v else metadata_value D obj k') \<and>
    metadata_value D (metadata_delete D obj k) k' =
      (if strcasecanon k = strcasecanon k' then None else metadata_value D obj k')"
proof -
  from assms have "metadata_store D" by (simp add: metadata_store_def)
  then show ?thesis by (simp add: metadata_value_def metadata_store.find_add metadata_store.find_delete)
qed

theorem metadata_add_find_witness:
  "let D = assoc_dict strcasecanon; obj = \<lparr>refcount = 1, destructor = False, metadata = None, privatedata = None :: nat option\<rparr>
   in metadata_value D (snd (metadata_add D obj ''private:a'' ''1'')) ''PRIVATE:A'' =
      (if strcasecanon ''private:a'' = strcasecanon ''PRIVATE:A'' then Some ''1'' else metadata_value D obj ''PRIVATE:A'') \<and>
    metadata_value D (metadata_delete D obj ''private:a'') ''PRIVATE:A'' =
      (if strcasecanon ''private:a'' = strcasecanon ''PRIVATE:A'' then None else metadata_value D obj ''PRIVATE:A'')"
  unfolding Let_def by (rule metadata_add_find) (rule assoc_dictionary)

text \<open>
  Names and entries stay in step (every entry is stored under its own name), and then
  \<open>metadata_delete_all\<close> leaves no entry.
\<close>

theorem metadata_delete_all_empty:
  assumes "dictionary strcasecanon D" and "metadata_ok D obj"
  shows "metadata_ok D (snd (metadata_add D obj k v)) \<and> metadata_ok D (metadata_delete D obj k) \<and>
    metadata_value D (metadata_delete_all D obj) k' = None"
proof -
  from assms(1) have "metadata_store D" by (simp add: metadata_store_def)
  with assms(2) show ?thesis
    by (simp add: metadata_value_def metadata_store.delete_all_find metadata_store.metadata_ok_add
        metadata_store.metadata_ok_delete)
qed

theorem metadata_delete_all_empty_witness:
  "let D = assoc_dict strcasecanon; obj = \<lparr>refcount = 1, destructor = False, metadata = None, privatedata = None :: nat option\<rparr>
   in metadata_ok D (snd (metadata_add D obj ''a'' ''1'')) \<and> metadata_ok D (metadata_delete D obj ''a'') \<and>
     metadata_value D (metadata_delete_all D obj) ''b'' = None"
  unfolding Let_def
  by (rule metadata_delete_all_empty [OF assoc_dictionary])
    (simp add: metadata_ok_def metadata_find_def ensure_metadata_def assoc_dict_def)

end
