(* ===== verification/Bans.thy ===== *)
theory Bans
  imports Cidr
begin

text \<open>
  The network ban lists of \<open>libathemecore/node.c\<close> (akills, real name bans, nick and channel
  reservations) and the services ignores of \<open>svsignore.c\<close>: adding, finding, deleting and expiring,
  with the commands they send to the server.  Lists are mowgli lists, added to at the tail.
\<close>

text \<open>A test that the code makes by a call that may read out of bounds: \<open>None\<close> when it does.\<close>

type_synonym 'a checked = "'a option"

section \<open>State\<close>

record kline =
  k_user :: cstr
  k_host :: cstr
  k_reason :: cstr
  k_setby :: cstr
  k_duration :: int
  k_settime :: int
  k_expires :: int
  k_number :: nat

record xline =
  x_realname :: cstr
  x_reason :: cstr
  x_setby :: cstr
  x_duration :: int
  x_settime :: int
  x_expires :: int
  x_number :: nat

record qline =
  q_mask :: cstr
  q_reason :: cstr
  q_setby :: cstr
  q_duration :: int
  q_settime :: int
  q_expires :: int
  q_number :: nat

text \<open>
  \<open>klnlist\<close>, \<open>xlnlist\<close>, \<open>qlnlist\<close>, the counters \<open>me.kline_id\<close>, \<open>xcnt\<close>, \<open>qcnt\<close> and \<open>cnt\<close>.
\<close>

record ban_state =
  klnlist :: "kline list"
  xlnlist :: "xline list"
  qlnlist :: "qline list"
  kline_id :: nat
  xcnt :: nat
  qcnt :: nat
  cnt_kline :: int
  cnt_xline :: int
  cnt_qline :: int

text \<open>The calls through the protocol module.\<close>

datatype ban_event =
  Kline_sts cstr cstr int cstr
| Unkline_sts cstr cstr
| Xline_sts cstr int cstr
| Unxline_sts cstr
| Qline_sts cstr int cstr
| Unqline_sts cstr

text \<open>The parts of \<open>user_t\<close> that bans look at; the address may be unknown.\<close>

record ban_user =
  u_nick :: cstr
  u_user :: cstr
  u_host :: cstr
  u_gecos :: cstr
  u_ip :: "cstr option"

text \<open>\<open>me.connected\<close>, \<open>CURRTIME\<close> and the case mapping.\<close>

record ban_env =
  connected :: bool
  CURRTIME :: int
  match_mapping :: int

section \<open>AKILLs\<close>

definition kline_add_with_id ::
    "ban_env \<Rightarrow> cstr \<Rightarrow> cstr \<Rightarrow> cstr \<Rightarrow> int \<Rightarrow> cstr \<Rightarrow> nat \<Rightarrow> ban_state \<Rightarrow> kline \<times> ban_event list \<times> ban_state" where
  "kline_add_with_id env user host reason duration setby num st =
     (let k = \<lparr>k_user = user, k_host = host, k_reason = reason, k_setby = setby, k_duration = duration,
               k_settime = CURRTIME env, k_expires = CURRTIME env + duration, k_number = num\<rparr>;
          treason = strlcpy (''[#'' @ show_nat num @ ''] '' @ reason) BUFSIZE
      in (k, if connected env then [Kline_sts user host duration treason] else [],
          st\<lparr>klnlist := klnlist st @ [k], cnt_kline := cnt_kline st + 1\<rparr>))"

definition kline_add ::
    "ban_env \<Rightarrow> cstr \<Rightarrow> cstr \<Rightarrow> cstr \<Rightarrow> int \<Rightarrow> cstr \<Rightarrow> ban_state \<Rightarrow> kline \<times> ban_event list \<times> ban_state" where
  "kline_add env user host reason duration setby st =
     (let num = kline_id st + 1
      in kline_add_with_id env user host reason duration setby num (st\<lparr>kline_id := num\<rparr>))"

definition kline_add_user ::
    "ban_env \<Rightarrow> bool \<Rightarrow> bool \<Rightarrow> ban_user \<Rightarrow> cstr \<Rightarrow> int \<Rightarrow> cstr \<Rightarrow> ban_state \<Rightarrow> kline \<times> ban_event list \<times> ban_state" where
  "kline_add_user env kline_with_ident kline_verified_ident u reason duration setby st =
     (let use_ident = kline_with_ident \<and> (\<not> kline_verified_ident \<or> char_at (u_user u) 0 \<noteq> CHR ''~'')
      in kline_add env (if use_ident then u_user u else ''*'') (case u_ip u of Some ip \<Rightarrow> ip | None \<Rightarrow> u_host u)
           reason duration setby st)"

text \<open>\<open>kline_delete(k)\<close>; the pointer is given as the position of its node in \<open>klnlist\<close>.\<close>

definition remove_at :: "nat \<Rightarrow> 'a list \<Rightarrow> 'a list" where
  "remove_at i xs = take i xs @ drop (Suc i) xs"

definition kline_delete :: "ban_env \<Rightarrow> nat \<Rightarrow> ban_state \<Rightarrow> ban_event list \<times> ban_state" where
  "kline_delete env i st =
     (let k = klnlist st ! i
      in (if connected env \<and> (k_duration k = 0 \<or> CURRTIME env < k_expires k)
          then [Unkline_sts (k_user k) (k_host k)] else [],
          st\<lparr>klnlist := remove_at i (klnlist st), cnt_kline := cnt_kline st - 1\<rparr>))"

definition kline_find :: "ban_env \<Rightarrow> cstr \<Rightarrow> cstr \<Rightarrow> ban_state \<Rightarrow> kline option" where
  "kline_find env user host st =
     find (\<lambda>k. match (match_mapping env) (Some (k_user k)) (Some user) = 0 \<and>
               match (match_mapping env) (Some (k_host k)) (Some host) = 0) (klnlist st)"

definition kline_find_num :: "nat \<Rightarrow> ban_state \<Rightarrow> kline option" where
  "kline_find_num number st = find (\<lambda>k. k_number k = number) (klnlist st)"

definition kline_matches_user :: "ban_env \<Rightarrow> ban_user \<Rightarrow> kline \<Rightarrow> bool checked" where
  "kline_matches_user env u k =
     (let mm = match_mapping env
      in if match mm (Some (k_user k)) (Some (u_user u)) \<noteq> 0 then Some False
         else if match mm (Some (k_host k)) (Some (u_host u)) = 0 then Some True
         else if match mm (Some (k_host k)) (u_ip u) = 0 then Some True
         else (case match_ips (Some (k_host k)) (u_ip u) of
                 OutOfBounds \<Rightarrow> None
               | Returns r \<Rightarrow> Some (r = 0)))"

fun find_user_loop :: "ban_env \<Rightarrow> ban_user \<Rightarrow> kline list \<Rightarrow> kline option checked" where
  "find_user_loop env u [] = Some None"
| "find_user_loop env u (k # ks) =
     (if k_duration k \<noteq> 0 \<and> k_expires k \<le> CURRTIME env then find_user_loop env u ks
      else (case kline_matches_user env u k of
              None \<Rightarrow> None
            | Some True \<Rightarrow> Some (Some k)
            | Some False \<Rightarrow> find_user_loop env u ks))"

definition kline_find_user :: "ban_env \<Rightarrow> ban_user \<Rightarrow> ban_state \<Rightarrow> kline option checked" where
  "kline_find_user env u st = find_user_loop env u (klnlist st)"

text \<open>
  The loop of \<open>kline_expire\<close> (\<open>MOWGLI_ITER_FOREACH_SAFE\<close>): the first \<open>i\<close> entries have been passed.
\<close>

function kline_expire_loop :: "ban_env \<Rightarrow> nat \<Rightarrow> ban_state \<Rightarrow> ban_event list \<times> ban_state" where
  "kline_expire_loop env i st =
     (if length (klnlist st) \<le> i then ([], st)
      else
        let k = klnlist st ! i
        in if k_duration k = 0 then kline_expire_loop env (Suc i) st
           else if k_expires k \<le> CURRTIME env then
             (let (e1, st1) = kline_delete env i st;
                  (e2, st2) = kline_expire_loop env i st1
              in (e1 @ e2, st2))
           else kline_expire_loop env (Suc i) st)"
  by auto

termination kline_expire_loop
  by (relation "measure (\<lambda>(env, i, st). length (klnlist st) - i)")
    (auto simp: kline_delete_def remove_at_def Let_def)

declare kline_expire_loop.simps [simp del]

definition kline_expire :: "ban_env \<Rightarrow> ban_state \<Rightarrow> ban_event list \<times> ban_state" where
  "kline_expire env st = kline_expire_loop env 0 st"

section \<open>Real name bans\<close>

definition xline_add ::
    "ban_env \<Rightarrow> cstr \<Rightarrow> cstr \<Rightarrow> int \<Rightarrow> cstr \<Rightarrow> ban_state \<Rightarrow> xline \<times> ban_event list \<times> ban_state" where
  "xline_add env realname reason duration setby st =
     (let x = \<lparr>x_realname = realname, x_reason = reason, x_setby = setby, x_duration = duration,
               x_settime = CURRTIME env, x_expires = CURRTIME env + duration, x_number = xcnt st + 1\<rparr>
      in (x, if connected env then [Xline_sts realname duration reason] else [],
          st\<lparr>xlnlist := xlnlist st @ [x], xcnt := xcnt st + 1, cnt_xline := cnt_xline st + 1\<rparr>))"

definition xline_hits :: "ban_env \<Rightarrow> cstr \<Rightarrow> xline \<Rightarrow> bool" where
  "xline_hits env realname x \<longleftrightarrow> match (match_mapping env) (Some (x_realname x)) (Some realname) = 0"

definition xline_find :: "ban_env \<Rightarrow> cstr \<Rightarrow> ban_state \<Rightarrow> xline option" where
  "xline_find env realname st = find (xline_hits env realname) (xlnlist st)"

definition xline_find_num :: "nat \<Rightarrow> ban_state \<Rightarrow> xline option" where
  "xline_find_num number st = find (\<lambda>x. x_number x = number) (xlnlist st)"

definition xline_find_user :: "ban_env \<Rightarrow> ban_user \<Rightarrow> ban_state \<Rightarrow> xline option" where
  "xline_find_user env u st =
     find (\<lambda>x. \<not> (x_duration x \<noteq> 0 \<and> x_expires x \<le> CURRTIME env) \<and> xline_hits env (u_gecos u) x) (xlnlist st)"

text \<open>The position of the node that \<open>xline_find\<close> returns.\<close>

fun find_index :: "('a \<Rightarrow> bool) \<Rightarrow> 'a list \<Rightarrow> nat option" where
  "find_index P [] = None"
| "find_index P (x # xs) = (if P x then Some 0 else map_option Suc (find_index P xs))"

definition unxline :: "ban_env \<Rightarrow> xline \<Rightarrow> ban_event list" where
  "unxline env x =
     (if connected env \<and> (x_duration x = 0 \<or> CURRTIME env < x_expires x) then [Unxline_sts (x_realname x)] else [])"

definition xline_delete :: "ban_env \<Rightarrow> cstr \<Rightarrow> ban_state \<Rightarrow> ban_event list \<times> ban_state" where
  "xline_delete env realname st =
     (case find_index (xline_hits env realname) (xlnlist st) of
        None \<Rightarrow> ([], st)
      | Some i \<Rightarrow>
          (unxline env (xlnlist st ! i),
           st\<lparr>xlnlist := remove_at i (xlnlist st), cnt_xline := cnt_xline st - 1\<rparr>))"

text \<open>
  The loop of \<open>xline_expire\<close>: the entry at \<open>i\<close> is the current one and the next one (\<open>tn\<close>) was read
  before the body; \<open>xline_delete\<close> looks the name up again and may remove an entry before the
  current one, the current one, a later one, or the saved next one, which the loop then uses after
  it was freed (\<open>None\<close>).
\<close>

function xline_expire_loop :: "ban_env \<Rightarrow> nat \<Rightarrow> ban_state \<Rightarrow> (ban_event list \<times> ban_state) checked" where
  "xline_expire_loop env i st =
     (if length (xlnlist st) \<le> i then Some ([], st)
      else
        let x = xlnlist st ! i
        in if x_duration x = 0 then xline_expire_loop env (Suc i) st
           else if x_expires x \<le> CURRTIME env then
             (let (e1, st1) = xline_delete env (x_realname x) st
              in case find_index (xline_hits env (x_realname x)) (xlnlist st) of
                   None \<Rightarrow> map_option (\<lambda>(e2, st2). (e1 @ e2, st2)) (xline_expire_loop env (Suc i) st1)
                 | Some j \<Rightarrow>
                     if j = Suc i then None
                     else map_option (\<lambda>(e2, st2). (e1 @ e2, st2))
                            (xline_expire_loop env (if j \<le> i then i else Suc i) st1))
           else xline_expire_loop env (Suc i) st)"
  by auto

lemma find_index_less: "find_index P xs = Some i \<Longrightarrow> i < length xs"
  by (induction xs arbitrary: i) (auto split: if_splits)

lemma length_remove_at: "i < length xs \<Longrightarrow> length (remove_at i xs) = length xs - 1"
  by (simp add: remove_at_def)

termination xline_expire_loop
  by (relation "measure (\<lambda>(env, i, st). length (xlnlist st) - i)")
    (auto simp: xline_delete_def Let_def length_remove_at dest: find_index_less split: option.splits)

declare xline_expire_loop.simps [simp del]

definition xline_expire :: "ban_env \<Rightarrow> ban_state \<Rightarrow> (ban_event list \<times> ban_state) checked" where
  "xline_expire env st = xline_expire_loop env 0 st"

section \<open>Nick and channel reservations\<close>

definition qline_add ::
    "ban_env \<Rightarrow> cstr \<Rightarrow> cstr \<Rightarrow> int \<Rightarrow> cstr \<Rightarrow> ban_state \<Rightarrow> qline \<times> ban_event list \<times> ban_state" where
  "qline_add env msk reason duration setby st =
     (let q = \<lparr>q_mask = msk, q_reason = reason, q_setby = setby, q_duration = duration,
               q_settime = CURRTIME env, q_expires = CURRTIME env + duration, q_number = qcnt st + 1\<rparr>
      in (q, if connected env then [Qline_sts msk duration reason] else [],
          st\<lparr>qlnlist := qlnlist st @ [q], qcnt := qcnt st + 1, cnt_qline := cnt_qline st + 1\<rparr>))"

definition qline_same :: "ban_env \<Rightarrow> cstr \<Rightarrow> qline \<Rightarrow> bool" where
  "qline_same env msk q \<longleftrightarrow> irccasecmp (match_mapping env) (Some (q_mask q)) (Some msk) = 0"

definition qline_find :: "ban_env \<Rightarrow> cstr \<Rightarrow> ban_state \<Rightarrow> qline option" where
  "qline_find env msk st = find (qline_same env msk) (qlnlist st)"

definition qline_active :: "ban_env \<Rightarrow> qline \<Rightarrow> bool" where
  "qline_active env q \<longleftrightarrow> \<not> (q_duration q \<noteq> 0 \<and> q_expires q \<le> CURRTIME env)"

definition qline_find_match :: "ban_env \<Rightarrow> cstr \<Rightarrow> ban_state \<Rightarrow> qline option" where
  "qline_find_match env msk st =
     find (\<lambda>q. qline_active env q \<and> match (match_mapping env) (Some (q_mask q)) (Some msk) = 0) (qlnlist st)"

definition qline_find_num :: "nat \<Rightarrow> ban_state \<Rightarrow> qline option" where
  "qline_find_num number st = find (\<lambda>q. q_number q = number) (qlnlist st)"

definition qline_find_user :: "ban_env \<Rightarrow> ban_user \<Rightarrow> ban_state \<Rightarrow> qline option" where
  "qline_find_user env u st =
     find (\<lambda>q. qline_active env q \<and>
               \<not> (char_at (q_mask q) 0 = CHR ''#'' \<or> char_at (q_mask q) 0 = CHR ''&'') \<and>
               match (match_mapping env) (Some (q_mask q)) (Some (u_nick u)) = 0) (qlnlist st)"

definition qline_find_channel :: "ban_env \<Rightarrow> cstr \<Rightarrow> ban_state \<Rightarrow> qline option" where
  "qline_find_channel env name st =
     find (\<lambda>q. qline_active env q \<and> irccasecmp (match_mapping env) (Some (q_mask q)) (Some name) = 0) (qlnlist st)"

definition unqline :: "ban_env \<Rightarrow> qline \<Rightarrow> ban_event list" where
  "unqline env q =
     (if connected env \<and> (q_duration q = 0 \<or> CURRTIME env < q_expires q) then [Unqline_sts (q_mask q)] else [])"

definition qline_delete :: "ban_env \<Rightarrow> cstr \<Rightarrow> ban_state \<Rightarrow> ban_event list \<times> ban_state" where
  "qline_delete env msk st =
     (case find_index (qline_same env msk) (qlnlist st) of
        None \<Rightarrow> ([], st)
      | Some i \<Rightarrow>
          (unqline env (qlnlist st ! i),
           st\<lparr>qlnlist := remove_at i (qlnlist st), cnt_qline := cnt_qline st - 1\<rparr>))"

text \<open>As for real name bans, but deletion looks the mask up by \<open>irccasecmp\<close>.\<close>

function qline_expire_loop :: "ban_env \<Rightarrow> nat \<Rightarrow> ban_state \<Rightarrow> (ban_event list \<times> ban_state) checked" where
  "qline_expire_loop env i st =
     (if length (qlnlist st) \<le> i then Some ([], st)
      else
        let q = qlnlist st ! i
        in if q_duration q = 0 then qline_expire_loop env (Suc i) st
           else if q_expires q \<le> CURRTIME env then
             (let (e1, st1) = qline_delete env (q_mask q) st
              in case find_index (qline_same env (q_mask q)) (qlnlist st) of
                   None \<Rightarrow> map_option (\<lambda>(e2, st2). (e1 @ e2, st2)) (qline_expire_loop env (Suc i) st1)
                 | Some j \<Rightarrow>
                     if j = Suc i then None
                     else map_option (\<lambda>(e2, st2). (e1 @ e2, st2))
                            (qline_expire_loop env (if j \<le> i then i else Suc i) st1))
           else qline_expire_loop env (Suc i) st)"
  by auto

termination qline_expire_loop
  by (relation "measure (\<lambda>(env, i, st). length (qlnlist st) - i)")
    (auto simp: qline_delete_def Let_def length_remove_at dest: find_index_less split: option.splits)

declare qline_expire_loop.simps [simp del]

definition qline_expire :: "ban_env \<Rightarrow> ban_state \<Rightarrow> (ban_event list \<times> ban_state) checked" where
  "qline_expire env st = qline_expire_loop env 0 st"

section \<open>Services ignores\<close>

record svsignore =
  sv_mask :: cstr
  sv_settime :: int
  sv_reason :: cstr

record svsignore_state =
  svs_ignore_list :: "svsignore list"
  cnt_svsignore :: int

definition svsignore_add :: "int \<Rightarrow> cstr \<Rightarrow> cstr \<Rightarrow> svsignore_state \<Rightarrow> svsignore \<times> svsignore_state" where
  "svsignore_add now msk reason st =
     (let s = \<lparr>sv_mask = msk, sv_settime = now, sv_reason = reason\<rparr>
      in (s, st\<lparr>svs_ignore_list := svs_ignore_list st @ [s], cnt_svsignore := cnt_svsignore st + 1\<rparr>))"

definition user_hostmask :: "ban_user \<Rightarrow> cstr" where
  "user_hostmask u =
     (let h0 = strlcpy (u_nick u) BUFSIZE;
          h1 = strlcat h0 ''!'' BUFSIZE;
          h2 = strlcat h1 (u_user u) BUFSIZE;
          h3 = strlcat h2 ''@'' BUFSIZE
      in strlcat h3 (u_host u) BUFSIZE)"

definition svsignore_find :: "bool \<Rightarrow> int \<Rightarrow> ban_user \<Rightarrow> svsignore_state \<Rightarrow> svsignore option" where
  "svsignore_find use_svsignore mm u st =
     (if \<not> use_svsignore then None
      else find (\<lambda>s. match mm (Some (sv_mask s)) (Some (user_hostmask u)) = 0) (svs_ignore_list st))"

definition svsignore_delete :: "nat \<Rightarrow> svsignore_state \<Rightarrow> svsignore_state" where
  "svsignore_delete i st = st\<lparr>svs_ignore_list := remove_at i (svs_ignore_list st)\<rparr>"

section \<open>Expiry\<close>

text \<open>
  What the users of a ban list rely on: expiring leaves exactly the permanent entries and those whose
  time has not come, in order, and sends nothing to the server (which has dropped them itself).
\<close>

locale timed_bans =
  fixes entries :: "'s \<Rightarrow> 'b list" and dur :: "'b \<Rightarrow> int" and expi :: "'b \<Rightarrow> int"
    and expire :: "int \<Rightarrow> 's \<Rightarrow> (ban_event list \<times> 's) checked" and ok :: "'s \<Rightarrow> bool"
  assumes expire_exact: "ok st \<Longrightarrow> \<exists>st'. expire now st = Some ([], st') \<and> ok st' \<and>
    entries st' = filter (\<lambda>b. dur b = 0 \<or> now < expi b) (entries st)"
begin

lemma expire_defined: "ok st \<Longrightarrow> expire now st \<noteq> None"
  using expire_exact by fastforce

lemma expire_keeps_permanent:
  "ok st \<Longrightarrow> expire now st = Some (e, st') \<Longrightarrow> b \<in> set (entries st) \<Longrightarrow> dur b = 0 \<Longrightarrow> b \<in> set (entries st')"
  using expire_exact [of st now] by auto

lemma expire_removes:
  "ok st \<Longrightarrow> expire now st = Some (e, st') \<Longrightarrow> b \<in> set (entries st') \<Longrightarrow> dur b = 0 \<or> now < expi b"
  using expire_exact [of st now] by auto

lemma expire_twice:
  "ok st \<Longrightarrow> now \<le> now' \<Longrightarrow> expire now st = Some (e, st1) \<Longrightarrow> expire now' st1 = Some (e', st2) \<Longrightarrow>
    expire now' st = Some (e'', st3) \<Longrightarrow> entries st2 = entries st3"
  using expire_exact [of st now] expire_exact [of st1 now'] expire_exact [of st now']
  by (auto intro!: filter_cong)

end

lemma remove_at_split: "i < length xs \<Longrightarrow> xs = take i xs @ xs ! i # drop (Suc i) xs"
  by (rule id_take_nth_drop)

lemma take_remove_at: "i < length xs \<Longrightarrow> take i (remove_at i xs) = take i xs"
  by (simp add: remove_at_def)

lemma drop_remove_at: "i < length xs \<Longrightarrow> drop i (remove_at i xs) = drop (Suc i) xs"
  by (simp add: remove_at_def)

abbreviation k_active :: "int \<Rightarrow> kline \<Rightarrow> bool" where
  "k_active now k \<equiv> k_duration k = 0 \<or> now < k_expires k"

abbreviation x_active :: "int \<Rightarrow> xline \<Rightarrow> bool" where
  "x_active now x \<equiv> x_duration x = 0 \<or> now < x_expires x"

abbreviation q_active :: "int \<Rightarrow> qline \<Rightarrow> bool" where
  "q_active now q \<equiv> q_duration q = 0 \<or> now < q_expires q"

lemma kline_expire_loop_exact:
  "fst (kline_expire_loop env i st) = [] \<and>
   klnlist (snd (kline_expire_loop env i st)) =
     take i (klnlist st) @ filter (k_active (CURRTIME env)) (drop i (klnlist st)) \<and>
   cnt_kline (snd (kline_expire_loop env i st)) - int (length (klnlist (snd (kline_expire_loop env i st)))) =
     cnt_kline st - int (length (klnlist st))"
proof (induction env i st rule: kline_expire_loop.induct)
  case (1 env i st)
  show ?case
  proof (cases "length (klnlist st) \<le> i")
    case True
    then show ?thesis by (simp add: kline_expire_loop.simps [of env i st])
  next
    case False
    let ?k = "klnlist st ! i"
    have d: "drop i (klnlist st) = ?k # drop (Suc i) (klnlist st)"
      and t: "take (Suc i) (klnlist st) = take i (klnlist st) @ [?k]"
      using False by (simp_all add: Cons_nth_drop_Suc take_Suc_conv_app_nth)
    show ?thesis
    proof (cases "k_active (CURRTIME env) ?k")
      case True
      then have "kline_expire_loop env i st = kline_expire_loop env (Suc i) st"
        using False by (subst kline_expire_loop.simps) (auto simp: Let_def)
      with "1.IH"(1,3) False True show ?thesis
        by (cases "k_duration ?k = 0") (auto simp: d t)
    next
      case False2: False
      let ?st1 = "st\<lparr>klnlist := remove_at i (klnlist st), cnt_kline := cnt_kline st - 1\<rparr>"
      have del: "kline_delete env i st = ([], ?st1)"
        using False2 by (simp add: kline_delete_def Let_def)
      have "kline_expire_loop env i st = kline_expire_loop env i ?st1"
        using False False2 del by (simp add: kline_expire_loop.simps [of env i st] Let_def)
      moreover have "klnlist ?st1 = remove_at i (klnlist st)" by simp
      ultimately show ?thesis
        using "1.IH"(2) [OF _ refl _ _ del [symmetric] refl] False False2
        by (auto simp: d take_remove_at drop_remove_at length_remove_at)
    qed
  qed
qed

lemma find_index_unique:
  "i < length l \<Longrightarrow> distinct l \<Longrightarrow> (\<forall>y \<in> set l. P y \<longleftrightarrow> y = l ! i) \<Longrightarrow> find_index P l = Some i"
proof (induction l arbitrary: i)
  case (Cons x l)
  show ?case
  proof (cases i)
    case 0
    with Cons.prems show ?thesis by auto
  next
    case (Suc j)
    with Cons.prems have "x \<noteq> l ! j" "j < length l" by auto
    with Cons.prems Suc Cons.IH [of j] show ?thesis by auto
  qed
qed simp

text \<open>Every real name ban matches its own text and no other ban's text.\<close>

definition xlines_separate :: "ban_env \<Rightarrow> xline list \<Rightarrow> bool" where
  "xlines_separate env l \<longleftrightarrow>
     distinct l \<and> (\<forall>x \<in> set l. \<forall>y \<in> set l. xline_hits env (x_realname x) y \<longleftrightarrow> y = x)"

definition qlines_separate :: "ban_env \<Rightarrow> qline list \<Rightarrow> bool" where
  "qlines_separate env l \<longleftrightarrow>
     distinct l \<and> (\<forall>x \<in> set l. \<forall>y \<in> set l. qline_same env (q_mask x) y \<longleftrightarrow> y = x)"

lemma set_remove_at: "set (remove_at i l) \<subseteq> set l"
  by (auto simp: remove_at_def dest: in_set_takeD in_set_dropD)

lemma distinct_remove_at: "distinct l \<Longrightarrow> distinct (remove_at i l)"
  using set_take_disj_set_drop_if_distinct [of l i "Suc i"] by (simp add: remove_at_def)

lemma xlines_separate_remove: "xlines_separate env l \<Longrightarrow> xlines_separate env (remove_at i l)"
  using set_remove_at [of i l] by (auto simp: xlines_separate_def distinct_remove_at)

lemma qlines_separate_remove: "qlines_separate env l \<Longrightarrow> qlines_separate env (remove_at i l)"
  using set_remove_at [of i l] by (auto simp: qlines_separate_def distinct_remove_at)

lemma xlines_separate_filter: "xlines_separate env l \<Longrightarrow> xlines_separate env (filter P l)"
  by (auto simp: xlines_separate_def)

lemma qlines_separate_filter: "qlines_separate env l \<Longrightarrow> qlines_separate env (filter P l)"
  by (auto simp: qlines_separate_def)

lemma xline_expire_loop_exact:
  "xlines_separate env (xlnlist st) \<Longrightarrow>
   \<exists>st'. xline_expire_loop env i st = Some ([], st') \<and>
     xlnlist st' = take i (xlnlist st) @ filter (x_active (CURRTIME env)) (drop i (xlnlist st))"
proof (induction env i st rule: xline_expire_loop.induct)
  case (1 env i st)
  show ?case
  proof (cases "length (xlnlist st) \<le> i")
    case True
    then show ?thesis by (simp add: xline_expire_loop.simps [of env i st])
  next
    case False
    let ?x = "xlnlist st ! i"
    have d: "drop i (xlnlist st) = ?x # drop (Suc i) (xlnlist st)"
      and t: "take (Suc i) (xlnlist st) = take i (xlnlist st) @ [?x]"
      using False by (simp_all add: Cons_nth_drop_Suc take_Suc_conv_app_nth)
    show ?thesis
    proof (cases "x_active (CURRTIME env) ?x")
      case True
      then have "xline_expire_loop env i st = xline_expire_loop env (Suc i) st"
        using False by (subst xline_expire_loop.simps) (auto simp: Let_def)
      with "1.IH"(1,4) "1.prems" False True show ?thesis
        by (cases "x_duration ?x = 0") (auto simp: d t)
    next
      case False2: False
      let ?st1 = "st\<lparr>xlnlist := remove_at i (xlnlist st), cnt_xline := cnt_xline st - 1\<rparr>"
      have fi: "find_index (xline_hits env (x_realname ?x)) (xlnlist st) = Some i"
        using False "1.prems" by (intro find_index_unique) (auto simp: xlines_separate_def)
      then have del: "xline_delete env (x_realname ?x) st = ([], ?st1)"
        using False2 by (simp add: xline_delete_def unxline_def)
      have "xline_expire_loop env i st = xline_expire_loop env i ?st1"
        using False False2 del fi
        by (simp add: xline_expire_loop.simps [of env i st] Let_def option.map_id0)
      moreover have "xlines_separate env (xlnlist ?st1)"
        using "1.prems" by (simp add: xlines_separate_remove)
      ultimately show ?thesis
        using "1.IH"(3) [OF _ refl _ _ del [symmetric] refl fi] False False2
        by (auto simp: d take_remove_at drop_remove_at)
    qed
  qed
qed

lemma qline_expire_loop_exact:
  "qlines_separate env (qlnlist st) \<Longrightarrow>
   \<exists>st'. qline_expire_loop env i st = Some ([], st') \<and>
     qlnlist st' = take i (qlnlist st) @ filter (q_active (CURRTIME env)) (drop i (qlnlist st))"
proof (induction env i st rule: qline_expire_loop.induct)
  case (1 env i st)
  show ?case
  proof (cases "length (qlnlist st) \<le> i")
    case True
    then show ?thesis by (simp add: qline_expire_loop.simps [of env i st])
  next
    case False
    let ?x = "qlnlist st ! i"
    have d: "drop i (qlnlist st) = ?x # drop (Suc i) (qlnlist st)"
      and t: "take (Suc i) (qlnlist st) = take i (qlnlist st) @ [?x]"
      using False by (simp_all add: Cons_nth_drop_Suc take_Suc_conv_app_nth)
    show ?thesis
    proof (cases "q_active (CURRTIME env) ?x")
      case True
      then have "qline_expire_loop env i st = qline_expire_loop env (Suc i) st"
        using False by (subst qline_expire_loop.simps) (auto simp: Let_def)
      with "1.IH"(1,4) "1.prems" False True show ?thesis
        by (cases "q_duration ?x = 0") (auto simp: d t)
    next
      case False2: False
      let ?st1 = "st\<lparr>qlnlist := remove_at i (qlnlist st), cnt_qline := cnt_qline st - 1\<rparr>"
      have fi: "find_index (qline_same env (q_mask ?x)) (qlnlist st) = Some i"
        using False "1.prems" by (intro find_index_unique) (auto simp: qlines_separate_def)
      then have del: "qline_delete env (q_mask ?x) st = ([], ?st1)"
        using False2 by (simp add: qline_delete_def unqline_def)
      have "qline_expire_loop env i st = qline_expire_loop env i ?st1"
        using False False2 del fi
        by (simp add: qline_expire_loop.simps [of env i st] Let_def option.map_id0)
      moreover have "qlines_separate env (qlnlist ?st1)"
        using "1.prems" by (simp add: qlines_separate_remove)
      ultimately show ?thesis
        using "1.IH"(3) [OF _ refl _ _ del [symmetric] refl fi] False False2
        by (auto simp: d take_remove_at drop_remove_at)
    qed
  qed
qed

abbreviation at_time :: "ban_env \<Rightarrow> int \<Rightarrow> ban_env" where
  "at_time env now \<equiv> env\<lparr>CURRTIME := now\<rparr>"

interpretation klines: timed_bans klnlist k_duration k_expires
  "\<lambda>now st. Some (kline_expire (at_time env now) st)" "\<lambda>st. True" for env
proof unfold_locales
  fix st :: ban_state and now
  show "\<exists>st'. Some (kline_expire (at_time env now) st) = Some ([], st') \<and> True \<and>
      klnlist st' = filter (k_active now) (klnlist st)"
    using kline_expire_loop_exact [of "at_time env now" 0 st]
    by (cases "kline_expire_loop (at_time env now) 0 st") (simp add: kline_expire_def)
qed

interpretation xlines: timed_bans xlnlist x_duration x_expires
  "\<lambda>now st. xline_expire (at_time env now) st" "\<lambda>st. xlines_separate env (xlnlist st)" for env
proof unfold_locales
  fix st :: ban_state and now
  assume "xlines_separate env (xlnlist st)"
  moreover from this have "xlines_separate (at_time env now) (xlnlist st)"
    by (simp add: xlines_separate_def xline_hits_def)
  ultimately show "\<exists>st'. xline_expire (at_time env now) st = Some ([], st') \<and> xlines_separate env (xlnlist st') \<and>
      xlnlist st' = filter (x_active now) (xlnlist st)"
    using xline_expire_loop_exact [of "at_time env now" st 0]
    by (auto simp: xline_expire_def xlines_separate_filter)
qed

interpretation qlines: timed_bans qlnlist q_duration q_expires
  "\<lambda>now st. qline_expire (at_time env now) st" "\<lambda>st. qlines_separate env (qlnlist st)" for env
proof unfold_locales
  fix st :: ban_state and now
  assume "qlines_separate env (qlnlist st)"
  moreover from this have "qlines_separate (at_time env now) (qlnlist st)"
    by (simp add: qlines_separate_def qline_same_def)
  ultimately show "\<exists>st'. qline_expire (at_time env now) st = Some ([], st') \<and> qlines_separate env (qlnlist st') \<and>
      qlnlist st' = filter (q_active now) (qlnlist st)"
    using qline_expire_loop_exact [of "at_time env now" st 0]
    by (auto simp: qline_expire_def qlines_separate_filter)
qed

text \<open>
  \<open>kline_expire\<close> removes exactly the akills whose time has come, keeps the others in order, sends
  nothing to the server, and the counter stays in step with the list.
\<close>

theorem kline_expire_exact:
  "klnlist (snd (kline_expire env st)) = filter (k_active (CURRTIME env)) (klnlist st) \<and>
   fst (kline_expire env st) = [] \<and>
   cnt_kline (snd (kline_expire env st)) - int (length (klnlist (snd (kline_expire env st)))) =
     cnt_kline st - int (length (klnlist st))"
  using kline_expire_loop_exact [of env 0 st] unfolding kline_expire_def take_0 drop_0 append_Nil by blast

text \<open>
  When no real name ban matches another one's text, \<open>xline_expire\<close> is defined and, at whatever
  times it runs, leaves what a single run at the last time leaves; permanent bans survive.
\<close>

theorem xline_expire_twice:
  assumes "xlines_separate env (xlnlist st)" and "now \<le> now'"
    and "xline_expire (at_time env now) st = Some (e, st1)"
    and "xline_expire (at_time env now') st1 = Some (e', st2)"
    and "xline_expire (at_time env now') st = Some (e'', st3)"
  shows "xlnlist st2 = xlnlist st3 \<and> (\<forall>x \<in> set (xlnlist st). x_duration x = 0 \<longrightarrow> x \<in> set (xlnlist st1))"
  using xlines.expire_twice [OF assms] xlines.expire_keeps_permanent [OF assms(1,3)] by blast

definition sample_env :: ban_env where
  "sample_env = \<lparr>connected = True, CURRTIME = 100, match_mapping = MATCH_RFC1459\<rparr>"

definition sample_xline :: "cstr \<Rightarrow> int \<Rightarrow> int \<Rightarrow> nat \<Rightarrow> xline" where
  "sample_xline r d e n =
     \<lparr>x_realname = r, x_reason = ''r'', x_setby = ''s'', x_duration = d, x_settime = 0, x_expires = e, x_number = n\<rparr>"

definition sample_bans :: "xline list \<Rightarrow> ban_state" where
  "sample_bans l =
     \<lparr>klnlist = [], xlnlist = l, qlnlist = [], kline_id = 0, xcnt = length l, qcnt = 0,
      cnt_kline = 0, cnt_xline = int (length l), cnt_qline = 0\<rparr>"

lemma sample_separate:
  "xlines_separate sample_env [sample_xline ''ab'' 10 90 1, sample_xline ''cd'' 0 0 2]"
  unfolding xlines_separate_def by (intro conjI ballI) (auto | code_simp)+

theorem xline_expire_twice_witness:
  "let a = sample_xline ''ab'' 10 90 1; c = sample_xline ''cd'' 0 0 2;
       st' = (sample_bans [a, c])\<lparr>xlnlist := [c], cnt_xline := 1\<rparr>
   in xlnlist st' = xlnlist st' \<and> (\<forall>x \<in> set (xlnlist (sample_bans [a, c])). x_duration x = 0 \<longrightarrow> x \<in> set (xlnlist st'))"
proof -
  let ?a = "sample_xline ''ab'' 10 90 1" and ?c = "sample_xline ''cd'' 0 0 2"
  let ?st = "sample_bans [?a, ?c]"
  let ?st' = "?st\<lparr>xlnlist := [?c], cnt_xline := 1\<rparr>"
  have s: "xlines_separate sample_env (xlnlist ?st)"
    using sample_separate by (simp add: sample_bans_def)
  have "xline_expire (at_time sample_env 95) ?st = Some ([], ?st')"
    "xline_expire (at_time sample_env 100) ?st' = Some ([], ?st')"
    "xline_expire (at_time sample_env 100) ?st = Some ([], ?st')" by code_simp+
  from xline_expire_twice [OF s _ this] show ?thesis unfolding Let_def by simp
qed

text \<open>
  In general it does not: deleting by real name looks the name up with \<open>match\<close>, so an expired ban
  removes the first ban that matches its text.  With a permanent ban on \<open>*spam*\<close> and an expired one on
  \<open>buy spam\<close>, expiry lifts the permanent ban on the network and keeps the expired one.
\<close>

theorem xline_expire_wrong_ban:
  "let p = sample_xline ''*spam*'' 0 0 1; x = sample_xline ''buy spam'' 10 90 2
   in map_option (\<lambda>(e, st). (e, xlnlist st)) (xline_expire sample_env (sample_bans [p, x])) =
        Some ([Unxline_sts ''*spam*''], [x])"
  by code_simp

text \<open>
  When the removed ban is the one after the current one, the loop goes on with freed memory: a mask
  with an escaped star does not match its own text, but the plain mask in the next entry does.
\<close>

theorem xline_expire_use_after_free:
  "xline_expire sample_env (sample_bans [sample_xline [CHR ''a'', CHR 0x5C, CHR ''*''] 10 90 1,
     sample_xline ''a*'' 0 0 2]) = None"
  by code_simp

section \<open>Numbers of akills\<close>

text \<open>What operators do with akills: add, delete, let expire.\<close>

inductive kline_reach :: "ban_state \<Rightarrow> bool" where
  start: "klnlist st = [] \<Longrightarrow> cnt_kline st = 0 \<Longrightarrow> kline_reach st"
| add: "kline_reach st \<Longrightarrow> kline_reach (snd (snd (kline_add env user host reason duration setby st)))"
| del: "kline_reach st \<Longrightarrow> i < length (klnlist st) \<Longrightarrow> kline_reach (snd (kline_delete env i st))"
| expire: "kline_reach st \<Longrightarrow> kline_reach (snd (kline_expire env st))"

definition klines_numbered :: "ban_state \<Rightarrow> bool" where
  "klines_numbered st \<longleftrightarrow>
     distinct (map k_number (klnlist st)) \<and> (\<forall>k \<in> set (klnlist st). k_number k \<le> kline_id st) \<and>
     cnt_kline st = int (length (klnlist st))"

lemma kline_expire_loop_id: "kline_id (snd (kline_expire_loop env i st)) = kline_id st"
proof (induction env i st rule: kline_expire_loop.induct)
  case (1 env i st)
  show ?case
    using "1.IH" by (subst kline_expire_loop.simps) (auto simp: Let_def kline_delete_def split: prod.splits)
qed

lemma map_remove_at: "map f (remove_at i l) = remove_at i (map f l)"
  by (simp add: remove_at_def take_map drop_map)

lemma kline_reach_numbered: "kline_reach st \<Longrightarrow> klines_numbered st"
proof (induction rule: kline_reach.induct)
  case (add st env user host reason duration setby)
  then show ?case
    by (fastforce simp: klines_numbered_def kline_add_def kline_add_with_id_def Let_def)
next
  case (del st i env)
  then show ?case
    using set_remove_at [of i "klnlist st"]
    by (auto simp: klines_numbered_def kline_delete_def Let_def map_remove_at distinct_remove_at length_remove_at)
next
  case (expire st env)
  have "klnlist (snd (kline_expire env st)) = filter (k_active (CURRTIME env)) (klnlist st)"
    and "cnt_kline (snd (kline_expire env st)) - int (length (klnlist (snd (kline_expire env st)))) =
      cnt_kline st - int (length (klnlist st))"
    using kline_expire_loop_exact [of env 0 st] unfolding kline_expire_def take_0 drop_0 append_Nil by blast+
  with expire.IH show ?case
    by (auto simp: klines_numbered_def kline_expire_def kline_expire_loop_id intro: distinct_map_filter)
qed (simp add: klines_numbered_def)

lemma find_unique: "x \<in> set l \<Longrightarrow> distinct (map f l) \<Longrightarrow> find (\<lambda>y. f y = f x) l = Some x"
  by (induction l) (auto simp: image_iff)



section \<open>Finding the akill of a user\<close>

lemma find_user_loop_find:
  "\<forall>k \<in> set ks. match_ips (Some (k_host k)) (u_ip u) \<noteq> OutOfBounds \<Longrightarrow>
    find_user_loop env u ks =
      Some (find (\<lambda>k. k_active (CURRTIME env) k \<and> kline_matches_user env u k = Some True) ks)"
proof (induction ks)
  case (Cons k ks)
  then have "kline_matches_user env u k \<noteq> None"
    by (auto simp: kline_matches_user_def Let_def split: match_outcome.splits)
  with Cons show ?case by (auto split: option.splits bool.splits)
qed simp

text \<open>
  When no prefix comparison runs off its arrays, \<open>kline_find_user\<close> is defined and returns the
  first akill in the list that is permanent or unexpired and that matches the user by host, by
  address text or by address prefix; an expired akill never hits.
\<close>

theorem kline_find_user_first:
  assumes "\<forall>k \<in> set (klnlist st). match_ips (Some (k_host k)) (u_ip u) \<noteq> OutOfBounds"
  shows "kline_find_user env u st =
      Some (find (\<lambda>k. k_active (CURRTIME env) k \<and> kline_matches_user env u k = Some True) (klnlist st)) \<and>
    (\<forall>k. kline_find_user env u st = Some (Some k) \<longrightarrow> k \<in> set (klnlist st) \<and> k_active (CURRTIME env) k \<and>
      match (match_mapping env) (Some (k_user k)) (Some (u_user u)) = 0)"
proof -
  have f: "kline_find_user env u st =
      Some (find (\<lambda>k. k_active (CURRTIME env) k \<and> kline_matches_user env u k = Some True) (klnlist st))"
    unfolding kline_find_user_def by (rule find_user_loop_find [OF assms])
  moreover have "match (match_mapping env) (Some (k_user k)) (Some (u_user u)) = 0"
    if "kline_matches_user env u k = Some True" for k
    using that by (auto simp: kline_matches_user_def Let_def split: if_splits)
  ultimately show ?thesis by (auto dest!: find_SomeD)
qed

theorem kline_find_user_first_witness:
  "let u = \<lparr>u_nick = ''n'', u_user = ''u'', u_host = ''h'', u_gecos = ''g'', u_ip = Some ''10.0.0.1''\<rparr>;
       st = snd (snd (kline_add sample_env ''*'' ''10.0.0.0/8'' ''r'' 0 ''s'' (sample_bans [])))
   in kline_find_user sample_env u st =
        Some (find (\<lambda>k. k_active (CURRTIME sample_env) k \<and> kline_matches_user sample_env u k = Some True) (klnlist st)) \<and>
      (\<forall>k. kline_find_user sample_env u st = Some (Some k) \<longrightarrow> k \<in> set (klnlist st) \<and>
        k_active (CURRTIME sample_env) k \<and>
        match (match_mapping sample_env) (Some (k_user k)) (Some (u_user u)) = 0)"
proof -
  have "match_ips (Some ''10.0.0.0/8'') (Some ''10.0.0.1'') \<noteq> OutOfBounds"
    using cidr_safe_no_minus [of "''10.0.0.0/8''" "Some ''10.0.0.1''"] by simp
  then show ?thesis
    unfolding Let_def
    by (intro kline_find_user_first) (simp add: kline_add_def kline_add_with_id_def sample_bans_def Let_def)
qed

text \<open>
  The number of services ignores that is reported drifts: adding counts one up, deleting removes
  the entry and leaves the count.
\<close>

theorem svsignore_count_drifts:
  "let st1 = snd (svsignore_add now msk reason st); st2 = svsignore_delete (length (svs_ignore_list st)) st1
   in svs_ignore_list st2 = svs_ignore_list st \<and> cnt_svsignore st2 = cnt_svsignore st + 1"
  by (simp add: svsignore_add_def svsignore_delete_def remove_at_def Let_def)

end
