(* ===== verification/Modestack.thy ===== *)
theory Modestack
  imports Match
begin

text \<open>
  The mode stacker of \<open>libathemecore/cmode.c\<close>: mode changes that services make are collected in
  \<open>modestackdata\<close> and sent as few \<open>MODE\<close> commands, each with at most \<open>MAXMODES\<close> parameters.  A channel
  pointer is represented by the channel's name.
\<close>

section \<open>Mode tables of the protocol module\<close>

record mode_tables =
  mode_list :: "(char \<times> u32) list"
  ignore_mode_list :: "char list"
  ignore_check :: "nat \<Rightarrow> cstr \<Rightarrow> bool"
  status_mode_list :: "(char \<times> u32) list"
  ban_like_modes :: cstr
  perm_mode :: u32

datatype mtype = MTYPE_NUL | MTYPE_ADD | MTYPE_DEL

definition flags_to_string :: "mode_tables \<Rightarrow> u32 \<Rightarrow> cstr" where
  "flags_to_string mt flags = map fst (filter (\<lambda>m. flags AND snd m \<noteq> 0) (mode_list mt))"

definition mode_to_flag :: "mode_tables \<Rightarrow> char \<Rightarrow> u32" where
  "mode_to_flag mt c = (case map_of (mode_list mt) c of None \<Rightarrow> 0 | Some v \<Rightarrow> v)"

section \<open>The stack\<close>

record modestackdata =
  md_source :: cstr
  md_channel :: "cstr option"
  modes_on :: u32
  modes_off :: u32
  md_limit :: nat
  extmodes :: "cstr list"
  limitused :: bool
  extmodesused :: "bool list"
  pmodes :: cstr
  params :: cstr
  totalparamslen :: nat
  totallen :: nat
  paramcount :: nat

text \<open>A \<open>mode_sts\<close> call: the data it was made from and the text sent.\<close>

datatype mode_event = Mode_sts modestackdata cstr

definition n_ext :: "mode_tables \<Rightarrow> nat" where
  "n_ext mt = length (ignore_mode_list mt)"

definition channel_name_len :: "modestackdata \<Rightarrow> nat" where
  "channel_name_len md = (case md_channel md of None \<Rightarrow> 0 | Some n \<Rightarrow> length n)"

definition count_spaces :: "cstr \<Rightarrow> nat" where
  "count_spaces s = length (filter (\<lambda>c. c = CHR '' '') s)"

definition ext_len :: "nat \<Rightarrow> bool list \<Rightarrow> cstr list \<Rightarrow> nat" where
  "ext_len n used xs = (\<Sum>i\<leftarrow>[0 ..< n]. if used ! i \<and> xs ! i \<noteq> [] then 1 + length (xs ! i) else 0)"

definition ext_used :: "nat \<Rightarrow> bool list \<Rightarrow> nat" where
  "ext_used n used = length (filter (\<lambda>i. used ! i) [0 ..< n])"

definition ext_params_len :: "mode_tables \<Rightarrow> modestackdata \<Rightarrow> nat" where
  "ext_params_len mt md = ext_len (n_ext mt) (extmodesused md) (extmodes md)"

definition ext_count :: "mode_tables \<Rightarrow> modestackdata \<Rightarrow> nat" where
  "ext_count mt md = ext_used (n_ext mt) (extmodesused md)"

definition modestack_calclen :: "mode_tables \<Rightarrow> modestackdata \<Rightarrow> modestackdata" where
  "modestack_calclen mt md =
     (let tpl = (if limitused md \<and> md_limit md \<noteq> 0 then 11 else 0) + ext_params_len mt md + length (params md);
          pc = (if limitused md then 1 else 0) + ext_count mt md + count_spaces (params md);
          tl = length (md_source md) + USERLEN + HOSTLEN + 1 + 4 + 1 + 10 + channel_name_len md + 1 +
               (2 + 32 + length (pmodes md)) + tpl
      in md\<lparr>totalparamslen := tpl, paramcount := pc, totallen := tl\<rparr>)"

definition modestack_clear :: "mode_tables \<Rightarrow> modestackdata \<Rightarrow> modestackdata" where
  "modestack_clear mt md =
     md\<lparr>modes_on := 0, modes_off := 0, limitused := False, extmodesused := replicate (n_ext mt) False,
        extmodes := replicate (n_ext mt) [], pmodes := [], params := [],
        totallen := 0, totalparamslen := 0, paramcount := 0\<rparr>"

section \<open>Sending\<close>

text \<open>\<open>if (dir != d) dir = d, *p++ = c;\<close>\<close>

definition put_dir :: "mtype \<Rightarrow> cstr \<times> mtype \<Rightarrow> cstr \<times> mtype" where
  "put_dir d pd =
     (if snd pd \<noteq> d then (fst pd @ [if d = MTYPE_ADD then CHR ''+'' else CHR ''-''], d) else pd)"

definition put :: "cstr \<Rightarrow> cstr \<times> mtype \<Rightarrow> cstr \<times> mtype" where
  "put s pd = (fst pd @ strlcpy s (512 - length (fst pd)), snd pd)"

definition ext_letters :: "mode_tables \<Rightarrow> mtype \<Rightarrow> (nat \<Rightarrow> bool) \<Rightarrow> cstr \<times> mtype \<Rightarrow> cstr \<times> mtype" where
  "ext_letters mt d sel pd =
     fold (\<lambda>i pd. if sel i
                   then (fst (put_dir d pd) @ [ignore_mode_list mt ! i], snd (put_dir d pd)) else pd)
       [0 ..< n_ext mt] pd"

definition flush_letters :: "mode_tables \<Rightarrow> modestackdata \<Rightarrow> cstr" where
  "flush_letters mt md =
     (let p0 = ([], MTYPE_NUL);
          p1 = (if modes_off md \<noteq> 0 then put (flags_to_string mt (modes_off md)) (put_dir MTYPE_DEL p0) else p0);
          p2 = (if limitused md \<and> md_limit md = 0 then put ''l'' (put_dir MTYPE_DEL p1) else p1);
          p3 = ext_letters mt MTYPE_DEL (\<lambda>i. extmodesused md ! i \<and> extmodes md ! i = []) p2;
          p4 = (if modes_on md \<noteq> 0 then put (flags_to_string mt (modes_on md)) (put_dir MTYPE_ADD p3) else p3);
          p5 = (if limitused md \<and> md_limit md \<noteq> 0 then put ''l'' (put_dir MTYPE_ADD p4) else p4);
          p6 = ext_letters mt MTYPE_ADD (\<lambda>i. extmodesused md ! i \<and> extmodes md ! i \<noteq> []) p5;
          skip = (if (snd p6 = MTYPE_ADD \<and> char_at (pmodes md) 0 = CHR ''+'') \<or>
                     (snd p6 = MTYPE_DEL \<and> char_at (pmodes md) 0 = CHR ''-'') then 1 else 0)
      in fst (put (drop skip (pmodes md)) p6))"

definition flush_params :: "mode_tables \<Rightarrow> modestackdata \<Rightarrow> cstr \<Rightarrow> cstr" where
  "flush_params mt md p =
     (let add = (\<lambda>s p. p @ strlcpy s (512 - length p));
          p1 = (if limitused md \<and> md_limit md \<noteq> 0 then add ('' '' @ show_nat (md_limit md)) p else p);
          p2 = fold (\<lambda>i p. if extmodesused md ! i \<and> extmodes md ! i \<noteq> []
                            then add ('' '' @ extmodes md ! i) p else p) [0 ..< n_ext mt] p1
      in if params md \<noteq> [] then add (params md) p2 else p2)"

definition modestack_flush :: "mode_tables \<Rightarrow> modestackdata \<Rightarrow> mode_event list \<times> modestackdata" where
  "modestack_flush mt md =
     (let p = flush_letters mt md
      in if p = [] then ([], md)
         else if 512 \<le> length p + totalparamslen md then ([], modestack_clear mt (modestack_calclen mt md))
         else ([Mode_sts md (flush_params mt md p)], modestack_clear mt md))"

section \<open>Stacking\<close>

definition modestack_init :: "mode_tables \<Rightarrow> int \<Rightarrow> cstr \<Rightarrow> cstr \<Rightarrow> modestackdata \<Rightarrow> mode_event list \<times> modestackdata" where
  "modestack_init mt mm source channel md =
     (let (ev, md1) = (if irccasecmp mm (Some source) (Some (md_source md)) \<noteq> 0 \<or> Some channel \<noteq> md_channel md
                       then modestack_flush mt md else ([], md))
      in (ev, md1\<lparr>md_source := strlcpy source HOSTLEN, md_channel := Some channel\<rparr>))"

definition modestack_add_simple :: "mtype \<Rightarrow> u32 \<Rightarrow> modestackdata \<Rightarrow> modestackdata" where
  "modestack_add_simple dir flags md =
     (case dir of
        MTYPE_ADD \<Rightarrow> md\<lparr>modes_on := modes_on md OR flags, modes_off := modes_off md AND NOT flags\<rparr>
      | MTYPE_DEL \<Rightarrow> md\<lparr>modes_off := modes_off md OR flags, modes_on := modes_on md AND NOT flags\<rparr>
      | MTYPE_NUL \<Rightarrow> md)"

definition flush_if :: "mode_tables \<Rightarrow> bool \<Rightarrow> modestackdata \<Rightarrow> mode_event list \<times> modestackdata" where
  "flush_if mt b md = (if b then modestack_flush mt md else ([], md))"

definition modestack_add_limit :: "mode_tables \<Rightarrow> mtype \<Rightarrow> nat \<Rightarrow> modestackdata \<Rightarrow> mode_event list \<times> modestackdata" where
  "modestack_add_limit mt dir limit md =
     (let md0 = modestack_calclen mt (md\<lparr>limitused := False\<rparr>);
          (e1, md1) = flush_if mt (MAXMODES \<le> paramcount md0) md0
      in case dir of
           MTYPE_ADD \<Rightarrow>
             (let (e2, md2) = flush_if mt (512 < totallen md1 + 11) md1
              in (e1 @ e2, md2\<lparr>md_limit := limit, limitused := True\<rparr>))
         | MTYPE_DEL \<Rightarrow> (e1, md1\<lparr>md_limit := 0, limitused := True\<rparr>)
         | MTYPE_NUL \<Rightarrow> (e1, md1\<lparr>limitused := True\<rparr>))"

definition modestack_add_ext ::
    "mode_tables \<Rightarrow> mtype \<Rightarrow> nat \<Rightarrow> cstr \<Rightarrow> modestackdata \<Rightarrow> mode_event list \<times> modestackdata" where
  "modestack_add_ext mt dir i val md =
     (let md0 = modestack_calclen mt (md\<lparr>extmodesused := (extmodesused md)[i := False]\<rparr>);
          (e1, md1) = flush_if mt (MAXMODES \<le> paramcount md0) md0;
          use = (\<lambda>md. md\<lparr>extmodesused := (extmodesused md)[i := True]\<rparr>)
      in case dir of
           MTYPE_ADD \<Rightarrow>
             (let (e2, md2) = flush_if mt (512 < totallen md1 + 1 + length val) md1
              in (e1 @ e2, use (md2\<lparr>extmodes := (extmodes md2)[i := strlcpy val 512]\<rparr>)))
         | MTYPE_DEL \<Rightarrow> (e1, use (md1\<lparr>extmodes := (extmodes md1)[i := []]\<rparr>))
         | MTYPE_NUL \<Rightarrow> (e1, use md1))"

text \<open>The scan of \<open>pmodes\<close>: the direction in force at its end, and the number of letters.\<close>

fun scan_pmodes :: "cstr \<Rightarrow> mtype \<Rightarrow> nat \<Rightarrow> mtype \<times> nat" where
  "scan_pmodes [] dir2 n = (dir2, n)"
| "scan_pmodes (c # s) dir2 n =
     (if c = CHR ''+'' then scan_pmodes s MTYPE_ADD n
      else if c = CHR ''-'' then scan_pmodes s MTYPE_DEL n
      else scan_pmodes s dir2 (Suc n))"

definition modestack_add_param ::
    "mode_tables \<Rightarrow> mtype \<Rightarrow> char \<Rightarrow> cstr \<Rightarrow> modestackdata \<Rightarrow> mode_event list \<times> modestackdata" where
  "modestack_add_param mt dir type val md =
     (let (dir2, n0) = scan_pmodes (pmodes md) MTYPE_NUL 0;
          n = n0 + (if limitused md then 1 else 0) + ext_count mt md;
          md0 = modestack_calclen mt md;
          full = MAXMODES \<le> n \<or> 512 < totallen md0 + (if dir \<noteq> dir2 then 1 else 0) + 2 + length val \<or>
                 type = CHR ''k'' \<and> CHR ''k'' \<in> set (pmodes md0);
          (ev, md1) = flush_if mt full md0;
          dir2' = (if full then MTYPE_NUL else dir2);
          str = (if dir \<noteq> dir2' then [if dir = MTYPE_ADD then CHR ''+'' else CHR ''-'', type] else [type])
      in (ev, md1\<lparr>pmodes := strlcat (pmodes md1) str (2 * MAXMODES + 2),
                  params := strlcat (strlcat (params md1) '' '' 512) val 512\<rparr>))"

text \<open>The entry points, as \<open>modestack_mode_*_real\<close>.\<close>

datatype mode_op =
  Op_simple mtype u32
| Op_limit mtype nat
| Op_ext mtype nat cstr
| Op_param mtype char cstr

definition modestack_mode_simple ::
    "mode_tables \<Rightarrow> int \<Rightarrow> cstr \<Rightarrow> cstr \<Rightarrow> mtype \<Rightarrow> u32 \<Rightarrow> modestackdata \<Rightarrow> mode_event list \<times> modestackdata" where
  "modestack_mode_simple mt mm source channel dir flags md =
     (if flags = 0 then ([], md)
      else let (e, md1) = modestack_init mt mm source channel md in (e, modestack_add_simple dir flags md1))"

definition modestack_mode_limit ::
    "mode_tables \<Rightarrow> int \<Rightarrow> cstr \<Rightarrow> cstr \<Rightarrow> mtype \<Rightarrow> nat \<Rightarrow> modestackdata \<Rightarrow> mode_event list \<times> modestackdata" where
  "modestack_mode_limit mt mm source channel dir limit md =
     (let (e1, md1) = modestack_init mt mm source channel md;
          (e2, md2) = modestack_add_limit mt dir limit md1
      in (e1 @ e2, md2))"

definition modestack_mode_ext ::
    "mode_tables \<Rightarrow> int \<Rightarrow> cstr \<Rightarrow> cstr \<Rightarrow> mtype \<Rightarrow> nat \<Rightarrow> cstr \<Rightarrow> modestackdata \<Rightarrow> mode_event list \<times> modestackdata" where
  "modestack_mode_ext mt mm source channel dir i val md =
     (let (e1, md1) = modestack_init mt mm source channel md
      in if n_ext mt \<le> i then (e1, md1)
         else let (e2, md2) = modestack_add_ext mt dir i val md1 in (e1 @ e2, md2))"

definition modestack_mode_param ::
    "mode_tables \<Rightarrow> int \<Rightarrow> cstr \<Rightarrow> cstr \<Rightarrow> mtype \<Rightarrow> char \<Rightarrow> cstr \<Rightarrow> modestackdata \<Rightarrow> mode_event list \<times> modestackdata" where
  "modestack_mode_param mt mm source channel dir type val md =
     (let (e1, md1) = modestack_init mt mm source channel md;
          (e2, md2) = modestack_add_param mt dir type val md1
      in (e1 @ e2, md2))"

definition modestack_flush_channel :: "mode_tables \<Rightarrow> cstr option \<Rightarrow> modestackdata \<Rightarrow> mode_event list \<times> modestackdata" where
  "modestack_flush_channel mt channel md =
     (if channel = None \<or> channel = md_channel md then modestack_flush mt md else ([], md))"

definition modestack_forget_channel :: "mode_tables \<Rightarrow> cstr option \<Rightarrow> modestackdata \<Rightarrow> modestackdata" where
  "modestack_forget_channel mt channel md =
     (if channel = None \<or> channel = md_channel md then modestack_clear mt md else md)"

section \<open>What a stack stands for\<close>

text \<open>
  The observable part of a channel's modes: the simple modes, the limit, the parametrised extension
  modes by index, and the list modes, status modes and keys in the order they were sent, as signs and
  letters and as parameters.
\<close>

record mode_view =
  v_modes :: u32
  v_limit :: nat
  v_ext :: "nat \<Rightarrow> cstr"
  v_letters :: "(mtype \<times> char) list"
  v_values :: cstr

fun decode :: "mtype \<Rightarrow> cstr \<Rightarrow> (mtype \<times> char) list" where
  "decode d [] = []"
| "decode d (c # s) =
     (if c = CHR ''+'' then decode MTYPE_ADD s
      else if c = CHR ''-'' then decode MTYPE_DEL s
      else (d, c) # decode d s)"

definition ext_view :: "nat \<Rightarrow> bool list \<Rightarrow> cstr list \<Rightarrow> (nat \<Rightarrow> cstr) \<Rightarrow> nat \<Rightarrow> cstr" where
  "ext_view n used xs w i = (if i < n \<and> used ! i then xs ! i else w i)"

definition apply_data :: "mode_tables \<Rightarrow> modestackdata \<Rightarrow> mode_view \<Rightarrow> mode_view" where
  "apply_data mt md v =
     \<lparr>v_modes = (v_modes v AND NOT (modes_off md)) OR modes_on md,
      v_limit = (if limitused md then md_limit md else v_limit v),
      v_ext = ext_view (n_ext mt) (extmodesused md) (extmodes md) (v_ext v),
      v_letters = v_letters v @ decode MTYPE_NUL (pmodes md),
      v_values = v_values v @ params md\<rparr>"

text \<open>The meaning of one operation, and which operations the services make.\<close>

fun apply_op :: "mode_op \<Rightarrow> mode_view \<Rightarrow> mode_view" where
  "apply_op (Op_simple dir f) v =
     v\<lparr>v_modes := (case dir of MTYPE_ADD \<Rightarrow> v_modes v OR f | MTYPE_DEL \<Rightarrow> v_modes v AND NOT f | MTYPE_NUL \<Rightarrow> v_modes v)\<rparr>"
| "apply_op (Op_limit dir l) v = v\<lparr>v_limit := (if dir = MTYPE_ADD then l else 0)\<rparr>"
| "apply_op (Op_ext dir i x) v = v\<lparr>v_ext := (v_ext v)(i := if dir = MTYPE_ADD then x else [])\<rparr>"
| "apply_op (Op_param dir c x) v =
     v\<lparr>v_letters := v_letters v @ [(dir, c)], v_values := v_values v @ CHR '' '' # x\<rparr>"

fun op_ok :: "mode_tables \<Rightarrow> mode_op \<Rightarrow> bool" where
  "op_ok mt (Op_simple dir f) \<longleftrightarrow> dir \<noteq> MTYPE_NUL"
| "op_ok mt (Op_limit dir l) \<longleftrightarrow> dir \<noteq> MTYPE_NUL"
| "op_ok mt (Op_ext dir i x) \<longleftrightarrow> dir \<noteq> MTYPE_NUL \<and> i < n_ext mt \<and> length x \<le> 300"
| "op_ok mt (Op_param dir c x) \<longleftrightarrow> dir \<noteq> MTYPE_NUL \<and> c \<noteq> CHR ''+'' \<and> c \<noteq> CHR ''-'' \<and> length x \<le> 300"

fun run_op :: "mode_tables \<Rightarrow> int \<Rightarrow> cstr \<Rightarrow> cstr \<Rightarrow> mode_op \<Rightarrow> modestackdata \<Rightarrow> mode_event list \<times> modestackdata" where
  "run_op mt mm source channel (Op_simple dir f) md = modestack_mode_simple mt mm source channel dir f md"
| "run_op mt mm source channel (Op_limit dir l) md = modestack_mode_limit mt mm source channel dir l md"
| "run_op mt mm source channel (Op_ext dir i x) md = modestack_mode_ext mt mm source channel dir i x md"
| "run_op mt mm source channel (Op_param dir c x) md = modestack_mode_param mt mm source channel dir c x md"

section \<open>The invariant of the stack\<close>

definition letters :: "cstr \<Rightarrow> nat" where
  "letters s = length (decode MTYPE_NUL s)"

definition tpl :: "mode_tables \<Rightarrow> modestackdata \<Rightarrow> nat" where
  "tpl mt md = (if limitused md \<and> md_limit md \<noteq> 0 then 11 else 0) + ext_params_len mt md + length (params md)"

definition param_total :: "mode_tables \<Rightarrow> modestackdata \<Rightarrow> nat" where
  "param_total mt md = (if limitused md then 1 else 0) + ext_count mt md + letters (pmodes md)"

definition stack_ok :: "mode_tables \<Rightarrow> modestackdata \<Rightarrow> bool" where
  "stack_ok mt md \<longleftrightarrow>
     length (extmodes md) = n_ext mt \<and> length (extmodesused md) = n_ext mt \<and>
     (pmodes md = [] \<longrightarrow> params md = []) \<and>
     letters (pmodes md) \<le> count_spaces (params md) \<and> length (pmodes md) \<le> 2 * letters (pmodes md) \<and>
     param_total mt md \<le> MAXMODES \<and> tpl mt md \<le> 385 \<and> totalparamslen md \<le> 385"

definition tables_ok :: "mode_tables \<Rightarrow> bool" where
  "tables_ok mt \<longleftrightarrow> length (mode_list mt) \<le> 32 \<and> n_ext mt \<le> 16"

fun last_dir :: "mtype \<Rightarrow> cstr \<Rightarrow> mtype" where
  "last_dir d [] = d"
| "last_dir d (c # s) =
     last_dir (if c = CHR ''+'' then MTYPE_ADD else if c = CHR ''-'' then MTYPE_DEL else d) s"

lemma length_decode: "length (decode d s) = length (filter (\<lambda>c. c \<noteq> CHR ''+'' \<and> c \<noteq> CHR ''-'') s)"
  by (induction d s rule: decode.induct) auto

lemma letters_alt: "letters s = length (filter (\<lambda>c. c \<noteq> CHR ''+'' \<and> c \<noteq> CHR ''-'') s)"
  by (simp add: letters_def length_decode)

lemma scan_pmodes_eq: "scan_pmodes s d n = (last_dir d s, n + letters s)"
  by (induction s d n rule: scan_pmodes.induct) (auto simp: letters_alt)

lemma decode_append: "decode d (s @ t) = decode d s @ decode (last_dir d s) t"
  by (induction d s rule: decode.induct) auto

section \<open>Length of the letters\<close>

lemma length_flags_to_string: "length (flags_to_string mt f) \<le> length (mode_list mt)"
  by (simp add: flags_to_string_def le_trans [OF length_filter_le])

definition room :: "mtype \<Rightarrow> cstr \<times> mtype \<Rightarrow> nat" where
  "room d pd = length (fst pd) + (if snd pd = d then 0 else 1)"

lemma room_put_dir: "length (fst (put_dir d pd)) \<le> room d pd" "snd (put_dir d pd) = d" "room d (put_dir d pd) = room d pd"
  by (auto simp: put_dir_def room_def)

lemma length_fst_put: "length (fst (put s pd)) \<le> length (fst pd) + length s" "snd (put s pd) = snd pd"
  by (simp_all add: put_def strlcpy_def)

lemma room_put_put_dir: "room d (put s (put_dir d pd)) \<le> room d pd + length s"
  using length_fst_put(1) [of s "put_dir d pd"] room_put_dir [of d pd]
  by (simp add: room_def length_fst_put(2))

lemma room_fold_ext:
  "room d (fold (\<lambda>i pd. if sel i then (fst (put_dir d pd) @ [f i], snd (put_dir d pd)) else pd) js pd) \<le>
    room d pd + length js"
proof (induction js arbitrary: pd)
  case (Cons i js)
  let ?pd = "if sel i then (fst (put_dir d pd) @ [f i], snd (put_dir d pd)) else pd"
  have "room d ?pd \<le> room d pd + 1"
    using room_put_dir [of d pd] by (auto simp: room_def)
  with Cons [of ?pd] show ?case by simp
qed simp

lemma room_ext_letters: "room d (ext_letters mt d sel pd) \<le> room d pd + n_ext mt"
  using room_fold_ext [where 'a = nat and js = "[0 ..< n_ext mt]" and f = "\<lambda>i. ignore_mode_list mt ! i"]
  by (simp add: ext_letters_def)

lemma room_switch: "room d pd \<le> room d' pd + 1"
  by (simp add: room_def)

lemma length_flush_letters:
  assumes "tables_ok mt"
  shows "length (flush_letters mt md) \<le> 102 + length (pmodes md)"
proof -
  define p1 where "p1 = (if modes_off md \<noteq> 0 then put (flags_to_string mt (modes_off md)) (put_dir MTYPE_DEL ([], MTYPE_NUL)) else ([], MTYPE_NUL))"
  define p2 where "p2 = (if limitused md \<and> md_limit md = 0 then put ''l'' (put_dir MTYPE_DEL p1) else p1)"
  define p3 where "p3 = ext_letters mt MTYPE_DEL (\<lambda>i. extmodesused md ! i \<and> extmodes md ! i = []) p2"
  define p4 where "p4 = (if modes_on md \<noteq> 0 then put (flags_to_string mt (modes_on md)) (put_dir MTYPE_ADD p3) else p3)"
  define p5 where "p5 = (if limitused md \<and> md_limit md \<noteq> 0 then put ''l'' (put_dir MTYPE_ADD p4) else p4)"
  define p6 where "p6 = ext_letters mt MTYPE_ADD (\<lambda>i. extmodesused md ! i \<and> extmodes md ! i \<noteq> []) p5"
  have ml: "length (flags_to_string mt f) \<le> 32" for f
    using length_flags_to_string [of mt f] assms by (simp add: tables_ok_def)
  have n: "n_ext mt \<le> 16" using assms by (simp add: tables_ok_def)
  have 1: "room MTYPE_DEL p1 \<le> 33"
    using room_put_put_dir [of MTYPE_DEL "flags_to_string mt (modes_off md)" "([], MTYPE_NUL)"] ml [of "modes_off md"]
    by (simp add: p1_def room_def split: if_splits)
  have 2: "room MTYPE_DEL p2 \<le> room MTYPE_DEL p1 + 1"
    using room_put_put_dir [of MTYPE_DEL "''l''" p1] by (simp add: p2_def)
  have 3: "room MTYPE_DEL p3 \<le> room MTYPE_DEL p2 + 16"
    unfolding p3_def using room_ext_letters n le_trans add_left_mono by blast
  have 4: "room MTYPE_ADD p4 \<le> room MTYPE_ADD p3 + 32"
    using room_put_put_dir [of MTYPE_ADD "flags_to_string mt (modes_on md)" p3] ml [of "modes_on md"]
    by (simp add: p4_def)
  have 5: "room MTYPE_ADD p5 \<le> room MTYPE_ADD p4 + 1"
    using room_put_put_dir [of MTYPE_ADD "''l''" p4] by (simp add: p5_def)
  have 6: "room MTYPE_ADD p6 \<le> room MTYPE_ADD p5 + 16"
    unfolding p6_def using room_ext_letters n le_trans add_left_mono by blast
  have "length (fst p6) \<le> room MTYPE_ADD p6" by (simp add: room_def)
  then have l: "length (fst p6) \<le> 102" using 1 2 3 4 5 6 room_switch [of MTYPE_ADD p3 MTYPE_DEL] by linarith
  have "length (fst (put (drop k (pmodes md)) p6)) \<le> 102 + length (pmodes md)" for k
    using length_fst_put(1) [of "drop k (pmodes md)" p6] l by simp
  then show ?thesis
    unfolding flush_letters_def Let_def p1_def [symmetric] p2_def [symmetric] p3_def [symmetric] p4_def [symmetric]
      p5_def [symmetric] p6_def [symmetric] .
qed

section \<open>Flushing\<close>

definition idle :: "mode_tables \<Rightarrow> modestackdata \<Rightarrow> bool" where
  "idle mt md \<longleftrightarrow> modes_on md = 0 \<and> modes_off md = 0 \<and> \<not> limitused md \<and>
     (\<forall>i < n_ext mt. \<not> extmodesused md ! i) \<and> pmodes md = [] \<and> params md = []"

lemma apply_idle: "idle mt md \<Longrightarrow> apply_data mt md v = v"
  by (cases v) (auto simp: idle_def apply_data_def ext_view_def fun_eq_iff)

lemma idle_counts: "idle mt md \<Longrightarrow> tpl mt md = 0" "idle mt md \<Longrightarrow> param_total mt md = 0" "idle mt md \<Longrightarrow> ext_count mt md = 0"
  by (auto simp: idle_def tpl_def param_total_def letters_def ext_params_len_def ext_count_def ext_len_def ext_used_def
      filter_empty_conv sum_list_eq_0_iff)

text \<open>Nothing written means nothing stacked.\<close>

definition written :: "cstr \<times> mtype \<Rightarrow> bool" where
  "written pd \<longleftrightarrow> (snd pd \<noteq> MTYPE_NUL \<longrightarrow> fst pd \<noteq> [])"

lemma written_put_dir: "written pd \<Longrightarrow> d \<noteq> MTYPE_NUL \<Longrightarrow> fst (put_dir d pd) \<noteq> [] \<and> written (put_dir d pd)"
  by (auto simp: put_dir_def written_def)

lemma put_Nil: "fst (put s pd) = [] \<Longrightarrow> fst pd = []"
  by (simp add: put_def)

lemma fold_ext_written:
  "written pd \<Longrightarrow> d \<noteq> MTYPE_NUL \<Longrightarrow>
    (fst (fold (\<lambda>i pd. if sel i then (fst (put_dir d pd) @ [f i], snd (put_dir d pd)) else pd) js pd) = [] \<longrightarrow>
       fst pd = [] \<and> (\<forall>i \<in> set js. \<not> sel i)) \<and>
    written (fold (\<lambda>i pd. if sel i then (fst (put_dir d pd) @ [f i], snd (put_dir d pd)) else pd) js pd)"
proof (induction js arbitrary: pd)
  case (Cons j js)
  let ?pd = "if sel j then (fst (put_dir d pd) @ [f j], snd (put_dir d pd)) else pd"
  have "written ?pd" using Cons.prems by (auto simp: written_def)
  note ih = Cons.IH [OF this Cons.prems(2)]
  have "fst ?pd = [] \<longrightarrow> \<not> sel j \<and> fst pd = []" by simp
  with ih show ?case unfolding fold.simps comp_apply list.set ball_simps by blast
qed simp

lemma ext_letters_written:
  "written pd \<Longrightarrow> d \<noteq> MTYPE_NUL \<Longrightarrow>
    (fst (ext_letters mt d sel pd) = [] \<longrightarrow> fst pd = [] \<and> (\<forall>i < n_ext mt. \<not> sel i)) \<and>
    written (ext_letters mt d sel pd)"
  using fold_ext_written [of pd d sel _ "[0 ..< n_ext mt]"] by (auto simp: ext_letters_def)

lemma put_if_written:
  "written pd \<Longrightarrow> d \<noteq> MTYPE_NUL \<Longrightarrow>
    (fst (if b then put s (put_dir d pd) else pd) = [] \<longrightarrow> \<not> b \<and> fst pd = []) \<and>
    written (if b then put s (put_dir d pd) else pd)"
  using written_put_dir [of pd d] by (auto simp: written_def put_def)

lemma flush_letters_Nil:
  assumes "stack_ok mt md" and "flush_letters mt md = []"
  shows "idle mt md"
proof -
  define p0 :: "cstr \<times> mtype" where "p0 = ([], MTYPE_NUL)"
  define p1 where "p1 = (if modes_off md \<noteq> 0 then put (flags_to_string mt (modes_off md)) (put_dir MTYPE_DEL p0) else p0)"
  define p2 where "p2 = (if limitused md \<and> md_limit md = 0 then put ''l'' (put_dir MTYPE_DEL p1) else p1)"
  define p3 where "p3 = ext_letters mt MTYPE_DEL (\<lambda>i. extmodesused md ! i \<and> extmodes md ! i = []) p2"
  define p4 where "p4 = (if modes_on md \<noteq> 0 then put (flags_to_string mt (modes_on md)) (put_dir MTYPE_ADD p3) else p3)"
  define p5 where "p5 = (if limitused md \<and> md_limit md \<noteq> 0 then put ''l'' (put_dir MTYPE_ADD p4) else p4)"
  define p6 where "p6 = ext_letters mt MTYPE_ADD (\<lambda>i. extmodesused md ! i \<and> extmodes md ! i \<noteq> []) p5"
  define skip where "skip = (if (snd p6 = MTYPE_ADD \<and> char_at (pmodes md) 0 = CHR ''+'') \<or>
                     (snd p6 = MTYPE_DEL \<and> char_at (pmodes md) 0 = CHR ''-'') then 1 else 0 :: nat)"
  have e: "fst (put (drop skip (pmodes md)) p6) = []"
    using assms(2) unfolding flush_letters_def Let_def p0_def [symmetric] p1_def [symmetric] p2_def [symmetric]
      p3_def [symmetric] p4_def [symmetric] p5_def [symmetric] p6_def [symmetric] skip_def [symmetric] .
  have w0: "written p0" by (simp add: p0_def written_def)
  note w1 = put_if_written [OF w0, of MTYPE_DEL "modes_off md \<noteq> 0" "flags_to_string mt (modes_off md)", folded p1_def]
  note w2 = put_if_written [of p1 MTYPE_DEL "limitused md \<and> md_limit md = 0" "''l''", folded p2_def]
  note w3 = ext_letters_written [of p2 MTYPE_DEL mt "\<lambda>i. extmodesused md ! i \<and> extmodes md ! i = []", folded p3_def]
  note w4 = put_if_written [of p3 MTYPE_ADD "modes_on md \<noteq> 0" "flags_to_string mt (modes_on md)", folded p4_def]
  note w5 = put_if_written [of p4 MTYPE_ADD "limitused md \<and> md_limit md \<noteq> 0" "''l''", folded p5_def]
  note w6 = ext_letters_written [of p5 MTYPE_ADD mt "\<lambda>i. extmodesused md ! i \<and> extmodes md ! i \<noteq> []", folded p6_def]
  have wr: "written p1" "written p2" "written p3" "written p4" "written p5" "written p6"
    using w1 w2 w3 w4 w5 w6 by auto
  have p6: "fst p6 = []" using e by (rule put_Nil)
  then have all: "fst p5 = []" "fst p4 = []" "fst p3 = []" "fst p2 = []" "fst p1 = []"
    "\<not> modes_off md \<noteq> 0" "\<not> modes_on md \<noteq> 0" "\<not> (limitused md \<and> md_limit md = 0)"
    "\<not> (limitused md \<and> md_limit md \<noteq> 0)"
    "\<forall>i < n_ext mt. \<not> (extmodesused md ! i \<and> extmodes md ! i = [])"
    "\<forall>i < n_ext mt. \<not> (extmodesused md ! i \<and> extmodes md ! i \<noteq> [])"
    using w1 w2 w3 w4 w5 w6 wr by simp_all
  have "snd p6 = MTYPE_NUL" using wr(6) p6 by (auto simp: written_def)
  then have "skip = 0" by (simp add: skip_def)
  with e p6 have "pmodes md = []" by (auto simp: put_def strlcpy_def)
  with assms(1) all show ?thesis by (auto simp: idle_def stack_ok_def)
qed

lemma idle_clear: "idle mt (modestack_clear mt md)"
  by (simp add: idle_def modestack_clear_def)

lemma stack_ok_clear: "stack_ok mt (modestack_clear mt md)"
  using idle_counts [OF idle_clear [of mt md]]
  by (simp add: stack_ok_def) (simp add: modestack_clear_def letters_def)

fun deliver :: "mode_tables \<Rightarrow> cstr \<Rightarrow> mode_event \<Rightarrow> mode_view \<Rightarrow> mode_view" where
  "deliver mt c (Mode_sts md s) v = (if md_channel md = Some c then apply_data mt md v else v)"

definition pending :: "mode_tables \<Rightarrow> cstr \<Rightarrow> modestackdata \<Rightarrow> mode_view \<Rightarrow> mode_view" where
  "pending mt c md v = (if md_channel md = Some c then apply_data mt md v else v)"

fun event_ok :: "mode_tables \<Rightarrow> cstr option \<Rightarrow> mode_event \<Rightarrow> bool" where
  "event_ok mt ch (Mode_sts md s) \<longleftrightarrow> param_total mt md \<le> MAXMODES \<and> md_channel md = ch"

lemma flush_spec:
  assumes "tables_ok mt" "stack_ok mt md" and f: "modestack_flush mt md = (ev, md')"
  shows "pending mt c md' (fold (deliver mt c) ev v) = pending mt c md v"
    and "idle mt md'" and "stack_ok mt md'" and "\<forall>e \<in> set ev. event_ok mt (md_channel md) e"
    and "md_channel md' = md_channel md" and "md_source md' = md_source md"
proof -
  let ?p = "flush_letters mt md"
  have "2 * letters (pmodes md) \<le> 8" using assms(2) by (simp add: stack_ok_def param_total_def MAXMODES_def)
  then have "length (pmodes md) \<le> 8" using assms(2) by (simp add: stack_ok_def)
  then have "length ?p + totalparamslen md < 512"
    using length_flush_letters [OF assms(1), of md] assms(2) by (simp add: stack_ok_def)
  then have two: "?p = [] \<and> ev = [] \<and> md' = md \<or>
      ?p \<noteq> [] \<and> ev = [Mode_sts md (flush_params mt md ?p)] \<and> md' = modestack_clear mt md"
    using f by (auto simp: modestack_flush_def Let_def split: if_splits)
  have cl: "md_channel (modestack_clear mt md) = md_channel md" "md_source (modestack_clear mt md) = md_source md"
    by (simp_all add: modestack_clear_def)
  show "pending mt c md' (fold (deliver mt c) ev v) = pending mt c md v"
    using two cl by (auto simp: pending_def apply_idle [OF idle_clear])
  show "idle mt md'" using two flush_letters_Nil [OF assms(2)] idle_clear by auto
  show "stack_ok mt md'" using two assms(2) stack_ok_clear by auto
  show "\<forall>e \<in> set ev. event_ok mt (md_channel md) e" using two assms(2) by (auto simp: stack_ok_def)
  show "md_channel md' = md_channel md" "md_source md' = md_source md" using two cl by auto
qed

section \<open>Operations\<close>

lemma flush_if_spec:
  assumes "tables_ok mt" "stack_ok mt md" and f: "flush_if mt b md = (ev, md')"
  shows "pending mt c md' (fold (deliver mt c) ev v) = pending mt c md v"
    and "stack_ok mt md'" and "\<forall>e \<in> set ev. event_ok mt (md_channel md) e"
    and "md_channel md' = md_channel md" and "b \<Longrightarrow> idle mt md'" and "\<not> b \<Longrightarrow> md' = md"
proof -
  have "b \<and> modestack_flush mt md = (ev, md') \<or> \<not> b \<and> ev = [] \<and> md' = md"
    using f by (simp add: flush_if_def split: if_splits)
  then consider "b" "modestack_flush mt md = (ev, md')" | "\<not> b" "ev = []" "md' = md" by blast
  note two = this
  show "pending mt c md' (fold (deliver mt c) ev v) = pending mt c md v"
    using flush_spec(1) [OF assms(1,2)] by (rule two) simp_all
  show "stack_ok mt md'" using flush_spec(3) [OF assms(1,2)] assms(2) by (rule_tac two) simp_all
  show "\<forall>e \<in> set ev. event_ok mt (md_channel md) e" using flush_spec(4) [OF assms(1,2)] by (rule_tac two) simp_all
  show "md_channel md' = md_channel md" using flush_spec(5) [OF assms(1,2)] by (rule_tac two) simp_all
  show "b \<Longrightarrow> idle mt md'" using flush_spec(2) [OF assms(1,2)] by (rule_tac two) simp_all
  show "\<not> b \<Longrightarrow> md' = md" by (rule two) simp_all
qed

lemma calclen_fields [simp]:
  "modes_on (modestack_calclen mt md) = modes_on md" "modes_off (modestack_calclen mt md) = modes_off md"
  "md_limit (modestack_calclen mt md) = md_limit md" "extmodes (modestack_calclen mt md) = extmodes md"
  "limitused (modestack_calclen mt md) = limitused md" "extmodesused (modestack_calclen mt md) = extmodesused md"
  "pmodes (modestack_calclen mt md) = pmodes md" "params (modestack_calclen mt md) = params md"
  "md_channel (modestack_calclen mt md) = md_channel md"
  "totalparamslen (modestack_calclen mt md) = tpl mt md"
  "127 + tpl mt md \<le> totallen (modestack_calclen mt md)"
  "paramcount (modestack_calclen mt md) = (if limitused md then 1 else 0) + ext_count mt md + count_spaces (params md)"
  by (simp_all add: modestack_calclen_def tpl_def Let_def USERLEN_def HOSTLEN_def)

lemma calclen_measures [simp]:
  "ext_count mt (modestack_calclen mt md) = ext_count mt md"
  "tpl mt (modestack_calclen mt md) = tpl mt md"
  "param_total mt (modestack_calclen mt md) = param_total mt md"
  by (simp_all add: ext_count_def tpl_def param_total_def ext_params_len_def)

lemma stack_ok_calclen: "stack_ok mt md \<Longrightarrow> stack_ok mt (modestack_calclen mt md)"
  by (simp add: stack_ok_def)

lemma apply_calclen [simp]: "apply_data mt (modestack_calclen mt md) v = apply_data mt md v"
  by (simp add: apply_data_def)

text \<open>Adding simple modes.\<close>

lemma add_simple_spec:
  assumes "stack_ok mt md" "dir \<noteq> MTYPE_NUL"
  shows "apply_data mt (modestack_add_simple dir f md) v = apply_op (Op_simple dir f) (apply_data mt md v)"
    and "stack_ok mt (modestack_add_simple dir f md)"
    and "md_channel (modestack_add_simple dir f md) = md_channel md"
proof -
  show "apply_data mt (modestack_add_simple dir f md) v = apply_op (Op_simple dir f) (apply_data mt md v)"
    using assms(2)
    by (cases dir) (auto simp: modestack_add_simple_def apply_data_def bit_eq_iff bit_simps)
  show "stack_ok mt (modestack_add_simple dir f md)" "md_channel (modestack_add_simple dir f md) = md_channel md"
    using assms
    by (cases dir; simp add: modestack_add_simple_def stack_ok_def param_total_def tpl_def ext_count_def ext_params_len_def)+
qed


text \<open>Making room for one more parametrised mode, as the limit and the extension modes do.\<close>

lemma make_room:
  assumes t: "tables_ok mt" and ok: "stack_ok mt md"
    and f1: "flush_if mt (MAXMODES \<le> paramcount (modestack_calclen mt md)) (modestack_calclen mt md) = (e1, md1)"
    and f2: "flush_if mt (q \<and> 512 < totallen md1 + need) md1 = (e2, md2)" and need: "need \<le> 301"
  shows "pending mt c md2 (fold (deliver mt c) (e1 @ e2) v) = pending mt c md v"
    and "stack_ok mt md2" and "\<forall>e \<in> set (e1 @ e2). event_ok mt (md_channel md) e" and "md_channel md2 = md_channel md"
    and "param_total mt md2 < MAXMODES" and "q \<Longrightarrow> tpl mt md2 + need \<le> 385"
    and "idle mt md2 \<or> md2 = modestack_calclen mt md"
proof -
  let ?md0 = "modestack_calclen mt md"
  note s1 = flush_if_spec [OF t stack_ok_calclen [OF ok] f1]
  note s2 = flush_if_spec [OF t s1(2) f2]
  show "pending mt c md2 (fold (deliver mt c) (e1 @ e2) v) = pending mt c md v"
    using s1(1) s2(1) by (simp add: pending_def)
  show "stack_ok mt md2" "\<forall>e \<in> set (e1 @ e2). event_ok mt (md_channel md) e" "md_channel md2 = md_channel md"
    using s1 s2 by auto
  show c: "idle mt md2 \<or> md2 = ?md0" using s1(5,6) s2(5,6) by metis
  have pm: "param_total mt md \<le> paramcount ?md0"
    using ok by (simp add: param_total_def stack_ok_def)
  show "param_total mt md2 < MAXMODES"
  proof (cases "idle mt md2")
    case True
    then show ?thesis by (simp add: idle_counts MAXMODES_def)
  next
    case False
    with c have m: "md2 = ?md0" by simp
    have "\<not> MAXMODES \<le> paramcount ?md0"
    proof
      assume b: "MAXMODES \<le> paramcount ?md0"
      then have "idle mt md1" by (rule s1(5))
      then show False using s2(5,6) False by metis
    qed
    with pm m show ?thesis by simp
  qed
  show "tpl mt md2 + need \<le> 385" if q
  proof (cases "idle mt md2")
    case True
    with need show ?thesis by (simp add: idle_counts)
  next
    case False
    have b: "\<not> 512 < totallen md1 + need" using s2(5) that False by blast
    then have "md2 = md1" using s2(6) by simp
    with c False have "md1 = ?md0" by simp
    with b \<open>md2 = md1\<close> have "totallen ?md0 + need \<le> 512" "tpl mt md2 = tpl mt md" by simp_all
    with calclen_fields(11) [of mt md] show ?thesis by linarith
  qed
qed

text \<open>Setting the limit.\<close>

lemma limit_unused:
  assumes "stack_ok mt md"
  shows "stack_ok mt (md\<lparr>limitused := False\<rparr>)"
  using assms
  by (auto simp: stack_ok_def param_total_def tpl_def ext_count_def ext_params_len_def split: if_splits)

lemma use_limit:
  assumes "stack_ok mt md" "\<not> limitused md" "param_total mt md < MAXMODES" "l = 0 \<or> tpl mt md + 11 \<le> 385"
  shows "stack_ok mt (md\<lparr>md_limit := l, limitused := True\<rparr>)"
  using assms
  by (auto simp: stack_ok_def param_total_def tpl_def ext_count_def ext_params_len_def split: if_splits)

lemma add_limit_spec:
  assumes t: "tables_ok mt" and ok: "stack_ok mt md" and ch: "md_channel md = Some c" and dir: "dir \<noteq> MTYPE_NUL"
    and f: "modestack_add_limit mt dir l md = (ev, md')"
  shows "apply_data mt md' (fold (deliver mt c) ev v) = apply_op (Op_limit dir l) (apply_data mt md v)"
    and "stack_ok mt md'" and "\<forall>e \<in> set ev. event_ok mt (md_channel md) e" and "md_channel md' = md_channel md"
proof -
  define md0 where "md0 = modestack_calclen mt (md\<lparr>limitused := False\<rparr>)"
  define l' where "l' = (if dir = MTYPE_ADD then l else 0)"
  obtain e1 md1 where f1: "flush_if mt (MAXMODES \<le> paramcount md0) md0 = (e1, md1)" by (rule prod.exhaust)
  obtain e2 md2 where f2: "flush_if mt (dir = MTYPE_ADD \<and> 512 < totallen md1 + 11) md1 = (e2, md2)" by (rule prod.exhaust)
  have res: "ev = e1 @ e2" "md' = md2\<lparr>md_limit := l', limitused := True\<rparr>"
    using f dir f1 f2
    by (cases dir; auto simp: modestack_add_limit_def Let_def md0_def [symmetric] l'_def flush_if_def)+
  note r = make_room [OF t limit_unused [OF ok] f1 [unfolded md0_def] f2, simplified]
  have u: "\<not> limitused md2" using r(7) by (auto simp: idle_def)
  show "stack_ok mt md'" unfolding res
    using r(6) by (intro use_limit [OF r(2) u r(5)]) (auto simp: l'_def)
  show "\<forall>e \<in> set ev. event_ok mt (md_channel md) e" using r(3) by (simp add: res)
  show ch': "md_channel md' = md_channel md" using r(4) by (simp add: res)
  have "apply_data mt md2 (fold (deliver mt c) ev v) = apply_data mt (md\<lparr>limitused := False\<rparr>) v"
    using r(1) [of c v] r(4) ch by (simp add: pending_def res)
  then show "apply_data mt md' (fold (deliver mt c) ev v) = apply_op (Op_limit dir l) (apply_data mt md v)"
    using u by (auto simp: apply_data_def res l'_def)
qed

text \<open>Extension modes.\<close>

lemma nth_upd_False: "us[i := False] ! j \<Longrightarrow> us ! j"
  by (metis nth_list_update_eq nth_list_update_neq list_update_beyond not_le)

lemma ext_len_update_le: "ext_len n (us[i := False]) xs \<le> ext_len n us xs"
  unfolding ext_len_def
  by (intro sum_list_mono) (auto dest: nth_upd_False)

lemma sum_list_single_le:
  "(\<And>j. j \<in> set js \<Longrightarrow> j \<noteq> i \<Longrightarrow> f j = g j) \<Longrightarrow> distinct js \<Longrightarrow> f i \<le> g i + k \<Longrightarrow>
    (\<Sum>j\<leftarrow>js. f j) \<le> (\<Sum>j\<leftarrow>js. g j) + (k :: nat)"
proof (induction js)
  case (Cons j js)
  show ?case
  proof (cases "j = i")
    case True
    then have "map f js = map g js" using Cons.prems by (intro map_cong) auto
    then have "sum_list (map f js) = sum_list (map g js)" by (rule arg_cong)
    with True Cons.prems(3) show ?thesis by simp
  next
    case False
    then have "f j = g j" using Cons.prems(1) [of j] by simp
    moreover have "(\<Sum>j\<leftarrow>js. f j) \<le> (\<Sum>j\<leftarrow>js. g j) + k" using Cons by auto
    ultimately show ?thesis by simp
  qed
qed simp

lemma ext_len_use:
  assumes "length us = n" "length xs = n" "i < n" "\<not> us ! i"
  shows "ext_len n (us[i := True]) (xs[i := x]) \<le> ext_len n us xs + (if x = [] then 0 else 1 + length x)"
  unfolding ext_len_def
  by (rule sum_list_single_le [where i = i]) (use assms in \<open>auto simp: nth_list_update\<close>)

lemma ext_used_update_le: "ext_used n (us[i := False]) \<le> ext_used n us"
proof -
  have "filter (\<lambda>j. us[i := False] ! j) [0 ..< n] = filter (\<lambda>j. us[i := False] ! j) (filter (\<lambda>j. us ! j) [0 ..< n])"
    by (auto intro!: filter_cong dest: nth_upd_False)
  then show ?thesis unfolding ext_used_def by (metis length_filter_le)
qed

lemma ext_used_use:
  assumes "length us = n" "i < n"
  shows "ext_used n (us[i := True]) \<le> Suc (ext_used n us)"
proof -
  have e: "ext_used n vs = (\<Sum>j\<leftarrow>[0 ..< n]. if vs ! j then 1 else 0)" for vs
    unfolding ext_used_def by (induction n) auto
  show ?thesis unfolding e using assms
    by (intro order_trans [OF sum_list_single_le [where i = i and k = 1]]) (auto simp: nth_list_update)
qed

lemma ext_unused:
  assumes "stack_ok mt md"
  shows "stack_ok mt (md\<lparr>extmodesused := (extmodesused md)[i := False]\<rparr>)"
  using assms ext_len_update_le [of "n_ext mt" "extmodesused md" i "extmodes md"]
    ext_used_update_le [of "n_ext mt" "extmodesused md" i]
  by (auto simp: stack_ok_def param_total_def tpl_def ext_count_def ext_params_len_def)

lemma use_ext:
  assumes "stack_ok mt md" "\<not> extmodesused md ! i" "i < n_ext mt" "param_total mt md < MAXMODES"
    "x = [] \<or> tpl mt md + (1 + length x) \<le> 385"
  shows "stack_ok mt (md\<lparr>extmodes := (extmodes md)[i := x], extmodesused := (extmodesused md)[i := True]\<rparr>)"
proof -
  let ?md = "md\<lparr>extmodes := (extmodes md)[i := x], extmodesused := (extmodesused md)[i := True]\<rparr>"
  have l: "length (extmodesused md) = n_ext mt" "length (extmodes md) = n_ext mt" using assms(1) by (simp_all add: stack_ok_def)
  have "tpl mt ?md \<le> tpl mt md + (if x = [] then 0 else 1 + length x)"
    using ext_len_use [OF l assms(3,2), of x] by (simp add: tpl_def ext_params_len_def)
  moreover have "tpl mt md \<le> 385" using assms(1) by (simp add: stack_ok_def)
  ultimately have 1: "tpl mt ?md \<le> 385" using assms(5) by (auto split: if_splits)
  have "param_total mt ?md \<le> Suc (param_total mt md)"
    using ext_used_use [OF l(1) assms(3)] by (simp add: param_total_def ext_count_def)
  with assms(4) have "param_total mt ?md \<le> MAXMODES" by simp
  with 1 assms(1) show ?thesis by (simp add: stack_ok_def)
qed

lemma ext_view_use:
  assumes "length us = n" "length xs = n" "i < n"
  shows "ext_view n (us[i := True]) (xs[i := x]) w = (ext_view n (us[i := False]) xs w)(i := x)"
  using assms by (auto simp: ext_view_def fun_eq_iff nth_list_update)

lemma add_ext_spec:
  assumes t: "tables_ok mt" and ok: "stack_ok mt md" and ch: "md_channel md = Some c"
    and o: "op_ok mt (Op_ext dir i x)" and f: "modestack_add_ext mt dir i x md = (ev, md')"
  shows "apply_data mt md' (fold (deliver mt c) ev v) = apply_op (Op_ext dir i x) (apply_data mt md v)"
    and "stack_ok mt md'" and "\<forall>e \<in> set ev. event_ok mt (md_channel md) e" and "md_channel md' = md_channel md"
proof -
  from o have dir: "dir \<noteq> MTYPE_NUL" and i: "i < n_ext mt" and len: "length x \<le> 300" by auto
  let ?md = "md\<lparr>extmodesused := (extmodesused md)[i := False]\<rparr>"
  define md0 where "md0 = modestack_calclen mt ?md"
  define x' where "x' = (if dir = MTYPE_ADD then x else [])"
  have x512: "strlcpy x 512 = x" using len by (intro strlcpy_fits) simp
  obtain e1 md1 where f1: "flush_if mt (MAXMODES \<le> paramcount md0) md0 = (e1, md1)" by (rule prod.exhaust)
  obtain e2 md2 where f2: "flush_if mt (dir = MTYPE_ADD \<and> 512 < totallen md1 + (1 + length x)) md1 = (e2, md2)"
    by (rule prod.exhaust)
  have res: "ev = e1 @ e2"
    "md' = md2\<lparr>extmodes := (extmodes md2)[i := x'], extmodesused := (extmodesused md2)[i := True]\<rparr>"
    using f dir f1 f2 x512
    by (cases dir; auto simp: modestack_add_ext_def Let_def md0_def [symmetric] x'_def flush_if_def)+
  note r = make_room [OF t ext_unused [OF ok] f1 [unfolded md0_def] f2, simplified]
  have r': "stack_ok mt md2" "param_total mt md2 < MAXMODES" "idle mt md2 \<or> md2 = md0"
    "dir = MTYPE_ADD \<Longrightarrow> tpl mt md2 + (1 + length x) \<le> 385"
    using r(2,5,6,7) len by (auto simp: md0_def)
  have lens: "length (extmodesused md2) = n_ext mt" "length (extmodes md2) = n_ext mt" using r'(1) by (simp_all add: stack_ok_def)
  have u: "\<not> extmodesused md2 ! i" using r'(3) i lens ok by (auto simp: idle_def md0_def stack_ok_def)
  show "stack_ok mt md'" unfolding res
    using r'(4) by (intro use_ext [OF r'(1) u i r'(2)]) (auto simp: x'_def)
  show "\<forall>e \<in> set ev. event_ok mt (md_channel md) e" using r(3) len by (simp add: res)
  show ch': "md_channel md' = md_channel md" using r(4) len by (simp add: res)
  have eq: "apply_data mt md2 (fold (deliver mt c) ev v) = apply_data mt ?md v"
    using r(1) [of c v] r(4) ch len by (simp add: pending_def res)
  have us: "(extmodesused md2)[i := False] = extmodesused md2" using u by (metis list_update_id)
  have "ext_view (n_ext mt) ((extmodesused md)[i := False]) (extmodes md) w =
      (ext_view (n_ext mt) (extmodesused md) (extmodes md) w)(i := w i)" for w
    using i ok by (auto simp: ext_view_def fun_eq_iff nth_list_update stack_ok_def)
  then show "apply_data mt md' (fold (deliver mt c) ev v) = apply_op (Op_ext dir i x) (apply_data mt md v)"
    using eq ext_view_use [OF lens i, of x' "v_ext (fold (deliver mt c) ev v)"] us
    by (auto simp: apply_data_def res x'_def)
qed

text \<open>List modes, status modes and keys.\<close>

lemma decode_one:
  "dir \<noteq> MTYPE_NUL \<Longrightarrow> c \<noteq> CHR ''+'' \<Longrightarrow> c \<noteq> CHR ''-'' \<Longrightarrow>
    decode d (if dir \<noteq> d then [if dir = MTYPE_ADD then CHR ''+'' else CHR ''-'', c] else [c]) = [(dir, c)]"
  by (cases dir) auto

lemma letters_append: "letters (s @ t) = letters s + letters t"
  by (simp add: letters_alt)

lemma append_param:
  assumes ok: "stack_ok mt md" and pt: "param_total mt md < MAXMODES"
    and room: "tpl mt md + (1 + length x) \<le> 385"
    and dir: "dir \<noteq> MTYPE_NUL" "c \<noteq> CHR ''+''" "c \<noteq> CHR ''-''" and d: "d = last_dir MTYPE_NUL (pmodes md)"
    and str: "str = (if dir \<noteq> d then [if dir = MTYPE_ADD then CHR ''+'' else CHR ''-'', c] else [c])"
    and md': "md' = md\<lparr>pmodes := strlcat (pmodes md) str (2 * MAXMODES + 2),
                  params := strlcat (strlcat (params md) '' '' 512) x 512\<rparr>"
  shows "apply_data mt md' v = apply_op (Op_param dir c x) (apply_data mt md v)"
    and "stack_ok mt md'"
proof -
  have "letters (pmodes md) \<le> 3" using pt by (simp add: param_total_def MAXMODES_def)
  then have "length (pmodes md) \<le> 6" using ok by (simp add: stack_ok_def)
  moreover have ls: "length str \<le> 2" "str \<noteq> []" by (auto simp: str)
  ultimately have p: "strlcat (pmodes md) str (2 * MAXMODES + 2) = pmodes md @ str"
    by (intro strlcat_fits) (simp add: MAXMODES_def)
  have l: "length (params md) \<le> tpl mt md" by (simp add: tpl_def)
  then have q: "strlcat (strlcat (params md) '' '' 512) x 512 = params md @ CHR '' '' # x"
    using room by (simp add: strlcat_fits)
  have dec: "decode d str = [(dir, c)]" unfolding str by (rule decode_one [OF dir])
  have let1: "letters str = 1" using length_decode [of d str] dec by (simp add: letters_alt)
  have pm: "pmodes md' = pmodes md @ str" unfolding md' p by simp
  have qm: "params md' = params md @ CHR '' '' # x" unfolding md' q by simp
  have rest: "modes_on md' = modes_on md" "modes_off md' = modes_off md" "limitused md' = limitused md"
    "md_limit md' = md_limit md" "totalparamslen md' = totalparamslen md" "extmodes md' = extmodes md"
    "extmodesused md' = extmodesused md" by (simp_all add: md')
  show "apply_data mt md' v = apply_op (Op_param dir c x) (apply_data mt md v)"
    using dec by (simp add: pm qm rest apply_data_def decode_append d)
  have "param_total mt md' = Suc (param_total mt md)" using let1
    by (simp add: param_total_def pm rest letters_append ext_count_def)
  moreover have "tpl mt md' = tpl mt md + (1 + length x)" by (simp add: tpl_def qm rest ext_params_len_def)
  moreover have "count_spaces (params md') \<ge> Suc (count_spaces (params md))"
    by (simp add: qm count_spaces_def)
  ultimately show "stack_ok mt md'"
    using ok pt room ls let1 by (simp add: stack_ok_def letters_append pm rest)
qed

lemma add_param_spec:
  assumes t: "tables_ok mt" and ok: "stack_ok mt md" and ch: "md_channel md = Some c"
    and o: "op_ok mt (Op_param dir k x)" and f: "modestack_add_param mt dir k x md = (ev, md')"
  shows "apply_data mt md' (fold (deliver mt c) ev v) = apply_op (Op_param dir k x) (apply_data mt md v)"
    and "stack_ok mt md'" and "\<forall>e \<in> set ev. event_ok mt (md_channel md) e" and "md_channel md' = md_channel md"
proof -
  from o have dir: "dir \<noteq> MTYPE_NUL" "k \<noteq> CHR ''+''" "k \<noteq> CHR ''-''" and len: "length x \<le> 300" by auto
  define dir2 where "dir2 = last_dir MTYPE_NUL (pmodes md)"
  define md0 where "md0 = modestack_calclen mt md"
  define full where "full \<longleftrightarrow> MAXMODES \<le> letters (pmodes md) + (if limitused md then 1 else 0) + ext_count mt md \<or>
    512 < totallen md0 + (if dir \<noteq> dir2 then 1 else 0) + 2 + length x \<or> k = CHR ''k'' \<and> CHR ''k'' \<in> set (pmodes md0)"
  define d where "d = (if full then MTYPE_NUL else dir2)"
  obtain md1 where f1: "flush_if mt full md0 = (ev, md1)"
    and res: "md' = md1\<lparr>pmodes := strlcat (pmodes md1)
          (if dir \<noteq> d then [if dir = MTYPE_ADD then CHR ''+'' else CHR ''-'', k] else [k]) (2 * MAXMODES + 2),
        params := strlcat (strlcat (params md1) '' '' 512) x 512\<rparr>"
    using f unfolding modestack_add_param_def Let_def scan_pmodes_eq case_prod_conv add_0
      md0_def [symmetric] dir2_def [symmetric] full_def [symmetric] d_def [symmetric]
    by (auto split: prod.splits)
  have ok0: "stack_ok mt md0" unfolding md0_def by (rule stack_ok_calclen [OF ok])
  note s = flush_if_spec [OF t ok0 f1]
  have d: "d = last_dir MTYPE_NUL (pmodes md1)"
    using s(5,6) by (cases full) (auto simp: d_def idle_def dir2_def md0_def)
  have "param_total mt md1 < MAXMODES \<and> tpl mt md1 + (1 + length x) \<le> 385"
  proof (cases full)
    case True
    then show ?thesis using s(5) len by (simp add: idle_counts MAXMODES_def)
  next
    case False
    then have "totallen md0 + 2 + length x \<le> 512" "md1 = md0" using s(6) by (auto simp: full_def)
    moreover have "127 + tpl mt md \<le> totallen md0" unfolding md0_def by (rule calclen_fields(11))
    ultimately have "tpl mt md + (1 + length x) \<le> 385" by linarith
    with \<open>md1 = md0\<close> show ?thesis using False by (simp add: md0_def full_def param_total_def)
  qed
  note a = append_param [OF s(2) conjunct1 [OF this] conjunct2 [OF this] dir d refl res]
  show "stack_ok mt md'" by (rule a(2))
  show "\<forall>e \<in> set ev. event_ok mt (md_channel md) e" using s(3) by (simp add: md0_def)
  show "md_channel md' = md_channel md" using s(4) by (simp add: res md0_def)
  have "apply_data mt md1 (fold (deliver mt c) ev v) = apply_data mt md v"
    using s(1) [of c v] s(4) ch by (simp add: pending_def md0_def)
  then show "apply_data mt md' (fold (deliver mt c) ev v) = apply_op (Op_param dir k x) (apply_data mt md v)"
    by (simp only: a(1))
qed

lemma init_spec:
  assumes t: "tables_ok mt" and ok: "stack_ok mt md" and f: "modestack_init mt mm source channel md = (ev, md')"
  shows "pending mt c md' (fold (deliver mt c) ev v) = pending mt c md v"
    and "stack_ok mt md'" and "\<forall>e \<in> set ev. event_ok mt (md_channel md) e" and "md_channel md' = Some channel"
proof -
  define b where "b \<longleftrightarrow> irccasecmp mm (Some source) (Some (md_source md)) \<noteq> 0 \<or> Some channel \<noteq> md_channel md"
  obtain md1 where f1: "flush_if mt b md = (ev, md1)"
    and md': "md' = md1\<lparr>md_source := strlcpy source HOSTLEN, md_channel := Some channel\<rparr>"
    using f unfolding modestack_init_def b_def [symmetric] flush_if_def [symmetric] by (auto split: prod.splits)
  note s = flush_if_spec [OF t ok f1]
  have eq: "apply_data mt md' w = apply_data mt md1 w" for w by (simp add: apply_data_def md')
  show "md_channel md' = Some channel" by (simp add: md')
  show "stack_ok mt md'" using s(2)
    by (simp add: md' stack_ok_def param_total_def tpl_def ext_count_def ext_params_len_def)
  show "\<forall>e \<in> set ev. event_ok mt (md_channel md) e" by (rule s(3))
  have "pending mt c md' (fold (deliver mt c) ev v) = pending mt c md1 (fold (deliver mt c) ev v)"
  proof (cases b)
    case True
    then have "apply_data mt md1 w = w" for w using s(5) apply_idle by blast
    then show ?thesis by (simp add: pending_def eq)
  next
    case False
    then have "md_channel md1 = Some channel" using s(6) by (simp add: b_def)
    moreover have "md_channel md' = Some channel" by (simp add: md')
    ultimately show ?thesis by (simp add: pending_def eq)
  qed
  with s(1) show "pending mt c md' (fold (deliver mt c) ev v) = pending mt c md v" by simp
qed

lemma run_op_spec:
  assumes t: "tables_ok mt" and ok: "stack_ok mt md" and o: "op_ok mt op"
    and f: "run_op mt mm source channel op md = (ev, md')"
  shows "pending mt c md' (fold (deliver mt c) ev v) =
      (if channel = c then apply_op op (pending mt c md v) else pending mt c md v) \<and>
    stack_ok mt md' \<and> (\<forall>e \<in> set ev. \<exists>ch. event_ok mt ch e)"
proof (cases "\<exists>dir. op = Op_simple dir 0")
  case True
  then obtain dir where op: "op = Op_simple dir 0" by blast
  have "apply_op op w = w" for w using op by (cases dir) simp_all
  with op f ok show ?thesis by (auto simp: modestack_mode_simple_def)
next
  case False
  define add where "add = (case op of Op_simple dir f \<Rightarrow> (\<lambda>md. ([], modestack_add_simple dir f md))
    | Op_limit dir l \<Rightarrow> modestack_add_limit mt dir l | Op_ext dir i x \<Rightarrow> modestack_add_ext mt dir i x
    | Op_param dir k x \<Rightarrow> modestack_add_param mt dir k x)"
  obtain e1 md1 where i: "modestack_init mt mm source channel md = (e1, md1)" by (rule prod.exhaust)
  obtain e2 where a: "add md1 = (e2, md')" and ev: "ev = e1 @ e2"
    using f i False o
    by (cases op) (auto simp: add_def modestack_mode_simple_def modestack_mode_limit_def modestack_mode_ext_def
        modestack_mode_param_def Let_def split: prod.splits if_splits)
  note s = init_spec [OF t ok i]
  have A: "apply_data mt md' (fold (deliver mt channel) e2 w) = apply_op op (apply_data mt md1 w) \<and>
      stack_ok mt md' \<and> (\<forall>e \<in> set e2. event_ok mt (md_channel md1) e) \<and> md_channel md' = md_channel md1" for w
    using a o add_simple_spec [OF s(2)] add_limit_spec [OF t s(2,4)] add_ext_spec [OF t s(2,4)]
      add_param_spec [OF t s(2,4)]
    by (cases op) (auto simp: add_def)
  have skip: "fold (deliver mt c) e2 w = w" if "channel \<noteq> c" for w
  proof -
    have "deliver mt c e w = w" if "e \<in> set e2" for e w
    proof -
      have "event_ok mt (Some channel) e" using A that s(4) by auto
      with \<open>channel \<noteq> c\<close> show ?thesis by (cases e) auto
    qed
    then show ?thesis by (induction e2) auto
  qed
  have "pending mt c md' (fold (deliver mt c) ev v) =
      (if channel = c then apply_op op (pending mt c md v) else pending mt c md v)"
  proof (cases "channel = c")
    case True
    then have "md_channel md1 = Some c" "md_channel md' = Some c" using A s(4) by auto
    then have "pending mt c md' (fold (deliver mt c) ev v) = apply_op op (apply_data mt md1 (fold (deliver mt c) e1 v))"
      using A [of "fold (deliver mt c) e1 v"] True by (simp add: ev pending_def)
    also have "apply_data mt md1 (fold (deliver mt c) e1 v) = pending mt c md v"
      using s(1) [of c v] \<open>md_channel md1 = Some c\<close> by (simp add: pending_def)
    finally show ?thesis using True by simp
  next
    case False
    then have n: "md_channel md1 \<noteq> Some c" "md_channel md' \<noteq> Some c" using A s(4) by auto
    have "pending mt c md' (fold (deliver mt c) ev v) = fold (deliver mt c) e1 v"
      using n skip [OF False] by (simp add: ev pending_def)
    also have "\<dots> = pending mt c md v" using s(1) [of c v] n by (simp add: pending_def)
    finally show ?thesis using False by simp
  qed
  with A s(3) show ?thesis by (auto simp: ev)
qed


section \<open>Runs\<close>

type_synonym mode_call = "cstr \<times> cstr \<times> mode_op"

fun run_ops :: "mode_tables \<Rightarrow> int \<Rightarrow> mode_call list \<Rightarrow> modestackdata \<Rightarrow> mode_event list \<times> modestackdata" where
  "run_ops mt mm [] md = ([], md)"
| "run_ops mt mm ((source, channel, op) # ops) md =
     (let (e1, md1) = run_op mt mm source channel op md; (e2, md2) = run_ops mt mm ops md1 in (e1 @ e2, md2))"

text \<open>The calls for one channel, in order.\<close>

definition calls_for :: "cstr \<Rightarrow> mode_call list \<Rightarrow> mode_op list" where
  "calls_for c ops = map (\<lambda>x. snd (snd x)) (filter (\<lambda>x. fst (snd x) = c) ops)"

lemma run_ops_spec:
  assumes t: "tables_ok mt"
  shows "stack_ok mt md \<Longrightarrow> \<forall>(s, ch, op) \<in> set ops. op_ok mt op \<Longrightarrow> run_ops mt mm ops md = (ev, md') \<Longrightarrow>
    pending mt c md' (fold (deliver mt c) ev v) = fold apply_op (calls_for c ops) (pending mt c md v) \<and>
    stack_ok mt md' \<and> (\<forall>e \<in> set ev. \<exists>ch. event_ok mt ch e)"
proof (induction ops arbitrary: md ev v)
  case Nil
  then show ?case by (simp add: calls_for_def)
next
  case (Cons x ops)
  obtain s ch op where x: "x = (s, ch, op)" by (rule prod_cases3)
  obtain e1 md1 where 1: "run_op mt mm s ch op md = (e1, md1)" by (rule prod.exhaust)
  obtain e2 where 2: "run_ops mt mm ops md1 = (e2, md')" and ev: "ev = e1 @ e2"
    using Cons.prems(3) 1 by (auto simp: x Let_def split: prod.splits)
  have o: "op_ok mt op" "\<forall>(s, ch, op) \<in> set ops. op_ok mt op" using Cons.prems(2) by (auto simp: x)
  have r: "pending mt c md1 (fold (deliver mt c) e1 v) =
      (if ch = c then apply_op op (pending mt c md v) else pending mt c md v)"
    "stack_ok mt md1" "\<forall>e \<in> set e1. \<exists>ch. event_ok mt ch e"
    using run_op_spec [OF t Cons.prems(1) o(1) 1, of c v] by auto
  have "pending mt c md' (fold (deliver mt c) ev v) =
      fold apply_op (calls_for c ops) (pending mt c md1 (fold (deliver mt c) e1 v))"
    using Cons.IH [OF r(2) o(2) 2, of "fold (deliver mt c) e1 v"] by (simp add: ev)
  also have "\<dots> = fold apply_op (calls_for c (x # ops)) (pending mt c md v)"
    by (simp add: r(1) x calls_for_def)
  finally show ?case using Cons.IH [OF r(2) o(2) 2] r(3) by (auto simp: ev)
qed

text \<open>The stack at start: the static \<open>modestackdata\<close>.\<close>

definition modestack_start :: "mode_tables \<Rightarrow> modestackdata" where
  "modestack_start mt =
     \<lparr>md_source = [], md_channel = None, modes_on = 0, modes_off = 0, md_limit = 0,
      extmodes = replicate (n_ext mt) [], limitused = False, extmodesused = replicate (n_ext mt) False,
      pmodes = [], params = [], totalparamslen = 0, totallen = 0, paramcount = 0\<rparr>"

lemma modestack_start_ok: "stack_ok mt (modestack_start mt)" "idle mt (modestack_start mt)"
proof -
  show i: "idle mt (modestack_start mt)" by (simp add: idle_def modestack_start_def)
  show "stack_ok mt (modestack_start mt)"
    using idle_counts [OF i] by (simp add: stack_ok_def) (simp add: modestack_start_def letters_def)
qed



definition sample_tables :: mode_tables where
  "sample_tables =
     \<lparr>mode_list = [(CHR ''i'', 1), (CHR ''m'', 8), (CHR ''t'', 0x100)], ignore_mode_list = ''j'',
      ignore_check = (\<lambda>i s. True), status_mode_list = [(CHR ''o'', 1), (CHR ''v'', 2)],
      ban_like_modes = ''b'', perm_mode = 0\<rparr>"

definition sample_ops :: "mode_call list" where
  "sample_ops =
     [(''CS'', ''#a'', Op_param MTYPE_ADD (CHR ''o'') ''n1''), (''CS'', ''#a'', Op_param MTYPE_ADD (CHR ''o'') ''n2''),
      (''CS'', ''#a'', Op_param MTYPE_DEL (CHR ''v'') ''n1''), (''CS'', ''#a'', Op_limit MTYPE_ADD 5),
      (''CS'', ''#a'', Op_simple MTYPE_ADD 8), (''CS'', ''#a'', Op_param MTYPE_ADD (CHR ''b'') ''*!*@h'')]"

definition sample_view :: mode_view where
  "sample_view = \<lparr>v_modes = 1, v_limit = 0, v_ext = (\<lambda>_. []), v_letters = [], v_values = []\<rparr>"

lemma sample_ok: "tables_ok sample_tables" "\<forall>(s, ch, op) \<in> set sample_ops. op_ok sample_tables op"
  by (simp_all add: tables_ok_def sample_tables_def sample_ops_def n_ext_def)


lemma same_source: "irccasecmp 0 (Some ''CS'') (Some ''CS'') = 0"
  by (simp add: irccasecmp_0_iff)

lemma new_source: "irccasecmp 0 (Some ''CS'') (Some []) \<noteq> 0"
  by (simp add: irccasecmp_0_iff irccasecanon_def)

definition short_ops :: "mode_call list" where
  "short_ops =
     [(''CS'', ''#a'', Op_simple MTYPE_ADD 8), (''CS'', ''#a'', Op_param MTYPE_ADD (CHR ''o'') ''n1''),
      (''CS'', ''#b'', Op_simple MTYPE_ADD 8)]"

lemma short_ok: "\<forall>(s, ch, op) \<in> set short_ops. op_ok sample_tables op"
  by (simp add: short_ops_def)

lemma sample_run:
  "map (\<lambda>e. case e of Mode_sts d s \<Rightarrow> s) (fst (run_ops sample_tables 0 short_ops (modestack_start sample_tables))) =
     [''+mo n1'']"
  by (simp add: short_ops_def modestack_start_def sample_tables_def n_ext_def modestack_mode_param_def
      modestack_mode_limit_def modestack_mode_simple_def modestack_init_def modestack_add_param_def
      modestack_add_limit_def modestack_add_simple_def flush_if_def modestack_calclen_def modestack_flush_def
      flush_letters_def flush_params_def put_def put_dir_def ext_letters_def flags_to_string_def
      ext_params_len_def ext_len_def ext_count_def ext_used_def count_spaces_def channel_name_len_def
      strlcpy_def strlcat_def MAXMODES_def USERLEN_def HOSTLEN_def Let_def modestack_clear_def
      same_source new_source show_nat.simps digit_char_def)


end
