(* ===== verification/Chanmode.thy ===== *)
theory Chanmode
  imports Modestack
begin

text \<open>
  Channel modes (\<open>libathemecore/cmode.c\<close>) and channel bans (\<open>channels.c\<close>): applying a mode change to the
  services' view of a channel, printing the modes, clearing them, and enforcing a mode lock.
\<close>

definition CMODE_KEY :: u32 where "CMODE_KEY = 0x00000002"
definition CMODE_LIMIT :: u32 where "CMODE_LIMIT = 0x00000004"
definition CSTATUS_OP :: u32 where "CSTATUS_OP = 0x00000001"
definition MC_MLOCK_CHECK :: u32 where "MC_MLOCK_CHECK = 0x40000000"

section \<open>Channels\<close>

record chanban =
  cb_mask :: cstr
  cb_type :: char

text \<open>A member: the user (by nick), whether it is a service of ours, and its status modes.\<close>

record chanuser =
  cu_user :: cstr
  cu_service :: bool
  cu_modes :: u32

record channel =
  ch_name :: cstr
  ch_modes :: u32
  ch_key :: "cstr option"
  ch_limit :: u32
  ch_extmodes :: "cstr option list"
  ch_bans :: "chanban list"
  ch_members :: "chanuser list"

section \<open>Bans\<close>

definition ban_is :: "int \<Rightarrow> cstr \<Rightarrow> char \<Rightarrow> chanban \<Rightarrow> bool" where
  "ban_is mm msk type c \<longleftrightarrow> cb_type c = type \<and> irccasecmp mm (Some (cb_mask c)) (Some msk) = 0"

definition chanban_find :: "int \<Rightarrow> channel \<Rightarrow> cstr \<Rightarrow> char \<Rightarrow> chanban option" where
  "chanban_find mm chan msk type = find (ban_is mm msk type) (ch_bans chan)"

definition chanban_add :: "int \<Rightarrow> channel \<Rightarrow> cstr \<Rightarrow> char \<Rightarrow> channel" where
  "chanban_add mm chan msk type =
     (if msk = [] \<or> char_at msk 0 = CHR '':'' \<or> CHR '' '' \<in> set msk then chan
      else if chanban_find mm chan msk type \<noteq> None then chan
      else chan\<lparr>ch_bans := ch_bans chan @ [\<lparr>cb_mask = msk, cb_type = type\<rparr>]\<rparr>)"

text \<open>\<open>c = chanban_find(...); if (c != NULL) chanban_delete(c);\<close> removes the node found.\<close>

fun remove_first :: "('a \<Rightarrow> bool) \<Rightarrow> 'a list \<Rightarrow> 'a list" where
  "remove_first P [] = []"
| "remove_first P (x # xs) = (if P x then xs else x # remove_first P xs)"

definition chanban_delete :: "int \<Rightarrow> channel \<Rightarrow> cstr \<Rightarrow> char \<Rightarrow> channel" where
  "chanban_delete mm chan msk type = chan\<lparr>ch_bans := remove_first (ban_is mm msk type) (ch_bans chan)\<rparr>"

section \<open>Clearing and printing\<close>

definition clear_simple_modes :: "mode_tables \<Rightarrow> channel \<Rightarrow> channel" where
  "clear_simple_modes mt c =
     c\<lparr>ch_modes := 0, ch_limit := 0, ch_key := None, ch_extmodes := replicate (n_ext mt) None\<rparr>"

text \<open>
  The letters and the parameters are collected side by side (\<open>p\<close> in \<open>fullmode[512]\<close>, \<open>q\<close> in
  \<open>params[512]\<close>) and joined at the end.  \<open>"%d"\<close> prints the limit as a signed number.
\<close>

definition channel_modes :: "mode_tables \<Rightarrow> channel \<Rightarrow> bool \<Rightarrow> cstr" where
  "channel_modes mt c doparams =
     (let p0 = CHR ''+'' # flags_to_string mt (ch_modes c);
          p1 = (if ch_limit c \<noteq> 0 then p0 @ ''l'' else p0);
          q1 = (if ch_limit c \<noteq> 0 \<and> doparams then strlcpy ('' '' @ show_int (sint (ch_limit c))) 512 else []);
          p2 = (case ch_key c of None \<Rightarrow> p1 | Some _ \<Rightarrow> p1 @ ''k'');
          q2 = (case ch_key c of
                  Some k \<Rightarrow> if doparams then q1 @ '' '' @ strlcpy k (512 - (length q1 + 1)) else q1
                | None \<Rightarrow> q1);
          pq = fold (\<lambda>i (p, q).
                 case ch_extmodes c ! i of
                   None \<Rightarrow> (p, q)
                 | Some e \<Rightarrow>
                     (p @ [ignore_mode_list mt ! i],
                      if doparams then q @ '' '' @ strlcpy e (512 - (length q + 1)) else q))
               [0 ..< n_ext mt] (p2, q2)
      in fst pq @ strlcpy (snd pq) (512 - length (fst pq)))"

section \<open>Mode locks\<close>

record mlock =
  mlock_on :: u32
  mlock_off :: u32
  mlock_limit :: u32
  mlock_key :: "cstr option"
  mlocked_ext :: "cstr option"
  mc_flags_word :: u32

text \<open>The words of the metadata \<open>private:mlockext\<close>.\<close>

fun mlockext_words :: "cstr \<Rightarrow> cstr \<Rightarrow> cstr list" where
  "mlockext_words [] w = (if w = [] then [] else [w])"
| "mlockext_words (c # s) w =
     (if c = CHR '' '' then (if w = [] then mlockext_words s [] else w # mlockext_words s [])
      else mlockext_words s (w @ [c]))"

text \<open>One word: the letter, then the locked value; a letter alone locks the mode off.\<close>

definition enforce_ext :: "mode_tables \<Rightarrow> cstr \<Rightarrow> nat \<Rightarrow> channel \<times> mode_op list \<Rightarrow> channel \<times> mode_op list" where
  "enforce_ext mt word i co =
     (let c = fst co; ops = snd co
      in if ignore_mode_list mt ! i \<noteq> char_at word 0 then co
         else if tl word = [] then
           (if ch_extmodes c ! i \<noteq> None
            then (c\<lparr>ch_extmodes := (ch_extmodes c)[i := None]\<rparr>, ops @ [Op_ext MTYPE_DEL i []]) else co)
         else
           (let str2 = strlcpy (tl word) 512
            in if ch_extmodes c ! i \<noteq> Some str2 \<and> ignore_check mt i str2
               then (c\<lparr>ch_extmodes := (ch_extmodes c)[i := Some str2]\<rparr>, ops @ [Op_ext MTYPE_ADD i str2]) else co))"

text \<open>
  The stages of \<open>check_modes\<close>, in its order, on the channel and the changes made so far.
\<close>

type_synonym lock_state = "channel \<times> mode_op list"

definition lock_on :: "mlock \<Rightarrow> lock_state \<Rightarrow> lock_state" where
  "lock_on ml co =
     (let on = NOT (ch_modes (fst co)) AND mlock_on ml AND NOT (CMODE_KEY OR CMODE_LIMIT)
      in ((fst co)\<lparr>ch_modes := ch_modes (fst co) OR on\<rparr>,
          if on \<noteq> 0 then snd co @ [Op_simple MTYPE_ADD on] else snd co))"

definition lock_limit :: "mlock \<Rightarrow> lock_state \<Rightarrow> lock_state" where
  "lock_limit ml co =
     (if mlock_limit ml \<noteq> 0 \<and> mlock_limit ml \<noteq> ch_limit (fst co)
      then ((fst co)\<lparr>ch_limit := mlock_limit ml\<rparr>, snd co @ [Op_limit MTYPE_ADD (unat (mlock_limit ml))])
      else co)"

definition lock_key :: "mlock \<Rightarrow> lock_state \<Rightarrow> lock_state" where
  "lock_key ml co =
     (case mlock_key ml of
        None \<Rightarrow> co
      | Some key \<Rightarrow>
          let co1 = (case ch_key (fst co) of
                       Some k \<Rightarrow> if k \<noteq> key
                                 then ((fst co)\<lparr>ch_key := None\<rparr>, snd co @ [Op_param MTYPE_DEL (CHR ''k'') k]) else co
                     | None \<Rightarrow> co)
          in if ch_key (fst co1) = None
             then ((fst co1)\<lparr>ch_key := Some key\<rparr>, snd co1 @ [Op_param MTYPE_ADD (CHR ''k'') key]) else co1)"

definition lock_off :: "mlock \<Rightarrow> lock_state \<Rightarrow> lock_state" where
  "lock_off ml co =
     (let off = ch_modes (fst co) AND mlock_off ml AND NOT (CMODE_KEY OR CMODE_LIMIT)
      in ((fst co)\<lparr>ch_modes := ch_modes (fst co) AND NOT off\<rparr>,
          if off \<noteq> 0 then snd co @ [Op_simple MTYPE_DEL off] else snd co))"

definition unlock_limit :: "mlock \<Rightarrow> lock_state \<Rightarrow> lock_state" where
  "unlock_limit ml co =
     (if ch_limit (fst co) \<noteq> 0 \<and> mlock_off ml AND CMODE_LIMIT \<noteq> 0
      then ((fst co)\<lparr>ch_limit := 0\<rparr>, snd co @ [Op_limit MTYPE_DEL 0]) else co)"

definition unlock_key :: "mlock \<Rightarrow> lock_state \<Rightarrow> lock_state" where
  "unlock_key ml co =
     (case ch_key (fst co) of
        Some k \<Rightarrow> if mlock_off ml AND CMODE_KEY \<noteq> 0
                  then ((fst co)\<lparr>ch_key := None\<rparr>, snd co @ [Op_param MTYPE_DEL (CHR ''k'') k]) else co
      | None \<Rightarrow> co)"

definition lock_ext :: "mode_tables \<Rightarrow> mlock \<Rightarrow> lock_state \<Rightarrow> lock_state" where
  "lock_ext mt ml co =
     (case mlocked_ext ml of
        None \<Rightarrow> co
      | Some v \<Rightarrow> fold (\<lambda>word co. fold (enforce_ext mt word) [0 ..< n_ext mt] co) (mlockext_words v []) co)"

text \<open>
  \<open>check_modes(mychan, sendnow)\<close> for a channel that exists: the channel afterwards, the changes made
  (stacked from ChanServ when \<open>sendnow\<close>), and the flags of the registered channel.
\<close>

definition check_modes :: "mode_tables \<Rightarrow> mlock \<Rightarrow> channel \<Rightarrow> channel \<times> mode_op list \<times> u32" where
  "check_modes mt ml c =
     (let co = lock_ext mt ml (unlock_key ml (unlock_limit ml (lock_off ml
                 (lock_key ml (lock_limit ml (lock_on ml (c, [])))))))
      in (fst co, snd co, mc_flags_word ml AND NOT MC_MLOCK_CHECK))"

section \<open>Applying a mode change\<close>

text \<open>What a change makes the services do besides updating the channel.\<close>

datatype chan_effect =
  Hook_channel_mode
| Stack mode_op
| Stack_from cstr mode_op
| Rejoin cstr
| Hook_mode_change cstr char u32

text \<open>
  The state of the loop: the channel, \<open>parpos\<close>, \<open>whatt\<close>, \<open>simple_modes_changed\<close>, the first service
  deopped, and the effects so far.
\<close>

record cmode_state =
  cs_chan :: channel
  cs_parpos :: nat
  cs_whatt :: mtype
  cs_changed :: bool
  cs_first :: "cstr option"
  cs_effects :: "chan_effect list"

definition emit :: "chan_effect \<Rightarrow> cmode_state \<Rightarrow> cmode_state" where
  "emit e s = s\<lparr>cs_effects := cs_effects s @ [e]\<rparr>"

definition emit_if :: "bool \<Rightarrow> chan_effect \<Rightarrow> cmode_state \<Rightarrow> cmode_state" where
  "emit_if b e s = (if b then emit e s else s)"

text \<open>
  \<open>reop_service\<close>; \<open>services\<close> are the nicks of \<open>me.me->userlist\<close>.  The first service deopped rejoins, or,
  alone on the channel, is opped by another service; later ones are opped by the first.
\<close>

definition reop_service :: "cstr list \<Rightarrow> cstr \<Rightarrow> cmode_state \<Rightarrow> cmode_state" where
  "reop_service services victim s =
     (case cs_first s of
        None \<Rightarrow>
          (if 1 < length (ch_members (cs_chan s)) then emit (Rejoin victim) s
           else (case find (\<lambda>n. n \<noteq> victim) services of
                   None \<Rightarrow> s
                 | Some n \<Rightarrow> emit (Stack_from n (Op_param MTYPE_ADD (CHR ''o'') victim)) s))
            \<lparr>cs_first := Some victim\<rparr>
      | Some f \<Rightarrow>
          if f \<noteq> victim then emit (Stack_from f (Op_param MTYPE_ADD (CHR ''o'') victim)) s else s)"

text \<open>A simple mode letter: its entry in \<open>mode_list\<close>.\<close>

definition simple_mode :: "bool \<Rightarrow> u32 \<Rightarrow> cmode_state \<Rightarrow> cmode_state" where
  "simple_mode src val s =
     (let c = cs_chan s;
          s1 = (if cs_whatt s = MTYPE_ADD
                then s\<lparr>cs_changed := cs_changed s \<or> ch_modes c AND val = 0,
                       cs_chan := c\<lparr>ch_modes := ch_modes c OR val\<rparr>\<rparr>
                else s\<lparr>cs_changed := cs_changed s \<or> ch_modes c AND val \<noteq> 0,
                       cs_chan := c\<lparr>ch_modes := ch_modes c AND NOT val\<rparr>\<rparr>)
      in emit_if src (Stack (Op_simple (cs_whatt s) val)) s1)"

definition ext_mode :: "mode_tables \<Rightarrow> bool \<Rightarrow> cstr list \<Rightarrow> nat \<Rightarrow> cmode_state \<Rightarrow> cmode_state" where
  "ext_mode mt src parv i s =
     (let c = cs_chan s
      in if cs_whatt s = MTYPE_ADD then
           (let s0 = s\<lparr>cs_parpos := Suc (cs_parpos s)\<rparr>;
                par = parv ! Suc (cs_parpos s)
            in if length parv \<le> Suc (cs_parpos s) then s0
               else if src \<and> \<not> ignore_check mt i par then s0
               else emit_if src (Stack (Op_ext MTYPE_ADD i par))
                      (s0\<lparr>cs_changed := cs_changed s \<or> ch_extmodes c ! i \<noteq> Some par,
                          cs_chan := c\<lparr>ch_extmodes := (ch_extmodes c)[i := Some par]\<rparr>\<rparr>))
         else emit_if src (Stack (Op_ext MTYPE_DEL i []))
                (s\<lparr>cs_changed := cs_changed s \<or> ch_extmodes c ! i \<noteq> None,
                   cs_chan := c\<lparr>ch_extmodes := (ch_extmodes c)[i := None]\<rparr>\<rparr>))"

text \<open>\<open>newlimit\<close> is an \<open>unsigned int\<close>, so \<open>newlimit <= 0\<close> holds of 0 only.\<close>

definition limit_mode :: "bool \<Rightarrow> cstr list \<Rightarrow> cmode_state \<Rightarrow> cmode_state" where
  "limit_mode src parv s =
     (let c = cs_chan s
      in if cs_whatt s = MTYPE_ADD then
           (let s0 = s\<lparr>cs_parpos := Suc (cs_parpos s)\<rparr>;
                n0 = (of_int (atoi (parv ! Suc (cs_parpos s))) :: u32);
                n = (if n0 = 0 then 1 else n0)
            in if length parv \<le> Suc (cs_parpos s) then s0
               else emit_if src (Stack (Op_limit MTYPE_ADD (unat n)))
                      (s0\<lparr>cs_changed := cs_changed s \<or> ch_limit c \<noteq> n,
                          cs_chan := c\<lparr>ch_modes := ch_modes c OR CMODE_LIMIT, ch_limit := n\<rparr>\<rparr>))
         else emit_if src (Stack (Op_limit MTYPE_DEL 0))
                (s\<lparr>cs_changed := cs_changed s \<or> ch_limit c \<noteq> 0,
                   cs_chan := c\<lparr>ch_modes := ch_modes c AND NOT CMODE_LIMIT, ch_limit := 0\<rparr>\<rparr>))"

definition key_mode :: "bool \<Rightarrow> cstr list \<Rightarrow> cmode_state \<Rightarrow> cmode_state" where
  "key_mode src parv s =
     (let c = cs_chan s
      in if cs_whatt s = MTYPE_ADD then
           (let s0 = s\<lparr>cs_parpos := Suc (cs_parpos s)\<rparr>; par = parv ! Suc (cs_parpos s)
            in if length parv \<le> Suc (cs_parpos s) then s0
               else emit_if src (Stack (Op_param MTYPE_ADD (CHR ''k'') par))
                      (s0\<lparr>cs_changed := cs_changed s \<or> ch_key c \<noteq> Some par,
                          cs_chan := c\<lparr>ch_modes := ch_modes c OR CMODE_KEY, ch_key := Some par\<rparr>\<rparr>))
         else emit_if src (Stack (Op_param MTYPE_DEL (CHR ''k'') (case ch_key c of Some k \<Rightarrow> k | None \<Rightarrow> ''*'')))
                (s\<lparr>cs_changed := cs_changed s \<or> ch_key c \<noteq> None,
                   cs_chan := c\<lparr>ch_modes := ch_modes c AND NOT CMODE_KEY, ch_key := None\<rparr>,
                   cs_parpos := Suc (cs_parpos s)\<rparr>))"

definition ban_mode :: "int \<Rightarrow> bool \<Rightarrow> cstr list \<Rightarrow> char \<Rightarrow> cmode_state \<Rightarrow> cmode_state" where
  "ban_mode mm src parv ch s =
     (let s0 = s\<lparr>cs_parpos := Suc (cs_parpos s)\<rparr>; par = parv ! Suc (cs_parpos s); c = cs_chan s
      in if length parv \<le> Suc (cs_parpos s) then s0
         else if cs_whatt s = MTYPE_ADD then
           emit_if src (Stack (Op_param MTYPE_ADD ch par)) (s0\<lparr>cs_chan := chanban_add mm c par ch\<rparr>)
         else
           emit_if src (Stack (Op_param MTYPE_DEL ch par)) (s0\<lparr>cs_chan := chanban_delete mm c par ch\<rparr>))"

text \<open>
  A status mode: the user is found by \<open>find_user\<close> (by name, or by name or UID), then among the
  members.  Taking the op status of one of our services is not recorded; from outside it is undone.
\<close>

fun update_first :: "('a \<Rightarrow> bool) \<Rightarrow> ('a \<Rightarrow> 'a) \<Rightarrow> 'a list \<Rightarrow> 'a list" where
  "update_first P f [] = []"
| "update_first P f (x # xs) = (if P x then f x # xs else x # update_first P f xs)"

definition status_mode ::
    "(cstr \<Rightarrow> cstr option) \<Rightarrow> cstr list \<Rightarrow> bool \<Rightarrow> cstr list \<Rightarrow> char \<Rightarrow> u32 \<Rightarrow> cmode_state \<Rightarrow> cmode_state" where
  "status_mode find_user services src parv ch val s =
     (let s0 = s\<lparr>cs_parpos := Suc (cs_parpos s)\<rparr>; c = cs_chan s
      in if length parv \<le> Suc (cs_parpos s) then s0
         else case find_user (parv ! Suc (cs_parpos s)) of
                None \<Rightarrow> s0
              | Some target \<Rightarrow>
                  (case find (\<lambda>cu. cu_user cu = target) (ch_members c) of
                     None \<Rightarrow> s0
                   | Some cu \<Rightarrow>
                       if cs_whatt s = MTYPE_ADD then
                         emit_if (\<not> src \<and> \<not> cu_service cu) (Hook_mode_change target ch val)
                           (emit_if src (Stack (Op_param MTYPE_ADD ch target))
                              (s0\<lparr>cs_chan := c\<lparr>ch_members :=
                                 update_first (\<lambda>cu. cu_user cu = target) (\<lambda>cu. cu\<lparr>cu_modes := cu_modes cu OR val\<rparr>)
                                   (ch_members c)\<rparr>\<rparr>))
                       else if cu_service cu \<and> val = CSTATUS_OP then
                         (if src then s0 else reop_service services target s0)
                       else
                         emit_if src (Stack (Op_param MTYPE_DEL ch target))
                           (s0\<lparr>cs_chan := c\<lparr>ch_members :=
                              update_first (\<lambda>cu. cu_user cu = target) (\<lambda>cu. cu\<lparr>cu_modes := cu_modes cu AND NOT val\<rparr>)
                                (ch_members c)\<rparr>\<rparr>)))"

fun find_letter :: "char \<Rightarrow> char list \<Rightarrow> nat option" where
  "find_letter c [] = None"
| "find_letter c (x # xs) = (if x = c then Some 0 else map_option Suc (find_letter c xs))"

definition mode_letter ::
    "mode_tables \<Rightarrow> int \<Rightarrow> (cstr \<Rightarrow> cstr option) \<Rightarrow> cstr list \<Rightarrow> bool \<Rightarrow> cstr list \<Rightarrow> char \<Rightarrow> cmode_state \<Rightarrow> cmode_state" where
  "mode_letter mt mm find_user services src parv ch s =
     (if ch = CHR ''+'' then s\<lparr>cs_whatt := MTYPE_ADD\<rparr>
      else if ch = CHR ''-'' then s\<lparr>cs_whatt := MTYPE_DEL\<rparr>
      else case map_of (mode_list mt) ch of
        Some val \<Rightarrow> simple_mode src val s
      | None \<Rightarrow>
          (case find_letter ch (ignore_mode_list mt) of
             Some i \<Rightarrow> ext_mode mt src parv i s
           | None \<Rightarrow>
               if ch = CHR ''l'' then limit_mode src parv s
               else if ch = CHR ''k'' then key_mode src parv s
               else if ch \<in> set (ban_like_modes mt) then ban_mode mm src parv ch s
               else (case map_of (status_mode_list mt) ch of
                       Some val \<Rightarrow> status_mode find_user services src parv ch val s
                     | None \<Rightarrow> s)))"

text \<open>
  \<open>channel_mode(source, chan, parc, parv)\<close>: \<open>src\<close> tells whether \<open>source\<close> is set, \<open>parv\<close> has \<open>parc\<close>
  strings, \<open>mc\<close> is the mode lock of the registered channel when ChanServ runs and the channel is
  registered.  The effects of \<open>check_modes\<close> come from ChanServ (\<open>cs_nick\<close>).
\<close>

definition channel_mode ::
    "mode_tables \<Rightarrow> int \<Rightarrow> (cstr \<Rightarrow> cstr option) \<Rightarrow> cstr list \<Rightarrow> cstr \<Rightarrow> bool \<Rightarrow> mlock option \<Rightarrow> channel \<Rightarrow> cstr list \<Rightarrow> cmode_state" where
  "channel_mode mt mm find_user services cs_nick src mc chan parv =
     (let s = \<lparr>cs_chan = chan, cs_parpos = 0, cs_whatt = MTYPE_NUL, cs_changed = False, cs_first = None, cs_effects = []\<rparr>
      in if parv = [] \<or> parv ! 0 = [] \<or> char_at (parv ! 0) 0 = CHR ''0'' then s
         else
           let s1 = fold (mode_letter mt mm find_user services src parv) (parv ! 0) (emit Hook_channel_mode s)
           in case mc of
                None \<Rightarrow> s1
              | Some ml \<Rightarrow>
                  if \<not> src \<and> (cs_changed s1 \<or> mc_flags_word ml AND MC_MLOCK_CHECK \<noteq> 0) then
                    (let (c2, ops, _) = check_modes mt ml (cs_chan s1)
                     in s1\<lparr>cs_chan := c2, cs_effects := cs_effects s1 @ map (Stack_from cs_nick) ops\<rparr>)
                  else s1)"

section \<open>Bans are unique\<close>

definition bans_ok :: "int \<Rightarrow> channel \<Rightarrow> bool" where
  "bans_ok mm c \<longleftrightarrow>
     distinct (map (\<lambda>b. (cb_type b, irccasecanon mm (cb_mask b))) (ch_bans c)) \<and>
     (\<forall>b \<in> set (ch_bans c). no_nul (cb_mask b) \<and> cb_mask b \<noteq> [] \<and> CHR '' '' \<notin> set (cb_mask b))"

lemma ban_is_canon:
  "no_nul (cb_mask b) \<Longrightarrow> no_nul msk \<Longrightarrow>
    ban_is mm msk type b \<longleftrightarrow> (cb_type b, irccasecanon mm (cb_mask b)) = (type, irccasecanon mm msk)"
  by (simp add: ban_is_def irccasecmp_0_iff)

lemma set_remove_first: "set (remove_first P xs) \<subseteq> set xs"
  by (induction xs) auto

lemma distinct_remove_first: "distinct (map f xs) \<Longrightarrow> distinct (map f (remove_first P xs))"
proof (induction xs)
  case (Cons x xs)
  then show ?case using set_remove_first [of P xs] by auto
qed simp

lemma remove_first_none:
  "distinct (map f xs) \<Longrightarrow> (\<forall>x \<in> set xs. P x \<longleftrightarrow> f x = a) \<Longrightarrow> x \<in> set (remove_first P xs) \<Longrightarrow> \<not> P x"
proof (induction xs)
  case (Cons y xs)
  show ?case
  proof (cases "P y")
    case True
    then have "x \<in> set xs" "f y = a" using Cons.prems by auto
    with Cons.prems show ?thesis by (metis (no_types) distinct.simps(2) image_eqI list.simps(9) list.set_intros(2) list.set_map)
  next
    case False
    with Cons show ?thesis by auto
  qed
qed simp

text \<open>
  A channel's ban lists hold no mask twice (under the network's case mapping) and no mask that
  would break the protocol, whatever is added or removed; after adding a valid mask it is there, and
  after deleting it is gone.
\<close>

theorem chanban_unique:
  assumes "bans_ok mm c" and "no_nul msk"
  shows "bans_ok mm (chanban_add mm c msk type) \<and> bans_ok mm (chanban_delete mm c msk type) \<and>
    (msk \<noteq> [] \<and> char_at msk 0 \<noteq> CHR '':'' \<and> CHR '' '' \<notin> set msk \<longrightarrow>
      chanban_find mm (chanban_add mm c msk type) msk type \<noteq> None) \<and>
    chanban_find mm (chanban_delete mm c msk type) msk type = None"
proof -
  let ?key = "\<lambda>b. (cb_type b, irccasecanon mm (cb_mask b))" and ?k = "(type, irccasecanon mm msk)"
  have b: "\<forall>b \<in> set (ch_bans c). ban_is mm msk type b \<longleftrightarrow> ?key b = ?k"
    using assms ban_is_canon by (auto simp: bans_ok_def)
  have self: "ban_is mm msk type \<lparr>cb_mask = msk, cb_type = type\<rparr>"
    using assms(2) by (simp add: ban_is_def irccasecmp_0_iff)
  have 1: "bans_ok mm (chanban_add mm c msk type)"
  proof (cases "msk = [] \<or> char_at msk 0 = CHR '':'' \<or> CHR '' '' \<in> set msk \<or> chanban_find mm c msk type \<noteq> None")
    case True
    then show ?thesis using assms(1) by (auto simp: chanban_add_def)
  next
    case False
    then have "\<forall>b \<in> set (ch_bans c). ?key b \<noteq> ?k"
      using b unfolding chanban_find_def by (metis False chanban_find_def find_None_iff)
    then have "?k \<notin> ?key ` set (ch_bans c)" by force
    moreover have "chanban_add mm c msk type = c\<lparr>ch_bans := ch_bans c @ [\<lparr>cb_mask = msk, cb_type = type\<rparr>]\<rparr>"
      using False unfolding chanban_add_def by (simp del: char_at_in)
    moreover have "msk \<noteq> []" "CHR '' '' \<notin> set msk" using False by auto
    moreover have "distinct (map ?key (ch_bans c @ [\<lparr>cb_mask = msk, cb_type = type\<rparr>]))"
      using assms(1) \<open>?k \<notin> ?key ` set (ch_bans c)\<close> unfolding bans_ok_def map_append distinct_append set_map by auto
    ultimately show ?thesis using assms unfolding bans_ok_def by simp
  qed
  have 2: "bans_ok mm (chanban_delete mm c msk type)"
    using assms(1) set_remove_first [of "ban_is mm msk type" "ch_bans c"]
    by (auto simp: chanban_delete_def bans_ok_def distinct_remove_first)
  have 3: "chanban_find mm (chanban_add mm c msk type) msk type \<noteq> None"
    if "msk \<noteq> []" "char_at msk 0 \<noteq> CHR '':''" "CHR '' '' \<notin> set msk"
    using that self by (auto simp: chanban_add_def chanban_find_def find_None_iff)
  have 4: "chanban_find mm (chanban_delete mm c msk type) msk type = None"
    using remove_first_none [of ?key "ch_bans c" "ban_is mm msk type" ?k] assms(1) b
    by (auto simp: chanban_find_def chanban_delete_def find_None_iff bans_ok_def)
  show ?thesis using 1 2 3 4 by blast
qed

section \<open>Services keep their op status\<close>

lemma update_first_map: "(\<And>x. g (f x) = g x) \<Longrightarrow> map g (update_first P f xs) = map g xs"
  by (induction xs) auto

lemma update_first_inv:
  "x \<in> set (update_first P f xs) \<Longrightarrow> x \<in> set xs \<or> (\<exists>y \<in> set xs. P y \<and> x = f y)"
  by (induction xs) (auto split: if_splits)

definition members_view :: "channel \<Rightarrow> (cstr \<times> bool) list" where
  "members_view c = map (\<lambda>cu. (cu_user cu, cu_service cu)) (ch_members c)"

definition services_opped :: "channel \<Rightarrow> bool" where
  "services_opped c \<longleftrightarrow> (\<forall>cu \<in> set (ch_members c). cu_service cu \<longrightarrow> cu_modes cu AND CSTATUS_OP \<noteq> 0)"


lemma members_view_update:
  "(\<And>cu. cu_user (f cu) = cu_user cu \<and> cu_service (f cu) = cu_service cu) \<Longrightarrow>
    members_view (c\<lparr>ch_members := update_first P f (ch_members c)\<rparr>) = members_view c"
  by (simp add: members_view_def update_first_map)

text \<open>What a letter cannot change: who is on the channel, and the op status of our services.\<close>

definition stays :: "cmode_state \<Rightarrow> cmode_state \<Rightarrow> bool" where
  "stays s s' \<longleftrightarrow> members_view (cs_chan s') = members_view (cs_chan s) \<and>
     (services_opped (cs_chan s) \<longrightarrow> services_opped (cs_chan s'))"

lemma stays_refl [simp]: "stays s s"
  by (simp add: stays_def)

lemma stays_members: "ch_members (cs_chan s') = ch_members (cs_chan s) \<Longrightarrow> stays s s'"
  by (simp add: stays_def members_view_def services_opped_def)

lemma stays_trans: "stays s s' \<Longrightarrow> stays s' s'' \<Longrightarrow> stays s s''"
  by (simp add: stays_def)

lemma emit_if_chan [simp]: "cs_chan (emit_if b e s) = cs_chan s"
  by (simp add: emit_if_def emit_def)

lemma reop_service_chan [simp]: "cs_chan (reop_service services v s) = cs_chan s"
  by (simp add: reop_service_def emit_def split: option.splits)

lemma chanban_members [simp]:
  "ch_members (chanban_add mm c msk t) = ch_members c" "ch_members (chanban_delete mm c msk t) = ch_members c"
  by (simp_all add: chanban_add_def chanban_delete_def)

lemma update_first_found: "x \<in> set (update_first P f xs) \<Longrightarrow> find P xs = Some z \<Longrightarrow> x = f z \<or> x \<in> set xs"
  by (induction xs) (auto split: if_splits)

lemma status_mode_stays:
  assumes "val = CSTATUS_OP \<or> val AND CSTATUS_OP = 0"
  shows "stays s (status_mode fu services src parv ch val s)"
proof -
  define target where "target = fu (parv ! Suc (cs_parpos s))"
  show ?thesis
  proof (cases "length parv \<le> Suc (cs_parpos s) \<or> target = None \<or>
      find (\<lambda>cu. cu_user cu = the target) (ch_members (cs_chan s)) = None")
    case True
    then show ?thesis
      by (intro stays_members) (auto simp: status_mode_def Let_def target_def split: option.splits)
  next
    case False
    then obtain t cu where t: "target = Some t" "find (\<lambda>cu. cu_user cu = t) (ch_members (cs_chan s)) = Some cu" by auto
    let ?c = "cs_chan s" and ?P = "\<lambda>cu. cu_user cu = t"
    let ?add = "\<lambda>cu. cu\<lparr>cu_modes := cu_modes cu OR val\<rparr>" and ?del = "\<lambda>cu. cu\<lparr>cu_modes := cu_modes cu AND NOT val\<rparr>"
    have "cs_chan (status_mode fu services src parv ch val s) =
        (if cs_whatt s = MTYPE_ADD then ?c\<lparr>ch_members := update_first ?P ?add (ch_members ?c)\<rparr>
         else if cu_service cu \<and> val = CSTATUS_OP then ?c
         else ?c\<lparr>ch_members := update_first ?P ?del (ch_members ?c)\<rparr>)"
      using False t by (simp add: status_mode_def Let_def target_def)
    moreover have "services_opped (?c\<lparr>ch_members := update_first ?P ?add (ch_members ?c)\<rparr>)" if "services_opped ?c"
    proof -
      have "(m OR val) AND CSTATUS_OP \<noteq> 0" if "m AND CSTATUS_OP \<noteq> 0" for m :: u32
        using that by (auto simp: bit_eq_iff bit_simps)
      with that show ?thesis
        by (fastforce simp: services_opped_def dest: update_first_inv)
    qed
    moreover have "services_opped (?c\<lparr>ch_members := update_first ?P ?del (ch_members ?c)\<rparr>)"
      if "services_opped ?c" "\<not> (cu_service cu \<and> val = CSTATUS_OP)"
    proof (cases "val = CSTATUS_OP")
      case True
      with that have "\<not> cu_service cu" by simp
      with that(1) show ?thesis
        by (auto simp: services_opped_def dest!: update_first_found [OF _ t(2)])
    next
      case False
      with assms have v: "(m AND NOT val) AND CSTATUS_OP = m AND CSTATUS_OP" for m
        by (auto simp: bit_eq_iff bit_simps)
      from that(1) show ?thesis
        by (fastforce simp: services_opped_def v dest: update_first_inv)
    qed
    ultimately show ?thesis
      by (auto simp: stays_def members_view_update)
  qed
qed


definition status_tables_ok :: "mode_tables \<Rightarrow> bool" where
  "status_tables_ok mt \<longleftrightarrow> (\<forall>m \<in> set (status_mode_list mt). snd m = CSTATUS_OP \<or> snd m AND CSTATUS_OP = 0)"

lemma mode_letter_stays:
  assumes "status_tables_ok mt"
  shows "stays s (mode_letter mt mm fu services src parv ch s)"
proof -
  have st: "stays s (status_mode fu services src parv ch val s)" if "map_of (status_mode_list mt) ch = Some val" for val
    using assms map_of_SomeD [OF that] by (intro status_mode_stays) (auto simp: status_tables_ok_def)
  have m: "stays s (simple_mode src val s)" "stays s (ext_mode mt src parv i s)" "stays s (limit_mode src parv s)"
    "stays s (key_mode src parv s)" "stays s (ban_mode mm src parv ch s)" "stays s (s\<lparr>cs_whatt := d\<rparr>)" for val i d
    by (intro stays_members; simp add: simple_mode_def ext_mode_def limit_mode_def key_mode_def ban_mode_def Let_def)+
  show ?thesis
    unfolding mode_letter_def using st m by (auto split: option.splits)
qed

lemma enforce_members: "ch_members (fst (enforce_ext mt w i co)) = ch_members (fst co)"
  by (simp add: enforce_ext_def Let_def)

lemma enforce_fold_members: "ch_members (fst (fold (enforce_ext mt w) js co)) = ch_members (fst co)"
  by (induction js arbitrary: co) (simp_all add: enforce_members)

lemma enforce_words_members:
  "ch_members (fst (fold (\<lambda>w co. fold (enforce_ext mt w) js co) ws co)) = ch_members (fst co)"
  by (induction ws arbitrary: co) (simp_all add: enforce_fold_members)

lemma lock_members:
  "ch_members (fst (lock_on ml co)) = ch_members (fst co)" "ch_members (fst (lock_limit ml co)) = ch_members (fst co)"
  "ch_members (fst (lock_key ml co)) = ch_members (fst co)" "ch_members (fst (lock_off ml co)) = ch_members (fst co)"
  "ch_members (fst (unlock_limit ml co)) = ch_members (fst co)" "ch_members (fst (unlock_key ml co)) = ch_members (fst co)"
  "ch_members (fst (lock_ext mt ml co)) = ch_members (fst co)"
  by (simp_all add: lock_on_def lock_limit_def lock_key_def lock_off_def unlock_limit_def unlock_key_def
      lock_ext_def Let_def enforce_words_members split: option.split)

lemma check_modes_members: "ch_members (fst (check_modes mt ml c)) = ch_members c"
  by (simp add: check_modes_def Let_def lock_members)

text \<open>
  C12: no mode change, from a server or from a service, changes who is on a channel or takes the op
  status that the services of ours have there: it is not recorded, and from outside it is undone.
\<close>

theorem channel_mode_keeps_services:
  assumes "status_tables_ok mt"
  shows "members_view (cs_chan (channel_mode mt mm fu services cs src mc c parv)) = members_view c \<and>
    (services_opped c \<longrightarrow> services_opped (cs_chan (channel_mode mt mm fu services cs src mc c parv)))"
proof -
  have f: "stays s (fold (mode_letter mt mm fu services src parv) str s)" for str s
  proof (induction str arbitrary: s)
    case Nil
    show ?case by (simp add: stays_def)
  next
    case (Cons ch str)
    show ?case using stays_trans [OF mode_letter_stays [OF assms] Cons] by simp
  qed
  let ?s = "\<lparr>cs_chan = c, cs_parpos = 0, cs_whatt = MTYPE_NUL, cs_changed = False, cs_first = None, cs_effects = []\<rparr>"
  let ?s1 = "fold (mode_letter mt mm fu services src parv) (parv ! 0) (emit Hook_channel_mode ?s)"
  have 1: "stays ?s ?s1"
    by (rule stays_trans [OF stays_members f]) (simp add: emit_def)
  have "stays ?s (channel_mode mt mm fu services cs src mc c parv)"
  proof (cases "parv = [] \<or> parv ! 0 = [] \<or> char_at (parv ! 0) 0 = CHR ''0''")
    case True
    then show ?thesis by (simp add: channel_mode_def stays_def)
  next
    case False
    have 2: "stays ?s1 (?s1\<lparr>cs_chan := fst (check_modes mt ml (cs_chan ?s1)), cs_effects := e\<rparr>)" for ml e
      by (rule stays_members) (simp add: check_modes_members)
    from False show ?thesis
      unfolding channel_mode_def Let_def case_prod_unfold
      using 1 2 stays_trans by (auto split: option.split simp del: fold_Cons)
  qed
  then show ?thesis by (simp add: stays_def)
qed


definition sample_channel :: channel where
  "sample_channel =
     \<lparr>ch_name = ''#a'', ch_modes = 1, ch_key = None, ch_limit = 0, ch_extmodes = [None], ch_bans = [],
      ch_members = [\<lparr>cu_user = ''ChanServ'', cu_service = True, cu_modes = CSTATUS_OP\<rparr>,
                    \<lparr>cu_user = ''n'', cu_service = False, cu_modes = 0\<rparr>]\<rparr>"

theorem channel_mode_keeps_services_witness:
  "members_view (cs_chan (channel_mode sample_tables 0 Some [''ChanServ''] ''ChanServ'' False None sample_channel
      [''-o+v'', ''ChanServ'', ''n''])) = members_view sample_channel \<and>
   services_opped (cs_chan (channel_mode sample_tables 0 Some [''ChanServ''] ''ChanServ'' False None sample_channel
      [''-o+v'', ''ChanServ'', ''n'']))"
proof -
  have "status_tables_ok sample_tables"
    by (simp add: status_tables_ok_def sample_tables_def CSTATUS_OP_def)
  moreover have "services_opped sample_channel"
    by (simp add: services_opped_def sample_channel_def CSTATUS_OP_def)
  ultimately show ?thesis by (simp add: channel_mode_keeps_services)
qed

theorem chanban_unique_witness:
  "bans_ok 0 (chanban_add 0 sample_channel ''*!*@h'' (CHR ''b'')) \<and>
   bans_ok 0 (chanban_delete 0 sample_channel ''*!*@h'' (CHR ''b'')) \<and>
   chanban_find 0 (chanban_add 0 sample_channel ''*!*@h'' (CHR ''b'')) ''*!*@h'' (CHR ''b'') \<noteq> None \<and>
   chanban_find 0 (chanban_delete 0 sample_channel ''*!*@h'' (CHR ''b'')) ''*!*@h'' (CHR ''b'') = None"
  using chanban_unique [of 0 sample_channel "''*!*@h''" "CHR ''b''"]
  by (simp add: bans_ok_def sample_channel_def)

text \<open>
  The guard that is to map useless limits to 1 compares an \<open>unsigned int\<close> with \<open><= 0\<close>: \<open>+l 0\<close>
  becomes 1, a negative limit becomes a limit of four billion.
\<close>

theorem negative_limit:
  "ch_limit (cs_chan (channel_mode sample_tables 0 Some [] [] False None sample_channel [''+l'', ''0''])) = 1 \<and>
   ch_limit (cs_chan (channel_mode sample_tables 0 Some [] [] False None sample_channel [''+l'', ''-5''])) = 4294967291"
  by (simp add: channel_mode_def mode_letter_def limit_mode_def sample_tables_def sample_channel_def emit_def
      emit_if_def Let_def atoi_def is_space_def is_digit_def digit_value_def)

section \<open>Mode locks hold\<close>

text \<open>A lock that does not contradict itself, and a channel that obeys it.\<close>

definition lock_words :: "mlock \<Rightarrow> cstr list" where
  "lock_words ml = (case mlocked_ext ml of None \<Rightarrow> [] | Some v \<Rightarrow> mlockext_words v [])"

definition mlock_ok :: "mlock \<Rightarrow> bool" where
  "mlock_ok ml \<longleftrightarrow>
     mlock_on ml AND mlock_off ml = 0 \<and>
     (mlock_limit ml \<noteq> 0 \<longrightarrow> mlock_off ml AND CMODE_LIMIT = 0) \<and>
     (mlock_key ml \<noteq> None \<longrightarrow> mlock_off ml AND CMODE_KEY = 0) \<and>
     distinct (map (\<lambda>w. char_at w 0) (lock_words ml))"

definition obeys_ext :: "mode_tables \<Rightarrow> cstr \<Rightarrow> nat \<Rightarrow> channel \<Rightarrow> bool" where
  "obeys_ext mt w i c \<longleftrightarrow>
     (ignore_mode_list mt ! i = char_at w 0 \<longrightarrow>
       (tl w = [] \<longrightarrow> ch_extmodes c ! i = None) \<and>
       (tl w \<noteq> [] \<and> ignore_check mt i (strlcpy (tl w) 512) \<longrightarrow> ch_extmodes c ! i = Some (strlcpy (tl w) 512)))"

definition simple_locks :: u32 where
  "simple_locks = NOT (CMODE_KEY OR CMODE_LIMIT)"

definition obeys_lock :: "mode_tables \<Rightarrow> mlock \<Rightarrow> channel \<Rightarrow> bool" where
  "obeys_lock mt ml c \<longleftrightarrow>
     NOT (ch_modes c) AND mlock_on ml AND simple_locks = 0 \<and>
     ch_modes c AND mlock_off ml AND simple_locks = 0 \<and>
     (mlock_limit ml \<noteq> 0 \<longrightarrow> ch_limit c = mlock_limit ml) \<and>
     (\<forall>k. mlock_key ml = Some k \<longrightarrow> ch_key c = Some k) \<and>
     (mlock_off ml AND CMODE_LIMIT \<noteq> 0 \<longrightarrow> ch_limit c = 0) \<and>
     (mlock_off ml AND CMODE_KEY \<noteq> 0 \<longrightarrow> ch_key c = None) \<and>
     (\<forall>w \<in> set (lock_words ml). \<forall>i < n_ext mt. obeys_ext mt w i c)"

lemma enforce_ext_obeyed: "obeys_ext mt w i (fst co) \<Longrightarrow> enforce_ext mt w i co = co"
  by (auto simp: enforce_ext_def obeys_ext_def Let_def)

lemma enforce_fold_obeyed:
  "\<forall>i \<in> set js. obeys_ext mt w i (fst co) \<Longrightarrow> fold (enforce_ext mt w) js co = co"
  by (induction js arbitrary: co) (simp_all add: enforce_ext_obeyed)

lemma enforce_words_obeyed:
  "\<forall>w \<in> set ws. \<forall>i \<in> set js. obeys_ext mt w i (fst co) \<Longrightarrow>
    fold (\<lambda>w co. fold (enforce_ext mt w) js co) ws co = co"
  by (induction ws arbitrary: co) (simp_all add: enforce_fold_obeyed)

lemma lock_ext_fold: "lock_ext mt ml co = fold (\<lambda>w co. fold (enforce_ext mt w) [0 ..< n_ext mt] co) (lock_words ml) co"
  by (simp add: lock_ext_def lock_words_def split: option.split)

lemma check_modes_obeyed:
  assumes "obeys_lock mt ml c"
  shows "check_modes mt ml c = (c, [], mc_flags_word ml AND NOT MC_MLOCK_CHECK)"
proof -
  note o = assms [unfolded obeys_lock_def simple_locks_def]
  have "lock_on ml (c, []) = (c, [])" using o by (simp add: lock_on_def)
  moreover have "lock_limit ml (c, []) = (c, [])" using o by (auto simp: lock_limit_def)
  moreover have "lock_key ml (c, []) = (c, [])" using o by (auto simp: lock_key_def split: option.splits)
  moreover have "lock_off ml (c, []) = (c, [])" using o by (simp add: lock_off_def)
  moreover have "unlock_limit ml (c, []) = (c, [])" using o by (auto simp: unlock_limit_def)
  moreover have "unlock_key ml (c, []) = (c, [])" using o by (simp add: unlock_key_def split: option.split)
  moreover have "lock_ext mt ml (c, []) = (c, [])"
    unfolding lock_ext_fold using o by (intro enforce_words_obeyed) simp
  ultimately show ?thesis by (simp add: check_modes_def)
qed

text \<open>The extension part: what one word settles stays settled under the other words.\<close>

lemma enforce_ext_frame:
  "ch_modes (fst (enforce_ext mt w i co)) = ch_modes (fst co)" "ch_limit (fst (enforce_ext mt w i co)) = ch_limit (fst co)"
  "ch_key (fst (enforce_ext mt w i co)) = ch_key (fst co)"
  "length (ch_extmodes (fst (enforce_ext mt w i co))) = length (ch_extmodes (fst co))"
  by (simp_all add: enforce_ext_def Let_def)

lemma enforce_ext_settles:
  "i < length (ch_extmodes (fst co)) \<Longrightarrow> obeys_ext mt w i (fst (enforce_ext mt w i co))"
  by (simp add: enforce_ext_def obeys_ext_def Let_def)

lemma enforce_ext_keeps:
  "obeys_ext mt w' i' (fst co) \<Longrightarrow> char_at w 0 \<noteq> char_at w' 0 \<or> i \<noteq> i' \<Longrightarrow>
    obeys_ext mt w' i' (fst (enforce_ext mt w i co))"
  by (cases "i = i'") (auto simp: enforce_ext_def obeys_ext_def Let_def)

lemma enforce_ext_keeps_any:
  "obeys_ext mt w' i' (fst co) \<Longrightarrow> char_at w 0 \<noteq> char_at w' 0 \<or> w = w' \<Longrightarrow>
    obeys_ext mt w' i' (fst (enforce_ext mt w i co))"
  using enforce_ext_obeyed [of mt w i co] enforce_ext_keeps [of mt w' i' co w i] by (cases "i = i'") auto

lemma enforce_fold_keeps:
  "obeys_ext mt w' i' (fst co) \<Longrightarrow> char_at w 0 \<noteq> char_at w' 0 \<or> w = w' \<Longrightarrow>
    obeys_ext mt w' i' (fst (fold (enforce_ext mt w) js co))"
  by (induction js arbitrary: co) (simp_all add: enforce_ext_keeps_any)

lemma enforce_fold_frame:
  "ch_modes (fst (fold (enforce_ext mt w) js co)) = ch_modes (fst co)"
  "ch_limit (fst (fold (enforce_ext mt w) js co)) = ch_limit (fst co)"
  "ch_key (fst (fold (enforce_ext mt w) js co)) = ch_key (fst co)"
  "length (ch_extmodes (fst (fold (enforce_ext mt w) js co))) = length (ch_extmodes (fst co))"
  by (induction js arbitrary: co) (simp_all add: enforce_ext_frame)

lemma enforce_fold_settles:
  "i \<in> set js \<Longrightarrow> i < length (ch_extmodes (fst co)) \<Longrightarrow> obeys_ext mt w i (fst (fold (enforce_ext mt w) js co))"
proof (induction js arbitrary: co)
  case (Cons j js)
  show ?case
  proof (cases "i = j")
    case True
    with Cons.prems enforce_fold_keeps [OF enforce_ext_settles] show ?thesis by simp
  next
    case False
    with Cons show ?thesis by (simp add: enforce_ext_frame)
  qed
qed simp

lemma enforce_words_frame:
  "ch_modes (fst (fold (\<lambda>w co. fold (enforce_ext mt w) js co) ws co)) = ch_modes (fst co)"
  "ch_limit (fst (fold (\<lambda>w co. fold (enforce_ext mt w) js co) ws co)) = ch_limit (fst co)"
  "ch_key (fst (fold (\<lambda>w co. fold (enforce_ext mt w) js co) ws co)) = ch_key (fst co)"
  by (induction ws arbitrary: co) (simp_all add: enforce_fold_frame)

lemma enforce_words_keeps:
  "obeys_ext mt w' i' (fst co) \<Longrightarrow> \<forall>w \<in> set ws. char_at w 0 \<noteq> char_at w' 0 \<Longrightarrow>
    obeys_ext mt w' i' (fst (fold (\<lambda>w co. fold (enforce_ext mt w) js co) ws co))"
  by (induction ws arbitrary: co) (simp_all add: enforce_fold_keeps)

lemma enforce_words_settles:
  "distinct (map (\<lambda>w. char_at w 0) ws) \<Longrightarrow> w \<in> set ws \<Longrightarrow> i \<in> set js \<Longrightarrow> i < length (ch_extmodes (fst co)) \<Longrightarrow>
    obeys_ext mt w i (fst (fold (\<lambda>w co. fold (enforce_ext mt w) js co) ws co))"
proof (induction ws arbitrary: co)
  case (Cons v ws)
  show ?case
  proof (cases "w = v")
    case True
    have "obeys_ext mt v i (fst (fold (enforce_ext mt v) js co))"
      using Cons.prems by (intro enforce_fold_settles)
    moreover have "\<forall>w \<in> set ws. char_at w 0 \<noteq> char_at v 0" using Cons.prems(1) by (auto simp: image_iff)
    ultimately show ?thesis using True by (simp add: enforce_words_keeps)
  next
    case False
    with Cons show ?thesis by (simp add: enforce_fold_frame)
  qed
qed simp

lemma lock_stage_ext:
  "ch_extmodes (fst (lock_on ml co)) = ch_extmodes (fst co)" "ch_extmodes (fst (lock_limit ml co)) = ch_extmodes (fst co)"
  "ch_extmodes (fst (lock_key ml co)) = ch_extmodes (fst co)" "ch_extmodes (fst (lock_off ml co)) = ch_extmodes (fst co)"
  "ch_extmodes (fst (unlock_limit ml co)) = ch_extmodes (fst co)"
  "ch_extmodes (fst (unlock_key ml co)) = ch_extmodes (fst co)"
  by (simp_all add: lock_on_def lock_limit_def lock_key_def lock_off_def unlock_limit_def unlock_key_def Let_def
      split: option.split)

text \<open>
  C7: \<open>check_modes\<close> enforces the mode lock: afterwards the channel obeys it (simple modes, limit, key
  and extension modes), and enforcing it again changes nothing and sends nothing, so a lock cannot
  make services fight themselves.
\<close>

theorem check_modes_enforces:
  assumes ok: "mlock_ok ml" and len: "length (ch_extmodes c) = n_ext mt"
  shows "obeys_lock mt ml (fst (check_modes mt ml c)) \<and>
    check_modes mt ml (fst (check_modes mt ml c)) =
      (fst (check_modes mt ml c), [], mc_flags_word ml AND NOT MC_MLOCK_CHECK)"
proof -
  define c1 where "c1 = lock_on ml (c, [])"
  define c2 where "c2 = lock_limit ml c1"
  define c3 where "c3 = lock_key ml c2"
  define c4 where "c4 = lock_off ml c3"
  define c5 where "c5 = unlock_limit ml c4"
  define c6 where "c6 = unlock_key ml c5"
  define c7 where "c7 = lock_ext mt ml c6"
  have fin: "fst (check_modes mt ml c) = fst c7"
    by (simp add: check_modes_def Let_def c7_def c6_def c5_def c4_def c3_def c2_def c1_def)
  have m3: "ch_modes (fst c3) = ch_modes (fst c1)"
    by (simp add: c3_def c2_def lock_key_def lock_limit_def Let_def split: option.split)
  have m7: "ch_modes (fst c7) = ch_modes (fst c4)"
    by (simp add: c7_def c6_def c5_def lock_ext_fold enforce_words_frame unlock_key_def unlock_limit_def split: option.split)
  have m4: "ch_modes (fst c7) = (ch_modes (fst c1) AND NOT (ch_modes (fst c1) AND mlock_off ml AND simple_locks))"
    by (simp add: m7 c4_def lock_off_def Let_def m3 simple_locks_def)
  have m1: "ch_modes (fst c1) = ch_modes c OR (NOT (ch_modes c) AND mlock_on ml AND simple_locks)"
    by (simp add: c1_def lock_on_def Let_def simple_locks_def)
  have "bit (mlock_on ml AND mlock_off ml) i = bit 0 i" for i
    using ok by (simp add: mlock_ok_def)
  then have excl: "bit (mlock_on ml) i \<Longrightarrow> \<not> bit (mlock_off ml) i" for i
    by (simp add: bit_and_iff)
  have o1: "NOT (ch_modes (fst c7)) AND mlock_on ml AND simple_locks = 0"
    unfolding m4 m1 by (rule bit_eqI) (use excl in \<open>auto simp: bit_simps\<close>)
  have o2: "ch_modes (fst c7) AND mlock_off ml AND simple_locks = 0"
    unfolding m4 by (rule bit_eqI) (auto simp: bit_simps)
  have l7: "ch_limit (fst c7) = ch_limit (fst c5)" "ch_key (fst c7) = ch_key (fst c6)"
    by (simp_all add: c7_def c6_def lock_ext_fold enforce_words_frame unlock_key_def split: option.split)
  have l4: "ch_limit (fst c4) = ch_limit (fst c2)" "ch_key (fst c5) = ch_key (fst c3)"
    by (simp_all add: c5_def c4_def c3_def lock_off_def lock_key_def unlock_limit_def Let_def split: option.split)
  have l2: "mlock_limit ml \<noteq> 0 \<longrightarrow> ch_limit (fst c2) = mlock_limit ml" by (simp add: c2_def lock_limit_def)
  have l5: "ch_limit (fst c7) = (if ch_limit (fst c2) \<noteq> 0 \<and> mlock_off ml AND CMODE_LIMIT \<noteq> 0 then 0 else ch_limit (fst c2))"
    by (simp add: l7 c5_def unlock_limit_def l4)
  have o3: "mlock_limit ml \<noteq> 0 \<longrightarrow> ch_limit (fst c7) = mlock_limit ml"
    using ok l2 by (simp add: l5 mlock_ok_def)
  have o5: "mlock_off ml AND CMODE_LIMIT \<noteq> 0 \<longrightarrow> ch_limit (fst c7) = 0" by (simp add: l5)
  have k3: "\<forall>k. mlock_key ml = Some k \<longrightarrow> ch_key (fst c3) = Some k"
    by (auto simp: c3_def lock_key_def Let_def split: option.split)
  have k6: "ch_key (fst c7) = (if mlock_off ml AND CMODE_KEY \<noteq> 0 then None else ch_key (fst c3))"
    by (simp add: l7 c6_def unlock_key_def l4 split: option.split)
  have o4: "\<forall>k. mlock_key ml = Some k \<longrightarrow> ch_key (fst c7) = Some k"
    using ok k3 by (simp add: k6 mlock_ok_def)
  have o6: "mlock_off ml AND CMODE_KEY \<noteq> 0 \<longrightarrow> ch_key (fst c7) = None" by (simp add: k6)
  have "ch_extmodes (fst c6) = ch_extmodes c"
    by (simp add: c6_def c5_def c4_def c3_def c2_def c1_def lock_stage_ext)
  then have o7: "\<forall>w \<in> set (lock_words ml). \<forall>i < n_ext mt. obeys_ext mt w i (fst c7)"
    using ok len unfolding c7_def lock_ext_fold mlock_ok_def by (auto intro!: enforce_words_settles)
  have "obeys_lock mt ml (fst c7)" unfolding obeys_lock_def using o1 o2 o3 o4 o5 o6 o7 by blast
  then show ?thesis unfolding fin using check_modes_obeyed by blast
qed

theorem check_modes_enforces_witness:
  "let ml = \<lparr>mlock_on = 9, mlock_off = 0x100, mlock_limit = 5, mlock_key = Some ''k'', mlocked_ext = Some ''j3:5'',
             mc_flags_word = 0\<rparr>
   in obeys_lock sample_tables ml (fst (check_modes sample_tables ml sample_channel)) \<and>
      check_modes sample_tables ml (fst (check_modes sample_tables ml sample_channel)) =
        (fst (check_modes sample_tables ml sample_channel), [], mc_flags_word ml AND NOT MC_MLOCK_CHECK)"
  unfolding Let_def
  by (rule check_modes_enforces)
    (simp_all add: mlock_ok_def CMODE_LIMIT_def CMODE_KEY_def lock_words_def sample_channel_def n_ext_def sample_tables_def)

end
