(* ===== verification/Datastream.thy ===== *)
theory Datastream
  imports Prelude
begin

text \<open>
  \<open>libathemecore/datastream.c\<close>: the send and receive queues of a connection, lists of blocks of
  \<open>SENDQSIZE\<close> bytes, and its client \<open>libathemecore/packet.c\<close> that cuts the uplink's byte stream into
  lines.  The abstraction of a queue is the byte string it holds (\<open>queue_bytes\<close>); every operation
  refines the obvious one on byte strings.  The kernel (\<open>send\<close>, \<open>recv\<close>) is a parameter, its documented
  contract is that it never reports more bytes than it was offered.
\<close>

section \<open>Data\<close>

definition SENDQSIZE :: nat where "SENDQSIZE = 4096 - 40"

definition CF_DEAD :: u32 where "CF_DEAD = 0x40"
definition CF_NONEWLINE :: u32 where "CF_NONEWLINE = 0x80"
definition CF_SEND_EOF :: u32 where "CF_SEND_EOF = 0x100"
definition CF_SEND_DEAD :: u32 where "CF_SEND_DEAD = 0x200"

text \<open>
  \<open>struct sendq\<close>: bytes \<open>firstused..<firstfree\<close> of \<open>buf\<close> are in the queue.  A buffer is the function
  from offsets to bytes; that no operation writes at an offset of \<open>SENDQSIZE\<close> or more is part of the
  invariant below.
\<close>

record sendq =
  firstused :: nat
  firstfree :: nat
  sq_buf :: "nat \<Rightarrow> char"

text \<open>
  The fields of \<open>connection_t\<close> that the queues use.  \<open>want_write\<close>: the write handler is \<open>sendq_flush\<close>
  (not \<open>NULL\<close>), so that the event loop calls it; \<open>write_shut\<close>: \<open>shutdown(fd, SHUT_WR)\<close> was done.
\<close>

record conn =
  cf_flags :: u32
  sendq_limit :: nat
  cn_sendq :: "sendq list"
  cn_recvq :: "sendq list"
  want_write :: bool
  write_shut :: bool

definition new_sendq :: sendq where
  "new_sendq = \<lparr>firstused = 0, firstfree = 0, sq_buf = (\<lambda>_. NUL)\<rparr>"

text \<open>\<open>memcpy(sq->buf + off, src, length src)\<close>\<close>

definition blit :: "(nat \<Rightarrow> char) \<Rightarrow> nat \<Rightarrow> cstr \<Rightarrow> nat \<Rightarrow> char" where
  "blit b off src = (\<lambda>i. if off \<le> i \<and> i < off + length src then src ! (i - off) else b i)"

definition sq_used :: "sendq \<Rightarrow> nat" where
  "sq_used q = firstfree q - firstused q"

definition sq_read :: "sendq \<Rightarrow> nat \<Rightarrow> cstr" where
  "sq_read q l = map (sq_buf q) [firstused q..<firstused q + l]"

definition sq_bytes :: "sendq \<Rightarrow> cstr" where
  "sq_bytes q = sq_read q (sq_used q)"

definition queue_bytes :: "sendq list \<Rightarrow> cstr" where
  "queue_bytes qs = concat (map sq_bytes qs)"

text \<open>Copying \<open>src\<close> behind the used part, and consuming \<open>l\<close> bytes from the front.\<close>

definition sq_fill :: "sendq \<Rightarrow> cstr \<Rightarrow> sendq" where
  "sq_fill q src = q\<lparr>sq_buf := blit (sq_buf q) (firstfree q) src, firstfree := firstfree q + length src\<rparr>"

definition sq_consume :: "sendq \<Rightarrow> nat \<Rightarrow> sendq" where
  "sq_consume q l = q\<lparr>firstused := firstused q + l\<rparr>"

text \<open>A drained block is kept, with both offsets reset, when it is the only one.\<close>

definition sq_reset :: "sendq \<Rightarrow> sendq" where
  "sq_reset q = q\<lparr>firstused := 0, firstfree := 0\<rparr>"

definition has_flag :: "conn \<Rightarrow> u32 \<Rightarrow> bool" where
  "has_flag c f \<longleftrightarrow> cf_flags c AND f \<noteq> 0"

section \<open>Sending\<close>

definition sendq_nonempty :: "conn \<Rightarrow> bool" where
  "sendq_nonempty c =
     (if has_flag c CF_SEND_DEAD then False
      else if has_flag c CF_SEND_EOF then True
      else case cn_sendq c of [] \<Rightarrow> False | q # _ \<Rightarrow> firstused q < firstfree q)"

text \<open>The loop that appends fresh blocks until all of \<open>buf\<close> is stored.\<close>

function add_blocks :: "cstr \<Rightarrow> sendq list" where
  "add_blocks data =
     (if data = [] then []
      else let l = min (SENDQSIZE - firstfree new_sendq) (length data)
           in sq_fill new_sendq (take l data) # add_blocks (drop l data))"
  by auto
termination add_blocks
  by (relation "measure length") (auto simp: SENDQSIZE_def new_sendq_def)

declare add_blocks.simps [simp del]

definition append_bytes :: "sendq list \<Rightarrow> cstr \<Rightarrow> sendq list" where
  "append_bytes qs data =
     (if qs = [] then add_blocks data
      else let l = min (SENDQSIZE - firstfree (last qs)) (length data)
           in butlast qs @ sq_fill (last qs) (take l data) # add_blocks (drop l data))"

definition setselect_write :: "conn \<Rightarrow> conn" where
  "setselect_write c = (if \<not> sendq_nonempty c then c\<lparr>want_write := True\<rparr> else c)"

definition sendq_add :: "conn \<Rightarrow> cstr \<Rightarrow> conn" where
  "sendq_add c data =
     (if has_flag c (CF_DEAD OR CF_SEND_EOF) then c
      else if length data = 0 then c
      else if sendq_limit c \<noteq> 0 \<and> length (cn_sendq c) * SENDQSIZE + length data > sendq_limit c
      then c\<lparr>cf_flags := cf_flags c OR CF_DEAD\<rparr>
      else (setselect_write c)\<lparr>cn_sendq := append_bytes (cn_sendq c) data\<rparr>)"

definition sendq_add_eof :: "conn \<Rightarrow> conn" where
  "sendq_add_eof c =
     (if has_flag c (CF_DEAD OR CF_SEND_EOF) then c
      else (setselect_write c)\<lparr>cf_flags := cf_flags c OR CF_SEND_EOF\<rparr>)"

definition sendq_set_limit :: "conn \<Rightarrow> nat \<Rightarrow> conn" where
  "sendq_set_limit c len = c\<lparr>sendq_limit := len\<rparr>"

text \<open>
  The answers of \<open>send(2)\<close> by number of the call within one flush and number of bytes offered: bytes
  taken, or an error that \<open>mowgli_eventloop_ignore_errno\<close> says to ignore or not.
\<close>

datatype send_result = Sent nat | Send_error (ignorable: bool)

type_synonym kernel = "nat \<Rightarrow> nat \<Rightarrow> send_result"

definition kernel_ok :: "kernel \<Rightarrow> bool" where
  "kernel_ok k \<longleftrightarrow> (\<forall>i n l. k i n = Sent l \<longrightarrow> l \<le> n)"

datatype flush_end = Drained | Returned | Failed

text \<open>
  The loop of \<open>sendq_flush\<close>: what went to the socket, the blocks left, and how the loop ended.  Every
  earlier block has been freed when the loop reaches a block, so the length of the list exceeds 1
  exactly when blocks follow.
\<close>

fun flush_loop :: "kernel \<Rightarrow> nat \<Rightarrow> sendq list \<Rightarrow> cstr \<times> sendq list \<times> flush_end" where
  "flush_loop k i [] = ([], [], Drained)"
| "flush_loop k i (q # qs) =
     (if firstused q = firstfree q then ([], q # qs, Drained)
      else case k i (sq_used q) of
             Send_error ign \<Rightarrow> ([], q # qs, if ign then Returned else Failed)
           | Sent l \<Rightarrow>
               let out = sq_read q l; q' = sq_consume q l
               in if firstused q' = firstfree q'
                  then if qs \<noteq> [] then let (out', rest) = flush_loop k (Suc i) qs in (out @ out', rest)
                       else (out, [sq_reset q'], Drained)
                  else (out, q' # qs, Returned))"

definition sendq_flush :: "kernel \<Rightarrow> conn \<Rightarrow> cstr \<times> conn" where
  "sendq_flush k c =
     (let (out, qs, e) = flush_loop k 0 (cn_sendq c); c1 = c\<lparr>cn_sendq := qs\<rparr>
      in (out, case e of
                 Returned \<Rightarrow> c1
               | Failed \<Rightarrow> c1\<lparr>cf_flags := cf_flags c1 OR CF_DEAD\<rparr>
               | Drained \<Rightarrow>
                   (if has_flag c1 CF_SEND_EOF
                    then c1\<lparr>write_shut := True, cf_flags := cf_flags c1 OR CF_SEND_DEAD\<rparr> else c1)
                     \<lparr>want_write := False\<rparr>))"

section \<open>Receiving\<close>

definition recvq_length :: "conn \<Rightarrow> nat" where
  "recvq_length c = foldl (\<lambda>l q. l + sq_used q) 0 (cn_recvq c)"

text \<open>The loop of \<open>recvq_get\<close>.\<close>

fun get_loop :: "nat \<Rightarrow> sendq list \<Rightarrow> cstr \<times> sendq list" where
  "get_loop len [] = ([], [])"
| "get_loop len (q # qs) =
     (if firstused q = firstfree q \<or> len = 0 then ([], q # qs)
      else let l = min (sq_used q) len; p = sq_read q l; q' = sq_consume q l
           in if firstused q' = firstfree q'
              then if qs \<noteq> [] then let (p', rest) = get_loop (len - l) qs in (p @ p', rest)
                   else (p, [sq_reset q'])
              else (p, q' # qs))"

definition recvq_get :: "conn \<Rightarrow> nat \<Rightarrow> cstr \<times> conn" where
  "recvq_get c len = (let (p, qs) = get_loop len (cn_recvq c) in (p, c\<lparr>cn_recvq := qs\<rparr>))"

abbreviation LF :: char where "LF \<equiv> CHR 0x0A"
abbreviation CR :: char where "CR \<equiv> CHR 0x0D"

text \<open>
  The scan of \<open>recvq_getline\<close>: the bytes seen, the position of the last block visited (\<open>sq2\<close>) and the
  offset of the newline in it (\<open>newline - sq2->buf - sq2->firstused\<close>), \<open>None\<close> for a null \<open>newline\<close>.
\<close>

fun line_scan :: "nat \<Rightarrow> nat \<Rightarrow> sendq list \<Rightarrow> nat \<times> nat \<times> nat option" where
  "line_scan len l [] = (l, 0, None)"
| "line_scan len l (q # qs) =
     (let l' = l + sq_used q; nl = strchr (sq_bytes q) LF
      in if nl \<noteq> None \<or> len \<le> l' then (l', 0, nl)
         else let (m, pos, nl') = line_scan len l' qs in (m, Suc pos, nl'))"

text \<open>
  The copying loop: \<open>here\<close> is \<open>Some 0\<close> in the block \<open>sq2\<close>, \<open>Some n\<close> when \<open>sq2\<close> comes \<open>n\<close> blocks later and
  \<open>None\<close> behind it.  The third result is that the flag \<open>CF_NONEWLINE\<close> was cleared.  Without a newline
  the comparison \<open>l >= (size_t) (NULL - ...)\<close> is false.
\<close>

fun line_loop :: "nat \<Rightarrow> nat option \<Rightarrow> nat option \<Rightarrow> sendq list \<Rightarrow> cstr \<times> sendq list \<times> bool" where
  "line_loop len here nl [] = ([], [], False)"
| "line_loop len here nl (q # qs) =
     (if firstused q = firstfree q \<or> len = 0 then ([], q # qs, False)
      else let l0 = min (sq_used q) len;
               hit = (here = Some 0 \<and> (case nl of None \<Rightarrow> False | Some j \<Rightarrow> j + 1 \<le> l0));
               l = (if hit then the nl + 1 else l0);
               p = sq_read q l; q' = sq_consume q l
           in if firstused q' = firstfree q'
              then if qs \<noteq> []
                   then let (p', rest, hit') = line_loop (len - l)
                              (case here of Some (Suc n) \<Rightarrow> Some n | _ \<Rightarrow> None) nl qs
                        in (p @ p', rest, hit \<or> hit')
                   else (p, [sq_reset q'], hit)
              else (p, q' # qs, hit))"

definition recvq_getline :: "conn \<Rightarrow> nat \<Rightarrow> cstr \<times> conn" where
  "recvq_getline c len =
     (let (l, pos, nl) = line_scan len 0 (cn_recvq c)
      in if nl = None \<and> l < len then ([], c)
         else let (p, qs, hit) = line_loop len (Some pos) nl (cn_recvq c)
              in (p, c\<lparr>cn_recvq := qs,
                       cf_flags := (if hit then cf_flags c AND NOT CF_NONEWLINE
                                    else cf_flags c OR CF_NONEWLINE)\<rparr>))"

text \<open>
  \<open>recvq_put\<close>.  \<open>recv(2)\<close> gives bytes (none: the peer closed) or an error; the outcome is that the
  connection was closed, or what the handler did.  The handler is called until it consumes nothing:
  a loop that need not end for an arbitrary handler (\<open>None\<close>).
\<close>

datatype recv_result = Recv cstr | Recv_error (recv_ignorable: bool)

datatype 'e put_outcome = Closed | Open "'e list" conn

type_synonym 'e handler = "conn \<Rightarrow> 'e list \<times> conn"

partial_function (option) handler_loop :: "'e handler \<Rightarrow> nat \<Rightarrow> conn \<Rightarrow> ('e list \<times> conn) option" where
  "handler_loop h l c =
     (let r = h c; ll = l; l' = recvq_length (snd r)
      in if ll \<noteq> l' \<and> l' \<noteq> 0
         then Option.bind (handler_loop h l' (snd r)) (\<lambda>r'. Some (fst r @ fst r', snd r'))
         else Some r)"

text \<open>The room offered to \<open>recv\<close>, in the last block or in a new one.\<close>

definition recv_block :: "sendq list \<Rightarrow> sendq list" where
  "recv_block qs = (if qs = [] \<or> SENDQSIZE - firstfree (last qs) = 0 then qs @ [new_sendq] else qs)"

definition recv_room :: "sendq list \<Rightarrow> nat" where
  "recv_room qs = SENDQSIZE - firstfree (last (recv_block qs))"

definition recvq_put :: "'e handler option \<Rightarrow> recv_result \<Rightarrow> conn \<Rightarrow> 'e put_outcome option" where
  "recvq_put h r c =
     (if has_flag c (CF_DEAD OR CF_SEND_DEAD) then Some Closed
      else let qs = recv_block (cn_recvq c)
           in if (case r of Recv data \<Rightarrow> data = [] | Recv_error ign \<Rightarrow> \<not> ign) then Some Closed
              else let c1 = (case r of
                       Recv data \<Rightarrow> c\<lparr>cn_recvq := butlast qs @ [sq_fill (last qs) data]\<rparr>
                     | Recv_error _ \<Rightarrow> c\<lparr>cn_recvq := qs\<rparr>)
                   in case h of
                        None \<Rightarrow> Some (Open [] c1)
                      | Some f \<Rightarrow> map_option (\<lambda>(es, c2). Open es c2) (handler_loop f (recvq_length c1) c1))"

definition sendqrecvq_free :: "conn \<Rightarrow> conn" where
  "sendqrecvq_free c = c\<lparr>cn_recvq := [], cn_sendq := []\<rparr>"

section \<open>Lines from the uplink\<close>

text \<open>
  \<open>irc_recvq_handler\<close> of \<open>packet.c\<close>: bytes counted in, the time of the last answer refreshed, a line
  handed to \<open>parse\<close> (a C string: what precedes the first NUL).
\<close>

datatype irc_event = Bytes_in nat | Pong | Parse cstr

definition c_string :: "cstr \<Rightarrow> cstr" where
  "c_string s = takeWhile (\<lambda>c. c \<noteq> NUL) s"

definition strip_eol :: "cstr \<Rightarrow> cstr" where
  "strip_eol s =
     (let s1 = (if s \<noteq> [] \<and> last s = LF then butlast s else s)
      in if s1 \<noteq> [] \<and> last s1 = CR then butlast s1 else s1)"

definition irc_recvq_handler :: "irc_event handler" where
  "irc_recvq_handler c =
     (let wasnonl = has_flag c CF_NONEWLINE; (p, c') = recvq_getline c BUFSIZE
      in if p = [] then ([], c')
         else if wasnonl then ([Bytes_in (length p)], c')
         else ([Bytes_in (length p), Pong, Parse (c_string (strip_eol p))], c'))"

section \<open>Queues as byte strings\<close>

text \<open>
  The invariant: the used part of a block lies inside its buffer, a block holds bytes or has both
  offsets 0, and only the last block can be empty.
\<close>

definition sq_ok :: "sendq \<Rightarrow> bool" where
  "sq_ok q \<longleftrightarrow> (firstused q < firstfree q \<and> firstfree q \<le> SENDQSIZE) \<or> (firstused q = 0 \<and> firstfree q = 0)"

fun queue_ok :: "sendq list \<Rightarrow> bool" where
  "queue_ok [] \<longleftrightarrow> True"
| "queue_ok (q # qs) \<longleftrightarrow> sq_ok q \<and> (qs \<noteq> [] \<longrightarrow> firstused q < firstfree q) \<and> queue_ok qs"

lemma SENDQSIZE_pos [simp]: "0 < SENDQSIZE"
  by (simp add: SENDQSIZE_def)

lemma length_sq_read [simp]: "length (sq_read q l) = l"
  by (simp add: sq_read_def)

lemma length_sq_bytes [simp]: "length (sq_bytes q) = sq_used q"
  by (simp add: sq_bytes_def)

lemma sq_bytes_Nil: "sq_bytes q = [] \<longleftrightarrow> firstfree q \<le> firstused q"
  using length_sq_bytes [of q] by (metis length_0_conv sq_used_def diff_is_0_eq)

lemma queue_bytes_Nil [simp]: "queue_bytes [] = []"
  by (simp add: queue_bytes_def)

lemma queue_bytes_Cons [simp]: "queue_bytes (q # qs) = sq_bytes q @ queue_bytes qs"
  by (simp add: queue_bytes_def)

lemma queue_bytes_append [simp]: "queue_bytes (qs @ rs) = queue_bytes qs @ queue_bytes rs"
  by (simp add: queue_bytes_def)

lemma sq_read_take: "l \<le> sq_used q \<Longrightarrow> sq_read q l = take l (sq_bytes q)"
  by (rule nth_equalityI) (simp_all add: sq_bytes_def sq_read_def)

lemma sq_consume_drop: "l \<le> sq_used q \<Longrightarrow> sq_bytes (sq_consume q l) = drop l (sq_bytes q)"
  by (rule nth_equalityI) (simp_all add: sq_bytes_def sq_read_def sq_consume_def sq_used_def ac_simps)

lemma sq_bytes_fill: "firstused q \<le> firstfree q \<Longrightarrow> sq_bytes (sq_fill q src) = sq_bytes q @ src"
  by (rule nth_equalityI)
    (auto simp: sq_bytes_def sq_read_def sq_fill_def sq_used_def blit_def nth_append add.commute)

lemma sq_bytes_reset [simp]: "sq_bytes (sq_reset q) = []"
  by (simp add: sq_bytes_Nil sq_reset_def)

lemma sq_ok_reset [simp]: "sq_ok (sq_reset q)" "sq_ok new_sendq"
  by (simp_all add: sq_ok_def sq_reset_def new_sendq_def)

lemma sq_bytes_new [simp]: "sq_bytes new_sendq = []"
  by (simp add: sq_bytes_Nil new_sendq_def)

lemma sq_ok_le: "sq_ok q \<Longrightarrow> firstused q \<le> firstfree q"
  by (auto simp: sq_ok_def)

lemma sq_ok_consume:
  "sq_ok q \<Longrightarrow> l \<le> sq_used q \<Longrightarrow> firstused (sq_consume q l) \<noteq> firstfree (sq_consume q l) \<Longrightarrow>
     sq_ok (sq_consume q l) \<and> firstused (sq_consume q l) < firstfree (sq_consume q l)"
  by (auto simp: sq_ok_def sq_consume_def sq_used_def)

lemma sq_ok_fill:
  "sq_ok q \<Longrightarrow> src \<noteq> [] \<Longrightarrow> length src \<le> SENDQSIZE - firstfree q \<Longrightarrow>
     sq_ok (sq_fill q src) \<and> firstused (sq_fill q src) < firstfree (sq_fill q src)"
  by (auto simp: sq_ok_def sq_fill_def)

lemma sq_fill_Nil [simp]: "sq_fill q [] = q"
proof -
  have "blit (sq_buf q) (firstfree q) [] = sq_buf q" by (rule ext) (auto simp: blit_def)
  then show ?thesis by (simp add: sq_fill_def)
qed

lemma queue_ok_append:
  "queue_ok (qs @ rs) \<longleftrightarrow> queue_ok qs \<and> queue_ok rs \<and> (rs \<noteq> [] \<and> qs \<noteq> [] \<longrightarrow> firstused (last qs) < firstfree (last qs))"
  by (induction qs) auto

lemma queue_ok_blocks: "queue_ok qs \<Longrightarrow> q \<in> set qs \<Longrightarrow> sq_ok q"
  by (induction qs) auto

section \<open>The send queue\<close>

lemma add_blocks_spec:
  "queue_bytes (add_blocks data) = data \<and> queue_ok (add_blocks data) \<and> (add_blocks data = [] \<longleftrightarrow> data = [])"
proof (induction data rule: add_blocks.induct)
  case (1 data)
  show ?case
  proof (cases "data = []")
    case True
    then have "add_blocks data = []" by (subst add_blocks.simps) simp
    with True show ?thesis by simp
  next
    case False
    let ?l = "min SENDQSIZE (length data)"
    have l: "min (SENDQSIZE - firstfree new_sendq) (length data) = ?l"
      by (simp add: new_sendq_def)
    have IH: "queue_bytes (add_blocks (drop ?l data)) = drop ?l data \<and> queue_ok (add_blocks (drop ?l data)) \<and>
        (add_blocks (drop ?l data) = [] \<longleftrightarrow> drop ?l data = [])"
      using "1.IH" [OF False refl] unfolding l .
    have e: "add_blocks data = sq_fill new_sendq (take ?l data) # add_blocks (drop ?l data)"
      using False by (subst add_blocks.simps) (simp add: l Let_def)
    have "sq_ok (sq_fill new_sendq (take ?l data)) \<and>
        firstused (sq_fill new_sendq (take ?l data)) < firstfree (sq_fill new_sendq (take ?l data))"
      by (rule sq_ok_fill) (use False in \<open>simp_all add: new_sendq_def [THEN arg_cong [of _ _ firstfree]]\<close>)
    moreover have "sq_bytes (sq_fill new_sendq (take ?l data)) = take ?l data"
      by (simp add: sq_bytes_fill new_sendq_def [THEN arg_cong [of _ _ firstused]])
    ultimately show ?thesis
      unfolding e using IH False by (simp only: queue_bytes_Cons queue_ok.simps) simp
  qed
qed

lemma append_bytes_spec:
  assumes "queue_ok qs" "data \<noteq> []"
  shows "queue_bytes (append_bytes qs data) = queue_bytes qs @ data \<and> queue_ok (append_bytes qs data)"
proof (cases "qs = []")
  case True
  then show ?thesis using add_blocks_spec by (simp add: append_bytes_def)
next
  case False
  then obtain rs q where qs: "qs = rs @ [q]" by (metis rev_exhaust)
  let ?l = "min (SENDQSIZE - firstfree q) (length data)"
  let ?q = "sq_fill q (take ?l data)"
  have q: "sq_ok q" using assms(1) by (simp add: qs queue_ok_append)
  have e: "append_bytes qs data = rs @ ?q # add_blocks (drop ?l data)"
    by (simp add: append_bytes_def qs Let_def)
  have "sq_ok ?q \<and> firstused ?q < firstfree ?q"
  proof (cases "?l = 0")
    case True
    then have "SENDQSIZE \<le> firstfree q" using assms(2) by (cases data) (auto simp: min_def split: if_splits)
    then have "firstused q < firstfree q" using q SENDQSIZE_pos by (auto simp: sq_ok_def)
    then show ?thesis using q True by simp
  next
    case False
    then show ?thesis by (intro sq_ok_fill [OF q]) (auto simp: assms(2))
  qed
  then have "queue_ok (rs @ ?q # add_blocks (drop ?l data))"
    using assms(1) add_blocks_spec [of "drop ?l data"] by (auto simp: qs queue_ok_append)
  moreover have "queue_bytes (rs @ ?q # add_blocks (drop ?l data)) = queue_bytes qs @ data"
    using add_blocks_spec [of "drop ?l data"] by (simp add: qs sq_bytes_fill sq_ok_le [OF q])
  ultimately show ?thesis by (simp only: e)
qed

lemma queue_bytes_empty_iff:
  "queue_ok qs \<Longrightarrow> queue_bytes qs = [] \<longleftrightarrow> (case qs of [] \<Rightarrow> True | q # _ \<Rightarrow> firstused q = firstfree q)"
  by (cases qs) (auto simp: sq_bytes_Nil dest: sq_ok_le)

lemma flush_loop_spec:
  assumes "kernel_ok k" "queue_ok qs" "flush_loop k i qs = (out, qs', e)"
  shows "out @ queue_bytes qs' = queue_bytes qs \<and> queue_ok qs' \<and> (e = Drained \<longrightarrow> queue_bytes qs' = []) \<and>
    (e \<noteq> Drained \<longrightarrow> queue_bytes qs \<noteq> []) \<and> (qs = [] \<longrightarrow> qs' = [])"
  using assms
proof (induction k i qs arbitrary: out qs' e rule: flush_loop.induct)
  case (1 k i)
  then show ?case by simp
next
  case (2 k i q qs)
  show ?case
  proof (cases "firstused q = firstfree q")
    case True
    with "2.prems" show ?thesis by (auto simp: sq_bytes_Nil)
  next
    case ne: False
    with "2.prems" have b: "sq_bytes q \<noteq> []" by (auto simp: sq_bytes_Nil dest: sq_ok_le)
    show ?thesis
    proof (cases "k i (sq_used q)")
      case (Send_error ign)
      with "2.prems" ne b show ?thesis by (auto split: if_splits)
    next
      case (Sent l)
      then have l: "l \<le> sq_used q" using "2.prems"(1) unfolding kernel_ok_def by blast
      have split: "sq_read q l @ sq_bytes (sq_consume q l) = sq_bytes q"
        by (simp add: sq_read_take sq_consume_drop l)
      show ?thesis
      proof (cases "firstused (sq_consume q l) = firstfree (sq_consume q l)")
        case True
        then have 1: "sq_read q l = sq_bytes q" using split by (simp add: sq_bytes_Nil [THEN iffD2])
        show ?thesis
        proof (cases "qs = []")
          case True
          with "2.prems" ne Sent \<open>firstused (sq_consume q l) = _\<close> 1 b show ?thesis by auto
        next
          case False
          obtain o2 r2 e2 where r: "flush_loop k (Suc i) qs = (o2, r2, e2)" by (metis prod_cases3)
          have "o2 @ queue_bytes r2 = queue_bytes qs \<and> queue_ok r2 \<and> (e2 = Drained \<longrightarrow> queue_bytes r2 = []) \<and>
              (e2 \<noteq> Drained \<longrightarrow> queue_bytes qs \<noteq> []) \<and> (qs = [] \<longrightarrow> r2 = [])"
            using "2.IH" [OF ne Sent refl refl True False] "2.prems" r by simp
          with "2.prems" ne Sent True False r 1 b show ?thesis by auto
        qed
      next
        case False
        with "2.prems" ne Sent split b sq_ok_consume [OF _ l False] show ?thesis by auto
      qed
    qed
  qed
qed

subsection \<open>A run of the sender\<close>

text \<open>
  A history of a connection: writes, requests to close, and flushes with whatever the kernel answers.
  \<open>sr_wire\<close> is what went to the socket, \<open>sr_accepted\<close> the concatenation of the writes that were not
  refused (dead or closing connection, or over the limit).
\<close>

datatype send_op = Op_add cstr | Op_eof | Op_flush kernel

record send_run =
  sr_conn :: conn
  sr_wire :: cstr
  sr_accepted :: cstr

definition sendq_accepts :: "conn \<Rightarrow> cstr \<Rightarrow> bool" where
  "sendq_accepts c data \<longleftrightarrow> \<not> has_flag c (CF_DEAD OR CF_SEND_EOF) \<and>
     \<not> (length data > 0 \<and> sendq_limit c \<noteq> 0 \<and> length (cn_sendq c) * SENDQSIZE + length data > sendq_limit c)"

fun send_step :: "send_op \<Rightarrow> send_run \<Rightarrow> send_run" where
  "send_step (Op_add data) r =
     r\<lparr>sr_conn := sendq_add (sr_conn r) data,
       sr_accepted := (if sendq_accepts (sr_conn r) data then sr_accepted r @ data else sr_accepted r)\<rparr>"
| "send_step Op_eof r = r\<lparr>sr_conn := sendq_add_eof (sr_conn r)\<rparr>"
| "send_step (Op_flush k) r =
     r\<lparr>sr_conn := snd (sendq_flush k (sr_conn r)), sr_wire := sr_wire r @ fst (sendq_flush k (sr_conn r))\<rparr>"

fun op_ok :: "send_op \<Rightarrow> bool" where
  "op_ok (Op_flush k) \<longleftrightarrow> kernel_ok k"
| "op_ok _ \<longleftrightarrow> True"

text \<open>
  The invariant: the queue is well formed, its bytes are those accepted and not yet sent, it obeys the
  limit, and whenever something waits the event loop has been asked to call \<open>sendq_flush\<close>.
\<close>

definition send_inv :: "send_run \<Rightarrow> bool" where
  "send_inv r \<longleftrightarrow> queue_ok (cn_sendq (sr_conn r)) \<and>
     sr_wire r @ queue_bytes (cn_sendq (sr_conn r)) = sr_accepted r \<and>
     (sendq_limit (sr_conn r) \<noteq> 0 \<longrightarrow> length (queue_bytes (cn_sendq (sr_conn r))) \<le> sendq_limit (sr_conn r)) \<and>
     (sendq_nonempty (sr_conn r) \<longrightarrow> want_write (sr_conn r))"

lemma setselect_write_fields [simp]:
  "cf_flags (setselect_write c) = cf_flags c" "cn_sendq (setselect_write c) = cn_sendq c"
  "sendq_limit (setselect_write c) = sendq_limit c" "cn_recvq (setselect_write c) = cn_recvq c"
  "write_shut (setselect_write c) = write_shut c"
  "want_write (setselect_write c) = (want_write c \<or> \<not> sendq_nonempty c)"
  by (simp_all add: setselect_write_def)

lemma sq_used_le: "queue_ok qs \<Longrightarrow> length (queue_bytes qs) \<le> length qs * SENDQSIZE"
  by (induction qs) (auto simp: sq_ok_def sq_used_def)

lemma word_and_nz: "(x AND y :: u32) \<noteq> 0 \<longleftrightarrow> (\<exists>n. bit x n \<and> bit y n)"
proof
  assume "x AND y \<noteq> 0"
  then obtain n where "bit (x AND y) n" by (metis bit_eqI bit_0_eq bot_apply bot_bool_def)
  then show "\<exists>n. bit x n \<and> bit y n" by (auto simp: bit_and_iff)
next
  assume "\<exists>n. bit x n \<and> bit y n"
  then obtain n where "bit (x AND y) n" by (auto simp: bit_and_iff)
  then show "x AND y \<noteq> 0" by (metis bit_0_eq bot_apply bot_bool_def)
qed

lemma word_and_or_nz:
  "(x AND (y OR z) :: u32) \<noteq> 0 \<longleftrightarrow> x AND y \<noteq> 0 \<or> x AND z \<noteq> 0"
  "((x OR y) AND z :: u32) \<noteq> 0 \<longleftrightarrow> x AND z \<noteq> 0 \<or> y AND z \<noteq> 0"
  by (auto simp only: word_and_nz bit_or_iff)

lemma has_flag_or: "has_flag c (f OR g) \<longleftrightarrow> has_flag c f \<or> has_flag c g"
  by (simp only: has_flag_def word_and_or_nz)

lemma has_flag_upd_or [simp]:
  "has_flag (c\<lparr>cf_flags := cf_flags c' OR y\<rparr>) f \<longleftrightarrow> has_flag c' f \<or> y AND f \<noteq> 0"
  by (simp add: has_flag_def word_and_or_nz)

lemma has_flag_cong [simp]:
  "has_flag (c\<lparr>cn_sendq := qs\<rparr>) f = has_flag c f" "has_flag (c\<lparr>cn_recvq := qs\<rparr>) f = has_flag c f"
  "has_flag (c\<lparr>want_write := w\<rparr>) f = has_flag c f" "has_flag (c\<lparr>write_shut := w\<rparr>) f = has_flag c f"
  "has_flag (setselect_write c) f = has_flag c f"
  by (simp_all add: has_flag_def)

lemma CF_masks [simp]:
  "CF_SEND_EOF AND CF_SEND_DEAD = 0" "CF_DEAD AND CF_SEND_DEAD = 0"
  "CF_DEAD AND CF_SEND_EOF = 0" "CF_SEND_DEAD AND CF_SEND_EOF = 0"
  "CF_SEND_EOF \<noteq> 0" "CF_SEND_DEAD \<noteq> 0" "CF_DEAD \<noteq> 0" "CF_NONEWLINE \<noteq> 0"
  by (simp_all add: CF_SEND_EOF_def CF_SEND_DEAD_def CF_DEAD_def CF_NONEWLINE_def)

lemma sendq_nonempty_bytes:
  assumes "queue_ok (cn_sendq c)"
  shows "sendq_nonempty c \<longleftrightarrow>
    \<not> has_flag c CF_SEND_DEAD \<and> (has_flag c CF_SEND_EOF \<or> queue_bytes (cn_sendq c) \<noteq> [])"
  using assms
  by (cases "cn_sendq c") (auto simp: sendq_nonempty_def sq_bytes_Nil dest: sq_ok_le)

lemma send_step_add:
  assumes "send_inv r"
  shows "send_inv (send_step (Op_add data) r)"
proof -
  let ?c = "sr_conn r"
  consider (refused) "has_flag ?c (CF_DEAD OR CF_SEND_EOF)" | (empty) "\<not> has_flag ?c (CF_DEAD OR CF_SEND_EOF)" "data = []"
    | (over) "\<not> has_flag ?c (CF_DEAD OR CF_SEND_EOF)" "data \<noteq> []" "\<not> sendq_accepts ?c data"
    | (taken) "\<not> has_flag ?c (CF_DEAD OR CF_SEND_EOF)" "data \<noteq> []" "sendq_accepts ?c data"
    by blast
  then show ?thesis
  proof cases
    case refused
    then show ?thesis using assms by (simp add: sendq_add_def sendq_accepts_def)
  next
    case empty
    then show ?thesis using assms by (simp add: sendq_add_def sendq_accepts_def send_inv_def)
  next
    case over
    then have "sendq_add ?c data = ?c\<lparr>cf_flags := cf_flags ?c OR CF_DEAD\<rparr>"
      by (simp add: sendq_add_def sendq_accepts_def)
    then show ?thesis using assms over
      by (simp add: send_inv_def sendq_nonempty_bytes)
  next
    case taken
    then have "sendq_add ?c data = (setselect_write ?c)\<lparr>cn_sendq := append_bytes (cn_sendq ?c) data\<rparr>"
      and lim: "sendq_limit ?c \<noteq> 0 \<longrightarrow> length (cn_sendq ?c) * SENDQSIZE + length data \<le> sendq_limit ?c"
      by (auto simp: sendq_add_def sendq_accepts_def)
    moreover have "length (queue_bytes (cn_sendq ?c)) \<le> length (cn_sendq ?c) * SENDQSIZE"
      using assms by (simp add: sq_used_le send_inv_def)
    ultimately show ?thesis
      using assms taken append_bytes_spec [of "cn_sendq ?c" data]
      by (auto simp: send_inv_def)
  qed
qed

lemma send_step_eof: "send_inv r \<Longrightarrow> send_inv (send_step Op_eof r)"
  by (auto simp: send_inv_def sendq_add_eof_def)

lemma send_step_flush:
  assumes "send_inv r" "kernel_ok k"
  shows "send_inv (send_step (Op_flush k) r)"
proof -
  let ?c = "sr_conn r"
  obtain out qs e where f: "flush_loop k 0 (cn_sendq ?c) = (out, qs, e)" by (metis prod_cases3)
  have q: "queue_ok (cn_sendq ?c)" using assms(1) by (simp add: send_inv_def)
  note s = flush_loop_spec [OF assms(2) q f]
  have len: "length (queue_bytes qs) \<le> length (queue_bytes (cn_sendq ?c))"
    using s by (metis length_append le_add2)
  have wire: "sr_wire r @ out @ queue_bytes qs = sr_accepted r"
    using s assms(1) by (simp add: send_inv_def)
  show ?thesis
  proof (cases e)
    case Drained
    then have "queue_bytes qs = []" using s by simp
    then show ?thesis using s f Drained assms(1) len wire
      by (auto simp: send_inv_def sendq_flush_def Let_def sendq_nonempty_bytes)
  next
    case Returned
    then have "sendq_nonempty (?c\<lparr>cn_sendq := qs\<rparr>) \<longrightarrow> sendq_nonempty ?c"
      using s q by (simp add: sendq_nonempty_bytes)
    then show ?thesis using s f Returned assms(1) len wire
      by (auto simp: send_inv_def sendq_flush_def Let_def)
  next
    case Failed
    then have "sendq_nonempty (?c\<lparr>cn_sendq := qs, cf_flags := cf_flags ?c OR CF_DEAD\<rparr>) \<longrightarrow> sendq_nonempty ?c"
      using s q by (simp add: sendq_nonempty_bytes)
    then show ?thesis using s f Failed assms(1) len wire
      by (auto simp: send_inv_def sendq_flush_def Let_def)
  qed
qed

lemma send_run_inv: "send_inv r \<Longrightarrow> \<forall>p \<in> set ops. op_ok p \<Longrightarrow> send_inv (fold send_step ops r)"
proof (induction ops arbitrary: r)
  case (Cons p ops)
  then show ?case
    by (cases p) (auto simp del: send_step.simps intro: send_step_add send_step_eof send_step_flush)
qed simp

definition send_start :: "nat \<Rightarrow> send_run" where
  "send_start lim = \<lparr>sr_conn = \<lparr>cf_flags = 0, sendq_limit = lim, cn_sendq = [], cn_recvq = [],
     want_write = False, write_shut = False\<rparr>, sr_wire = [], sr_accepted = []\<rparr>"

lemma send_start_inv: "send_inv (send_start lim)"
  by (simp add: send_inv_def send_start_def sendq_nonempty_def has_flag_def)

text \<open>
  C20: over any history of a connection, what went to the socket followed by what the queue still holds is
  exactly the concatenation of the accepted writes, in order; and whenever data wait on a usable
  connection the write handler is registered, so no write is forgotten.
\<close>

theorem sendq_stream:
  assumes "\<forall>p \<in> set ops. op_ok p"
  shows "let r = fold send_step ops (send_start lim); c = sr_conn r
    in sr_wire r @ queue_bytes (cn_sendq c) = sr_accepted r \<and>
       (queue_bytes (cn_sendq c) \<noteq> [] \<and> \<not> has_flag c CF_SEND_DEAD \<longrightarrow> want_write c)"
  using send_run_inv [OF send_start_inv assms, of lim]
  by (simp add: Let_def send_inv_def sendq_nonempty_bytes)

text \<open>A kernel that takes at least one byte per call.\<close>

definition makes_progress :: "kernel \<Rightarrow> bool" where
  "makes_progress k \<longleftrightarrow> kernel_ok k \<and> (\<forall>i n. 0 < n \<longrightarrow> (\<exists>l > 0. k i n = Sent l))"

lemma flush_loop_progress:
  assumes "makes_progress k" "queue_ok qs" "flush_loop k i qs = (out, qs', e)"
  shows "e \<noteq> Failed \<and> (e = Drained \<or> length (queue_bytes qs') < length (queue_bytes qs))"
  using assms
proof (induction k i qs arbitrary: out qs' e rule: flush_loop.induct)
  case (1 k i)
  then show ?case by simp
next
  case (2 k i q qs)
  show ?case
  proof (cases "firstused q = firstfree q")
    case True
    with "2.prems" show ?thesis by auto
  next
    case ne: False
    then have u: "0 < sq_used q" using "2.prems"(2) by (auto simp: sq_used_def dest: sq_ok_le)
    then obtain l where l: "0 < l" "k i (sq_used q) = Sent l"
      using "2.prems"(1) unfolding makes_progress_def by blast
    moreover have "kernel_ok k" using "2.prems"(1) by (simp add: makes_progress_def)
    ultimately have "l \<le> sq_used q" unfolding kernel_ok_def by blast
    then have d: "length (sq_bytes (sq_consume q l)) < length (sq_bytes q)"
      using u l by (simp add: sq_consume_drop del: length_sq_bytes) (simp)
    show ?thesis
    proof (cases "firstused (sq_consume q l) = firstfree (sq_consume q l) \<and> qs \<noteq> []")
      case True
      obtain o2 r2 e2 where r: "flush_loop k (Suc i) qs = (o2, r2, e2)" by (metis prod_cases3)
      have "e2 \<noteq> Failed \<and> (e2 = Drained \<or> length (queue_bytes r2) < length (queue_bytes qs))"
        using "2.IH" [OF ne l(2) refl refl] True "2.prems" r by simp
      with "2.prems" ne l True r show ?thesis by auto
    next
      case False
      with "2.prems" ne l d show ?thesis by (auto simp: Let_def split: if_splits)
    qed
  qed
qed

lemma flush_drained_stays:
  assumes "kernel_ok k" "queue_ok (cn_sendq c)" "queue_bytes (cn_sendq c) = []"
  shows "queue_bytes (cn_sendq (snd (sendq_flush k c))) = [] \<and> queue_ok (cn_sendq (snd (sendq_flush k c))) \<and>
    (has_flag c CF_SEND_EOF \<longrightarrow> write_shut (snd (sendq_flush k c)))"
proof -
  obtain out qs e where f: "flush_loop k 0 (cn_sendq c) = (out, qs, e)" by (metis prod_cases3)
  show ?thesis
    using flush_loop_spec [OF assms(1,2) f] f assms(3)
    by (cases e) (auto simp: sendq_flush_def Let_def)
qed

lemma flush_flags [simp]: "has_flag c CF_SEND_EOF \<Longrightarrow> has_flag (snd (sendq_flush k c)) CF_SEND_EOF"
  by (auto simp: sendq_flush_def Let_def split: prod.splits flush_end.splits)

lemma flush_progress:
  assumes "makes_progress k" "queue_ok (cn_sendq c)" "length (queue_bytes (cn_sendq c)) \<le> Suc n"
  shows "queue_ok (cn_sendq (snd (sendq_flush k c))) \<and> length (queue_bytes (cn_sendq (snd (sendq_flush k c)))) \<le> n"
proof -
  obtain out qs e where f: "flush_loop k 0 (cn_sendq c) = (out, qs, e)" by (metis prod_cases3)
  have "kernel_ok k" using assms(1) by (simp add: makes_progress_def)
  note s = flush_loop_spec [OF this assms(2) f] and p = flush_loop_progress [OF assms(1,2) f]
  then show ?thesis
    using f assms(3) by (cases e) (auto simp: sendq_flush_def Let_def)
qed

lemma flush_rounds:
  assumes "\<forall>k \<in> set ks. makes_progress k" "queue_ok (cn_sendq c)" "length (queue_bytes (cn_sendq c)) \<le> length ks"
  shows "queue_ok (cn_sendq (fold (\<lambda>k c. snd (sendq_flush k c)) ks c)) \<and>
    queue_bytes (cn_sendq (fold (\<lambda>k c. snd (sendq_flush k c)) ks c)) = [] \<and>
    (has_flag c CF_SEND_EOF \<longrightarrow> has_flag (fold (\<lambda>k c. snd (sendq_flush k c)) ks c) CF_SEND_EOF)"
  using assms
proof (induction ks arbitrary: c)
  case (Cons k ks)
  then have "queue_ok (cn_sendq (snd (sendq_flush k c))) \<and> length (queue_bytes (cn_sendq (snd (sendq_flush k c)))) \<le> length ks"
    by (intro flush_progress) auto
  with Cons show ?case by auto
qed simp

text \<open>
  C21: a connection whose kernel takes at least one byte per call is drained by as many flushes as it
  holds bytes, and a requested end of file then reaches the socket.
\<close>

theorem sendq_drains:
  assumes "\<forall>k \<in> set (ks @ [k']). makes_progress k" "queue_ok (cn_sendq c)"
    and "length (queue_bytes (cn_sendq c)) \<le> length ks"
  shows "let c' = fold (\<lambda>k c. snd (sendq_flush k c)) (ks @ [k']) c
    in queue_bytes (cn_sendq c') = [] \<and> (has_flag c CF_SEND_EOF \<longrightarrow> write_shut c')"
proof -
  let ?c = "fold (\<lambda>k c. snd (sendq_flush k c)) ks c"
  have "kernel_ok k'" using assms(1) by (simp add: makes_progress_def)
  with flush_rounds [of ks c] flush_drained_stays [of k' ?c] assms show ?thesis
    by (auto simp: Let_def)
qed

definition take_all :: kernel where "take_all i n = Sent n"

definition one_by_one :: kernel where "one_by_one i n = Sent (min 1 n)"

lemma sample_kernels: "makes_progress take_all" "makes_progress one_by_one" "kernel_ok take_all" "kernel_ok one_by_one"
  by (auto simp: makes_progress_def kernel_ok_def take_all_def one_by_one_def)

theorem sendq_stream_witness:
  "let r = fold send_step [Op_add ''ab'', Op_flush one_by_one, Op_eof, Op_add ''c''] (send_start 0); c = sr_conn r
    in sr_wire r @ queue_bytes (cn_sendq c) = sr_accepted r \<and>
       (queue_bytes (cn_sendq c) \<noteq> [] \<and> \<not> has_flag c CF_SEND_DEAD \<longrightarrow> want_write c)"
  by (rule sendq_stream) (simp add: sample_kernels)

theorem sendq_drains_witness:
  "let c = sendq_add_eof (sendq_add (sr_conn (send_start 0)) ''ab'');
       c' = fold (\<lambda>k c. snd (sendq_flush k c)) ([one_by_one, one_by_one] @ [take_all]) c
    in queue_bytes (cn_sendq c') = [] \<and> (has_flag c CF_SEND_EOF \<longrightarrow> write_shut c')"
proof -
  let ?c = "sendq_add (sr_conn (send_start 0)) ''ab''"
  have "cn_sendq ?c = add_blocks ''ab''"
    by (simp add: sendq_add_def send_start_def has_flag_def append_bytes_def)
  then have q: "queue_ok (cn_sendq (sendq_add_eof ?c))" "queue_bytes (cn_sendq (sendq_add_eof ?c)) = ''ab''"
    using add_blocks_spec [of "''ab''"] by (simp_all add: sendq_add_eof_def)
  show ?thesis
    unfolding Let_def
    by (rule sendq_drains [unfolded Let_def]) (use q in \<open>simp_all add: sample_kernels\<close>)
qed

section \<open>The receive queue\<close>

lemma recvq_length_bytes: "recvq_length c = length (queue_bytes (cn_recvq c))"
proof -
  have "foldl (\<lambda>l q. l + sq_used q) n qs = n + length (queue_bytes qs)" for n qs
    by (induction qs arbitrary: n) auto
  then show ?thesis by (simp add: recvq_length_def)
qed

lemma get_loop_spec:
  "queue_ok qs \<Longrightarrow> get_loop len qs = (p, qs') \<Longrightarrow>
     p = take len (queue_bytes qs) \<and> queue_bytes qs' = drop len (queue_bytes qs) \<and> queue_ok qs'"
proof (induction len qs arbitrary: p qs' rule: get_loop.induct)
  case (1 len)
  then show ?case by simp
next
  case (2 len q qs)
  let ?l = "min (sq_used q) len"
  show ?case
  proof (cases "firstused q = firstfree q \<or> len = 0")
    case True
    then have "len = 0 \<or> sq_bytes q = []" by (auto simp: sq_bytes_Nil)
    with True "2.prems" show ?thesis by auto
  next
    case ne: False
    have l: "sq_read q ?l = take ?l (sq_bytes q)" "sq_bytes (sq_consume q ?l) = drop ?l (sq_bytes q)"
      by (simp_all add: sq_read_take sq_consume_drop)
    show ?thesis
    proof (cases "firstused (sq_consume q ?l) = firstfree (sq_consume q ?l)")
      case True
      then have "sq_bytes (sq_consume q ?l) = []" by (simp add: sq_bytes_Nil)
      then have "length (drop ?l (sq_bytes q)) = 0" using l(2) by simp
      then have all: "sq_used q \<le> len" by (simp add: min_def split: if_splits)
      then have m: "?l = sq_used q" by simp
      show ?thesis
      proof (cases "qs = []")
        case True
        with "2.prems" ne \<open>firstused (sq_consume q ?l) = _\<close> l all show ?thesis by (auto simp: Let_def)
      next
        case False
        obtain p2 r2 where r: "get_loop (len - sq_used q) qs = (p2, r2)" by (cases "get_loop (len - sq_used q) qs") auto
        have "p2 = take (len - sq_used q) (queue_bytes qs) \<and> queue_bytes r2 = drop (len - sq_used q) (queue_bytes qs) \<and> queue_ok r2"
          using "2.IH" [OF ne refl refl refl True False] "2.prems"(1) r m by simp
        with "2.prems" ne True False r l m all show ?thesis by (auto simp: Let_def)
      qed
    next
      case False
      then have lt: "len < sq_used q" and m: "?l = len"
        using "2.prems"(1) by (auto simp: sq_consume_def sq_used_def min_def dest: sq_ok_le split: if_splits)
      have "sq_ok (sq_consume q ?l) \<and> firstused (sq_consume q ?l) < firstfree (sq_consume q ?l)"
        by (rule sq_ok_consume) (use "2.prems" False in auto)
      with "2.prems" ne False l m lt show ?thesis by (auto simp: Let_def)
    qed
  qed
qed

text \<open>
  A byte FIFO: a provider whose \<open>put\<close> appends and whose \<open>get\<close> takes a prefix, up to an abstraction.
  A client that puts and gets in any order reads back what was written, in order.
\<close>

locale byte_fifo =
  fixes inv :: "'q \<Rightarrow> bool" and bytes :: "'q \<Rightarrow> cstr"
    and put :: "'q \<Rightarrow> cstr \<Rightarrow> 'q" and get :: "'q \<Rightarrow> nat \<Rightarrow> cstr \<times> 'q"
  assumes put_bytes: "inv q \<Longrightarrow> d \<noteq> [] \<Longrightarrow> bytes (put q d) = bytes q @ d \<and> inv (put q d)"
    and get_bytes: "inv q \<Longrightarrow> get q n = (p, q') \<Longrightarrow>
      p = take n (bytes q) \<and> bytes q' = drop n (bytes q) \<and> inv q'"
begin

fun exec :: "(cstr + nat) list \<Rightarrow> 'q \<Rightarrow> cstr \<times> cstr \<times> 'q" where
  "exec [] q = ([], [], q)"
| "exec (Inl d # ops) q =
     (if d = [] then exec ops q
      else let (w, r, q') = exec ops (put q d) in (d @ w, r, q'))"
| "exec (Inr n # ops) q =
     (let (p, q1) = get q n; (w, r, q') = exec ops q1 in (w, p @ r, q'))"

lemma fifo:
  "inv q \<Longrightarrow> exec ops q = (w, r, q') \<Longrightarrow> bytes q @ w = r @ bytes q' \<and> inv q'"
proof (induction ops q arbitrary: w r q' rule: exec.induct)
  case (2 d ops q)
  show ?case
  proof (cases "d = []")
    case True
    with 2 show ?thesis by simp
  next
    case False
    obtain w2 r2 q2 where e: "exec ops (put q d) = (w2, r2, q2)" by (metis prod_cases3)
    with 2 False put_bytes [of q d] show ?thesis by fastforce
  qed
next
  case (3 n ops q)
  obtain p q1 where g: "get q n = (p, q1)" by (cases "get q n") auto
  obtain w2 r2 q2 where e: "exec ops q1 = (w2, r2, q2)" by (metis prod_cases3)
  have s: "p = take n (bytes q) \<and> bytes q1 = drop n (bytes q) \<and> inv q1"
    using get_bytes "3.prems"(1) g by blast
  then have "bytes q1 @ w2 = r2 @ bytes q2 \<and> inv q2" using "3.IH" [OF g [symmetric] refl] e by simp
  then have "p @ bytes q1 @ w2 = p @ r2 @ bytes q2 \<and> inv q2" by simp
  moreover have "p @ bytes q1 = bytes q" using s by simp
  ultimately show ?case using "3.prems" g e by (metis append_assoc case_prod_conv exec.simps(3) prod.inject)
qed simp

end

interpretation blocks: byte_fifo queue_ok queue_bytes append_bytes "\<lambda>qs n. get_loop n qs"
  by unfold_locales (use append_bytes_spec get_loop_spec in blast)+
subsection \<open>Lines\<close>

lemma strchr_append:
  "c \<noteq> NUL \<Longrightarrow> strchr (s @ t) c =
     (case strchr s c of Some i \<Rightarrow> Some i | None \<Rightarrow> map_option (\<lambda>i. length s + i) (strchr t c))"
  by (cases "strchr t c"; induction s c rule: strchr.induct) (auto split: option.splits)

text \<open>What \<open>line_scan\<close> finds, over the whole byte string.\<close>

lemma line_scan_spec:
  assumes "line_scan len l qs = (m, pos, nl)"
  shows "(case nl of
      Some j \<Rightarrow> pos < length qs \<and> strchr (sq_bytes (qs ! pos)) LF = Some j \<and> LF \<notin> set (queue_bytes (take pos qs)) \<and>
                (0 < pos \<longrightarrow> l + length (queue_bytes (take pos qs)) < len)
    | None \<Rightarrow> (m < len \<longrightarrow> LF \<notin> set (queue_bytes qs) \<and> l + length (queue_bytes qs) = m) \<and>
              (len \<le> m \<longrightarrow> LF \<notin> set (take (len - l) (queue_bytes qs)) \<and> len \<le> l + length (queue_bytes qs)))"
  using assms
proof (induction len l qs arbitrary: m pos nl rule: line_scan.induct)
  case (1 len l)
  then show ?case by auto
next
  case (2 len l q qs)
  show ?case
  proof (cases "strchr (sq_bytes q) LF")
    case (Some j)
    with "2.prems" have "nl = Some j" "pos = 0" by (simp_all add: Let_def)
    with Some show ?thesis by simp
  next
    case None
    then have n: "LF \<notin> set (sq_bytes q)" by (simp add: strchr_None_iff)
    show ?thesis
    proof (cases "len \<le> l + sq_used q")
      case True
      with "2.prems" None n show ?thesis by (auto dest: in_set_takeD)
    next
      case False
      obtain m2 pos2 nl2 where r: "line_scan len (l + sq_used q) qs = (m2, pos2, nl2)" by (metis prod_cases3)
      with "2.prems" None False have e: "m = m2" "pos = Suc pos2" "nl = nl2" by auto
      note IH = "2.IH" [OF refl refl _ r]
      with None False n show ?thesis
        unfolding e by (auto split: option.splits dest: in_set_takeD)
    qed
  qed
qed

text \<open>Without the newline in sight the copying loop is that of \<open>recvq_get\<close>.\<close>

lemma line_loop_get:
  "here = None \<or> nl = None \<Longrightarrow> line_loop len here nl qs = (fst (get_loop len qs), snd (get_loop len qs), False)"
proof (induction qs arbitrary: len here)
  case (Cons q qs)
  let ?l = "min (sq_used q) len"
  have IH: "line_loop (len - ?l) (case here of Some (Suc n) \<Rightarrow> Some n | _ \<Rightarrow> None) nl qs =
      (fst (get_loop (len - ?l) qs), snd (get_loop (len - ?l) qs), False)"
    by (rule Cons.IH) (use Cons.prems in auto)
  show ?case
    using Cons.prems IH by (cases here; cases nl) (auto simp: Let_def split_def)
qed simp

lemma strchr_in_set: "strchr s c = Some i \<Longrightarrow> c \<noteq> NUL \<Longrightarrow> c \<in> set s"
  by (metis strchr_None_iff option.distinct(1))

lemma new_sendq_fields [simp]: "firstused new_sendq = 0" "firstfree new_sendq = 0"
  by (simp_all add: new_sendq_def)

lemma sq_drained_iff:
  "sq_ok q \<Longrightarrow> l \<le> sq_used q \<Longrightarrow> firstused (sq_consume q l) = firstfree (sq_consume q l) \<longleftrightarrow> l = sq_used q"
  by (auto simp: sq_consume_def sq_used_def dest: sq_ok_le)

text \<open>One block of the copying loop.\<close>

lemma line_loop_Cons:
  assumes "h = (here = Some 0 \<and> (case nl of None \<Rightarrow> False | Some j \<Rightarrow> j + 1 \<le> min (sq_used q) len))"
    and "l = (if h then the nl + 1 else min (sq_used q) len)"
    and "line_loop (len - l) (case here of Some (Suc n) \<Rightarrow> Some n | _ \<Rightarrow> None) nl qs = (p2, r2, h2)"
  shows "line_loop len here nl (q # qs) =
      (if firstused q = firstfree q \<or> len = 0 then ([], q # qs, False)
       else if firstused (sq_consume q l) = firstfree (sq_consume q l)
            then if qs \<noteq> [] then (sq_read q l @ p2, r2, h \<or> h2) else (sq_read q l, [sq_reset (sq_consume q l)], h)
            else (sq_read q l, sq_consume q l # qs, h))"
    and "l \<le> sq_used q"
  using assms(3) by (simp_all add: Let_def assms(1,2) [symmetric] del: One_nat_def add_Suc_right)
    (auto simp: assms(1,2) split: option.splits)

text \<open>
  A newline in the last block, at offset \<open>i\<close> of the queue: a line of \<open>i + 1\<close> bytes is taken if it fits,
  and as many bytes as fit otherwise.
\<close>

lemma line_loop_hit:
  assumes "queue_ok qs" "Suc pos = length qs" "strchr (sq_bytes (last qs)) LF = Some j"
    and "line_loop len (Some pos) (Some j) qs = (p, qs', hit)"
    and "n = (if length (queue_bytes (butlast qs)) + j < len then Suc (length (queue_bytes (butlast qs)) + j) else len)"
  shows "p = take n (queue_bytes qs) \<and> queue_bytes qs' = drop n (queue_bytes qs) \<and> queue_ok qs' \<and>
    hit = (length (queue_bytes (butlast qs)) + j < len)"
  using assms
proof (induction qs arbitrary: pos len p qs' hit n)
  case (Cons q qs)
  have ok: "sq_ok q" using Cons.prems by simp
  show ?case
  proof (cases "qs = []")
    case True
    then have j: "j < sq_used q" and pos: "pos = 0" using Cons.prems(2,3) strchr_SomeD by fastforce+
    then have ne: "firstused q \<noteq> firstfree q" by (auto simp: sq_used_def)
    have l: "n \<le> sq_used q" using j True Cons.prems(5) by auto
    have e: "line_loop len (Some pos) (Some j) (q # qs) =
      (if len = 0 then ([], q # qs, False)
       else if firstused (sq_consume q n) = firstfree (sq_consume q n)
            then (sq_read q n, [sq_reset (sq_consume q n)], j < len)
            else (sq_read q n, sq_consume q n # qs, j < len))"
      by (subst line_loop_Cons(1) [where h = "j < len" and l = n and ?p2.0 = "[]" and ?r2.0 = "[]" and ?h2.0 = False])
        (use j pos ne True Cons.prems(5) in auto)
    have "n = 0 \<longleftrightarrow> len = 0" using Cons.prems(5) True by auto
    then show ?thesis
      using e Cons.prems True l ok ne sq_ok_consume [OF ok l]
      by (auto simp: sq_read_take sq_consume_drop sq_bytes_Nil sq_drained_iff split: if_splits)
  next
    case False
    then obtain pos' where pos: "pos = Suc pos'" "Suc pos' = length qs" using Cons.prems(2) by (cases pos) auto
    have ne: "firstused q \<noteq> firstfree q" using Cons.prems(1) False by auto
    let ?l = "min (sq_used q) len"
    obtain p2 r2 h2 where r: "line_loop (len - ?l) (Some pos') (Some j) qs = (p2, r2, h2)" by (metis prod_cases3)
    have e: "line_loop len (Some pos) (Some j) (q # qs) =
      (if len = 0 then ([], q # qs, False)
       else if ?l = sq_used q then (sq_read q ?l @ p2, r2, h2)
            else (sq_read q ?l, sq_consume q ?l # qs, False))"
      by (subst line_loop_Cons(1) [where h = False and l = ?l and ?p2.0 = p2 and ?r2.0 = r2 and ?h2.0 = h2])
        (use pos(1) ne r False sq_drained_iff [OF ok, of ?l] in auto)
    show ?thesis
    proof (cases "sq_used q \<le> len")
      case True
      then have m: "?l = sq_used q" by simp
      have "p2 = take (n - sq_used q) (queue_bytes qs) \<and> queue_bytes r2 = drop (n - sq_used q) (queue_bytes qs) \<and>
          queue_ok r2 \<and> h2 = (length (queue_bytes (butlast qs)) + j < len - sq_used q)"
        by (rule Cons.IH [OF _ pos(2) _ r [unfolded m]]) (use Cons.prems False True in auto)
      moreover have "sq_used q \<le> n" using True Cons.prems(5) False by auto
      moreover have "0 < sq_used q" using ne ok by (auto simp: sq_used_def sq_ok_def)
      ultimately show ?thesis
        using Cons.prems(4,5) e False m True by (auto simp: sq_read_take)
    next
      case lt: False
      then have m: "?l = len" and l: "len \<le> sq_used q" and d: "len \<noteq> sq_used q" by auto
      have "sq_ok (sq_consume q len) \<and> firstused (sq_consume q len) < firstfree (sq_consume q len)"
        using sq_ok_consume [OF ok l] sq_drained_iff [OF ok l] d by blast
      moreover have "n = len" using Cons.prems(5) False l by auto
      ultimately show ?thesis
        using Cons.prems(1,4,5) e False m d l lt
        by (auto simp: sq_read_take sq_consume_drop split: if_splits)
    qed
  qed
qed simp

lemma set_sq_consume: "l \<le> sq_used q \<Longrightarrow> set (sq_bytes (sq_consume q l)) \<subseteq> set (sq_bytes q)"
  by (simp add: sq_consume_drop set_drop_subset)

lemma line_loop_early:
  "line_loop len here nl qs = (p, qs', hit) \<Longrightarrow> set (queue_bytes (butlast qs')) \<subseteq> set (queue_bytes (butlast qs))"
proof (induction qs arbitrary: len here p qs' hit)
  case (Cons q qs)
  define h where "h = (here = Some 0 \<and> (case nl of None \<Rightarrow> False | Some j \<Rightarrow> j + 1 \<le> min (sq_used q) len))"
  define l where "l = (if h then the nl + 1 else min (sq_used q) len)"
  obtain p2 r2 h2 where r: "line_loop (len - l) (case here of Some (Suc n) \<Rightarrow> Some n | _ \<Rightarrow> None) nl qs = (p2, r2, h2)"
    by (metis prod_cases3)
  show ?case
    using Cons.prems Cons.IH [OF r] set_sq_consume [OF line_loop_Cons(2) [OF h_def l_def r]]
    unfolding line_loop_Cons(1) [OF h_def l_def r] by (auto split: if_splits)
qed simp

text \<open>Newlines only in the last block: what holds between reads when every line is taken at once.\<close>

definition lf_last :: "sendq list \<Rightarrow> bool" where
  "lf_last qs \<longleftrightarrow> LF \<notin> set (queue_bytes (butlast qs))"

text \<open>The number of bytes that \<open>recvq_getline\<close> takes from a byte string.\<close>

definition line_len :: "nat \<Rightarrow> cstr \<Rightarrow> nat" where
  "line_len len s =
     (case strchr s LF of
        Some i \<Rightarrow> if i < len then Suc i else len
      | None \<Rightarrow> if len \<le> length s then len else 0)"

definition line_closed :: "nat \<Rightarrow> cstr \<Rightarrow> bool" where
  "line_closed len s = (case strchr s LF of Some i \<Rightarrow> i < len | None \<Rightarrow> False)"

lemma getline_flat:
  assumes "queue_ok (cn_recvq c)" "lf_last (cn_recvq c)" "0 < len" "recvq_getline c len = (p, c')"
    and "s = queue_bytes (cn_recvq c)" "n = line_len len s"
  shows "p = take n s \<and> queue_bytes (cn_recvq c') = drop n s \<and> queue_ok (cn_recvq c') \<and> lf_last (cn_recvq c') \<and>
    (n = 0 \<longrightarrow> c' = c) \<and> (n \<noteq> 0 \<longrightarrow> has_flag c' CF_NONEWLINE = (\<not> line_closed len s)) \<and>
    cf_flags c' AND NOT CF_NONEWLINE = cf_flags c AND NOT CF_NONEWLINE"
proof -
  let ?Q = "cn_recvq c"
  obtain m pos nl where sc: "line_scan len 0 ?Q = (m, pos, nl)" by (metis prod_cases3)
  obtain p2 qs hit where lp: "line_loop len (Some pos) nl ?Q = (p2, qs, hit)" by (metis prod_cases3)
  note spec = line_scan_spec [OF sc]
  have flags: "has_flag (c\<lparr>cn_recvq := qs, cf_flags := (if hit then cf_flags c AND NOT CF_NONEWLINE
      else cf_flags c OR CF_NONEWLINE)\<rparr>) CF_NONEWLINE = (\<not> hit)"
    by (cases hit) (simp_all add: has_flag_def word_and_or_nz and.assoc)
  have rest: "(if hit then cf_flags c AND NOT CF_NONEWLINE else cf_flags c OR CF_NONEWLINE) AND NOT CF_NONEWLINE =
      cf_flags c AND NOT CF_NONEWLINE"
    by (rule bit_word_eqI) (auto simp: bit_simps)
  have early: "lf_last qs" using line_loop_early [OF lp] assms(2) by (auto simp: lf_last_def)
  show ?thesis
  proof (cases nl)
    case None
    show ?thesis
    proof (cases "m < len")
      case True
      then have "LF \<notin> set s" "length s < len" using spec None assms(5) by auto
      then have "n = 0" using assms(6) by (simp add: line_len_def strchr_None_iff [THEN iffD2])
      then show ?thesis using assms sc None True by (auto simp: recvq_getline_def)
    next
      case False
      then have no: "LF \<notin> set (take len s)" "len \<le> length s" using spec None assms(5) by auto
      have i: "len \<le> i" if "strchr s LF = Some i" for i
      proof (rule ccontr)
        assume "\<not> len \<le> i"
        with strchr_SomeD [OF that] have "s ! i \<in> set (take len s)" "s ! i = LF"
          by (auto simp: in_set_conv_nth intro!: exI [of _ i])
        with no show False by simp
      qed
      have n: "n = len" "\<not> line_closed len s"
        using i no(2) assms(6) by (auto simp: line_len_def line_closed_def split: option.splits dest: i)
      have h: "\<not> hit" "get_loop len ?Q = (p2, qs)" using lp line_loop_get [of "Some pos" nl len ?Q] None by auto
      have "c' = c\<lparr>cn_recvq := qs, cf_flags := (if hit then cf_flags c AND NOT CF_NONEWLINE
          else cf_flags c OR CF_NONEWLINE)\<rparr>" "p = p2"
        using assms(4) sc lp None False by (auto simp: recvq_getline_def)
      with get_loop_spec [OF assms(1) h(2)] n h flags rest early assms(3,5) show ?thesis by simp
    qed
  next
    case (Some j)
    have pl: "Suc pos = length ?Q"
    proof (rule ccontr)
      assume "Suc pos \<noteq> length ?Q"
      moreover have "pos < length ?Q" using spec Some by simp
      ultimately have "pos < length (butlast ?Q)" by simp
      then have "?Q ! pos \<in> set (butlast ?Q)" by (metis nth_butlast nth_mem)
      moreover have "LF \<in> set (sq_bytes (?Q ! pos))" using spec Some strchr_in_set [of "sq_bytes (?Q ! pos)" LF] by simp
      ultimately show False using assms(2) by (auto simp: lf_last_def queue_bytes_def)
    qed
    then have ne: "?Q \<noteq> []" and tk: "take pos ?Q = butlast ?Q" by (auto, metis butlast_conv_take diff_Suc_1)
    have "last ?Q = ?Q ! pos" using pl ne by (metis diff_Suc_1 last_conv_nth)
    then have lst: "strchr (sq_bytes (last ?Q)) LF = Some j" using spec Some by simp
    let ?i = "length (queue_bytes (butlast ?Q)) + j"
    have "s = queue_bytes (butlast ?Q) @ sq_bytes (last ?Q)"
      using assms(5) ne by (metis append_butlast_last_id queue_bytes_append queue_bytes_Cons queue_bytes_Nil append_Nil2)
    moreover have "strchr (queue_bytes (butlast ?Q)) LF = None" using assms(2) by (simp add: lf_last_def strchr_None_iff)
    ultimately have si: "strchr s LF = Some ?i" using lst by (simp add: strchr_append)
    have n: "n = (if ?i < len then Suc ?i else len)" "line_closed len s = (?i < len)"
      using si assms(6) by (simp_all add: line_len_def line_closed_def)
    have "c' = c\<lparr>cn_recvq := qs, cf_flags := (if hit then cf_flags c AND NOT CF_NONEWLINE
        else cf_flags c OR CF_NONEWLINE)\<rparr>" "p = p2"
      using assms(4) sc lp Some by (auto simp: recvq_getline_def)
    with line_loop_hit [OF assms(1) pl lst lp [unfolded Some] n(1)] n flags rest early assms(3,5)
    show ?thesis by simp
  qed
qed

section \<open>The uplink's stream of lines\<close>

text \<open>
  The abstract machine: from the bytes not yet consumed and whether an overlong line is being skipped,
  the lines handed to \<open>parse\<close>.
\<close>

function irc_stream :: "bool \<Rightarrow> cstr \<Rightarrow> cstr list \<times> bool \<times> cstr" where
  "irc_stream nonl s =
     (let n = line_len BUFSIZE s
      in if n = 0 then ([], nonl, s)
         else let (ls, r) = irc_stream (\<not> line_closed BUFSIZE s) (drop n s)
              in ((if nonl then [] else [c_string (strip_eol (take n s))]) @ ls, r))"
  by auto

lemma BUFSIZE_pos [simp]: "0 < BUFSIZE" "BUFSIZE \<noteq> 0"
  by (simp_all add: BUFSIZE_def)

lemma line_len_le: "line_len len s \<le> length s"
  by (auto simp: line_len_def split: option.splits dest!: strchr_SomeD)

termination irc_stream
proof (relation "measure (\<lambda>(nonl, s). length s)")
  fix nonl :: bool and s and n
  assume "n = line_len BUFSIZE s" "n \<noteq> 0"
  then show "((\<not> line_closed BUFSIZE s, drop n s), nonl, s) \<in> measure (\<lambda>(nonl, s). length s)"
    using line_len_le [of BUFSIZE s] by auto
qed simp

declare irc_stream.simps [simp del]

lemma irc_stream_Nil [simp]: "irc_stream b [] = ([], b, [])"
  by (subst irc_stream.simps) (simp add: line_len_def BUFSIZE_def)

definition parsed :: "irc_event list \<Rightarrow> cstr list" where
  "parsed es = concat (map (\<lambda>e. case e of Parse l \<Rightarrow> [l] | _ \<Rightarrow> []) es)"

lemma parsed_simps [simp]:
  "parsed [] = []" "parsed (Bytes_in n # es) = parsed es" "parsed (Pong # es) = parsed es"
  "parsed (Parse l # es) = l # parsed es" "parsed (es @ fs) = parsed es @ parsed fs"
  by (simp_all add: parsed_def)

text \<open>
  The handler is called until it consumes nothing: this ends, and the calls together do what the
  abstract machine does on the bytes queued.
\<close>

definition recv_ok :: "conn \<Rightarrow> bool" where
  "recv_ok c \<longleftrightarrow> queue_ok (cn_recvq c) \<and> lf_last (cn_recvq c)"

lemma handler_step:
  assumes "recv_ok c" "s = queue_bytes (cn_recvq c)" "n = line_len BUFSIZE s" "irc_recvq_handler c = (es, c')"
  shows "recv_ok c' \<and> queue_bytes (cn_recvq c') = drop n s \<and> (n = 0 \<longrightarrow> c' = c \<and> parsed es = []) \<and>
    (n \<noteq> 0 \<longrightarrow> has_flag c' CF_NONEWLINE = (\<not> line_closed BUFSIZE s) \<and>
       parsed es = (if has_flag c CF_NONEWLINE then [] else [c_string (strip_eol (take n s))])) \<and>
    cf_flags c' AND NOT CF_NONEWLINE = cf_flags c AND NOT CF_NONEWLINE"
proof -
  obtain p c1 where g: "recvq_getline c BUFSIZE = (p, c1)" by (cases "recvq_getline c BUFSIZE") auto
  note f = getline_flat [OF _ _ BUFSIZE_pos(1) g assms(2,3)]
  have "p = [] \<longleftrightarrow> n = 0"
    using f assms(1) line_len_le [of BUFSIZE s] by (auto simp: recv_ok_def assms(3))
  then show ?thesis
    using f assms(1,4) g by (auto simp: recv_ok_def irc_recvq_handler_def)
qed

lemma handler_loop_stream:
  assumes "recv_ok c" "irc_stream (has_flag c CF_NONEWLINE) (queue_bytes (cn_recvq c)) = (ls, b, r)"
  shows "\<exists>es c'. handler_loop irc_recvq_handler (recvq_length c) c = Some (es, c') \<and> parsed es = ls \<and>
    recv_ok c' \<and> has_flag c' CF_NONEWLINE = b \<and> queue_bytes (cn_recvq c') = r \<and>
    cf_flags c' AND NOT CF_NONEWLINE = cf_flags c AND NOT CF_NONEWLINE"
  using assms
proof (induction "length (queue_bytes (cn_recvq c))" arbitrary: c ls rule: less_induct)
  case less
  let ?s = "queue_bytes (cn_recvq c)" and ?n = "line_len BUFSIZE (queue_bytes (cn_recvq c))"
  obtain es1 c1 where h: "irc_recvq_handler c = (es1, c1)" by (cases "irc_recvq_handler c") auto
  note st = handler_step [OF less.prems(1) refl refl h]
  have loop: "handler_loop irc_recvq_handler (recvq_length c) c =
      (if recvq_length c \<noteq> recvq_length c1 \<and> recvq_length c1 \<noteq> 0
       then Option.bind (handler_loop irc_recvq_handler (recvq_length c1) c1) (\<lambda>r'. Some (es1 @ fst r', snd r'))
       else Some (es1, c1))"
    by (subst handler_loop.simps) (simp add: h Let_def)
  show ?case
  proof (cases "?n = 0")
    case True
    then show ?thesis using st loop less.prems by (subst (asm) irc_stream.simps) simp
  next
    case False
    obtain ls2 where ls2: "irc_stream (\<not> line_closed BUFSIZE ?s) (drop ?n ?s) = (ls2, b, r)"
      and ls: "ls = (if has_flag c CF_NONEWLINE then [] else [c_string (strip_eol (take ?n ?s))]) @ ls2"
      using less.prems(2) False by (subst (asm) irc_stream.simps) (auto simp: Let_def split: prod.splits)
    have len: "length (queue_bytes (cn_recvq c1)) < length ?s"
      using st False line_len_le [of BUFSIZE ?s] by auto
    show ?thesis
    proof (cases "queue_bytes (cn_recvq c1) = []")
      case True
      then have "ls2 = [] \<and> b = (\<not> line_closed BUFSIZE ?s) \<and> r = []"
        using ls2 st by simp
      with True st loop False ls show ?thesis by (simp add: recvq_length_bytes)
    next
      case ne: False
      have "irc_stream (has_flag c1 CF_NONEWLINE) (queue_bytes (cn_recvq c1)) = (ls2, b, r)"
        using ls2 st False by simp
      from less.hyps [OF len _ this] st obtain es2 c2 where
        "handler_loop irc_recvq_handler (recvq_length c1) c1 = Some (es2, c2)" "parsed es2 = ls2" "recv_ok c2"
        "has_flag c2 CF_NONEWLINE = b" "queue_bytes (cn_recvq c2) = r"
        "cf_flags c2 AND NOT CF_NONEWLINE = cf_flags c1 AND NOT CF_NONEWLINE" by blast
      with st loop False ls ne len show ?thesis by (simp add: recvq_length_bytes)
    qed
  qed
qed

text \<open>Feeding the machine in pieces is feeding it at once.\<close>

lemma line_len_append:
  assumes "line_len len s \<noteq> 0"
  shows "line_len len (s @ t) = line_len len s" "line_closed len (s @ t) = line_closed len s"
proof -
  have lf: "strchr (s @ t) LF =
      (case strchr s LF of Some i \<Rightarrow> Some i | None \<Rightarrow> map_option (\<lambda>i. length s + i) (strchr t LF))"
    by (simp add: strchr_append)
  show "line_len len (s @ t) = line_len len s" "line_closed len (s @ t) = line_closed len s"
    using assms unfolding line_len_def line_closed_def lf
    by (auto split: option.splits if_splits)
qed

lemma irc_stream_append:
  "irc_stream nonl s = (ls, b, r) \<Longrightarrow>
     irc_stream nonl (s @ t) = (let (ls', b', r') = irc_stream b (r @ t) in (ls @ ls', b', r'))"
proof (induction nonl s arbitrary: ls b r rule: irc_stream.induct)
  case (1 nonl s)
  let ?n = "line_len BUFSIZE s"
  show ?case
  proof (cases "?n = 0")
    case True
    then have "ls = [] \<and> b = nonl \<and> r = s" using "1.prems" by (subst (asm) irc_stream.simps) simp
    then show ?thesis by (simp add: split_def)
  next
    case False
    obtain ls2 where ls2: "irc_stream (\<not> line_closed BUFSIZE s) (drop ?n s) = (ls2, b, r)"
      and ls: "ls = (if nonl then [] else [c_string (strip_eol (take ?n s))]) @ ls2"
      using "1.prems" False by (subst (asm) irc_stream.simps) (auto simp: Let_def split: prod.splits)
    note a = line_len_append [OF False, of t]
    have "take ?n (s @ t) = take ?n s" "drop ?n (s @ t) = drop ?n s @ t"
      using line_len_le [of BUFSIZE s] by simp_all
    then have "irc_stream nonl (s @ t) =
        (let (ls', r) = irc_stream (\<not> line_closed BUFSIZE s) (drop ?n s @ t)
         in ((if nonl then [] else [c_string (strip_eol (take ?n s))]) @ ls', r))"
      using False a by (subst irc_stream.simps) (simp add: Let_def del: take_append drop_append)
    with "1.IH" [OF refl False ls2] ls show ?thesis by (simp add: split_def Let_def)
  qed
qed

text \<open>A line and its newline: parsed, cut to \<open>BUFSIZE\<close> bytes, unless it is the tail of an overlong one.\<close>

lemma irc_stream_line:
  assumes "LF \<notin> set ln"
  shows "irc_stream nonl (ln @ LF # s) =
    (let (ls, r) = irc_stream False s
     in ((if nonl then [] else [c_string (strip_eol (take BUFSIZE (ln @ [LF])))]) @ ls, r))"
  using assms
proof (induction "length ln" arbitrary: nonl ln rule: less_induct)
  case less
  have lf: "strchr (ln @ LF # s) LF = Some (length ln)"
    using less.prems strchr_None_iff [of LF ln] by (simp add: strchr_append)
  show ?case
  proof (cases "length ln < BUFSIZE")
    case True
    then show ?thesis using lf by (subst irc_stream.simps) (simp add: Let_def line_len_def line_closed_def split_def)
  next
    case False
    then have n: "line_len BUFSIZE (ln @ LF # s) = BUFSIZE" "\<not> line_closed BUFSIZE (ln @ LF # s)"
      using lf by (simp_all add: line_len_def line_closed_def)
    have "LF \<notin> set (drop BUFSIZE ln)" "length (drop BUFSIZE ln) < length ln"
      using less.prems False BUFSIZE_pos(1) by (auto dest: in_set_dropD simp del: BUFSIZE_pos)
    then have "irc_stream True (drop BUFSIZE ln @ LF # s) = irc_stream False s"
      using less.hyps [of "drop BUFSIZE ln" True] by (simp add: Let_def split_def)
    with n False show ?thesis by (subst irc_stream.simps) (simp add: Let_def split_def)
  qed
qed

lemma irc_stream_lines:
  "\<forall>ln \<in> set lns. LF \<notin> set ln \<Longrightarrow>
     irc_stream False (concat (map (\<lambda>ln. ln @ [LF]) lns) @ s) =
       (let (ls, r) = irc_stream False s
        in (map (\<lambda>ln. c_string (strip_eol (take BUFSIZE (ln @ [LF])))) lns @ ls, r))"
  by (induction lns) (simp_all add: irc_stream_line Let_def split_def)

text \<open>After the handler has had its turns no complete line waits.\<close>

lemma irc_stream_rest:
  "irc_stream nonl s = (ls, b, r) \<Longrightarrow> LF \<notin> set r"
proof (induction nonl s arbitrary: ls b r rule: irc_stream.induct)
  case (1 nonl s)
  let ?n = "line_len BUFSIZE s"
  show ?case
  proof (cases "?n = 0")
    case True
    then have "strchr s LF = None" by (auto simp: line_len_def split: option.splits if_splits)
    moreover have "r = s" using "1.prems" True by (subst (asm) irc_stream.simps) simp
    ultimately show ?thesis by (simp add: strchr_None_iff)
  next
    case False
    with "1.prems" show ?thesis
      by (subst (asm) irc_stream.simps) (auto simp: Let_def split: prod.splits dest: "1.IH" [OF refl False])
  qed
qed

lemma irc_stream_again:
  "irc_stream nonl s = (ls, b, r) \<Longrightarrow> irc_stream b r = ([], b, r)"
proof (induction nonl s arbitrary: ls b r rule: irc_stream.induct)
  case (1 nonl s)
  show ?case
  proof (cases "line_len BUFSIZE s = 0")
    case True
    then have "irc_stream nonl s = ([], nonl, s)" by (subst irc_stream.simps) simp
    with "1.prems" show ?thesis by simp
  next
    case False
    with "1.prems" show ?thesis
      by (subst (asm) irc_stream.simps) (auto simp: Let_def split: prod.splits intro: "1.IH" [OF refl False])
  qed
qed

text \<open>One read from the socket.\<close>

lemma recv_block_spec:
  assumes "queue_ok qs" "LF \<notin> set (queue_bytes qs)" "0 < length d" "length d \<le> recv_room qs"
    and "qs' = butlast (recv_block qs) @ [sq_fill (last (recv_block qs)) d]"
  shows "queue_ok qs' \<and> lf_last qs' \<and> queue_bytes qs' = queue_bytes qs @ d"
proof (cases "qs = [] \<or> SENDQSIZE - firstfree (last qs) = 0")
  case True
  have f: "sq_ok (sq_fill new_sendq d)" "sq_bytes (sq_fill new_sendq d) = d"
    using sq_ok_fill [of new_sendq d] assms(3,4) True
    by (auto simp: recv_room_def recv_block_def sq_bytes_fill)
  have "firstused (last qs) < firstfree (last qs)" if "qs \<noteq> []"
  proof -
    have "sq_ok (last qs)" using queue_ok_blocks [OF assms(1)] that by simp
    moreover have "SENDQSIZE \<le> firstfree (last qs)" using True that by simp
    ultimately show ?thesis using SENDQSIZE_pos unfolding sq_ok_def by linarith
  qed
  then show ?thesis
    using assms f True by (auto simp: recv_block_def queue_ok_append lf_last_def)
next
  case False
  then obtain rs q where qs: "qs = rs @ [q]" by (metis rev_exhaust)
  have q: "sq_ok q" "length d \<le> SENDQSIZE - firstfree q" "rs = [] \<or> firstused (last rs) < firstfree (last rs)"
    using assms(1,4) False by (auto simp: qs queue_ok_append recv_room_def recv_block_def)
  then have "sq_ok (sq_fill q d)" using sq_ok_fill [OF q(1) _ q(2)] assms(3) by auto
  then show ?thesis
    using assms(1,2,5) False q(3)
    by (auto simp: qs recv_block_def queue_ok_append lf_last_def sq_bytes_fill sq_ok_le [OF q(1)])
qed

text \<open>A history of reads that find data, and the lines parsed during it.\<close>

fun uplink_run :: "cstr list \<Rightarrow> conn \<Rightarrow> (cstr list \<times> conn) option" where
  "uplink_run [] c = Some ([], c)"
| "uplink_run (d # ds) c =
     (case recvq_put (Some irc_recvq_handler) (Recv d) c of
        Some (Open es c') \<Rightarrow> map_option (\<lambda>(ls, c2). (parsed es @ ls, c2)) (uplink_run ds c')
      | _ \<Rightarrow> None)"

text \<open>\<open>recv\<close> never gives more than the room offered; a block of \<open>SENDQSIZE\<close> bytes has at least room for one.\<close>

fun reads_fit :: "cstr list \<Rightarrow> conn \<Rightarrow> bool" where
  "reads_fit [] c \<longleftrightarrow> True"
| "reads_fit (d # ds) c \<longleftrightarrow> 0 < length d \<and> length d \<le> recv_room (cn_recvq c) \<and>
     (case recvq_put (Some irc_recvq_handler) (Recv d) c of Some (Open es c') \<Rightarrow> reads_fit ds c' | _ \<Rightarrow> True)"

lemma usable_flags:
  "cf_flags c' AND NOT CF_NONEWLINE = cf_flags c AND NOT CF_NONEWLINE \<Longrightarrow>
     has_flag c' (CF_DEAD OR CF_SEND_DEAD) = has_flag c (CF_DEAD OR CF_SEND_DEAD)"
proof -
  assume e: "cf_flags c' AND NOT CF_NONEWLINE = cf_flags c AND NOT CF_NONEWLINE"
  have m: "(CF_DEAD OR CF_SEND_DEAD) = NOT CF_NONEWLINE AND (CF_DEAD OR CF_SEND_DEAD)"
    by (simp add: CF_DEAD_def CF_SEND_DEAD_def CF_NONEWLINE_def)
  show ?thesis unfolding has_flag_def by (subst (1 2) m) (simp only: e and.assoc [symmetric])
qed

lemma uplink_run_stream:
  assumes "queue_ok (cn_recvq c)" "LF \<notin> set (queue_bytes (cn_recvq c))" "\<not> has_flag c (CF_DEAD OR CF_SEND_DEAD)"
    and "reads_fit ds c"
    and "irc_stream (has_flag c CF_NONEWLINE) (queue_bytes (cn_recvq c)) = ([], has_flag c CF_NONEWLINE, queue_bytes (cn_recvq c))"
  shows "\<exists>c'. uplink_run ds c =
    Some (fst (irc_stream (has_flag c CF_NONEWLINE) (queue_bytes (cn_recvq c) @ concat ds)), c')"
  using assms
proof (induction ds arbitrary: c)
  case Nil
  then show ?case by simp
next
  case (Cons d ds)
  let ?qs = "butlast (recv_block (cn_recvq c)) @ [sq_fill (last (recv_block (cn_recvq c))) d]"
  let ?c1 = "c\<lparr>cn_recvq := ?qs\<rparr>"
  have d: "0 < length d" "length d \<le> recv_room (cn_recvq c)" using Cons.prems(4) by simp_all
  note b = recv_block_spec [OF Cons.prems(1,2) d refl]
  obtain ls b2 r where st: "irc_stream (has_flag c CF_NONEWLINE) (queue_bytes (cn_recvq c) @ d) = (ls, b2, r)"
    by (metis prod_cases3)
  have ok: "recv_ok ?c1" using b by (simp add: recv_ok_def)
  have st1: "irc_stream (has_flag ?c1 CF_NONEWLINE) (queue_bytes (cn_recvq ?c1)) = (ls, b2, r)"
    using st b by simp
  obtain es c' where h: "handler_loop irc_recvq_handler (recvq_length ?c1) ?c1 = Some (es, c')" "parsed es = ls"
    "recv_ok c'" "has_flag c' CF_NONEWLINE = b2" "queue_bytes (cn_recvq c') = r"
    "cf_flags c' AND NOT CF_NONEWLINE = cf_flags ?c1 AND NOT CF_NONEWLINE"
    using handler_loop_stream [OF ok st1] by blast
  have put: "recvq_put (Some irc_recvq_handler) (Recv d) c = Some (Open es c')"
    using h(1) d Cons.prems(3) by (simp add: recvq_put_def Let_def)
  have again: "irc_stream b2 r = ([], b2, r)"
    by (rule irc_stream_again [OF st])
  have "reads_fit ds c'" using Cons.prems(4) put by simp
  moreover have "\<not> has_flag c' (CF_DEAD OR CF_SEND_DEAD)" using usable_flags [of c' c] h(6) Cons.prems(3) by simp
  ultimately obtain c2 where "uplink_run ds c' = Some (fst (irc_stream b2 (r @ concat ds)), c2)"
    using Cons.IH [of c'] h again irc_stream_rest [OF st] by (auto simp: recv_ok_def)
  moreover have "irc_stream (has_flag c CF_NONEWLINE) ((queue_bytes (cn_recvq c) @ d) @ concat ds) =
      (let (ls', b', r') = irc_stream b2 (r @ concat ds) in (ls @ ls', b', r'))"
    by (rule irc_stream_append [OF st])
  ultimately show ?case using put h(2) by (simp add: Let_def split_def)
qed

definition uplink_start :: conn where
  "uplink_start = sr_conn (send_start 0)"

lemma uplink_start_ok:
  "queue_ok (cn_recvq uplink_start)" "queue_bytes (cn_recvq uplink_start) = []" "\<not> has_flag uplink_start f"
  by (simp_all add: uplink_start_def send_start_def has_flag_def)

text \<open>
  C19: however the network cuts the uplink's byte stream into reads, the lines handed to \<open>parse\<close> are the
  lines of the stream: each without its line end, cut to \<open>BUFSIZE\<close> bytes if it is longer, none
  missing, none twice, in order; the handler loop ends after every read.
\<close>

theorem uplink_lines:
  assumes "reads_fit ds uplink_start"
    and "concat ds = concat (map (\<lambda>ln. ln @ [LF]) lns) @ rest" "\<forall>ln \<in> set lns. LF \<notin> set ln" "LF \<notin> set rest" "length rest < BUFSIZE"
  shows "\<exists>c. uplink_run ds uplink_start =
    Some (map (\<lambda>ln. c_string (strip_eol (take BUFSIZE (ln @ [LF])))) lns, c)"
proof -
  have "irc_stream False rest = ([], False, rest)"
    using assms(4,5) strchr_None_iff [of LF rest] by (subst irc_stream.simps) (simp add: line_len_def)
  then have "fst (irc_stream False (concat ds)) = map (\<lambda>ln. c_string (strip_eol (take BUFSIZE (ln @ [LF])))) lns"
    unfolding assms(2) using irc_stream_lines [OF assms(3), of rest] by simp
  with uplink_run_stream [of uplink_start ds] assms(1) uplink_start_ok show ?thesis by simp
qed

lemma SENDQSIZE_room: "2 \<le> SENDQSIZE"
  by (simp add: SENDQSIZE_def)

lemma sample_reads: "reads_fit [''a'' @ [CR, LF]] uplink_start"
  by (simp add: recv_room_def recv_block_def uplink_start_def send_start_def SENDQSIZE_def split: option.split put_outcome.split)

theorem uplink_lines_witness:
  "\<exists>c. uplink_run [''a'' @ [CR, LF]] uplink_start =
    Some (map (\<lambda>ln. c_string (strip_eol (take BUFSIZE (ln @ [LF])))) [''a'' @ [CR]], c)"
  by (rule uplink_lines [OF sample_reads, of _ "[]"]) (simp_all add: BUFSIZE_def)

text \<open>
  The premise that makes this work is the handler's turn after every read.  Called on a queue where
  the first newline is the last byte of a block that another block follows, \<open>recvq_getline\<close> runs on
  into that block: it returns the line together with the beginning of the next one.
\<close>

theorem getline_overread:
  assumes "queue_ok [q1, q2]" "sq_bytes q1 = x @ [LF]" "LF \<notin> set x" "sq_bytes q2 \<noteq> []" "length (x @ [LF]) < len"
    and "cn_recvq c = [q1, q2]"
  shows "fst (recvq_getline c len) = take len ((x @ [LF]) @ sq_bytes q2) \<and>
    \<not> has_flag (snd (recvq_getline c len)) CF_NONEWLINE"
proof -
  have u: "sq_used q1 = Suc (length x)" using length_sq_bytes [of q1] assms(2) by simp
  have nl: "strchr (sq_bytes q1) LF = Some (length x)"
    using assms(2,3) strchr_None_iff [of LF x] by (simp add: strchr_append)
  then have sc: "line_scan len 0 (cn_recvq c) = (Suc (length x), 0, Some (length x))"
    using assms(6) u by (simp add: Let_def)
  obtain p2 r2 where g: "get_loop (len - Suc (length x)) [q2] = (p2, r2)" by (cases "get_loop (len - Suc (length x)) [q2]") auto
  have "queue_ok [q2]" "sq_ok q1" using assms(1) by simp_all
  then have p2: "p2 = take (len - Suc (length x)) (sq_bytes q2)" using get_loop_spec [OF _ g] by simp
  have lp: "line_loop (len - Suc (length x)) None (Some (length x)) [q2] = (p2, r2, False)"
    using line_loop_get [of None "Some (length x)" "len - Suc (length x)" "[q2]"] g by simp
  have "line_loop len (Some 0) (Some (length x)) [q1, q2] = (sq_read q1 (Suc (length x)) @ p2, r2, True)"
    by (subst line_loop_Cons(1) [where h = True and l = "Suc (length x)" and ?p2.0 = p2 and ?r2.0 = r2 and ?h2.0 = False])
      (use u assms(1,5) lp sq_drained_iff [OF \<open>sq_ok q1\<close>, of "Suc (length x)"] in auto)
  moreover have "sq_read q1 (Suc (length x)) = x @ [LF]" using assms(2) u by (simp add: sq_read_take)
  moreover have "take (len - length x) (LF # sq_bytes q2) = LF # p2" using p2 assms(5) by (simp add: take_Cons')
  ultimately show ?thesis
    using sc p2 assms(5,6) by (simp add: recvq_getline_def has_flag_def and.assoc)
qed

definition full_block :: sendq where
  "full_block = \<lparr>firstused = SENDQSIZE - 2, firstfree = SENDQSIZE, sq_buf = (\<lambda>i. if i = SENDQSIZE - 1 then LF else CHR ''a'')\<rparr>"

lemma full_block_bytes: "sq_bytes full_block = [CHR ''a''] @ [LF]"
  by (simp add: sq_bytes_def sq_read_def sq_used_def full_block_def SENDQSIZE_def upt_conv_Cons)

theorem getline_overread_witness:
  "fst (recvq_getline (uplink_start\<lparr>cn_recvq := [full_block, sq_fill new_sendq ''bc'']\<rparr>) 1024) =
     take 1024 (([CHR ''a''] @ [LF]) @ sq_bytes (sq_fill new_sendq ''bc'')) \<and>
   \<not> has_flag (snd (recvq_getline (uplink_start\<lparr>cn_recvq := [full_block, sq_fill new_sendq ''bc'']\<rparr>) 1024)) CF_NONEWLINE"
  by (rule getline_overread [where ?q1.0 = full_block])
    (simp_all add: full_block_bytes sq_bytes_fill, simp add: sq_ok_def full_block_def sq_fill_def SENDQSIZE_def)

fun queue_ops :: "(cstr + nat) list \<Rightarrow> sendq list \<Rightarrow> cstr \<times> cstr \<times> sendq list" where
  "queue_ops [] qs = ([], [], qs)"
| "queue_ops (Inl d # ops) qs =
     (if d = [] then queue_ops ops qs
      else let (w, r, qs') = queue_ops ops (append_bytes qs d) in (d @ w, r, qs'))"
| "queue_ops (Inr n # ops) qs =
     (let (p, qs1) = get_loop n qs; (w, r, qs') = queue_ops ops qs1 in (w, p @ r, qs'))"

lemma queue_ops_exec: "queue_ops ops qs = blocks.exec ops qs"
proof (induction ops arbitrary: qs)
  case (Cons a ops)
  then show ?case by (cases a) (simp_all add: Let_def split_def)
qed simp

text \<open>
  The receive queue is a byte FIFO under any mix of arrivals and \<open>recvq_get\<close> calls, and its length is
  the number of bytes it holds.
\<close>

theorem recvq_fifo:
  assumes "queue_ops ops [] = (w, r, qs)"
  shows "w = r @ queue_bytes qs \<and> queue_ok qs \<and> recvq_length (uplink_start\<lparr>cn_recvq := qs\<rparr>) + length r = length w"
  using blocks.fifo [OF _ assms [unfolded queue_ops_exec]] by (auto simp: recvq_length_bytes)

theorem recvq_fifo_witness:
  "\<exists>w r qs. queue_ops [Inl ''ab'', Inr 1, Inl ''c''] [] = (w, r, qs) \<and> w = r @ queue_bytes qs"
  by (metis prod_cases3 recvq_fifo)

end
