(* ===== verification/Network.thy ===== *)
theory Network
  imports Match
begin

text \<open>
  The network as services see it: \<open>libathemecore/users.c\<close>, \<open>servers.c\<close>, the channel and membership
  half of \<open>channels.c\<close>, and the callers in \<open>services.c\<close> that create and remove clients.

  Objects live in stores indexed by references (the C pointers), so that aliasing is explicit: a
  membership (\<open>chanuser_t\<close>) is reached from its channel's list and from its user's list, a user from
  its server's list, from the two dictionaries and from its account's logins.  References are never
  reused, so a freed object is a reference outside the domain of its store.  Calls into protocol
  modules and hooks are recorded in a trace; no hook handler is modelled, and the value a hook may
  write back (\<open>hdata.u\<close>, \<open>hdata.cu\<close>) is the one it was given.
\<close>

section \<open>Data\<close>

type_synonym u64 = "64 word"
type_synonym uref = nat
type_synonym cref = nat
type_synonym sref = nat
type_synonym mref = nat
type_synonym aref = nat

text \<open>
  \<open>user_t\<close>, \<open>channel_t\<close>, \<open>chanuser_t\<close>, \<open>server_t\<close>; a \<open>NULL\<close> pointer is \<open>None\<close>.  The topic, the extended
  modes and the ban list of a channel belong to it alone and go with it; the ban list is in theory Chanmode.
\<close>

record nuser =
  un_nick :: cstr
  un_user :: cstr
  un_host :: cstr
  un_gecos :: cstr
  un_chost :: cstr
  un_vhost :: cstr
  un_uid :: "cstr option"
  un_ip :: "cstr option"
  un_channels :: "mref list"
  un_server :: sref
  un_myuser :: "aref option"
  un_flags :: u64
  un_ts :: int

record nchannel =
  nc_name :: cstr
  nc_modes :: u32
  nc_nummembers :: u32
  nc_numsvcmembers :: u32
  nc_ts :: int
  nc_members :: "mref list"

record nmember =
  nm_chan :: cref
  nm_user :: uref
  nm_modes :: u32

record nserver =
  ns_name :: cstr
  ns_desc :: cstr
  ns_sid :: "cstr option"
  ns_hops :: nat
  ns_users :: u32
  ns_invis :: u32
  ns_opers :: u32
  ns_flags :: u32
  ns_uplink :: "sref option"
  ns_children :: "sref list"
  ns_userlist :: "uref list"

text \<open>The part of an account (\<open>myuser_t\<close>) and of a registered nick that clients touch.\<close>

record login_account =
  la_logins :: "uref list"
  la_lastlogin :: int
  la_noburstlogin :: bool

record login_nick =
  ln_owner :: aref
  ln_lastseen :: int

datatype net_event =
    Kill_id cstr cstr
  | Wallops
  | Quit_sts uref cstr
  | Part_sts cref uref
  | Sethost_sts uref uref cstr
  | Introduce_nick uref
  | Jupe cstr cstr
  | Modestack_finalize cref
  | Hook_user_add uref
  | Hook_user_delete uref cstr
  | Hook_user_nickchange uref cstr
  | Hook_user_oper uref
  | Hook_user_deoper uref
  | Hook_user_sethost uref
  | Hook_server_add sref
  | Hook_server_delete sref
  | Hook_channel_add cref
  | Hook_channel_delete cref
  | Hook_channel_join mref
  | Hook_channel_part mref

record net =
  users :: "uref \<Rightarrow> nuser option"
  channels :: "cref \<Rightarrow> nchannel option"
  members :: "mref \<Rightarrow> nmember option"
  servers :: "sref \<Rightarrow> nserver option"
  userlist :: "cstr \<Rightarrow> uref option"
  uidlist :: "cstr \<Rightarrow> uref option"
  chanlist :: "cstr \<Rightarrow> cref option"
  servlist :: "cstr \<Rightarrow> sref option"
  sidlist :: "cstr \<Rightarrow> sref option"
  tldlist :: "cstr list"
  accounts :: "aref \<Rightarrow> login_account option"
  mynicks :: "cstr \<Rightarrow> login_nick option"
  mychan_chan :: "cstr \<Rightarrow> cref option option"
  fresh_ref :: nat
  cnt_user :: u32
  cnt_chan :: u32
  cnt_chanuser :: u32
  cnt_server :: u32
  cnt_tld :: u32
  trace :: "net_event list"

text \<open>
  What does not change: the case mapping of the ircd, its permanent channel mode, whether it uses UIDs,
  the services' own server, the mode tables of the protocol module, the clock; \<open>uid_get\<close> of the protocol
  module is a function of the state.
\<close>

record net_env =
  ne_mapping :: int
  ne_perm_mode :: u32
  ne_uses_uid :: bool
  ne_uses_p10 :: bool
  ne_me :: sref
  ne_me_name :: cstr
  ne_me_connected :: bool
  ne_now :: int
  ne_uid_get :: "net \<Rightarrow> cstr option"
  ne_prefix_modes :: "(char \<times> u32) list"
  ne_user_modes :: "(char \<times> u64) list"

definition UF_INVIS :: u64 where "UF_INVIS = 0x4"
definition UF_IRCOP :: u64 where "UF_IRCOP = 0x10"
definition UF_DOENFORCE :: u64 where "UF_DOENFORCE = 0x800"
definition UF_ENFORCER :: u64 where "UF_ENFORCER = 0x1000"
definition SF_HIDE :: u32 where "SF_HIDE = 0x1"
definition SF_JUPE_PENDING :: u32 where "SF_JUPE_PENDING = 0x8"
definition SF_MASKED :: u32 where "SF_MASKED = 0x10"

section \<open>Access to the stores\<close>

definition upd_user :: "uref \<Rightarrow> (nuser \<Rightarrow> nuser) \<Rightarrow> net \<Rightarrow> net" where
  "upd_user u f st = st\<lparr>users := (users st)(u := map_option f (users st u))\<rparr>"

definition upd_channel :: "cref \<Rightarrow> (nchannel \<Rightarrow> nchannel) \<Rightarrow> net \<Rightarrow> net" where
  "upd_channel c f st = st\<lparr>channels := (channels st)(c := map_option f (channels st c))\<rparr>"

definition upd_member :: "mref \<Rightarrow> (nmember \<Rightarrow> nmember) \<Rightarrow> net \<Rightarrow> net" where
  "upd_member m f st = st\<lparr>members := (members st)(m := map_option f (members st m))\<rparr>"

definition upd_server :: "sref \<Rightarrow> (nserver \<Rightarrow> nserver) \<Rightarrow> net \<Rightarrow> net" where
  "upd_server s f st = st\<lparr>servers := (servers st)(s := map_option f (servers st s))\<rparr>"

definition emit :: "net_event \<Rightarrow> net \<Rightarrow> net" where
  "emit e st = st\<lparr>trace := trace st @ [e]\<rparr>"

text \<open>
  \<open>mowgli_patricia_add\<close> keeps an existing entry, \<open>mowgli_patricia_delete\<close> removes one; the keys of
  \<open>userlist\<close>, \<open>chanlist\<close> and \<open>servlist\<close> go through \<open>irccasecanon\<close>, those of \<open>uidlist\<close> and \<open>sidlist\<close> do not.
\<close>

definition dict_add :: "('k \<Rightarrow> 'v option) \<Rightarrow> 'k \<Rightarrow> 'v \<Rightarrow> 'k \<Rightarrow> 'v option" where
  "dict_add d k v = (if d k = None then d(k := Some v) else d)"

definition canon :: "net_env \<Rightarrow> cstr \<Rightarrow> cstr" where
  "canon E = irccasecanon (ne_mapping E)"

definition channel_find :: "net_env \<Rightarrow> cstr \<Rightarrow> net \<Rightarrow> cref option" where
  "channel_find E name st = chanlist st (canon E name)"

definition is_internal_client :: "net_env \<Rightarrow> uref \<Rightarrow> net \<Rightarrow> bool" where
  "is_internal_client E u st = (case users st u of None \<Rightarrow> False | Some U \<Rightarrow> un_server U = ne_me E)"

definition is_ircop :: "nuser \<Rightarrow> bool" where
  "is_ircop U \<longleftrightarrow> un_flags U AND UF_IRCOP \<noteq> 0"

definition is_invis :: "nuser \<Rightarrow> bool" where
  "is_invis U \<longleftrightarrow> un_flags U AND UF_INVIS \<noteq> 0"

definition valid_global_channel_pfx :: "cstr \<Rightarrow> bool" where
  "valid_global_channel_pfx name \<longleftrightarrow> char_at name 0 \<in> {CHR ''#'', CHR ''+'', CHR ''!''}"

section \<open>Channels and memberships\<close>

definition channel_add :: "net_env \<Rightarrow> cstr \<Rightarrow> int \<Rightarrow> sref \<Rightarrow> net \<Rightarrow> cref option \<times> net" where
  "channel_add E name ts creator st =
     (if \<not> valid_global_channel_pfx name then (None, st)
      else case channel_find E name st of
             Some c \<Rightarrow> (Some c, st)
           | None \<Rightarrow>
               let c = fresh_ref st; k = canon E name;
                   C = \<lparr>nc_name = name, nc_modes = 0, nc_nummembers = 0, nc_numsvcmembers = 0, nc_ts = ts, nc_members = []\<rparr>;
                   st1 = st\<lparr>fresh_ref := Suc c, channels := (channels st)(c := Some C),
                            mychan_chan := (case mychan_chan st k of None \<Rightarrow> mychan_chan st
                                            | Some _ \<Rightarrow> (mychan_chan st)(k := Some (Some c))),
                            chanlist := dict_add (chanlist st) k c,
                            cnt_chan := cnt_chan st + 1\<rparr>
               in (Some c, if creator \<noteq> ne_me E then emit (Hook_channel_add c) st1 else st1))"

text \<open>Unlinking a membership from both its lists and freeing it.\<close>

definition unlink_member :: "mref \<Rightarrow> net \<Rightarrow> net" where
  "unlink_member m st =
     (case members st m of
        None \<Rightarrow> st
      | Some M \<Rightarrow>
          let st1 = upd_channel (nm_chan M) (\<lambda>C. C\<lparr>nc_members := remove1 m (nc_members C)\<rparr>) st;
              st2 = upd_user (nm_user M) (\<lambda>U. U\<lparr>un_channels := remove1 m (un_channels U)\<rparr>) st1
          in st2\<lparr>members := (members st2)(m := None), cnt_chanuser := cnt_chanuser st2 - 1\<rparr>)"

definition channel_delete :: "net_env \<Rightarrow> cref \<Rightarrow> net \<Rightarrow> net" where
  "channel_delete E c st =
     (case channels st c of
        None \<Rightarrow> st
      | Some C \<Rightarrow>
          let k = canon E (nc_name C);
              st1 = fold unlink_member (nc_members C) (emit (Modestack_finalize c) st);
              st2 = emit (Hook_channel_delete c)
                      (upd_channel c (\<lambda>C. C\<lparr>nc_nummembers := 0, nc_numsvcmembers := 0\<rparr>) st1)
          in st2\<lparr>chanlist := (chanlist st2)(k := None),
                 mychan_chan := (case mychan_chan st2 k of None \<Rightarrow> mychan_chan st2
                                 | Some _ \<Rightarrow> (mychan_chan st2)(k := Some None)),
                 channels := (channels st2)(c := None),
                 cnt_chan := cnt_chan st2 - 1\<rparr>)"

text \<open>\<open>chanuser_find\<close> searches the shorter of the two lists.\<close>

definition chanuser_find :: "cref \<Rightarrow> uref \<Rightarrow> net \<Rightarrow> mref option" where
  "chanuser_find c u st =
     (case (channels st c, users st u) of
        (Some C, Some U) \<Rightarrow>
          if length (un_channels U) < length (nc_members C)
          then find (\<lambda>m. case members st m of None \<Rightarrow> False | Some M \<Rightarrow> nm_chan M = c) (un_channels U)
          else find (\<lambda>m. case members st m of None \<Rightarrow> False | Some M \<Rightarrow> nm_user M = u) (nc_members C)
      | _ \<Rightarrow> None)"

text \<open>Status prefixes in front of a nick, as in a burst (\<open>@+nick\<close>).\<close>

fun strip_prefixes :: "(char \<times> u32) list \<Rightarrow> u32 \<Rightarrow> cstr \<Rightarrow> u32 \<times> cstr" where
  "strip_prefixes pm flags [] = (flags, [])"
| "strip_prefixes pm flags (ch # nick) =
     (case find (\<lambda>(p, v). ch = p) pm of
        Some (p, v) \<Rightarrow> strip_prefixes pm (flags OR v) nick
      | None \<Rightarrow> (flags, ch # nick))"

definition user_find_named :: "net_env \<Rightarrow> cstr \<Rightarrow> net \<Rightarrow> uref option" where
  "user_find_named E nick st = userlist st (canon E nick)"

definition user_find :: "net_env \<Rightarrow> cstr \<Rightarrow> net \<Rightarrow> uref option \<times> net" where
  "user_find E nick st =
     (case (if ne_uses_uid E then uidlist st nick else None) of
        Some u \<Rightarrow> (Some u, st)
      | None \<Rightarrow>
          (case userlist st (canon E nick) of
             Some u \<Rightarrow> (Some u, if ne_uses_p10 E then emit Wallops st else st)
           | None \<Rightarrow> (None, st)))"

definition link_member :: "net_env \<Rightarrow> cref \<Rightarrow> uref \<Rightarrow> u32 \<Rightarrow> net \<Rightarrow> net" where
  "link_member E c u flags st =
     (let m = fresh_ref st;
          st1 = st\<lparr>fresh_ref := Suc m, members := (members st)(m := Some \<lparr>nm_chan = c, nm_user = u, nm_modes = flags\<rparr>)\<rparr>;
          st2 = upd_channel c (\<lambda>C. C\<lparr>nc_nummembers := nc_nummembers C + 1,
                  nc_numsvcmembers := (if is_internal_client E u st then nc_numsvcmembers C + 1 else nc_numsvcmembers C),
                  nc_members := nc_members C @ [m]\<rparr>) st1;
          st3 = upd_user u (\<lambda>U. U\<lparr>un_channels := un_channels U @ [m]\<rparr>) st2
      in emit (Hook_channel_join m) (st3\<lparr>cnt_chanuser := cnt_chanuser st3 + 1\<rparr>))"

definition chanuser_add :: "net_env \<Rightarrow> cref \<Rightarrow> cstr \<Rightarrow> net \<Rightarrow> mref option \<times> net" where
  "chanuser_add E c nick st =
     (case channels st c of
        None \<Rightarrow> (None, st)
      | Some C \<Rightarrow>
          if \<not> valid_global_channel_pfx (nc_name C) then (None, st)
          else let (flags, nick') = strip_prefixes (ne_prefix_modes E) 0 nick
               in case user_find E nick' st of
                    (None, st') \<Rightarrow> (None, st')
                  | (Some u, st') \<Rightarrow>
                      (case chanuser_find c u st' of
                         Some m \<Rightarrow> (Some m, upd_member m (\<lambda>M. M\<lparr>nm_modes := nm_modes M OR flags\<rparr>) st')
                       | None \<Rightarrow> (Some (fresh_ref st'), link_member E c u flags st')))"

definition chanuser_delete :: "net_env \<Rightarrow> cref \<Rightarrow> uref \<Rightarrow> net \<Rightarrow> net" where
  "chanuser_delete E c u st =
     (case chanuser_find c u st of
        None \<Rightarrow> st
      | Some m \<Rightarrow>
          let st1 = unlink_member m (emit (Hook_channel_part m) st);
              st2 = upd_channel c (\<lambda>C. C\<lparr>nc_nummembers := nc_nummembers C - 1,
                      nc_numsvcmembers := (if is_internal_client E u st then nc_numsvcmembers C - 1 else nc_numsvcmembers C)\<rparr>) st1
          in case channels st2 c of
               Some C \<Rightarrow> if nc_nummembers C = 0 \<and> nc_modes C AND ne_perm_mode E = 0 then channel_delete E c st2 else st2
             | None \<Rightarrow> st2)"

section \<open>Users\<close>

text \<open>The tail of \<open>user_add\<close>: a new client whose nick is free.\<close>

record user_data =
  ud_nick :: cstr
  ud_user :: cstr
  ud_host :: cstr
  ud_vhost :: "cstr option"
  ud_ip :: "cstr option"
  ud_uid :: "cstr option"
  ud_gecos :: cstr

definition real_ip :: "cstr option \<Rightarrow> cstr option" where
  "real_ip ip = (case ip of None \<Rightarrow> None
     | Some s \<Rightarrow> if s \<in> {''0'', ''0.0.0.0'', ''255.255.255.255''} then None else Some s)"

definition user_new :: "net_env \<Rightarrow> user_data \<Rightarrow> sref \<Rightarrow> int \<Rightarrow> net \<Rightarrow> uref \<times> net" where
  "user_new E d s ts st =
     (let u = fresh_ref st;
          vh = (case ud_vhost d of None \<Rightarrow> ud_host d | Some v \<Rightarrow> v);
          U = \<lparr>un_nick = ud_nick d, un_user = ud_user d, un_host = ud_host d, un_gecos = ud_gecos d, un_chost = vh,
               un_vhost = vh, un_uid = ud_uid d, un_ip = real_ip (ud_ip d), un_channels = [], un_server = s,
               un_myuser = None, un_flags = 0, un_ts = (if ts \<noteq> 0 then ts else ne_now E)\<rparr>;
          st1 = st\<lparr>fresh_ref := Suc u, users := (users st)(u := Some U),
                   uidlist := (case ud_uid d of None \<Rightarrow> uidlist st | Some i \<Rightarrow> dict_add (uidlist st) i u)\<rparr>;
          st2 = upd_server s (\<lambda>S. S\<lparr>ns_users := ns_users S + 1, ns_userlist := ns_userlist S @ [u]\<rparr>) st1
      in (u, emit (Hook_user_add u)
               (st2\<lparr>userlist := dict_add (userlist st2) (canon E (ud_nick d)) u, cnt_user := cnt_user st2 + 1\<rparr>)))"

text \<open>
  \<open>introduce_enforcer\<close> of \<open>services.c\<close>: a client of our own server, so that the only answer of
  \<open>user_add\<close> to a nick in use is \<open>NULL\<close>.
\<close>

definition introduce_enforcer :: "net_env \<Rightarrow> cstr \<Rightarrow> net \<Rightarrow> net" where
  "introduce_enforcer E nick st =
     (case user_find_named E nick st of
        Some _ \<Rightarrow> st
      | None \<Rightarrow>
          let (u, st1) = user_new E \<lparr>ud_nick = nick, ud_user = ''enforcer'', ud_host = ne_me_name E, ud_vhost = None,
                ud_ip = None, ud_uid = (if ne_uses_uid E then ne_uid_get E st else None), ud_gecos = ''Held for nickname owner''\<rparr>
                (ne_me E) 1 st
          in emit (Introduce_nick u) (upd_user u (\<lambda>U. U\<lparr>un_flags := un_flags U OR UF_INVIS OR UF_ENFORCER\<rparr>) st1))"

definition NICKLEN_copy :: "cstr \<Rightarrow> cstr" where
  "NICKLEN_copy nick = strlcpy nick NICKLEN"

text \<open>Logging the client out of its account.\<close>

definition drop_login :: "net_env \<Rightarrow> uref \<Rightarrow> net \<Rightarrow> net" where
  "drop_login E u st =
     (case users st u of
        None \<Rightarrow> st
      | Some U \<Rightarrow>
          (case un_myuser U of
             None \<Rightarrow> st
           | Some a \<Rightarrow>
               let st1 = st\<lparr>accounts := (accounts st)(a := map_option
                           (\<lambda>A. A\<lparr>la_logins := remove1 u (la_logins A), la_lastlogin := ne_now E\<rparr>) (accounts st a))\<rparr>;
                   k = canon E (un_nick U);
                   st2 = (case mynicks st1 k of
                            Some n \<Rightarrow> if ln_owner n = a then st1\<lparr>mynicks := (mynicks st1)(k := Some (n\<lparr>ln_lastseen := ne_now E\<rparr>))\<rparr> else st1
                          | None \<Rightarrow> st1)
               in upd_user u (\<lambda>U. U\<lparr>un_myuser := None\<rparr>) st2))"

definition user_delete :: "net_env \<Rightarrow> uref \<Rightarrow> cstr \<Rightarrow> net \<Rightarrow> net" where
  "user_delete E u comment st =
     (case users st u of
        None \<Rightarrow> st
      | Some U0 \<Rightarrow>
          let enforce = (un_flags U0 AND UF_DOENFORCE \<noteq> 0);
              U = U0\<lparr>un_flags := un_flags U0 AND NOT UF_DOENFORCE\<rparr>;
              st0 = emit (Hook_user_delete u comment) (upd_user u (\<lambda>_. U) st);
              st1 = upd_server (un_server U) (\<lambda>S. S\<lparr>ns_users := ns_users S - 1,
                      ns_opers := (if is_ircop U then ns_opers S - 1 else ns_opers S),
                      ns_invis := (if is_invis U then ns_invis S - 1 else ns_invis S)\<rparr>) st0;
              st2 = fold (\<lambda>m st. case members st m of None \<Rightarrow> st | Some M \<Rightarrow> chanuser_delete E (nm_chan M) u st)
                      (un_channels U) st1;
              st3 = st2\<lparr>userlist := (userlist st2)(canon E (un_nick U) := None),
                        uidlist := (case un_uid U of None \<Rightarrow> uidlist st2 | Some i \<Rightarrow> (uidlist st2)(i := None))\<rparr>;
              st4 = upd_server (un_server U) (\<lambda>S. S\<lparr>ns_userlist := remove1 u (ns_userlist S)\<rparr>) st3;
              st5 = drop_login E u st4;
              st6 = st5\<lparr>users := (users st5)(u := None), cnt_user := cnt_user st5 - 1\<rparr>
          in if enforce then introduce_enforcer E (NICKLEN_copy (un_nick U)) st6 else st6)"

text \<open>
  \<open>user_add\<close>.  The arms of the TS comparison all end in \<open>return NULL\<close>, so it is not written out.
\<close>

definition user_add :: "net_env \<Rightarrow> user_data \<Rightarrow> sref \<Rightarrow> int \<Rightarrow> net \<Rightarrow> uref option \<times> net" where
  "user_add E d s ts st =
     (case user_find_named E (ud_nick d) st of
        None \<Rightarrow> (let (u, st1) = user_new E d s ts st in (Some u, st1))
      | Some u2 \<Rightarrow>
          if s = ne_me E then (None, st)
          else case users st u2 of
            None \<Rightarrow> (None, st)
          | Some U2 \<Rightarrow>
            if un_server U2 = ne_me E
            then (case ud_uid d of
                    Some i \<Rightarrow> (None, emit (Kill_id i ''Nick collision with services (new)'') st)
                  | None \<Rightarrow> (None, st))
            else case (ud_uid d, un_uid U2) of
                   (Some i, Some i2) \<Rightarrow>
                     (None, user_delete E u2 ''Ghost detected via nick collision (old)''
                        (emit (Kill_id i2 ''Ghost detected via nick collision (old)'')
                          (emit (Kill_id i ''Ghost detected via nick collision (new)'') (emit Wallops st))))
                 | _ \<Rightarrow>
                     (None, user_delete E u2 ''Ghost detected via nick collision''
                        (emit (Kill_id (ud_nick d) ''Ghost detected via nick collision'') (emit Wallops st))))"

definition user_changeuid :: "uref \<Rightarrow> cstr option \<Rightarrow> net \<Rightarrow> net" where
  "user_changeuid u uid st =
     (case users st u of
        None \<Rightarrow> st
      | Some U \<Rightarrow>
          let st1 = st\<lparr>uidlist := (case un_uid U of None \<Rightarrow> uidlist st | Some i \<Rightarrow> (uidlist st)(i := None))\<rparr>;
              st2 = upd_user u (\<lambda>U. U\<lparr>un_uid := uid\<rparr>) st1
          in st2\<lparr>uidlist := (case uid of None \<Rightarrow> uidlist st2 | Some i \<Rightarrow> dict_add (uidlist st2) i u)\<rparr>)"

text \<open>\<open>user_changenick\<close>: the result says that the client was killed.\<close>

definition user_changenick :: "net_env \<Rightarrow> uref \<Rightarrow> cstr \<Rightarrow> int \<Rightarrow> net \<Rightarrow> bool \<times> net" where
  "user_changenick E u nick ts st =
     (case users st u of
        None \<Rightarrow> (False, st)
      | Some U0 \<Rightarrow>
          let oldnick = NICKLEN_copy (un_nick U0);
              u2 = user_find_named E nick st;
              enforce = (un_flags U0 AND UF_DOENFORCE \<noteq> 0 \<and> u2 \<noteq> Some u);
              U = (if enforce then U0\<lparr>un_flags := un_flags U0 AND NOT UF_DOENFORCE\<rparr> else U0);
              st0 = upd_user u (\<lambda>_. U) st
          in case (if u2 = Some u then None else u2) of
               Some v \<Rightarrow>
                 (case users st0 v of
                    None \<Rightarrow> (False, st0)
                  | Some V \<Rightarrow>
                      if un_server U = ne_me E then (False, st0)
                      else if un_server V = ne_me E
                      then (True, user_delete E u ''Nick change collision with services''
                              (emit (Kill_id (case un_uid U of Some i \<Rightarrow> i | None \<Rightarrow> un_nick U)
                                       ''Nick change collision with services'') st0))
                      else case (un_uid U, un_uid V) of
                             (Some i, Some j) \<Rightarrow>
                               (True, user_delete E v ''Ghost detected via nick change collision (old)''
                                  (user_delete E u ''Ghost detected via nick change collision (new)''
                                    (emit (Kill_id j ''Ghost detected via nick change collision (old)'')
                                      (emit (Kill_id i ''Ghost detected via nick change collision (new)'')
                                        (emit Wallops st0)))))
                           | _ \<Rightarrow>
                               (True, user_delete E v ''Ghost detected via nick change collision''
                                  (user_delete E u ''Ghost detected via nick change collision''
                                    (emit (Kill_id nick ''Ghost detected via nick change collision'')
                                      (emit (Kill_id (un_nick U) ''Ghost detected via nick change collision'')
                                        (emit Wallops st0))))))
             | None \<Rightarrow>
                 let k = canon E (un_nick U);
                     st1 = (case (un_myuser U, mynicks st0 k) of
                              (Some a, Some n) \<Rightarrow>
                                if ln_owner n = a then st0\<lparr>mynicks := (mynicks st0)(k := Some (n\<lparr>ln_lastseen := ne_now E\<rparr>))\<rparr> else st0
                            | _ \<Rightarrow> st0);
                     st2 = upd_user u (\<lambda>U. U\<lparr>un_nick := nick, un_ts := ts\<rparr>) (st1\<lparr>userlist := (userlist st1)(k := None)\<rparr>);
                     st3 = st2\<lparr>userlist := dict_add (userlist st2) (canon E nick) u\<rparr>;
                     st4 = (if enforce then introduce_enforcer E oldnick st3 else st3)
                 in (False, emit (Hook_user_nickchange u oldnick) st4))"

text \<open>\<open>user_mode\<close>: the flags, then the counters of the server and the hooks.\<close>

fun mode_flags :: "(char \<times> u64) list \<Rightarrow> bool \<Rightarrow> cstr \<Rightarrow> u64 \<Rightarrow> u64" where
  "mode_flags tab add [] f = f"
| "mode_flags tab add (m # ms) f =
     (if m = CHR ''+'' then mode_flags tab True ms f
      else if m = CHR ''-'' then mode_flags tab False ms f
      else mode_flags tab add ms
             (fold (\<lambda>(c, v) f. if m = c then (if add then f OR v else f AND NOT v) else f) tab f))"

definition user_mode :: "net_env \<Rightarrow> uref \<Rightarrow> cstr \<Rightarrow> net \<Rightarrow> net" where
  "user_mode E u modes st =
     (case users st u of
        None \<Rightarrow> st
      | Some U \<Rightarrow>
          let U' = U\<lparr>un_flags := mode_flags (ne_user_modes E) True modes (un_flags U)\<rparr>;
              st1 = upd_user u (\<lambda>_. U') st;
              st2 = (if \<not> is_invis U \<and> is_invis U' then upd_server (un_server U) (\<lambda>S. S\<lparr>ns_invis := ns_invis S + 1\<rparr>) st1
                     else if is_invis U \<and> \<not> is_invis U' then upd_server (un_server U) (\<lambda>S. S\<lparr>ns_invis := ns_invis S - 1\<rparr>) st1
                     else st1)
          in if \<not> is_ircop U \<and> is_ircop U'
             then emit (Hook_user_oper u) (upd_server (un_server U) (\<lambda>S. S\<lparr>ns_opers := ns_opers S + 1\<rparr>) st2)
             else if is_ircop U \<and> \<not> is_ircop U'
             then emit (Hook_user_deoper u) (upd_server (un_server U) (\<lambda>S. S\<lparr>ns_opers := ns_opers S - 1\<rparr>) st2)
             else st2)"

definition user_sethost :: "uref \<Rightarrow> uref \<Rightarrow> cstr \<Rightarrow> net \<Rightarrow> net" where
  "user_sethost source target host st =
     (if char_at host 0 = NUL then st
      else emit (Hook_user_sethost target) (emit (Sethost_sts source target host)
             (upd_user target (\<lambda>U. U\<lparr>un_vhost := host\<rparr>) st)))"

definition user_get_umodestr :: "net_env \<Rightarrow> nuser \<Rightarrow> cstr" where
  "user_get_umodestr E U =
     CHR ''+'' # map fst (filter (\<lambda>(c, v). un_flags U AND v \<noteq> 0) (ne_user_modes E))"

definition kill_user :: "net_env \<Rightarrow> cstr option \<Rightarrow> uref \<Rightarrow> cstr \<Rightarrow> net \<Rightarrow> net" where
  "kill_user E source victim reason st =
     (case users st victim of
        None \<Rightarrow> st
      | Some V \<Rightarrow>
          let buf = take (BUFSIZE - 1) reason;
              qreason = take 511 (''Killed ('' @ (case source of Some n \<Rightarrow> n | None \<Rightarrow> ne_me_name E) @ '' ('' @ buf @ ''))'')
          in if un_flags V AND UF_ENFORCER \<noteq> 0
             then user_delete E victim qreason (emit (Quit_sts victim buf) st)
             else if un_server V = ne_me E then st
             else user_delete E victim qreason
                    (emit (Kill_id (case un_uid V of Some i \<Rightarrow> i | None \<Rightarrow> un_nick V) buf) st))"

definition part :: "net_env \<Rightarrow> cstr \<Rightarrow> cstr \<Rightarrow> net \<Rightarrow> net" where
  "part E chan nick st =
     (case (channel_find E chan st, user_find_named E nick st) of
        (Some c, Some u) \<Rightarrow>
          if chanuser_find c u st = None then st
          else chanuser_delete E c u (if ne_me_connected E then emit (Part_sts c u) st else st)
      | _ \<Rightarrow> st)"

section \<open>Servers\<close>

definition tld_find :: "cstr \<Rightarrow> net \<Rightarrow> cstr option" where
  "tld_find name st = find (strcaseeq name) (tldlist st)"

definition tld_add :: "cstr \<Rightarrow> net \<Rightarrow> net" where
  "tld_add name st = st\<lparr>tldlist := tldlist st @ [name], cnt_tld := cnt_tld st + 1\<rparr>"

definition tld_delete :: "cstr \<Rightarrow> net \<Rightarrow> net" where
  "tld_delete name st =
     (case tld_find name st of
        None \<Rightarrow> st
      | Some t \<Rightarrow> st\<lparr>tldlist := remove1 t (tldlist st), cnt_tld := cnt_tld st - 1\<rparr>)"

text \<open>A description that starts with \<open>(H)\<close> hides the server.\<close>

definition split_hidden :: "cstr \<Rightarrow> u32 \<times> cstr" where
  "split_hidden desc =
     (if take 3 desc = ''(H)''
      then (SF_HIDE, if char_at desc 3 = CHR '' '' then drop 4 desc else drop 3 desc)
      else (0, desc))"

definition server_add :: "net_env \<Rightarrow> cstr option \<Rightarrow> nat \<Rightarrow> sref option \<Rightarrow> cstr option \<Rightarrow> cstr \<Rightarrow> net \<Rightarrow> sref option \<times> net" where
  "server_add E name hops uplink sid desc st =
     (if (name = None \<and> sid = None) \<or> (name = None \<and> uplink = None) then (None, st)
      else let s = fresh_ref st;
               (hide, desc') = split_hidden desc;
               nm = (case name of Some n \<Rightarrow> n
                     | None \<Rightarrow> (case uplink of None \<Rightarrow> [] | Some p \<Rightarrow> (case servers st p of None \<Rightarrow> [] | Some P \<Rightarrow> ns_name P)));
               S = \<lparr>ns_name = nm, ns_desc = desc', ns_sid = sid, ns_hops = hops, ns_users = 0, ns_invis = 0, ns_opers = 0,
                    ns_flags = (if name = None then hide OR SF_MASKED else hide), ns_uplink = uplink, ns_children = [], ns_userlist = []\<rparr>;
               st1 = st\<lparr>fresh_ref := Suc s, servers := (servers st)(s := Some S),
                        sidlist := (case sid of None \<Rightarrow> sidlist st | Some i \<Rightarrow> dict_add (sidlist st) i s),
                        servlist := (case name of None \<Rightarrow> servlist st | Some n \<Rightarrow> dict_add (servlist st) (canon E n) s)\<rparr>;
               st2 = (case uplink of None \<Rightarrow> st1 | Some p \<Rightarrow> upd_server p (\<lambda>P. P\<lparr>ns_children := ns_children P @ [s]\<rparr>) st1);
               st3 = (case strrchr nm (CHR ''.'') of
                        None \<Rightarrow> st2
                      | Some i \<Rightarrow> if tld_find (drop i nm) st2 = None then tld_add (drop i nm) st2 else st2)
           in (Some s, emit (Hook_server_add s) (st3\<lparr>cnt_server := cnt_server st3 + 1\<rparr>)))"

definition server_find :: "net_env \<Rightarrow> cstr \<Rightarrow> net \<Rightarrow> sref option" where
  "server_find E name st =
     (case sidlist st name of Some s \<Rightarrow> Some s | None \<Rightarrow> servlist st (canon E name))"

text \<open>
  \<open>server_delete_serv\<close> calls itself on the children; the first argument bounds the depth, \<open>None\<close> is a
  recursion deeper than that.
\<close>

fun fold_opt :: "('a \<Rightarrow> 's \<Rightarrow> 's option) \<Rightarrow> 'a list \<Rightarrow> 's \<Rightarrow> 's option" where
  "fold_opt f [] s = Some s"
| "fold_opt f (x # xs) s = Option.bind (f x s) (fold_opt f xs)"

lemma fold_opt_cong [fundef_cong]:
  "xs = ys \<Longrightarrow> (\<And>x s. x \<in> set ys \<Longrightarrow> f x s = g x s) \<Longrightarrow> s = t \<Longrightarrow> fold_opt f xs s = fold_opt g ys t"
proof (induction xs arbitrary: ys s t)
  case (Cons x xs)
  then show ?case by (cases "g x t") auto
qed simp

definition split_user :: "net_env \<Rightarrow> uref \<Rightarrow> net \<Rightarrow> net" where
  "split_user E u st =
     (let st1 = (case users st u of
                   None \<Rightarrow> st
                 | Some U \<Rightarrow> (case un_myuser U of
                     None \<Rightarrow> st
                   | Some a \<Rightarrow> st\<lparr>accounts := (accounts st)(a := map_option (\<lambda>A. A\<lparr>la_noburstlogin := False\<rparr>) (accounts st a))\<rparr>))
      in user_delete E u ''*.net *.split'' st1)"

definition server_remove :: "net_env \<Rightarrow> sref \<Rightarrow> nserver \<Rightarrow> net \<Rightarrow> net" where
  "server_remove E s S st =
     (let st1 = (if ns_flags S AND SF_MASKED = 0 then st\<lparr>servlist := (servlist st)(canon E (ns_name S) := None)\<rparr> else st);
          st2 = (case ns_sid S of None \<Rightarrow> st1 | Some i \<Rightarrow> st1\<lparr>sidlist := (sidlist st1)(i := None)\<rparr>);
          st3 = (case ns_uplink S of None \<Rightarrow> st2 | Some p \<Rightarrow> upd_server p (\<lambda>P. P\<lparr>ns_children := remove1 s (ns_children P)\<rparr>) st2);
          st4 = (if ns_flags S AND SF_JUPE_PENDING \<noteq> 0 then emit (Jupe (ns_name S) ''Juped'') st3 else st3)
      in st4\<lparr>servers := (servers st4)(s := None), cnt_server := cnt_server st4 - 1\<rparr>)"

fun server_delete_serv :: "nat \<Rightarrow> net_env \<Rightarrow> sref \<Rightarrow> net \<Rightarrow> net option" where
  "server_delete_serv 0 E s st = None"
| "server_delete_serv (Suc n) E s st =
     (if s = ne_me E then Some st
      else case servers st s of
        None \<Rightarrow> Some st
      | Some S \<Rightarrow>
          let st1 = fold (split_user E) (ns_userlist S) (emit (Hook_server_delete s) st)
          in map_option (server_remove E s S) (fold_opt (server_delete_serv n E) (ns_children S) st1))"

definition server_delete :: "nat \<Rightarrow> net_env \<Rightarrow> cstr \<Rightarrow> net \<Rightarrow> net option" where
  "server_delete n E name st =
     (case server_find E name st of None \<Rightarrow> Some st | Some s \<Rightarrow> server_delete_serv n E s st)"

end
