(* ===== verification/NetworkInv.thy ===== *)
theory NetworkInv
  imports Network
begin

text \<open>
  Invariants of the network state of theory Network: every pointer that the lists and
  dictionaries hold leads to a live object that points back, every counter is the size of what it
  counts, and every operation keeps it so.
\<close>

section \<open>Reading updated stores\<close>

lemma upd_user_simps [simp]:
  "users (upd_user u f st) = (users st)(u := map_option f (users st u))"
  "channels (upd_user u f st) = channels st" "members (upd_user u f st) = members st"
  "servers (upd_user u f st) = servers st" "userlist (upd_user u f st) = userlist st"
  "uidlist (upd_user u f st) = uidlist st" "chanlist (upd_user u f st) = chanlist st"
  "accounts (upd_user u f st) = accounts st" "mynicks (upd_user u f st) = mynicks st"
  "mychan_chan (upd_user u f st) = mychan_chan st" "fresh_ref (upd_user u f st) = fresh_ref st"
  "cnt_user (upd_user u f st) = cnt_user st" "cnt_chan (upd_user u f st) = cnt_chan st"
  "cnt_chanuser (upd_user u f st) = cnt_chanuser st" "cnt_server (upd_user u f st) = cnt_server st"
  "servlist (upd_user u f st) = servlist st" "sidlist (upd_user u f st) = sidlist st"
  by (simp_all add: upd_user_def)

lemma upd_channel_simps [simp]:
  "channels (upd_channel c g st) = (channels st)(c := map_option g (channels st c))"
  "users (upd_channel c g st) = users st" "members (upd_channel c g st) = members st"
  "servers (upd_channel c g st) = servers st" "userlist (upd_channel c g st) = userlist st"
  "uidlist (upd_channel c g st) = uidlist st" "chanlist (upd_channel c g st) = chanlist st"
  "accounts (upd_channel c g st) = accounts st" "mynicks (upd_channel c g st) = mynicks st"
  "mychan_chan (upd_channel c g st) = mychan_chan st" "fresh_ref (upd_channel c g st) = fresh_ref st"
  "cnt_user (upd_channel c g st) = cnt_user st" "cnt_chan (upd_channel c g st) = cnt_chan st"
  "cnt_chanuser (upd_channel c g st) = cnt_chanuser st" "cnt_server (upd_channel c g st) = cnt_server st"
  "servlist (upd_channel c g st) = servlist st" "sidlist (upd_channel c g st) = sidlist st"
  by (simp_all add: upd_channel_def)

lemma upd_member_simps [simp]:
  "members (upd_member m h st) = (members st)(m := map_option h (members st m))"
  "users (upd_member m h st) = users st" "channels (upd_member m h st) = channels st"
  "servers (upd_member m h st) = servers st" "userlist (upd_member m h st) = userlist st"
  "uidlist (upd_member m h st) = uidlist st" "chanlist (upd_member m h st) = chanlist st"
  "accounts (upd_member m h st) = accounts st" "mynicks (upd_member m h st) = mynicks st"
  "mychan_chan (upd_member m h st) = mychan_chan st" "fresh_ref (upd_member m h st) = fresh_ref st"
  "cnt_user (upd_member m h st) = cnt_user st" "cnt_chan (upd_member m h st) = cnt_chan st"
  "cnt_chanuser (upd_member m h st) = cnt_chanuser st" "cnt_server (upd_member m h st) = cnt_server st"
  "servlist (upd_member m h st) = servlist st" "sidlist (upd_member m h st) = sidlist st"
  by (simp_all add: upd_member_def)

lemma upd_server_simps [simp]:
  "servers (upd_server s j st) = (servers st)(s := map_option j (servers st s))"
  "users (upd_server s j st) = users st" "channels (upd_server s j st) = channels st"
  "members (upd_server s j st) = members st" "userlist (upd_server s j st) = userlist st"
  "uidlist (upd_server s j st) = uidlist st" "chanlist (upd_server s j st) = chanlist st"
  "accounts (upd_server s j st) = accounts st" "mynicks (upd_server s j st) = mynicks st"
  "mychan_chan (upd_server s j st) = mychan_chan st" "fresh_ref (upd_server s j st) = fresh_ref st"
  "cnt_user (upd_server s j st) = cnt_user st" "cnt_chan (upd_server s j st) = cnt_chan st"
  "cnt_chanuser (upd_server s j st) = cnt_chanuser st" "cnt_server (upd_server s j st) = cnt_server st"
  "servlist (upd_server s j st) = servlist st" "sidlist (upd_server s j st) = sidlist st"
  by (simp_all add: upd_server_def)

lemma emit_simps [simp]:
  "users (emit e st) = users st" "channels (emit e st) = channels st" "members (emit e st) = members st"
  "servers (emit e st) = servers st" "userlist (emit e st) = userlist st" "uidlist (emit e st) = uidlist st"
  "chanlist (emit e st) = chanlist st" "accounts (emit e st) = accounts st" "mynicks (emit e st) = mynicks st"
  "mychan_chan (emit e st) = mychan_chan st" "fresh_ref (emit e st) = fresh_ref st"
  "cnt_user (emit e st) = cnt_user st" "cnt_chan (emit e st) = cnt_chan st"
  "cnt_chanuser (emit e st) = cnt_chanuser st" "cnt_server (emit e st) = cnt_server st"
  "servlist (emit e st) = servlist st" "sidlist (emit e st) = sidlist st"
  by (simp_all add: emit_def)

section \<open>The invariant\<close>

text \<open>The list \<open>ms\<close> enumerates the live objects with property \<open>P\<close>, each once.\<close>

definition lists :: "nat list \<Rightarrow> (nat \<Rightarrow> 'a option) \<Rightarrow> ('a \<Rightarrow> bool) \<Rightarrow> bool" where
  "lists ms store P \<longleftrightarrow> distinct ms \<and> set ms = {m. \<exists>M. store m = Some M \<and> P M}"

definition memb_ok :: "net \<Rightarrow> bool" where
  "memb_ok st \<longleftrightarrow>
     (\<forall>c C. channels st c = Some C \<longrightarrow> lists (nc_members C) (members st) (\<lambda>M. nm_chan M = c)) \<and>
     (\<forall>u U. users st u = Some U \<longrightarrow> lists (un_channels U) (members st) (\<lambda>M. nm_user M = u)) \<and>
     (\<forall>m M. members st m = Some M \<longrightarrow> channels st (nm_chan M) \<noteq> None \<and> users st (nm_user M) \<noteq> None) \<and>
     (\<forall>m n M N. members st m = Some M \<and> members st n = Some N \<and> nm_chan M = nm_chan N \<and> nm_user M = nm_user N \<longrightarrow> m = n)"

definition svc_member :: "net_env \<Rightarrow> net \<Rightarrow> mref \<Rightarrow> bool" where
  "svc_member E st m = (case members st m of None \<Rightarrow> False | Some M \<Rightarrow> is_internal_client E (nm_user M) st)"

definition count_ok :: "net_env \<Rightarrow> net \<Rightarrow> nchannel \<Rightarrow> bool" where
  "count_ok E st C \<longleftrightarrow> nc_nummembers C = of_nat (length (nc_members C)) \<and>
     nc_numsvcmembers C = of_nat (length (filter (svc_member E st) (nc_members C)))"

text \<open>The counters of the channels outside \<open>X\<close> are right.\<close>

definition counts_but :: "net_env \<Rightarrow> cref set \<Rightarrow> net \<Rightarrow> bool" where
  "counts_but E X st \<longleftrightarrow> (\<forall>c C. channels st c = Some C \<and> c \<notin> X \<longrightarrow> count_ok E st C)"

definition names_ok :: "net_env \<Rightarrow> net \<Rightarrow> bool" where
  "names_ok E st \<longleftrightarrow>
     (\<forall>k u. userlist st k = Some u \<longleftrightarrow> (\<exists>U. users st u = Some U \<and> canon E (un_nick U) = k)) \<and>
     (\<forall>k c. chanlist st k = Some c \<longleftrightarrow> (\<exists>C. channels st c = Some C \<and> canon E (nc_name C) = k)) \<and>
     (\<forall>k u. uidlist st k = Some u \<longrightarrow> (\<exists>U. users st u = Some U \<and> un_uid U = Some k)) \<and>
     (\<forall>k c. mychan_chan st k = Some (Some c) \<longrightarrow> chanlist st k = Some c)"

definition servers_but :: "sref set \<Rightarrow> net \<Rightarrow> bool" where
  "servers_but T st \<longleftrightarrow>
     (\<forall>u U. users st u = Some U \<longrightarrow> servers st (un_server U) \<noteq> None) \<and>
     (\<forall>s S. servers st s = Some S \<longrightarrow> lists (ns_userlist S) (users st) (\<lambda>U. un_server U = s) \<and>
        (s \<notin> T \<longrightarrow> ns_users S = of_nat (length (ns_userlist S))))"

definition logins_ok :: "net \<Rightarrow> bool" where
  "logins_ok st \<longleftrightarrow>
     (\<forall>a A. accounts st a = Some A \<longrightarrow> lists (la_logins A) (users st) (\<lambda>U. un_myuser U = Some a)) \<and>
     (\<forall>u U a. users st u = Some U \<and> un_myuser U = Some a \<longrightarrow> accounts st a \<noteq> None)"

definition fresh_ok :: "net \<Rightarrow> bool" where
  "fresh_ok st \<longleftrightarrow> (\<forall>r. users st r \<noteq> None \<or> channels st r \<noteq> None \<or> members st r \<noteq> None \<or> servers st r \<noteq> None
     \<longrightarrow> r < fresh_ref st)"

definition totals_ok :: "net \<Rightarrow> bool" where
  "totals_ok st \<longleftrightarrow> cnt_user st = of_nat (card (dom (users st))) \<and> cnt_chan st = of_nat (card (dom (channels st))) \<and>
     cnt_chanuser st = of_nat (card (dom (members st)))"

definition net_but :: "sref set \<Rightarrow> net_env \<Rightarrow> cref set \<Rightarrow> net \<Rightarrow> bool" where
  "net_but T E X st \<longleftrightarrow> memb_ok st \<and> counts_but E X st \<and> names_ok E st \<and> servers_but T st \<and> logins_ok st \<and> fresh_ok st \<and> totals_ok st"

definition net_ok :: "net_env \<Rightarrow> net \<Rightarrow> bool" where
  "net_ok E st \<longleftrightarrow> net_but {} E {} st"

lemma lists_remove1: "lists ms store P \<Longrightarrow> m \<in> set ms \<Longrightarrow> lists (remove1 m ms) (store(m := None)) P"
  by (auto simp: lists_def)

lemma lists_del_other: "lists ms store P \<Longrightarrow> m \<notin> set ms \<Longrightarrow> lists ms (store(m := None)) P"
  unfolding lists_def by (auto split: if_splits)

lemma lists_append: "lists ms store P \<Longrightarrow> store m = None \<Longrightarrow> P M \<Longrightarrow> lists (ms @ [m]) (store(m := Some M)) P"
  unfolding lists_def by auto

lemma lists_add_other: "lists ms store P \<Longrightarrow> store m = None \<Longrightarrow> \<not> P M \<Longrightarrow> lists ms (store(m := Some M)) P"
  unfolding lists_def by auto

lemma lists_map: "lists ms store P \<Longrightarrow> (\<And>M. store m = Some M \<Longrightarrow> P (f M) = P M) \<Longrightarrow> lists ms (store(m := map_option f (store m))) P"
  unfolding lists_def by (cases "store m") auto

lemma lists_mem: "lists ms store P \<Longrightarrow> m \<in> set ms \<longleftrightarrow> (\<exists>M. store m = Some M \<and> P M)"
  by (simp add: lists_def)

lemma of_nat_length_remove1 [simp]:
  "m \<in> set ms \<Longrightarrow> (of_nat (length (remove1 m ms)) :: u32) = of_nat (length ms) - 1"
proof -
  assume "m \<in> set ms"
  then have "length ms = Suc (length (remove1 m ms))" by (cases ms) (auto simp: length_remove1 dest: length_pos_if_in_set)
  then show ?thesis by simp
qed

lemma card_dom_remove [simp]:
  "finite (dom f) \<Longrightarrow> f x = Some y \<Longrightarrow> (of_nat (card (dom f - {x})) :: u32) = of_nat (card (dom f)) - 1"
proof -
  assume a: "finite (dom f)" "f x = Some y"
  then have "card (dom f) = Suc (card (dom f - {x}))" by (metis card_Suc_Diff1 domI)
  then show ?thesis by simp
qed

lemma fresh_finite:
  assumes "fresh_ok st"
  shows "finite (dom (users st))" "finite (dom (channels st))" "finite (dom (members st))"
  using assms unfolding fresh_ok_def dom_def
  by (auto intro: finite_subset [of _ "{..< fresh_ref st}"])

text \<open>Both searches of \<open>chanuser_find\<close> give the same answer.\<close>

lemma find_lists:
  assumes "lists ms store P" "\<And>m n M N. store m = Some M \<Longrightarrow> store n = Some N \<Longrightarrow> P M \<Longrightarrow> P N \<Longrightarrow> Q M \<Longrightarrow> Q N \<Longrightarrow> m = n"
  shows "find (\<lambda>m. case store m of None \<Rightarrow> False | Some M \<Rightarrow> Q M) ms = Some m \<longleftrightarrow> (\<exists>M. store m = Some M \<and> P M \<and> Q M)"
proof
  assume "find (\<lambda>m. case store m of None \<Rightarrow> False | Some M \<Rightarrow> Q M) ms = Some m"
  then have "m \<in> set ms" "case store m of None \<Rightarrow> False | Some M \<Rightarrow> Q M" by (auto dest: find_SomeD)
  then show "\<exists>M. store m = Some M \<and> P M \<and> Q M" using lists_mem [OF assms(1)] by (auto split: option.splits)
next
  assume "\<exists>M. store m = Some M \<and> P M \<and> Q M"
  then obtain M where M: "store m = Some M" "P M" "Q M" by blast
  then have "m \<in> set ms" using lists_mem [OF assms(1)] by blast
  with M have "find (\<lambda>m. case store m of None \<Rightarrow> False | Some M \<Rightarrow> Q M) ms \<noteq> None"
    unfolding find_None_iff by (auto intro!: exI [of _ m])
  then obtain n where n: "find (\<lambda>m. case store m of None \<Rightarrow> False | Some M \<Rightarrow> Q M) ms = Some n" by blast
  then have "n \<in> set ms" "case store n of None \<Rightarrow> False | Some M \<Rightarrow> Q M" by (auto dest: find_SomeD)
  then obtain N where "store n = Some N" "P N" "Q N" using lists_mem [OF assms(1)] by (auto split: option.splits)
  with assms(2) [OF M(1) _ M(2)] M n show "find (\<lambda>m. case store m of None \<Rightarrow> False | Some M \<Rightarrow> Q M) ms = Some m" by blast
qed

lemma chanuser_find_iff:
  assumes "memb_ok st" "channels st c = Some C" "users st u = Some U"
  shows "chanuser_find c u st = Some m \<longleftrightarrow> (\<exists>M. members st m = Some M \<and> nm_chan M = c \<and> nm_user M = u)"
proof -
  have l: "lists (nc_members C) (members st) (\<lambda>M. nm_chan M = c)" "lists (un_channels U) (members st) (\<lambda>M. nm_user M = u)"
    using assms unfolding memb_ok_def by blast+
  have uniq: "m = n" if "members st m = Some M" "members st n = Some N" "nm_chan M = nm_chan N" "nm_user M = nm_user N" for m n M N
    using assms(1) that unfolding memb_ok_def by blast
  show ?thesis
    using find_lists [OF l(1), of "\<lambda>M. nm_user M = u" m] find_lists [OF l(2), of "\<lambda>M. nm_chan M = c" m] uniq
    unfolding chanuser_find_def assms(2,3) by (auto split: if_splits)
qed

section \<open>Unlinking\<close>

lemma unlink_member_simps:
  assumes "members st m = Some M"
  shows "members (unlink_member m st) = (members st)(m := None)"
    "channels (unlink_member m st) = (channels st)(nm_chan M := map_option
       (\<lambda>C. C\<lparr>nc_members := remove1 m (nc_members C)\<rparr>) (channels st (nm_chan M)))"
    "users (unlink_member m st) = (users st)(nm_user M := map_option
       (\<lambda>U. U\<lparr>un_channels := remove1 m (un_channels U)\<rparr>) (users st (nm_user M)))"
    "cnt_chanuser (unlink_member m st) = cnt_chanuser st - 1"
  using assms by (simp_all add: unlink_member_def Let_def)

lemma unlink_member_frame [simp]:
  "servers (unlink_member m st) = servers st" "userlist (unlink_member m st) = userlist st"
  "uidlist (unlink_member m st) = uidlist st" "chanlist (unlink_member m st) = chanlist st"
  "accounts (unlink_member m st) = accounts st" "mynicks (unlink_member m st) = mynicks st"
  "mychan_chan (unlink_member m st) = mychan_chan st" "fresh_ref (unlink_member m st) = fresh_ref st"
  "cnt_user (unlink_member m st) = cnt_user st" "cnt_chan (unlink_member m st) = cnt_chan st"
  "cnt_server (unlink_member m st) = cnt_server st"
  "servlist (unlink_member m st) = servlist st" "sidlist (unlink_member m st) = sidlist st"
  by (simp_all add: unlink_member_def Let_def split: option.split)

text \<open>What unlinking leaves of the objects at both ends.\<close>

definition user_shape :: "nuser \<Rightarrow> nuser" where
  "user_shape U = U\<lparr>un_channels := []\<rparr>"

definition chan_shape :: "nchannel \<Rightarrow> nchannel" where
  "chan_shape C = C\<lparr>nc_members := []\<rparr>"

lemma user_shape_fields:
  "user_shape U = user_shape V \<Longrightarrow> un_nick U = un_nick V \<and> un_uid U = un_uid V \<and> un_server U = un_server V \<and>
     un_myuser U = un_myuser V \<and> un_flags U = un_flags V"
  by (cases U; cases V) (simp add: user_shape_def)

lemma chan_shape_fields:
  "chan_shape C = chan_shape D \<Longrightarrow> nc_name C = nc_name D \<and> nc_modes C = nc_modes D \<and>
     nc_nummembers C = nc_nummembers D \<and> nc_numsvcmembers C = nc_numsvcmembers D"
  by (cases C; cases D) (simp add: chan_shape_def)

lemma unlink_shapes:
  "map_option user_shape (users (unlink_member m st) u) = map_option user_shape (users st u)"
  "map_option chan_shape (channels (unlink_member m st) c) = map_option chan_shape (channels st c)"
proof -
  show "map_option user_shape (users (unlink_member m st) u) = map_option user_shape (users st u)"
  proof (cases "members st m")
    case (Some M)
    then show ?thesis
      by (cases "users st u"; cases "u = nm_user M") (simp_all add: unlink_member_simps user_shape_def)
  qed (simp add: unlink_member_def)
  show "map_option chan_shape (channels (unlink_member m st) c) = map_option chan_shape (channels st c)"
  proof (cases "members st m")
    case (Some M)
    then show ?thesis
      by (cases "channels st c"; cases "c = nm_chan M") (simp_all add: unlink_member_simps chan_shape_def)
  qed (simp add: unlink_member_def)
qed

lemma memb_okD:
  assumes "memb_ok st"
  shows "channels st c = Some C \<Longrightarrow> lists (nc_members C) (members st) (\<lambda>M. nm_chan M = c)"
    and "users st u = Some U \<Longrightarrow> lists (un_channels U) (members st) (\<lambda>M. nm_user M = u)"
    and "members st m = Some M \<Longrightarrow> channels st (nm_chan M) \<noteq> None \<and> users st (nm_user M) \<noteq> None"
    and "members st m = Some M \<Longrightarrow> members st n = Some N \<Longrightarrow> nm_chan M = nm_chan N \<Longrightarrow> nm_user M = nm_user N \<Longrightarrow> m = n"
  using assms unfolding memb_ok_def by blast+

lemma map_option_SomeE: "map_option f x = Some y \<Longrightarrow> (\<And>z. x = Some z \<Longrightarrow> y = f z \<Longrightarrow> P) \<Longrightarrow> P"
  by (cases x) auto

lemma unlink_memb_ok:
  assumes "memb_ok st"
  shows "memb_ok (unlink_member m st)"
proof (cases "members st m")
  case None
  then show ?thesis using assms by (simp add: unlink_member_def)
next
  case (Some M)
  note u = unlink_member_simps [OF Some]
  have 1: "lists (nc_members C) (members (unlink_member m st)) (\<lambda>M. nm_chan M = c)"
    if h: "channels (unlink_member m st) c = Some C" for c C
  proof (cases "c = nm_chan M")
    case True
    have "map_option (\<lambda>C. C\<lparr>nc_members := remove1 m (nc_members C)\<rparr>) (channels st c) = Some C"
      using h by (simp add: u True)
    then obtain C0 where "channels st c = Some C0" "C = C0\<lparr>nc_members := remove1 m (nc_members C0)\<rparr>"
      by (rule map_option_SomeE)
    then have C0: "channels st c = Some C0" "nc_members C = remove1 m (nc_members C0)" by simp_all
    note l = memb_okD(1) [OF assms C0(1)]
    then have "m \<in> set (nc_members C0)" using lists_mem [OF l] Some True by simp
    with l show ?thesis using C0 by (simp add: u lists_remove1)
  next
    case False
    then have "channels st c = Some C" using h by (simp add: u)
    note l = memb_okD(1) [OF assms this]
    then have "m \<notin> set (nc_members C)" using lists_mem [OF l] Some False by simp
    with l show ?thesis by (simp add: u lists_del_other)
  qed
  have 2: "lists (un_channels U) (members (unlink_member m st)) (\<lambda>M. nm_user M = v)"
    if h: "users (unlink_member m st) v = Some U" for v U
  proof (cases "v = nm_user M")
    case True
    have "map_option (\<lambda>U. U\<lparr>un_channels := remove1 m (un_channels U)\<rparr>) (users st v) = Some U"
      using h by (simp add: u True)
    then obtain U0 where "users st v = Some U0" "U = U0\<lparr>un_channels := remove1 m (un_channels U0)\<rparr>"
      by (rule map_option_SomeE)
    then have U0: "users st v = Some U0" "un_channels U = remove1 m (un_channels U0)" by simp_all
    note l = memb_okD(2) [OF assms U0(1)]
    then have "m \<in> set (un_channels U0)" using lists_mem [OF l] Some True by simp
    with l show ?thesis using U0 by (simp add: u lists_remove1)
  next
    case False
    then have "users st v = Some U" using h by (simp add: u)
    note l = memb_okD(2) [OF assms this]
    then have "m \<notin> set (un_channels U)" using lists_mem [OF l] Some False by simp
    with l show ?thesis by (simp add: u lists_del_other)
  qed
  have 3: "channels (unlink_member m st) (nm_chan N) \<noteq> None \<and> users (unlink_member m st) (nm_user N) \<noteq> None"
    if "members (unlink_member m st) n = Some N" for n N
  proof -
    have "members st n = Some N" using that by (auto simp: u split: if_splits)
    from memb_okD(3) [OF assms this] show ?thesis by (auto simp: u)
  qed
  have 4: "n = n'" if "members (unlink_member m st) n = Some N" "members (unlink_member m st) n' = Some N'"
    "nm_chan N = nm_chan N'" "nm_user N = nm_user N'" for n n' N N'
  proof -
    have "members st n = Some N" "members st n' = Some N'" using that(1,2) by (auto simp: u split: if_splits)
    with that(3,4) show ?thesis using memb_okD(4) [OF assms] by blast
  qed
  show ?thesis unfolding memb_ok_def using 1 2 3 4 by blast
qed

text \<open>The parts of the invariant that do not look at the lists of memberships.\<close>

definition shapes_eq :: "net \<Rightarrow> net \<Rightarrow> bool" where
  "shapes_eq st st' \<longleftrightarrow>
     (\<forall>u. map_option user_shape (users st' u) = map_option user_shape (users st u)) \<and>
     (\<forall>c. map_option chan_shape (channels st' c) = map_option chan_shape (channels st c)) \<and>
     servers st' = servers st \<and> userlist st' = userlist st \<and> uidlist st' = uidlist st \<and> chanlist st' = chanlist st \<and>
     accounts st' = accounts st \<and> mynicks st' = mynicks st \<and> mychan_chan st' = mychan_chan st \<and>
     fresh_ref st' = fresh_ref st \<and> cnt_user st' = cnt_user st \<and> cnt_chan st' = cnt_chan st"

lemma shapes_refl [simp]: "shapes_eq st st"
  by (simp add: shapes_eq_def)

lemma shapes_trans: "shapes_eq st st' \<Longrightarrow> shapes_eq st' st'' \<Longrightarrow> shapes_eq st st''"
  by (simp add: shapes_eq_def)

lemma unlink_shapes_eq: "shapes_eq st (unlink_member m st)"
  by (simp add: shapes_eq_def unlink_shapes)

lemma shapes_ex_user:
  assumes "shapes_eq st st'" "\<And>U V. user_shape U = user_shape V \<Longrightarrow> P U = P V"
  shows "(\<exists>U. users st' u = Some U \<and> P U) = (\<exists>U. users st u = Some U \<and> P U)"
proof -
  have e: "map_option user_shape (users st' u) = map_option user_shape (users st u)"
    using assms(1) by (simp add: shapes_eq_def)
  show ?thesis
  proof (cases "users st u")
    case None
    with e show ?thesis by simp
  next
    case (Some U)
    with e obtain U' where U': "users st' u = Some U'" "user_shape U' = user_shape U" by (cases "users st' u") auto
    from assms(2) [OF U'(2)] Some U'(1) show ?thesis by simp
  qed
qed

lemma shapes_ex_chan:
  assumes "shapes_eq st st'" "\<And>U V. chan_shape U = chan_shape V \<Longrightarrow> P U = P V"
  shows "(\<exists>U. channels st' u = Some U \<and> P U) = (\<exists>U. channels st u = Some U \<and> P U)"
proof -
  have e: "map_option chan_shape (channels st' u) = map_option chan_shape (channels st u)"
    using assms(1) by (simp add: shapes_eq_def)
  show ?thesis
  proof (cases "channels st u")
    case None
    with e show ?thesis by simp
  next
    case (Some U)
    with e obtain U' where U': "channels st' u = Some U'" "chan_shape U' = chan_shape U" by (cases "channels st' u") auto
    from assms(2) [OF U'(2)] Some U'(1) show ?thesis by simp
  qed
qed

lemma shapes_user:
  assumes "shapes_eq st st'" "users st' u = Some U'"
  obtains U where "users st u = Some U" "user_shape U = user_shape U'"
  using shapes_ex_user [OF assms(1), of "\<lambda>U. user_shape U = user_shape U'" u] assms(2) by auto

lemma shapes_chan:
  assumes "shapes_eq st st'" "channels st' u = Some U'"
  obtains U where "channels st u = Some U" "chan_shape U = chan_shape U'"
  using shapes_ex_chan [OF assms(1), of "\<lambda>U. chan_shape U = chan_shape U'" u] assms(2) by auto

lemma shapes_dom:
  assumes "shapes_eq st st'"
  shows "dom (users st') = dom (users st)" "dom (channels st') = dom (channels st)"
  using shapes_ex_user [OF assms, of "\<lambda>_. True"] shapes_ex_chan [OF assms, of "\<lambda>_. True"] by (auto simp: dom_def)

lemma shapes_internal:
  assumes "shapes_eq st st'"
  shows "is_internal_client E u st' = is_internal_client E u st"
proof -
  have "is_internal_client E u st = (\<exists>U. users st u = Some U \<and> un_server U = ne_me E)" for st
    by (auto simp: is_internal_client_def split: option.splits)
  moreover have "(\<exists>U. users st' u = Some U \<and> un_server U = ne_me E) = (\<exists>U. users st u = Some U \<and> un_server U = ne_me E)"
    by (rule shapes_ex_user [OF assms]) (drule user_shape_fields, simp)
  ultimately show ?thesis by simp
qed

lemma lists_shape:
  assumes "shapes_eq st st'" "\<And>U V. user_shape U = user_shape V \<Longrightarrow> P U = P V"
  shows "lists us (users st') P = lists us (users st) P"
  using shapes_ex_user [OF assms] by (simp add: lists_def)

lemma shapes_keep:
  assumes "shapes_eq st st'"
  shows "names_ok E st \<Longrightarrow> names_ok E st'" "servers_but T st \<Longrightarrow> servers_but T st'" "logins_ok st \<Longrightarrow> logins_ok st'"
proof -
  note eq = assms [unfolded shapes_eq_def]
  show "names_ok E st'" if "names_ok E st"
  proof -
    have 1: "(\<exists>U. users st' v = Some U \<and> canon E (un_nick U) = k) = (\<exists>U. users st v = Some U \<and> canon E (un_nick U) = k)" for v k
      by (rule shapes_ex_user [OF assms]) (drule user_shape_fields, simp)
    have 2: "(\<exists>U. users st' v = Some U \<and> un_uid U = Some k) = (\<exists>U. users st v = Some U \<and> un_uid U = Some k)" for v k
      by (rule shapes_ex_user [OF assms]) (drule user_shape_fields, simp)
    have 3: "(\<exists>C. channels st' d = Some C \<and> canon E (nc_name C) = k) = (\<exists>C. channels st d = Some C \<and> canon E (nc_name C) = k)" for d k
      by (rule shapes_ex_chan [OF assms]) (drule chan_shape_fields, simp)
    show ?thesis using that eq unfolding names_ok_def 1 2 3 by simp
  qed
  show "servers_but T st'" if "servers_but T st"
  proof -
    have "lists us (users st') (\<lambda>U. un_server U = s) = lists us (users st) (\<lambda>U. un_server U = s)" for us s
      by (rule lists_shape [OF assms]) (drule user_shape_fields, simp)
    moreover have "servers st (un_server U) \<noteq> None" if "users st' u = Some U" for u U
      using shapes_user [OF assms that] \<open>servers_but T st\<close> unfolding servers_but_def by (metis user_shape_fields)
    ultimately show ?thesis using that eq unfolding servers_but_def by simp
  qed
  show "logins_ok st'" if "logins_ok st"
  proof -
    have "lists us (users st') (\<lambda>U. un_myuser U = Some a) = lists us (users st) (\<lambda>U. un_myuser U = Some a)" for us a
      by (rule lists_shape [OF assms]) (drule user_shape_fields, simp)
    moreover have "accounts st a \<noteq> None" if "users st' u = Some U" "un_myuser U = Some a" for u U a
      using shapes_user [OF assms that(1)] that(2) \<open>logins_ok st\<close> unfolding logins_ok_def by (metis user_shape_fields)
    ultimately show ?thesis using that eq unfolding logins_ok_def by metis
  qed
qed

lemma net_butD:
  assumes "net_but T E X st"
  shows "memb_ok st" "counts_but E X st" "names_ok E st" "servers_but T st" "logins_ok st" "fresh_ok st" "totals_ok st"
  using assms by (simp_all add: net_but_def)

lemma net_but_mono: "net_but T E X st \<Longrightarrow> X \<subseteq> Y \<Longrightarrow> net_but T E Y st"
  unfolding net_but_def counts_but_def by blast

lemma svc_member_cong:
  "members st' = members st \<Longrightarrow> users st' = users st \<Longrightarrow> svc_member E st' = svc_member E st"
  by (rule ext) (simp add: svc_member_def is_internal_client_def split: option.split)

lemma emit_net [simp]: "net_but T E X (emit e st) = net_but T E X st"
proof -
  have "svc_member E (emit e st) = svc_member E st" by (rule svc_member_cong) simp_all
  then show ?thesis
    by (simp add: net_but_def memb_ok_def counts_but_def count_ok_def names_ok_def
      servers_but_def logins_ok_def fresh_ok_def totals_ok_def)
qed

lemma fresh_shapes:
  assumes "shapes_eq st st'" "fresh_ok st" "dom (members st') \<subseteq> dom (members st)"
  shows "fresh_ok st'"
proof -
  have "(users st' r \<noteq> None) = (users st r \<noteq> None)" "(channels st' r \<noteq> None) = (channels st r \<noteq> None)"
    "members st' r \<noteq> None \<longrightarrow> members st r \<noteq> None" for r
    using shapes_dom [OF assms(1)] assms(3) by auto
  then show ?thesis using assms(1,2) unfolding fresh_ok_def shapes_eq_def by metis
qed

lemma unlink_counts:
  assumes "memb_ok st" "counts_but E X st" "members st m = Some M" "nm_chan M \<in> X"
  shows "counts_but E X (unlink_member m st)"
  unfolding counts_but_def
proof (intro allI impI, elim conjE)
  fix c C
  assume h: "channels (unlink_member m st) c = Some C" "c \<notin> X"
  then have C: "channels st c = Some C" using assms(3,4) by (auto simp: unlink_member_simps split: if_splits)
  have "m \<notin> set (nc_members C)"
    using lists_mem [OF memb_okD(1) [OF assms(1) C]] assms(3,4) h(2) by auto
  then have "filter (svc_member E (unlink_member m st)) (nc_members C) = filter (svc_member E st) (nc_members C)"
    by (intro filter_cong) (auto simp: svc_member_def unlink_member_simps [OF assms(3)]
        shapes_internal [OF unlink_shapes_eq] split: option.split)
  then show "count_ok E (unlink_member m st) C" using assms(2) C h(2) by (simp add: counts_but_def count_ok_def)
qed

lemma unlink_net:
  assumes "net_but T E X st" "\<And>M. members st m = Some M \<Longrightarrow> nm_chan M \<in> X"
  shows "net_but T E X (unlink_member m st)"
proof (cases "members st m")
  case None
  then show ?thesis using assms by (simp add: unlink_member_def)
next
  case (Some M)
  note d = net_butD [OF assms(1)] and sh = unlink_shapes_eq [of st m]
  have "totals_ok (unlink_member m st)"
    using d(7) shapes_dom [OF sh] fresh_finite [OF d(6)] Some sh
    by (simp add: totals_ok_def unlink_member_simps(1,4) [OF Some] shapes_eq_def)
  moreover have "fresh_ok (unlink_member m st)"
    by (rule fresh_shapes [OF sh d(6)]) (auto simp: unlink_member_simps(1) [OF Some])
  ultimately show ?thesis
    using unlink_memb_ok [OF d(1)] unlink_counts [OF d(1,2) Some assms(2) [OF Some]] shapes_keep [OF sh] d
    by (simp add: net_but_def)
qed

lemma unlink_members: "members (unlink_member m st) = (members st)(m := None)"
  by (cases "members st m") (auto simp: unlink_member_simps unlink_member_def fun_upd_idem)

lemma fold_unlink:
  assumes "net_but T E X st" "\<And>m M. m \<in> set ms \<Longrightarrow> members st m = Some M \<Longrightarrow> nm_chan M \<in> X"
  shows "net_but T E X (fold unlink_member ms st) \<and> shapes_eq st (fold unlink_member ms st) \<and>
    members (fold unlink_member ms st) = (\<lambda>m. if m \<in> set ms then None else members st m)"
  using assms
proof (induction ms arbitrary: st)
  case (Cons m ms)
  have 1: "net_but T E X (unlink_member m st)" by (rule unlink_net [OF Cons.prems(1)]) (use Cons.prems(2) in auto)
  have "net_but T E X (fold unlink_member ms (unlink_member m st)) \<and>
      shapes_eq (unlink_member m st) (fold unlink_member ms (unlink_member m st)) \<and>
      members (fold unlink_member ms (unlink_member m st)) = (\<lambda>n. if n \<in> set ms then None else members (unlink_member m st) n)"
    by (rule Cons.IH [OF 1]) (use Cons.prems(2) in \<open>auto simp: unlink_members split: if_splits\<close>)
  then show ?case
    using shapes_trans [OF unlink_shapes_eq] by (auto simp: unlink_members)
qed simp

section \<open>Channels\<close>

text \<open>Changing fields of a channel other than its name and members.\<close>

lemma upd_channel_net:
  assumes "net_but T E X st" "\<And>C. nc_name (g C) = nc_name C \<and> nc_members (g C) = nc_members C"
    and "\<And>C. channels st c = Some C \<Longrightarrow> c \<notin> Y \<Longrightarrow> count_ok E st (g C)" "X \<subseteq> insert c Y"
  shows "net_but T E Y (upd_channel c g st)"
proof -
  note d = net_butD [OF assms(1)]
  let ?st = "upd_channel c g st"
  have ch: "\<exists>C. channels st c' = Some C \<and> nc_name C = nc_name C' \<and> nc_members C = nc_members C'"
    if "channels ?st c' = Some C'" for c' C'
    using that assms(2) by (auto split: if_splits)
  have ch2: "\<exists>C. channels ?st c' = Some C \<and> nc_name C = nc_name C' \<and> nc_members C = nc_members C'"
    if "channels st c' = Some C'" for c' C'
    using that assms(2) by auto
  have "memb_ok ?st"
    unfolding memb_ok_def
  proof (intro conjI allI impI)
    fix c' C' assume "channels ?st c' = Some C'"
    from ch [OF this] memb_okD(1) [OF d(1)] show "lists (nc_members C') (members ?st) (\<lambda>M. nm_chan M = c')" by fastforce
  next
    fix u U assume "users ?st u = Some U"
    with memb_okD(2) [OF d(1)] show "lists (un_channels U) (members ?st) (\<lambda>M. nm_user M = u)" by simp
  next
    fix m M assume "members ?st m = Some M"
    with memb_okD(3) [OF d(1), of m M] show "channels ?st (nm_chan M) \<noteq> None" "users ?st (nm_user M) \<noteq> None" by auto
  next
    fix m n M N assume "members ?st m = Some M \<and> members ?st n = Some N \<and> nm_chan M = nm_chan N \<and> nm_user M = nm_user N"
    with memb_okD(4) [OF d(1)] show "m = n" by simp
  qed
  moreover have "counts_but E Y ?st"
    unfolding counts_but_def
  proof (intro allI impI, elim conjE)
    fix c' C' assume h: "channels ?st c' = Some C'" "c' \<notin> Y"
    have svc: "svc_member E ?st = svc_member E st" by (rule svc_member_cong) simp_all
    have "count_ok E st C'"
    proof (cases "c' = c")
      case True
      with h obtain C where "channels st c = Some C" "C' = g C" by (auto elim: map_option_SomeE)
      with assms(3) h(2) True show ?thesis by simp
    next
      case False
      with h d(2) assms(4) show ?thesis unfolding counts_but_def by auto
    qed
    then show "count_ok E ?st C'" by (simp add: count_ok_def svc)
  qed
  moreover have "names_ok E ?st"
  proof -
    have "(\<exists>C. channels ?st c' = Some C \<and> canon E (nc_name C) = k) = (\<exists>C. channels st c' = Some C \<and> canon E (nc_name C) = k)" for c' k
      using ch [of c'] ch2 [of c'] by metis
    then show ?thesis using d(3) by (simp add: names_ok_def)
  qed
  moreover have "servers_but T ?st" "logins_ok ?st" using d(4,5) by (simp_all add: servers_but_def logins_ok_def)
  moreover have "fresh_ok ?st" using d(6) by (auto simp: fresh_ok_def)
  moreover have "dom (channels ?st) = dom (channels st)" by (auto simp: dom_def)
  then have "totals_ok ?st" using d(7) by (simp add: totals_ok_def)
  ultimately show ?thesis by (simp add: net_but_def)
qed

text \<open>Dropping a channel that no membership belongs to.\<close>

definition drop_channel :: "net_env \<Rightarrow> cref \<Rightarrow> net \<Rightarrow> net" where
  "drop_channel E c st =
     (case channels st c of
        None \<Rightarrow> st
      | Some C \<Rightarrow> st\<lparr>chanlist := (chanlist st)(canon E (nc_name C) := None),
                 mychan_chan := (case mychan_chan st (canon E (nc_name C)) of None \<Rightarrow> mychan_chan st
                                 | Some _ \<Rightarrow> (mychan_chan st)(canon E (nc_name C) := Some None)),
                 channels := (channels st)(c := None),
                 cnt_chan := cnt_chan st - 1\<rparr>)"

lemma names_chan:
  assumes "names_ok E st"
  shows "chanlist st k = Some c \<longleftrightarrow> (\<exists>C. channels st c = Some C \<and> canon E (nc_name C) = k)"
  using assms by (simp add: names_ok_def)

lemma names_user:
  assumes "names_ok E st"
  shows "userlist st k = Some u \<longleftrightarrow> (\<exists>U. users st u = Some U \<and> canon E (un_nick U) = k)"
  using assms by (simp add: names_ok_def)

lemma drop_channel_net:
  assumes "net_but T E X st" "X \<subseteq> insert c Y" "\<And>m M. members st m = Some M \<Longrightarrow> nm_chan M \<noteq> c"
    and "channels st c \<noteq> None"
  shows "net_but T E Y (drop_channel E c st)"
proof -
  note d = net_butD [OF assms(1)]
  obtain C where C: "channels st c = Some C" using assms(4) by blast
  let ?st = "drop_channel E c st" and ?k = "canon E (nc_name C)"
  have f: "channels ?st = (channels st)(c := None)" "users ?st = users st" "members ?st = members st"
    "servers ?st = servers st" "userlist ?st = userlist st" "uidlist ?st = uidlist st" "accounts ?st = accounts st"
    "fresh_ref ?st = fresh_ref st" "cnt_user ?st = cnt_user st" "cnt_chanuser ?st = cnt_chanuser st"
    "cnt_chan ?st = cnt_chan st - 1" "chanlist ?st = (chanlist st)(?k := None)"
    "mychan_chan ?st = (case mychan_chan st ?k of None \<Rightarrow> mychan_chan st | Some _ \<Rightarrow> (mychan_chan st)(?k := Some None))"
    by (simp_all add: drop_channel_def C)
  have "memb_ok ?st"
    unfolding memb_ok_def f
  proof (intro conjI allI impI)
    fix c' C' assume "((channels st)(c := None)) c' = Some C'"
    then show "lists (nc_members C') (members st) (\<lambda>M. nm_chan M = c')"
      using memb_okD(1) [OF d(1)] by (simp split: if_splits)
  next
    fix m M assume "members st m = Some M"
    with memb_okD(3) [OF d(1) this] assms(3) [OF this]
    show "((channels st)(c := None)) (nm_chan M) \<noteq> None" "users st (nm_user M) \<noteq> None" by auto
  qed (use memb_okD(2,4) [OF d(1)] in blast)+
  moreover have "counts_but E Y ?st"
  proof -
    have "svc_member E ?st = svc_member E st" by (rule svc_member_cong) (simp_all add: f)
    then have "count_ok E ?st D = count_ok E st D" for D by (simp add: count_ok_def)
    then show ?thesis using d(2) assms(2) unfolding counts_but_def f by auto
  qed
  moreover have "names_ok E ?st"
  proof -
    have "((chanlist st)(?k := None)) k = Some c' \<longleftrightarrow>
        (\<exists>C'. ((channels st)(c := None)) c' = Some C' \<and> canon E (nc_name C') = k)" for k c'
      using names_chan [OF d(3), of k c'] names_chan [OF d(3), of ?k c] C by auto
    moreover have "((chanlist st)(?k := None)) k = Some c'" if "mychan_chan ?st k = Some (Some c')" for k c'
      using that d(3) by (auto simp: f names_ok_def split: option.splits if_splits)
    ultimately show ?thesis using d(3) by (simp add: names_ok_def f)
  qed
  moreover have "servers_but T ?st" "logins_ok ?st" using d(4,5) by (simp_all add: servers_but_def logins_ok_def f)
  moreover have "fresh_ok ?st" using d(6) by (auto simp: fresh_ok_def f)
  moreover have "totals_ok ?st"
    using d(7) fresh_finite [OF d(6)] C by (simp add: totals_ok_def f)
  ultimately show ?thesis by (simp add: net_but_def)
qed

lemma channel_delete_eq:
  assumes "channels st c = Some C"
  shows "channel_delete E c st = drop_channel E c (emit (Hook_channel_delete c)
     (upd_channel c (\<lambda>C. C\<lparr>nc_nummembers := 0, nc_numsvcmembers := 0\<rparr>)
       (fold unlink_member (nc_members C) (emit (Modestack_finalize c) st))))"
proof -
  let ?st1 = "fold unlink_member (nc_members C) (emit (Modestack_finalize c) st)"
  have "map_option chan_shape (channels (fold unlink_member ms st') c) = map_option chan_shape (channels st' c)" for ms st'
    by (induction ms arbitrary: st') (simp_all add: unlink_shapes)
  from this [of "nc_members C" "emit (Modestack_finalize c) st"]
  obtain D where D: "channels ?st1 c = Some D" "chan_shape D = chan_shape C"
    using assms by auto
  then have "nc_name D = nc_name C" using chan_shape_fields by blast
  with D(1) assms show ?thesis
    by (simp add: channel_delete_def drop_channel_def Let_def split: option.split)
qed

lemma channel_delete_net:
  assumes "net_but T E X st" "X \<subseteq> insert c Y" "Y \<subseteq> X" "channels st c \<noteq> None"
  shows "net_but T E Y (channel_delete E c st)"
proof -
  obtain C where C: "channels st c = Some C" using assms(4) by blast
  let ?st0 = "emit (Modestack_finalize c) st"
  let ?st1 = "fold unlink_member (nc_members C) ?st0"
  let ?st2 = "emit (Hook_channel_delete c) (upd_channel c (\<lambda>C. C\<lparr>nc_nummembers := 0, nc_numsvcmembers := 0\<rparr>) ?st1)"
  have l: "m \<in> set (nc_members C) \<longleftrightarrow> (\<exists>M. members st m = Some M \<and> nm_chan M = c)" for m
    using lists_mem [OF memb_okD(1) [OF net_butD(1) [OF assms(1)] C]] .
  have f: "net_but T E (insert c X) ?st1 \<and> shapes_eq ?st0 ?st1 \<and>
      members ?st1 = (\<lambda>m. if m \<in> set (nc_members C) then None else members ?st0 m)"
  proof (rule fold_unlink)
    show "net_but T E (insert c X) ?st0" using net_but_mono [OF assms(1)] by auto
    show "nm_chan M \<in> insert c X" if "m \<in> set (nc_members C)" "members ?st0 m = Some M" for m M
      using that l [of m] by auto
  qed
  then have "net_but T E (insert c X) (upd_channel c (\<lambda>C. C\<lparr>nc_nummembers := 0, nc_numsvcmembers := 0\<rparr>) ?st1)"
    by (intro upd_channel_net [where X = "insert c X"]) auto
  then have n: "net_but T E (insert c X) ?st2" by simp
  have ch: "channels ?st2 c \<noteq> None"
    using f shapes_dom(2) [of ?st0 ?st1] C by (auto simp: domIff)
  have "net_but T E Y (drop_channel E c ?st2)"
  proof (rule drop_channel_net [OF n _ _ ch])
    show "insert c X \<subseteq> insert c Y" using assms(2) by blast
    show "nm_chan M \<noteq> c" if "members ?st2 m = Some M" for m M
    proof -
      have "m \<notin> set (nc_members C)" "members st m = Some M" using that f by (auto split: if_splits)
      with l [of m] show ?thesis by auto
    qed
  qed
  then show ?thesis by (simp add: channel_delete_eq [OF C])
qed

text \<open>Leaving a channel; the last one out destroys it unless it is permanent.\<close>

lemma of_nat_filter_remove1:
  "m \<in> set ms \<Longrightarrow> distinct ms \<Longrightarrow> (of_nat (length (filter P (remove1 m ms))) :: u32) =
     (if P m then of_nat (length (filter P ms)) - 1 else of_nat (length (filter P ms)))"
proof -
  assume m: "m \<in> set ms" and d: "distinct ms"
  have "filter P (remove1 m ms) = (if P m then remove1 m (filter P ms) else filter P ms)"
    using d by (induction ms) (auto simp: filter_id_conv)
  then show ?thesis using m by simp
qed

lemma chanuser_delete_net:
  assumes "net_but T E X st"
  shows "net_but T E X (chanuser_delete E c u st)"
proof (cases "chanuser_find c u st")
  case None
  then show ?thesis using assms by (simp add: chanuser_delete_def)
next
  case (Some m)
  note d = net_butD [OF assms]
  from Some obtain C U where C: "channels st c = Some C" and U: "users st u = Some U"
    by (auto simp: chanuser_find_def split: option.splits)
  with Some obtain M where M: "members st m = Some M" "nm_chan M = c" "nm_user M = u"
    using chanuser_find_iff [OF d(1)] by blast
  let ?st0 = "emit (Hook_channel_part m) st"
  let ?st1 = "unlink_member m ?st0"
  let ?g = "\<lambda>C. C\<lparr>nc_nummembers := nc_nummembers C - 1,
       nc_numsvcmembers := (if is_internal_client E u st then nc_numsvcmembers C - 1 else nc_numsvcmembers C)\<rparr>"
  have M0: "members ?st0 m = Some M" using M(1) by simp
  have n1: "net_but T E (insert c X) ?st1"
    by (rule unlink_net) (use net_but_mono [OF assms, of "insert c X"] M in auto)
  have C1: "channels ?st1 c = Some (C\<lparr>nc_members := remove1 m (nc_members C)\<rparr>)"
    using C M(2) by (simp add: unlink_member_simps(2) [OF M0])
  have mem: "m \<in> set (nc_members C)" "distinct (nc_members C)"
    using memb_okD(1) [OF d(1) C] M by (auto simp: lists_def)
  have n2: "net_but T E X (upd_channel c ?g ?st1)"
  proof (rule upd_channel_net [OF n1])
    fix D assume "channels ?st1 c = Some D" and "c \<notin> X"
    then have D: "D = C\<lparr>nc_members := remove1 m (nc_members C)\<rparr>" and c: "count_ok E st C"
      using C1 C d(2) by (auto simp: counts_but_def)
    have "svc_member E ?st1 n = svc_member E st n" if "n \<noteq> m" for n
      using that shapes_internal [OF unlink_shapes_eq [of ?st0 m], of E]
      by (simp add: svc_member_def unlink_member_simps(1) [OF M0] is_internal_client_def split: option.split)
    then have "filter (svc_member E ?st1) (remove1 m (nc_members C)) = filter (svc_member E st) (remove1 m (nc_members C))"
      using mem(2) by (intro filter_cong) auto
    moreover have "svc_member E st m = is_internal_client E u st" using M by (simp add: svc_member_def)
    ultimately show "count_ok E ?st1 (?g D)"
      using c mem by (simp add: count_ok_def D of_nat_filter_remove1)
  qed auto
  show ?thesis
    using n2 channel_delete_net [OF n2, of c X] Some C1
    by (auto simp: chanuser_delete_def Let_def)
qed

section \<open>Users\<close>

text \<open>Changes of a user that the invariant does not see, and of a server's operator and invisible counts.\<close>

lemma upd_user_net:
  assumes "net_but T E X st" "\<And>U. users st u = Some U \<Longrightarrow> un_nick (f U) = un_nick U \<and> un_uid (f U) = un_uid U \<and>
      un_server (f U) = un_server U \<and> un_myuser (f U) = un_myuser U \<and> un_channels (f U) = un_channels U"
  shows "net_but T E X (upd_user u f st)"
proof -
  note d = net_butD [OF assms(1)]
  let ?st = "upd_user u f st"
  have ex: "(\<exists>U. users ?st v = Some U \<and> P U) = (\<exists>U. users st v = Some U \<and> P U)"
    if "\<And>U. users st u = Some U \<Longrightarrow> P (f U) = P U" for v P
    using that by (cases "v = u"; cases "users st u") auto
  have ls: "lists us (users ?st) P = lists us (users st) P" if "\<And>U. users st u = Some U \<Longrightarrow> P (f U) = P U" for us P
  proof -
    have "(\<exists>U. users ?st v = Some U \<and> P U) = (\<exists>U. users st v = Some U \<and> P U)" for v
      by (rule ex) (rule that)
    then show ?thesis by (simp add: lists_def)
  qed
  have int: "is_internal_client E v ?st = is_internal_client E v st" for v
    using assms(2) by (auto simp: is_internal_client_def split: option.split)
  have "memb_ok ?st"
    unfolding memb_ok_def
  proof (intro conjI allI impI)
    fix v V assume "users ?st v = Some V"
    then obtain V' where "users st v = Some V'" "un_channels V' = un_channels V"
      using assms(2) by (cases "v = u") (auto elim: map_option_SomeE)
    with memb_okD(2) [OF d(1)] show "lists (un_channels V) (members ?st) (\<lambda>M. nm_user M = v)" by fastforce
  next
    fix m M assume "members ?st m = Some M"
    with memb_okD(3) [OF d(1)] show "channels ?st (nm_chan M) \<noteq> None" "users ?st (nm_user M) \<noteq> None" by auto
  qed (use memb_okD(1,4) [OF d(1)] in simp_all)
  moreover have "counts_but E X ?st"
  proof -
    have "svc_member E ?st = svc_member E st"
      by (rule ext) (simp add: svc_member_def int split: option.split)
    then show ?thesis using d(2) by (simp add: counts_but_def count_ok_def)
  qed
  moreover have "names_ok E ?st"
    using d(3) ex [of "\<lambda>U. canon E (un_nick U) = k" for k] ex [of "\<lambda>U. un_uid U = Some k" for k] assms(2)
    by (simp add: names_ok_def del: upd_user_simps(1))
  moreover have "servers_but T ?st"
  proof -
    have "servers st (un_server U) \<noteq> None" if "users ?st v = Some U" for v U
      using that d(4) assms(2) by (cases "v = u") (auto simp: servers_but_def elim!: map_option_SomeE)
    then show ?thesis using d(4) ls [of "\<lambda>U. un_server U = s" for s] assms(2)
      by (simp add: servers_but_def del: upd_user_simps(1))
  qed
  moreover have "logins_ok ?st"
  proof -
    have "accounts st a \<noteq> None" if "users ?st v = Some U" "un_myuser U = Some a" for v U a
      using that d(5) assms(2) by (cases "v = u") (auto simp: logins_ok_def elim!: map_option_SomeE)
    then show ?thesis using d(5) ls [of "\<lambda>U. un_myuser U = Some a" for a] assms(2)
      by (simp add: logins_ok_def del: upd_user_simps(1)) blast
  qed
  moreover have "fresh_ok ?st" using d(6) by (auto simp: fresh_ok_def)
  moreover have "dom (users ?st) = dom (users st)" by (auto simp: dom_def)
  then have "totals_ok ?st" using d(7) by (simp add: totals_ok_def)
  ultimately show ?thesis by (simp add: net_but_def)
qed

lemma upd_SomeE:
  "(g(x := map_option f (g x))) y = Some z \<Longrightarrow> (\<And>w. g y = Some w \<Longrightarrow> z = (if y = x then f w else w) \<Longrightarrow> P) \<Longrightarrow> P"
  by (cases "y = x"; cases "g y") auto

lemma upd_server_net:
  assumes "net_but T E X st" "\<And>S. ns_userlist (f S) = ns_userlist S"
    and "\<And>S. servers st s = Some S \<Longrightarrow> s \<notin> T' \<Longrightarrow> ns_users (f S) = of_nat (length (ns_userlist S))" "T \<subseteq> insert s T'"
  shows "net_but T' E X (upd_server s f st)"
proof -
  note d = net_butD [OF assms(1)]
  let ?st = "upd_server s f st"
  have "svc_member E ?st = svc_member E st" by (rule svc_member_cong) simp_all
  then have "memb_ok ?st = memb_ok st" "counts_but E X ?st = counts_but E X st" "names_ok E ?st = names_ok E st"
    "logins_ok ?st = logins_ok st" "totals_ok ?st = totals_ok st"
    by (simp_all add: memb_ok_def counts_but_def count_ok_def names_ok_def logins_ok_def totals_ok_def)
  with d(1,2,3,5,7) have "memb_ok ?st" "counts_but E X ?st" "names_ok E ?st" "logins_ok ?st" "totals_ok ?st" by blast+
  moreover have "servers_but T' ?st"
    unfolding servers_but_def
  proof (intro conjI allI impI)
    show "servers ?st (un_server U) \<noteq> None" if "users ?st u = Some U" for u U
      using that d(4) by (auto simp: servers_but_def)
    show "lists (ns_userlist S) (users ?st) (\<lambda>U. un_server U = s')" if "servers ?st s' = Some S" for s' S
    proof -
      from that obtain S0 where S0: "servers st s' = Some S0" "S = (if s' = s then f S0 else S0)"
        unfolding upd_server_simps(1) by (rule upd_SomeE)
      then have "ns_userlist S = ns_userlist S0" using assms(2) by simp
      moreover have "lists (ns_userlist S0) (users st) (\<lambda>U. un_server U = s')"
        using d(4) S0(1) unfolding servers_but_def by blast
      ultimately show ?thesis by simp
    qed
    show "ns_users S = of_nat (length (ns_userlist S))" if h: "servers ?st s' = Some S" "s' \<notin> T'" for s' S
    proof (cases "s' = s")
      case True
      with h obtain S0 where "servers st s = Some S0" "S = f S0" by (auto elim: map_option_SomeE)
      with assms(2,3) h(2) True show ?thesis by simp
    next
      case False
      then have "s' \<notin> T" "servers st s' = Some S" using h assms(4) by auto
      with d(4) show ?thesis unfolding servers_but_def by blast
    qed
  qed
  moreover have "fresh_ok ?st" using d(6) by (auto simp: fresh_ok_def)
  ultimately show ?thesis by (simp add: net_but_def)
qed

text \<open>What the channel operations leave of users.\<close>

definition ushapes_eq :: "net \<Rightarrow> net \<Rightarrow> bool" where
  "ushapes_eq st st' \<longleftrightarrow> (\<forall>u. map_option user_shape (users st' u) = map_option user_shape (users st u)) \<and>
     servers st' = servers st \<and> userlist st' = userlist st \<and> uidlist st' = uidlist st \<and>
     accounts st' = accounts st \<and> mynicks st' = mynicks st \<and> fresh_ref st' = fresh_ref st \<and>
     (\<forall>m M. members st' m = Some M \<longrightarrow> members st m = Some M)"

lemma ushapes_refl [simp]: "ushapes_eq st st"
  by (simp add: ushapes_eq_def)

lemma ushapes_trans: "ushapes_eq st st' \<Longrightarrow> ushapes_eq st' st'' \<Longrightarrow> ushapes_eq st st''"
  unfolding ushapes_eq_def by simp

lemma ushapes_emit [simp]: "ushapes_eq st (emit e st') = ushapes_eq st st'" "ushapes_eq (emit e st) st' = ushapes_eq st st'"
  by (simp_all add: ushapes_eq_def)

lemma ushapes_upd_channel [simp]: "ushapes_eq st (upd_channel c g st') = ushapes_eq st st'"
  by (simp add: ushapes_eq_def)

lemma ushapes_unlink: "ushapes_eq st (unlink_member m st)"
  by (auto simp: ushapes_eq_def unlink_shapes unlink_members split: if_splits)

lemma ushapes_fold_unlink: "ushapes_eq st (fold unlink_member ms st)"
  by (induction ms arbitrary: st) (auto intro: ushapes_trans ushapes_unlink)

lemma ushapes_drop_channel: "ushapes_eq st st' \<Longrightarrow> ushapes_eq st (drop_channel E c st')"
  by (auto simp: ushapes_eq_def drop_channel_def split: option.split)

lemma ushapes_channel_delete: "ushapes_eq st (channel_delete E c st)"
proof (cases "channels st c")
  case (Some C)
  have "ushapes_eq st (fold unlink_member (nc_members C) (emit (Modestack_finalize c) st))"
    using ushapes_fold_unlink [of "emit (Modestack_finalize c) st"] by simp
  then show ?thesis
    unfolding channel_delete_eq [OF Some] by (intro ushapes_drop_channel) simp
qed (simp add: channel_delete_def)

lemma ushapes_chanuser_delete: "ushapes_eq st (chanuser_delete E c u st)"
proof (cases "chanuser_find c u st")
  case (Some m)
  have "ushapes_eq st (unlink_member m (emit (Hook_channel_part m) st))"
    using ushapes_unlink [of "emit (Hook_channel_part m) st"] by simp
  then show ?thesis
    using Some ushapes_trans [OF _ ushapes_channel_delete]
    by (auto simp: chanuser_delete_def Let_def split: option.split)
qed (simp add: chanuser_delete_def)

lemma chanuser_delete_gone:
  assumes "memb_ok st" "members st m = Some M"
  shows "members (chanuser_delete E (nm_chan M) (nm_user M) st) m = None"
proof -
  from memb_okD(3) [OF assms] obtain C U where "channels st (nm_chan M) = Some C" "users st (nm_user M) = Some U" by blast
  with assms have f: "chanuser_find (nm_chan M) (nm_user M) st = Some m" using chanuser_find_iff by blast
  let ?st1 = "unlink_member m (emit (Hook_channel_part m) st)"
  have 1: "members ?st1 m = None" by (simp add: unlink_members)
  have "members st' m = None \<Longrightarrow> ushapes_eq st' st'' \<Longrightarrow> members st'' m = None" for st' st''
    unfolding ushapes_eq_def by (metis option.exhaust option.distinct(1))
  note this [OF _ ushapes_channel_delete]
  with f 1 show ?thesis by (auto simp: chanuser_delete_def Let_def split: option.split)
qed

text \<open>The loop of \<open>user_delete\<close> over the user's channels.\<close>

definition part_all :: "net_env \<Rightarrow> uref \<Rightarrow> mref list \<Rightarrow> net \<Rightarrow> net" where
  "part_all E u = fold (\<lambda>m st. case members st m of None \<Rightarrow> st | Some M \<Rightarrow> chanuser_delete E (nm_chan M) u st)"

lemma part_all_spec:
  assumes "net_but T E X st" "\<And>m M. members st m = Some M \<Longrightarrow> nm_user M = u \<Longrightarrow> m \<in> set ms"
    and "\<And>m M. m \<in> set ms \<Longrightarrow> members st m = Some M \<Longrightarrow> nm_user M = u"
  shows "net_but T E X (part_all E u ms st) \<and> ushapes_eq st (part_all E u ms st) \<and>
    (\<forall>m M. members (part_all E u ms st) m = Some M \<longrightarrow> nm_user M \<noteq> u)"
  using assms
proof (induction ms arbitrary: st)
  case Nil
  then show ?case by (auto simp: part_all_def)
next
  case (Cons m ms)
  let ?st = "case members st m of None \<Rightarrow> st | Some M \<Rightarrow> chanuser_delete E (nm_chan M) u st"
  have e: "part_all E u (m # ms) st = part_all E u ms ?st" by (simp add: part_all_def)
  have u: "ushapes_eq st ?st" by (simp add: ushapes_chanuser_delete split: option.split)
  have n: "net_but T E X ?st" using chanuser_delete_net [OF Cons.prems(1)] Cons.prems(1) by (simp split: option.split)
  have g: "members ?st m = None"
  proof (cases "members st m")
    case (Some M)
    then have "nm_user M = u" using Cons.prems(3) [of m M] by simp
    with chanuser_delete_gone [OF net_butD(1) [OF Cons.prems(1)] Some] Some show ?thesis by simp
  qed simp
  have sub: "members st n = Some N" if "members ?st n = Some N" for n N
    using u that unfolding ushapes_eq_def by blast
  have "net_but T E X (part_all E u ms ?st) \<and> ushapes_eq ?st (part_all E u ms ?st) \<and>
      (\<forall>m M. members (part_all E u ms ?st) m = Some M \<longrightarrow> nm_user M \<noteq> u)"
  proof (rule Cons.IH [OF n])
    fix n N assume "members ?st n = Some N" "nm_user N = u"
    with sub Cons.prems(2) g show "n \<in> set ms" by (metis option.distinct(1) set_ConsD)
  next
    fix n N assume "n \<in> set ms" "members ?st n = Some N"
    with sub Cons.prems(3) [of n N] show "nm_user N = u" by simp
  qed
  then show ?case unfolding e using ushapes_trans [OF u] by blast
qed

end
