(* ===== verification/NetworkLive.thy ===== *)
theory NetworkLive
  imports NetworkInv
begin

text \<open>
  Every operation of theory Network preserves its invariant: deletion and creation of
  users, renaming, modes, channels, memberships, and the splitting off of a server with everything
  behind it.
\<close>

section \<open>Deleting a user\<close>

text \<open>The part of \<open>user_delete\<close> that follows the departure from all channels.\<close>

definition drop_user :: "net_env \<Rightarrow> uref \<Rightarrow> nuser \<Rightarrow> net \<Rightarrow> net" where
  "drop_user E u U st2 =
     (let st3 = st2\<lparr>userlist := (userlist st2)(canon E (un_nick U) := None),
                    uidlist := (case un_uid U of None \<Rightarrow> uidlist st2 | Some i \<Rightarrow> (uidlist st2)(i := None))\<rparr>;
          st4 = upd_server (un_server U) (\<lambda>S. S\<lparr>ns_userlist := remove1 u (ns_userlist S)\<rparr>) st3;
          st5 = drop_login E u st4
      in st5\<lparr>users := (users st5)(u := None), cnt_user := cnt_user st5 - 1\<rparr>)"

lemma drop_login_simps:
  assumes "users st u = Some U"
  shows "accounts (drop_login E u st) = (case un_myuser U of None \<Rightarrow> accounts st
      | Some a \<Rightarrow> (accounts st)(a := map_option (\<lambda>A. A\<lparr>la_logins := remove1 u (la_logins A), la_lastlogin := ne_now E\<rparr>) (accounts st a)))"
    and "(users (drop_login E u st))(u := None) = (users st)(u := None)"
  using assms by (simp_all add: drop_login_def Let_def split: option.split)

lemma drop_login_frame [simp]:
  "channels (drop_login E u st) = channels st" "members (drop_login E u st) = members st"
  "servers (drop_login E u st) = servers st" "userlist (drop_login E u st) = userlist st"
  "uidlist (drop_login E u st) = uidlist st" "chanlist (drop_login E u st) = chanlist st"
  "mychan_chan (drop_login E u st) = mychan_chan st" "fresh_ref (drop_login E u st) = fresh_ref st"
  "cnt_user (drop_login E u st) = cnt_user st" "cnt_chan (drop_login E u st) = cnt_chan st"
  "cnt_chanuser (drop_login E u st) = cnt_chanuser st"
  by (simp_all add: drop_login_def Let_def split: option.split)

lemma drop_user_simps:
  assumes "users st u = Some U2" "un_myuser U2 = un_myuser U"
  shows "users (drop_user E u U st) = (users st)(u := None)" "channels (drop_user E u U st) = channels st"
    "members (drop_user E u U st) = members st" "chanlist (drop_user E u U st) = chanlist st"
    "servers (drop_user E u U st) = (servers st)(un_server U := map_option
       (\<lambda>S. S\<lparr>ns_userlist := remove1 u (ns_userlist S)\<rparr>) (servers st (un_server U)))"
    "userlist (drop_user E u U st) = (userlist st)(canon E (un_nick U) := None)"
    "uidlist (drop_user E u U st) = (case un_uid U of None \<Rightarrow> uidlist st | Some i \<Rightarrow> (uidlist st)(i := None))"
    "accounts (drop_user E u U st) = (case un_myuser U of None \<Rightarrow> accounts st
      | Some a \<Rightarrow> (accounts st)(a := map_option (\<lambda>A. A\<lparr>la_logins := remove1 u (la_logins A), la_lastlogin := ne_now E\<rparr>) (accounts st a)))"
    "mychan_chan (drop_user E u U st) = mychan_chan st" "fresh_ref (drop_user E u U st) = fresh_ref st"
    "cnt_user (drop_user E u U st) = cnt_user st - 1" "cnt_chan (drop_user E u U st) = cnt_chan st"
    "cnt_chanuser (drop_user E u U st) = cnt_chanuser st"
  using assms by (simp_all add: drop_user_def Let_def drop_login_simps split: option.split)

lemma upd_lists_remove:
  assumes "lists ms store P" "store u = Some U"
  shows "lists (if P U then remove1 u ms else ms) (store(u := None)) P"
proof (cases "P U")
  case True
  then show ?thesis using lists_remove1 [OF assms(1)] lists_mem [OF assms(1)] assms(2) by auto
next
  case False
  then have "u \<notin> set ms" using lists_mem [OF assms(1)] assms(2) by auto
  with False show ?thesis using lists_del_other [OF assms(1)] by auto
qed

lemma names_uid:
  assumes "names_ok E st" "uidlist st k = Some u"
  shows "\<exists>U. users st u = Some U \<and> un_uid U = Some k"
  using assms unfolding names_ok_def by blast

lemma drop_user_net:
  assumes "net_but T E X st" "T \<subseteq> {un_server U}" "users st u = Some U2" "user_shape U2 = user_shape U"
    and "\<And>m M. members st m = Some M \<Longrightarrow> nm_user M \<noteq> u"
    and "\<And>S. servers st (un_server U) = Some S \<Longrightarrow> ns_users S = of_nat (length (ns_userlist S)) - 1"
  shows "net_but {} E X (drop_user E u U st)"
proof -
  note d = net_butD [OF assms(1)] and sh = user_shape_fields [OF assms(4)]
  let ?st = "drop_user E u U st"
  note f = drop_user_simps [OF assms(3), of U E] 
  have f: "users ?st = (users st)(u := None)" "channels ?st = channels st"
    "members ?st = members st" "chanlist ?st = chanlist st"
    "servers ?st = (servers st)(un_server U := map_option
       (\<lambda>S. S\<lparr>ns_userlist := remove1 u (ns_userlist S)\<rparr>) (servers st (un_server U)))"
    "userlist ?st = (userlist st)(canon E (un_nick U) := None)"
    "uidlist ?st = (case un_uid U of None \<Rightarrow> uidlist st | Some i \<Rightarrow> (uidlist st)(i := None))"
    "accounts ?st = (case un_myuser U of None \<Rightarrow> accounts st
      | Some a \<Rightarrow> (accounts st)(a := map_option (\<lambda>A. A\<lparr>la_logins := remove1 u (la_logins A), la_lastlogin := ne_now E\<rparr>) (accounts st a)))"
    "mychan_chan ?st = mychan_chan st" "fresh_ref ?st = fresh_ref st"
    "cnt_user ?st = cnt_user st - 1" "cnt_chan ?st = cnt_chan st" "cnt_chanuser ?st = cnt_chanuser st"
    using f sh by simp_all
  have "memb_ok ?st"
    unfolding memb_ok_def f
  proof (intro conjI allI impI)
    fix v V assume "((users st)(u := None)) v = Some V"
    then show "lists (un_channels V) (members st) (\<lambda>M. nm_user M = v)"
      using memb_okD(2) [OF d(1)] by (simp split: if_splits)
  next
    fix m M assume "members st m = Some M"
    with memb_okD(3) [OF d(1) this] assms(5) [OF this]
    show "channels st (nm_chan M) \<noteq> None" "((users st)(u := None)) (nm_user M) \<noteq> None" by auto
  qed (use memb_okD(1,4) [OF d(1)] in blast)+
  moreover have "counts_but E X ?st"
  proof -
    have "svc_member E ?st = svc_member E st"
      by (rule ext) (use assms(5) in \<open>auto simp: svc_member_def is_internal_client_def f split: option.split\<close>)
    then show ?thesis using d(2) by (simp add: counts_but_def count_ok_def f)
  qed
  moreover have "names_ok E ?st"
  proof -
    have "((userlist st)(canon E (un_nick U) := None)) k = Some v \<longleftrightarrow>
        (\<exists>V. ((users st)(u := None)) v = Some V \<and> canon E (un_nick V) = k)" for k v
      using names_user [OF d(3), of k v] names_user [OF d(3), of "canon E (un_nick U)" u] assms(3) sh by auto
    moreover have "\<exists>V. ((users st)(u := None)) v = Some V \<and> un_uid V = Some k" if h: "uidlist ?st k = Some v" for k v
    proof -
      have "uidlist st k = Some v" "un_uid U \<noteq> Some k"
        using h by (auto simp: f split: option.splits if_splits)
      then obtain V where V: "users st v = Some V" "un_uid V = Some k" using names_uid [OF d(3)] by blast
      with \<open>un_uid U \<noteq> Some k\<close> assms(3) sh have "v \<noteq> u" by auto
      with V show ?thesis by simp
    qed
    ultimately show ?thesis using d(3) by (simp add: names_ok_def f(1-4,6,9))
  qed
  moreover have "servers_but {} ?st"
    unfolding servers_but_def
  proof (intro conjI allI impI)
    show "servers ?st (un_server V) \<noteq> None" if "users ?st v = Some V" for v V
    proof -
      have "users st v = Some V" using that by (simp add: f(1) split: if_splits)
      then have "servers st (un_server V) \<noteq> None" using d(4) unfolding servers_but_def by blast
      then show ?thesis by (auto simp: f(5))
    qed
    fix s S assume "servers ?st s = Some S"
    then obtain S0 where S0: "servers st s = Some S0" "S = (if s = un_server U then S0\<lparr>ns_userlist := remove1 u (ns_userlist S0)\<rparr> else S0)"
      unfolding f(5) by (rule upd_SomeE)
    have l: "lists (ns_userlist S0) (users st) (\<lambda>U. un_server U = s)" using d(4) S0(1) unfolding servers_but_def by blast
    show "lists (ns_userlist S) (users ?st) (\<lambda>U. un_server U = s)"
      using upd_lists_remove [OF l assms(3)] S0(2) sh unfolding f(1) by (auto split: if_splits)
    show "ns_users S = of_nat (length (ns_userlist S))"
    proof (cases "s = un_server U")
      case True
      then have "u \<in> set (ns_userlist S0)" using lists_mem [OF l, of u] assms(3) sh by auto
      with assms(6) S0 True show ?thesis by simp
    next
      case False
      then have "s \<notin> T" using assms(2) by blast
      with False S0 d(4) show ?thesis unfolding servers_but_def by auto
    qed
  qed
  moreover have "logins_ok ?st"
    unfolding logins_ok_def
  proof (intro conjI allI impI)
    fix a A assume "accounts ?st a = Some A"
    then obtain A0 where A0: "accounts st a = Some A0"
      "la_logins A = (if un_myuser U = Some a then remove1 u (la_logins A0) else la_logins A0)"
      by (cases "un_myuser U") (auto simp: f(8) split: if_splits elim!: map_option_SomeE)
    have l: "lists (la_logins A0) (users st) (\<lambda>U. un_myuser U = Some a)" using d(5) A0(1) unfolding logins_ok_def by blast
    show "lists (la_logins A) (users ?st) (\<lambda>U. un_myuser U = Some a)"
      using upd_lists_remove [OF l assms(3)] A0(2) sh unfolding f(1) by (auto split: if_splits)
  next
    fix v V a assume "users ?st v = Some V \<and> un_myuser V = Some a"
    then have "accounts st a \<noteq> None" using d(5) by (auto simp: f(1) logins_ok_def split: if_splits)
    then show "accounts ?st a \<noteq> None" by (auto simp: f(8) split: option.split)
  qed
  moreover have "fresh_ok ?st" using d(6) by (auto simp: fresh_ok_def f(1,2,3,5,10))
  moreover have "totals_ok ?st"
    using d(7) fresh_finite [OF d(6)] assms(3) by (simp add: totals_ok_def f)
  ultimately show ?thesis by (simp add: net_but_def)
qed

section \<open>New users and memberships\<close>

lemma user_new_net:
  assumes "net_but T E X st" "servers st s \<noteq> None" "user_find_named E (ud_nick d) st = None"
  shows "net_but T E X (snd (user_new E d s ts st))" "fst (user_new E d s ts st) = fresh_ref st"
proof -
  note i = net_butD [OF assms(1)]
  let ?u = "fresh_ref st" and ?st = "snd (user_new E d s ts st)" and ?k = "canon E (ud_nick d)"
  obtain U where U: "users ?st = (users st)(?u := Some U)" "un_nick U = ud_nick d" "un_uid U = ud_uid d" "un_channels U = []"
    "un_server U = s" "un_myuser U = None"
    by (simp add: user_new_def Let_def)
  have k: "userlist st ?k = None" using assms(3) by (simp add: user_find_named_def)
  have f: "channels ?st = channels st" "members ?st = members st" "chanlist ?st = chanlist st" "accounts ?st = accounts st"
    "servers ?st = (servers st)(s := map_option (\<lambda>S. S\<lparr>ns_users := ns_users S + 1, ns_userlist := ns_userlist S @ [?u]\<rparr>) (servers st s))"
    "userlist ?st = (userlist st)(?k := Some ?u)"
    "uidlist ?st = (case ud_uid d of None \<Rightarrow> uidlist st | Some i \<Rightarrow> dict_add (uidlist st) i ?u)"
    "mychan_chan ?st = mychan_chan st" "fresh_ref ?st = Suc ?u"
    "cnt_user ?st = cnt_user st + 1" "cnt_chan ?st = cnt_chan st" "cnt_chanuser ?st = cnt_chanuser st"
    using k by (simp_all add: user_new_def Let_def dict_add_def)
  have new: "users st ?u = None" "\<And>m M. members st m = Some M \<Longrightarrow> nm_user M \<noteq> ?u"
    using i(6) memb_okD(3) [OF i(1)] unfolding fresh_ok_def by (metis less_irrefl)+
  have "memb_ok ?st"
    unfolding memb_ok_def f U
  proof (intro conjI allI impI)
    fix v V assume h: "((users st)(?u := Some U)) v = Some V"
    show "lists (un_channels V) (members st) (\<lambda>M. nm_user M = v)"
    proof (cases "v = ?u")
      case True
      with h U(4) new(2) show ?thesis by (auto simp: lists_def)
    next
      case False
      with h memb_okD(2) [OF i(1)] show ?thesis by simp
    qed
  next
    fix m M assume "members st m = Some M"
    with memb_okD(3) [OF i(1) this]
    show "channels st (nm_chan M) \<noteq> None" "((users st)(?u := Some U)) (nm_user M) \<noteq> None" by auto
  qed (use memb_okD(1,4) [OF i(1)] in blast)+
  moreover have "counts_but E X ?st"
  proof -
    have "svc_member E ?st = svc_member E st"
      by (rule ext) (use new(2) in \<open>auto simp: svc_member_def is_internal_client_def f U split: option.split\<close>)
    then show ?thesis using i(2) by (simp add: counts_but_def count_ok_def f)
  qed
  moreover have "names_ok E ?st"
  proof -
    have "((userlist st)(?k := Some ?u)) k = Some v \<longleftrightarrow>
        (\<exists>V. ((users st)(?u := Some U)) v = Some V \<and> canon E (un_nick V) = k)" for k v
    proof (cases "v = ?u")
      case True
      have "userlist st k \<noteq> Some ?u" using names_user [OF i(3), of k ?u] new(1) by simp
      with True show ?thesis using U(2) by auto
    next
      case False
      then show ?thesis using names_user [OF i(3), of k v] k by auto
    qed
    moreover have "\<exists>V. ((users st)(?u := Some U)) v = Some V \<and> un_uid V = Some k" if h: "uidlist ?st k = Some v" for k v
    proof (cases "uidlist st k = Some v")
      case True
      then obtain V where "users st v = Some V" "un_uid V = Some k" using names_uid [OF i(3)] by blast
      moreover from this have "v \<noteq> ?u" using new(1) by auto
      ultimately show ?thesis by simp
    next
      case False
      with h have "v = ?u" "ud_uid d = Some k" by (auto simp: f(7) dict_add_def split: option.splits if_splits)
      with U(3) show ?thesis by simp
    qed
    ultimately show ?thesis using i(3) by (simp add: names_ok_def f(1-3,6,8) U(1))
  qed
  moreover have "servers_but T ?st"
    unfolding servers_but_def
  proof (intro conjI allI impI)
    show "servers ?st (un_server V) \<noteq> None" if "users ?st v = Some V" for v V
    proof -
      have "servers st (un_server V) \<noteq> None"
        using that i(4) assms(2) U(5) by (auto simp: servers_but_def U(1) split: if_splits)
      then show ?thesis by (auto simp: f(5))
    qed
    fix r S assume "servers ?st r = Some S"
    then obtain S0 where S0: "servers st r = Some S0"
      "S = (if r = s then S0\<lparr>ns_users := ns_users S0 + 1, ns_userlist := ns_userlist S0 @ [?u]\<rparr> else S0)"
      unfolding f(5) by (rule upd_SomeE)
    have l: "lists (ns_userlist S0) (users st) (\<lambda>U. un_server U = r)" "r \<notin> T \<longrightarrow> ns_users S0 = of_nat (length (ns_userlist S0))"
      using i(4) S0(1) unfolding servers_but_def by blast+
    show "lists (ns_userlist S) (users ?st) (\<lambda>U. un_server U = r)"
      using lists_append [OF l(1) new(1), of U] lists_add_other [OF l(1) new(1), of U] S0(2) U(5) unfolding U(1) by auto
    show "r \<notin> T \<Longrightarrow> ns_users S = of_nat (length (ns_userlist S))" using l(2) S0(2) by simp
  qed
  moreover have "logins_ok ?st"
    unfolding logins_ok_def f U
  proof (intro conjI allI impI)
    show "lists (la_logins A) ((users st)(?u := Some U)) (\<lambda>U. un_myuser U = Some a)" if "accounts st a = Some A" for a A
      by (rule lists_add_other) (use that i(5) new(1) U(6) in \<open>auto simp: logins_ok_def\<close>)
    show "accounts st a \<noteq> None" if "((users st)(?u := Some U)) v = Some V \<and> un_myuser V = Some a" for v V a
      using that i(5) U(6) by (auto simp: logins_ok_def split: if_splits)
  qed
  moreover have "fresh_ok ?st"
    using i(6) unfolding fresh_ok_def f U by (auto simp: less_Suc_eq)
  moreover have "totals_ok ?st"
    using i(7) fresh_finite [OF i(6)] new(1) by (simp add: totals_ok_def f U domIff)
  ultimately show "net_but T E X ?st" by (simp add: net_but_def)
  show "fst (user_new E d s ts st) = ?u" by (simp add: user_new_def Let_def)
qed

text \<open>
  The full invariant of a running daemon: the above, and the services' own server is there.
\<close>

definition live_ok :: "net_env \<Rightarrow> net \<Rightarrow> bool" where
  "live_ok E st \<longleftrightarrow> net_ok E st \<and> servers st (ne_me E) \<noteq> None"

lemma live_okI: "net_but {} E {} st \<Longrightarrow> servers st (ne_me E) \<noteq> None \<Longrightarrow> live_ok E st"
  by (simp add: live_ok_def net_ok_def)

lemma live_okD: "live_ok E st \<Longrightarrow> net_but {} E {} st" "live_ok E st \<Longrightarrow> servers st (ne_me E) \<noteq> None"
  by (simp_all add: live_ok_def net_ok_def)

lemma user_new_servers: "servers (snd (user_new E d s ts st)) r \<noteq> None \<longleftrightarrow> servers st r \<noteq> None"
  by (simp add: user_new_def Let_def)

lemma introduce_enforcer_live:
  assumes "live_ok E st"
  shows "live_ok E (introduce_enforcer E nick st)"
proof (cases "user_find_named E nick st")
  case None
  define d where "d = \<lparr>ud_nick = nick, ud_user = ''enforcer'', ud_host = ne_me_name E, ud_vhost = None,
                ud_ip = None, ud_uid = (if ne_uses_uid E then ne_uid_get E st else None), ud_gecos = ''Held for nickname owner''\<rparr>"
  obtain u st1 where n: "user_new E d (ne_me E) 1 st = (u, st1)" by (cases "user_new E d (ne_me E) 1 st") auto
  have "net_but {} E {} (snd (user_new E d (ne_me E) 1 st))"
    by (rule user_new_net(1)) (use live_okD [OF assms] None in \<open>simp_all add: d_def\<close>)
  then have "net_but {} E {} (upd_user u (\<lambda>U. U\<lparr>un_flags := un_flags U OR UF_INVIS OR UF_ENFORCER\<rparr>) st1)"
    unfolding n snd_conv by (rule upd_user_net) simp
  moreover have "servers st1 (ne_me E) \<noteq> None"
    using live_okD(2) [OF assms] user_new_servers [of E d "ne_me E" 1 st "ne_me E"] n by simp
  ultimately have "live_ok E (emit (Introduce_nick u)
      (upd_user u (\<lambda>U. U\<lparr>un_flags := un_flags U OR UF_INVIS OR UF_ENFORCER\<rparr>) st1))"
    by (intro live_okI) simp_all
  moreover have "introduce_enforcer E nick st = emit (Introduce_nick u)
      (upd_user u (\<lambda>U. U\<lparr>un_flags := un_flags U OR UF_INVIS OR UF_ENFORCER\<rparr>) st1)"
    unfolding introduce_enforcer_def None d_def [symmetric] n by simp
  ultimately show ?thesis by simp
next
  case (Some u)
  then show ?thesis using assms by (simp add: introduce_enforcer_def)
qed

lemma user_delete_eq:
  assumes "users st u = Some U0" "U = U0\<lparr>un_flags := un_flags U0 AND NOT UF_DOENFORCE\<rparr>"
    and "st1 = upd_server (un_server U) (\<lambda>S. S\<lparr>ns_users := ns_users S - 1,
                      ns_opers := (if is_ircop U then ns_opers S - 1 else ns_opers S),
                      ns_invis := (if is_invis U then ns_invis S - 1 else ns_invis S)\<rparr>)
                    (emit (Hook_user_delete u comment) (upd_user u (\<lambda>_. U) st))"
  shows "user_delete E u comment st =
    (let st6 = drop_user E u U (part_all E u (un_channels U) st1)
     in if un_flags U0 AND UF_DOENFORCE \<noteq> 0 then introduce_enforcer E (NICKLEN_copy (un_nick U)) st6 else st6)"
  unfolding user_delete_def drop_user_def part_all_def Let_def assms by simp

lemma user_delete_live:
  assumes "live_ok E st"
  shows "live_ok E (user_delete E u comment st)"
proof (cases "users st u")
  case None
  then show ?thesis using assms by (simp add: user_delete_def)
next
  case (Some U0)
  note d = net_butD [OF live_okD(1) [OF assms]]
  define U where "U = U0\<lparr>un_flags := un_flags U0 AND NOT UF_DOENFORCE\<rparr>"
  let ?st0 = "emit (Hook_user_delete u comment) (upd_user u (\<lambda>_. U) st)"
  let ?g = "\<lambda>S. S\<lparr>ns_users := ns_users S - 1, ns_opers := (if is_ircop U then ns_opers S - 1 else ns_opers S),
                      ns_invis := (if is_invis U then ns_invis S - 1 else ns_invis S)\<rparr>"
  define st1 where "st1 = upd_server (un_server U) ?g ?st0"
  let ?st2 = "part_all E u (un_channels U) st1"
  have "net_but {} E {} (upd_user u (\<lambda>_. U) st)"
    by (rule upd_user_net [OF live_okD(1) [OF assms]]) (use Some in \<open>auto simp: U_def\<close>)
  then have "net_but {un_server U} E {} (upd_server (un_server U) ?g ?st0)"
    by (intro upd_server_net [where T = "{}"]) auto
  then have n1: "net_but {un_server U} E {} st1" by (simp add: st1_def)
  have m1: "members st1 = members st" by (simp add: st1_def)
  have l: "m \<in> set (un_channels U) \<longleftrightarrow> (\<exists>M. members st m = Some M \<and> nm_user M = u)" for m
    using lists_mem [OF memb_okD(2) [OF d(1) Some]] by (simp add: U_def)
  have p: "net_but {un_server U} E {} ?st2 \<and> ushapes_eq st1 ?st2 \<and>
      (\<forall>m M. members ?st2 m = Some M \<longrightarrow> nm_user M \<noteq> u)"
    by (rule part_all_spec [OF n1]) (use l in \<open>auto simp: m1\<close>)
  have "users st1 u = Some U" using Some by (simp add: st1_def)
  moreover have "map_option user_shape (users ?st2 u) = map_option user_shape (users st1 u)"
    using p unfolding ushapes_eq_def by blast
  ultimately obtain U2 where U2: "users ?st2 u = Some U2" "user_shape U2 = user_shape U" by auto
  have s2: "servers ?st2 = servers st1" using p unfolding ushapes_eq_def by blast
  have "net_but {} E {} (drop_user E u U ?st2)"
  proof (rule drop_user_net [OF _ _ U2])
    fix S assume "servers ?st2 (un_server U) = Some S"
    then have "servers st1 (un_server U) = Some S" unfolding s2 .
    then have "servers (upd_server (un_server U) ?g ?st0) (un_server U) = Some S" unfolding st1_def .
    then obtain S0 where S0: "servers st (un_server U) = Some S0" "S = ?g S0"
      unfolding upd_server_simps(1) emit_simps upd_user_simps(4) by (rule upd_SomeE) simp
    then have "ns_users S0 = of_nat (length (ns_userlist S0))" using d(4) unfolding servers_but_def by blast
    with S0(2) show "ns_users S = of_nat (length (ns_userlist S)) - 1" by simp
  qed (use p in auto)
  moreover have "servers (drop_user E u U ?st2) (ne_me E) \<noteq> None"
  proof -
    have "servers st1 (ne_me E) \<noteq> None" using live_okD(2) [OF assms] by (auto simp: st1_def)
    then have "servers ?st2 (ne_me E) \<noteq> None" unfolding s2 .
    then show ?thesis using drop_user_simps(5) [OF U2(1), of U E] user_shape_fields [OF U2(2)] by auto
  qed
  ultimately have "live_ok E (drop_user E u U ?st2)" by (rule live_okI)
  then show ?thesis
    unfolding user_delete_eq [OF Some U_def st1_def] using introduce_enforcer_live by (simp add: Let_def)
qed

lemma emit_live [simp]: "live_ok E (emit e st) = live_ok E st"
  by (simp add: live_ok_def net_ok_def)

lemma user_add_live:
  assumes "live_ok E st" "servers st s \<noteq> None"
  shows "live_ok E (snd (user_add E d s ts st))"
proof (cases "user_find_named E (ud_nick d) st")
  case None
  have "net_but {} E {} (snd (user_new E d s ts st))"
    by (rule user_new_net(1)) (use live_okD [OF assms(1)] assms(2) None in simp_all)
  moreover have "servers (snd (user_new E d s ts st)) (ne_me E) \<noteq> None"
    using live_okD(2) [OF assms(1)] unfolding user_new_servers .
  ultimately show ?thesis using None by (simp add: user_add_def split_def Let_def live_okI)
next
  case (Some u2)
  then show ?thesis
    using assms(1) user_delete_live by (auto simp: user_add_def split: option.split)
qed

lemma user_changeuid_live:
  assumes "live_ok E st"
  shows "live_ok E (user_changeuid u uid st)"
proof (cases "users st u")
  case None
  then show ?thesis using assms by (simp add: user_changeuid_def)
next
  case (Some U)
  note i = net_butD [OF live_okD(1) [OF assms]]
  let ?st = "user_changeuid u uid st" and ?f = "\<lambda>U. U\<lparr>un_uid := uid\<rparr>"
  let ?del = "case un_uid U of None \<Rightarrow> uidlist st | Some i \<Rightarrow> (uidlist st)(i := None)"
  have f: "users ?st = (users st)(u := Some (U\<lparr>un_uid := uid\<rparr>))" "channels ?st = channels st" "members ?st = members st"
    "servers ?st = servers st" "userlist ?st = userlist st" "chanlist ?st = chanlist st" "accounts ?st = accounts st"
    "mychan_chan ?st = mychan_chan st" "fresh_ref ?st = fresh_ref st" "cnt_user ?st = cnt_user st" "cnt_chan ?st = cnt_chan st"
    "cnt_chanuser ?st = cnt_chanuser st" "uidlist ?st = (case uid of None \<Rightarrow> ?del | Some i \<Rightarrow> dict_add ?del i u)"
    using Some by (simp_all add: user_changeuid_def Let_def split: option.split)
  have ex: "(\<exists>V. ((users st)(u := Some (U\<lparr>un_uid := uid\<rparr>))) v = Some V \<and> P V) = (\<exists>V. users st v = Some V \<and> P V)"
    if "P (U\<lparr>un_uid := uid\<rparr>) = P U" for v P
    using that Some by (cases "v = u") auto
  have ls: "lists us ((users st)(u := Some (U\<lparr>un_uid := uid\<rparr>))) P = lists us (users st) P"
    if "P (U\<lparr>un_uid := uid\<rparr>) = P U" for us P
  proof -
    have "(\<exists>V. ((users st)(u := Some (U\<lparr>un_uid := uid\<rparr>))) v = Some V \<and> P V) = (\<exists>V. users st v = Some V \<and> P V)" for v
      by (rule ex) (rule that)
    then show ?thesis by (simp add: lists_def)
  qed
  have "memb_ok ?st"
    unfolding memb_ok_def f
  proof (intro conjI allI impI)
    show "lists (un_channels V) (members st) (\<lambda>M. nm_user M = v)"
      if "((users st)(u := Some (U\<lparr>un_uid := uid\<rparr>))) v = Some V" for v V
      using that memb_okD(2) [OF i(1), of v] Some by (auto split: if_splits)
    fix m M assume "members st m = Some M"
    with memb_okD(3) [OF i(1) this]
    show "channels st (nm_chan M) \<noteq> None" "((users st)(u := Some (U\<lparr>un_uid := uid\<rparr>))) (nm_user M) \<noteq> None" by auto
  qed (use memb_okD(1,4) [OF i(1)] in blast)+
  moreover have "counts_but E {} ?st"
  proof -
    have "svc_member E ?st = svc_member E st"
      by (rule ext) (use Some in \<open>auto simp: svc_member_def is_internal_client_def f split: option.split\<close>)
    then show ?thesis using i(2) by (simp add: counts_but_def count_ok_def f)
  qed
  moreover have "names_ok E ?st"
  proof -
    have "\<exists>V. ((users st)(u := Some (U\<lparr>un_uid := uid\<rparr>))) v = Some V \<and> un_uid V = Some k" if h: "uidlist ?st k = Some v" for k v
    proof (cases "?del k = Some v")
      case True
      then have "uidlist st k = Some v" "un_uid U \<noteq> Some k" by (auto split: option.splits if_splits)
      then obtain V where V: "users st v = Some V" "un_uid V = Some k" using names_uid [OF i(3)] by blast
      with \<open>un_uid U \<noteq> Some k\<close> Some have "v \<noteq> u" by auto
      with V show ?thesis by simp
    next
      case False
      with h have "v = u" "uid = Some k" by (auto simp: f(13) dict_add_def split: option.splits if_splits)
      then show ?thesis by simp
    qed
    then show ?thesis using i(3) ex [of "\<lambda>V. canon E (un_nick V) = k" for k]
      unfolding names_ok_def f(1-12) by simp
  qed
  moreover have "servers_but {} ?st"
    using i(4) ls [of "\<lambda>V. un_server V = s" for s] Some unfolding servers_but_def f by auto
  moreover have "logins_ok ?st"
    using i(5) ls [of "\<lambda>V. un_myuser V = Some a" for a] Some unfolding logins_ok_def f by auto
  moreover have "fresh_ok ?st"
    using i(6) Some by (auto simp: fresh_ok_def f(1-12))
  moreover have "totals_ok ?st"
    using i(7) Some by (simp add: totals_ok_def f(1-12) insert_absorb domI)
  ultimately show ?thesis
    using live_okD(2) [OF assms] by (intro live_okI) (simp_all add: net_but_def f)
qed

text \<open>Renaming a user to a free name.\<close>

definition rename_user :: "net_env \<Rightarrow> uref \<Rightarrow> cstr \<Rightarrow> cstr \<Rightarrow> int \<Rightarrow> net \<Rightarrow> net" where
  "rename_user E u old nick ts st =
     (let st2 = upd_user u (\<lambda>U. U\<lparr>un_nick := nick, un_ts := ts\<rparr>) (st\<lparr>userlist := (userlist st)(canon E old := None)\<rparr>)
      in st2\<lparr>userlist := dict_add (userlist st2) (canon E nick) u\<rparr>)"

lemma rename_user_live:
  assumes "live_ok E st" "users st u = Some U" "user_find_named E nick st \<in> {None, Some u}"
  shows "live_ok E (rename_user E u (un_nick U) nick ts st)"
proof -
  note i = net_butD [OF live_okD(1) [OF assms(1)]]
  let ?st = "rename_user E u (un_nick U) nick ts st" and ?V = "U\<lparr>un_nick := nick, un_ts := ts\<rparr>"
  let ?k = "canon E nick" and ?o = "canon E (un_nick U)"
  have old: "userlist st ?o = Some u" using names_user [OF i(3)] assms(2) by blast
  have new: "userlist st ?k = None \<or> ?k = ?o"
  proof (cases "userlist st ?k = Some u")
    case True
    then have "canon E (un_nick U) = ?k" using names_user [OF i(3), of ?k u] assms(2) by simp
    then show ?thesis by simp
  next
    case False
    then show ?thesis using assms(3) by (simp add: user_find_named_def)
  qed
  have f: "users ?st = (users st)(u := Some ?V)" "channels ?st = channels st" "members ?st = members st"
    "servers ?st = servers st" "chanlist ?st = chanlist st" "accounts ?st = accounts st"
    "mychan_chan ?st = mychan_chan st" "fresh_ref ?st = fresh_ref st" "cnt_user ?st = cnt_user st" "cnt_chan ?st = cnt_chan st"
    "cnt_chanuser ?st = cnt_chanuser st" "uidlist ?st = uidlist st" "userlist ?st = (userlist st)(?o := None, ?k := Some u)"
    using assms(2) new by (auto simp: rename_user_def Let_def dict_add_def)
  have ex: "(\<exists>W. ((users st)(u := Some ?V)) v = Some W \<and> P W) = (\<exists>W. users st v = Some W \<and> P W)"
    if "P ?V = P U" for v P
    using that assms(2) by (cases "v = u") auto
  have ls: "lists us ((users st)(u := Some ?V)) P = lists us (users st) P" if "P ?V = P U" for us P
  proof -
    have "(\<exists>W. ((users st)(u := Some ?V)) v = Some W \<and> P W) = (\<exists>W. users st v = Some W \<and> P W)" for v
      by (rule ex) (rule that)
    then show ?thesis by (simp add: lists_def)
  qed
  have "memb_ok ?st"
    unfolding memb_ok_def f
  proof (intro conjI allI impI)
    show "lists (un_channels W) (members st) (\<lambda>M. nm_user M = v)"
      if "((users st)(u := Some ?V)) v = Some W" for v W
      using that memb_okD(2) [OF i(1), of v] assms(2) by (auto split: if_splits)
    fix m M assume "members st m = Some M"
    with memb_okD(3) [OF i(1) this]
    show "channels st (nm_chan M) \<noteq> None" "((users st)(u := Some ?V)) (nm_user M) \<noteq> None" by auto
  qed (use memb_okD(1,4) [OF i(1)] in blast)+
  moreover have "counts_but E {} ?st"
  proof -
    have "svc_member E ?st = svc_member E st"
      by (rule ext) (use assms(2) in \<open>auto simp: svc_member_def is_internal_client_def f split: option.split\<close>)
    then show ?thesis using i(2) by (simp add: counts_but_def count_ok_def f)
  qed
  moreover have "names_ok E ?st"
  proof -
    have "((userlist st)(?o := None, ?k := Some u)) k = Some v \<longleftrightarrow>
        (\<exists>W. ((users st)(u := Some ?V)) v = Some W \<and> canon E (un_nick W) = k)" for k v
    proof (cases "v = u")
      case True
      have "userlist st k = Some u \<longrightarrow> k = ?o" using names_user [OF i(3), of k u] assms(2) by auto
      with True show ?thesis by auto
    next
      case False
      have "userlist st ?o \<noteq> Some v" "userlist st ?k \<noteq> Some v" using old new False by auto
      then show ?thesis using False names_user [OF i(3), of k v] by auto
    qed
    then show ?thesis using i(3) ex [of "\<lambda>W. un_uid W = Some k" for k]
      unfolding names_ok_def f by simp
  qed
  moreover have "servers_but {} ?st"
    using i(4) ls [of "\<lambda>V. un_server V = s" for s] assms(2) unfolding servers_but_def f by auto
  moreover have "logins_ok ?st"
    using i(5) ls [of "\<lambda>V. un_myuser V = Some a" for a] assms(2) unfolding logins_ok_def f by auto
  moreover have "fresh_ok ?st" using i(6) assms(2) by (auto simp: fresh_ok_def f)
  moreover have "totals_ok ?st"
    using i(7) assms(2) by (simp add: totals_ok_def f insert_absorb domI)
  ultimately show ?thesis
    using live_okD(2) [OF assms(1)] by (intro live_okI) (simp_all add: net_but_def f)
qed

lemma mynicks_live [simp]: "live_ok E (st\<lparr>mynicks := x\<rparr>) = live_ok E st"
proof -
  have "svc_member E (st\<lparr>mynicks := x\<rparr>) = svc_member E st" by (rule svc_member_cong) simp_all
  then show ?thesis
    by (simp add: live_ok_def net_ok_def net_but_def memb_ok_def counts_but_def count_ok_def names_ok_def servers_but_def
        logins_ok_def fresh_ok_def totals_ok_def)
qed

lemma upd_user_live:
  assumes "live_ok E st" "\<And>U. users st u = Some U \<Longrightarrow> un_nick (f U) = un_nick U \<and> un_uid (f U) = un_uid U \<and>
      un_server (f U) = un_server U \<and> un_myuser (f U) = un_myuser U \<and> un_channels (f U) = un_channels U"
  shows "live_ok E (upd_user u f st)"
  using upd_user_net [OF live_okD(1) [OF assms(1)] assms(2)] live_okD(2) [OF assms(1)] by (intro live_okI) auto

lemma user_changenick_live:
  assumes "live_ok E st"
  shows "live_ok E (snd (user_changenick E u nick ts st))"
proof (cases "users st u")
  case None
  then show ?thesis using assms by (simp add: user_changenick_def)
next
  case (Some U0)
  define enforce where "enforce = (un_flags U0 AND UF_DOENFORCE \<noteq> 0 \<and> user_find_named E nick st \<noteq> Some u)"
  define U where "U = (if enforce then U0\<lparr>un_flags := un_flags U0 AND NOT UF_DOENFORCE\<rparr> else U0)"
  define st0 where "st0 = upd_user u (\<lambda>_. U) st"
  have l0: "live_ok E st0"
    unfolding st0_def by (rule upd_user_live [OF assms]) (use Some in \<open>auto simp: U_def\<close>)
  have u0: "users st0 u = Some U" "user_find_named E nick st0 = user_find_named E nick st"
    using Some by (simp_all add: st0_def user_find_named_def)
  show ?thesis
  proof (cases "user_find_named E nick st \<in> {None, Some u}")
    case True
    let ?k = "canon E (un_nick U)"
    define st1 where "st1 = (case (un_myuser U, mynicks st0 ?k) of
                              (Some a, Some n) \<Rightarrow>
                                if ln_owner n = a then st0\<lparr>mynicks := (mynicks st0)(?k := Some (n\<lparr>ln_lastseen := ne_now E\<rparr>))\<rparr> else st0
                            | _ \<Rightarrow> st0)"
    have l1: "live_ok E st1" and u1: "users st1 u = Some U" "user_find_named E nick st1 = user_find_named E nick st"
      using l0 u0 by (simp_all add: st1_def user_find_named_def split: option.split)
    have "live_ok E (rename_user E u (un_nick U) nick ts st1)"
      by (rule rename_user_live [OF l1 u1(1)]) (use u1(2) True in simp)
    moreover have "snd (user_changenick E u nick ts st) = emit (Hook_user_nickchange u (NICKLEN_copy (un_nick U0)))
        (if enforce then introduce_enforcer E (NICKLEN_copy (un_nick U0)) (rename_user E u (un_nick U) nick ts st1)
         else rename_user E u (un_nick U) nick ts st1)"
    proof -
      have n: "(if user_find_named E nick st = Some u then None else user_find_named E nick st) = None"
        using True by auto
      show ?thesis
        unfolding user_changenick_def rename_user_def Some option.case Let_def
          enforce_def [symmetric] U_def [symmetric] st0_def [symmetric] n st1_def [symmetric]
        by (simp only: option.case snd_conv)
    qed
    ultimately show ?thesis using introduce_enforcer_live by simp
  next
    case False
    then obtain v where v: "user_find_named E nick st = Some v" "v \<noteq> u" by auto
    have e: "user_changenick E u nick ts st =
      (case users st0 v of
                    None \<Rightarrow> (False, st0)
                  | Some V \<Rightarrow>
                      if un_server U = ne_me E then (False, st0)
                      else if un_server V = ne_me E
                      then (True, user_delete E u ''Nick change collision with services''
                              (emit (Kill_id (case un_uid U of Some i \<Rightarrow> i | None \<Rightarrow> un_nick U)
                                       ''Nick change collision with services'') st0))
                      else case (un_uid U, un_uid V) of
                             (Some i, Some j) \<Rightarrow>
                               (True, user_delete E v ''Ghost detected via nick change collision (old)''
                                  (user_delete E u ''Ghost detected via nick change collision (new)''
                                    (emit (Kill_id j ''Ghost detected via nick change collision (old)'')
                                      (emit (Kill_id i ''Ghost detected via nick change collision (new)'')
                                        (emit Wallops st0)))))
                           | _ \<Rightarrow>
                               (True, user_delete E v ''Ghost detected via nick change collision''
                                  (user_delete E u ''Ghost detected via nick change collision''
                                    (emit (Kill_id nick ''Ghost detected via nick change collision'')
                                      (emit (Kill_id (un_nick U) ''Ghost detected via nick change collision'')
                                        (emit Wallops st0))))))"
      unfolding user_changenick_def st0_def U_def enforce_def Let_def Some option.case v(1) using v(2) by (simp only: option.inject if_False option.case simp_thms)
    show ?thesis unfolding e using l0 user_delete_live by (auto split: option.split)
  qed
qed

lemma user_mode_live:
  assumes "live_ok E st"
  shows "live_ok E (user_mode E u modes st)"
proof (cases "users st u")
  case None
  then show ?thesis using assms by (simp add: user_mode_def)
next
  case (Some U)
  have us: "live_ok E (upd_server s g st')" if "live_ok E st'" "\<And>S. ns_userlist (g S) = ns_userlist S \<and> ns_users (g S) = ns_users S" for s g st'
  proof (rule live_okI)
    have "servers_but {} st'" using net_butD(4) [OF live_okD(1) [OF that(1)]] .
    then show "net_but {} E {} (upd_server s g st')"
      by (intro upd_server_net [OF live_okD(1) [OF that(1)]]) (use that(2) in \<open>auto simp: servers_but_def\<close>)
    show "servers (upd_server s g st') (ne_me E) \<noteq> None" using live_okD(2) [OF that(1)] by auto
  qed
  define U' where "U' = U\<lparr>un_flags := mode_flags (ne_user_modes E) True modes (un_flags U)\<rparr>"
  have l1: "live_ok E (upd_user u (\<lambda>_. U') st)"
    by (rule upd_user_live [OF assms]) (use Some in \<open>auto simp: U'_def\<close>)
  show ?thesis
    unfolding user_mode_def Some option.case U'_def [symmetric] Let_def
    by (simp add: us l1)
qed

lemma user_sethost_live:
  assumes "live_ok E st"
  shows "live_ok E (user_sethost source target host st)"
proof -
  have "live_ok E (upd_user target (\<lambda>U. U\<lparr>un_vhost := host\<rparr>) st)" by (rule upd_user_live [OF assms]) simp
  then show ?thesis using assms by (simp add: user_sethost_def)
qed

lemma kill_user_live:
  assumes "live_ok E st"
  shows "live_ok E (kill_user E source victim reason st)"
  using assms user_delete_live by (auto simp: kill_user_def Let_def split: option.split)

lemma chanuser_delete_live:
  assumes "live_ok E st"
  shows "live_ok E (chanuser_delete E c u st)"
proof -
  have "servers (chanuser_delete E c u st) = servers st"
    using ushapes_chanuser_delete [of st E c u] by (simp add: ushapes_eq_def)
  then show ?thesis
    using chanuser_delete_net [OF live_okD(1) [OF assms]] live_okD(2) [OF assms] by (intro live_okI) simp_all
qed

lemma channel_delete_live:
  assumes "live_ok E st"
  shows "live_ok E (channel_delete E c st)"
proof (cases "channels st c")
  case None
  then show ?thesis using assms by (simp add: channel_delete_def)
next
  case (Some C)
  have "servers (channel_delete E c st) = servers st"
    using ushapes_channel_delete [of st E c] by (simp add: ushapes_eq_def)
  then show ?thesis
    using channel_delete_net [OF live_okD(1) [OF assms], of c "{}"] Some live_okD(2) [OF assms]
    by (intro live_okI) simp_all
qed

lemma part_live:
  assumes "live_ok E st"
  shows "live_ok E (part E chan nick st)"
  using assms chanuser_delete_live by (auto simp: part_def split: option.split)

lemma channel_add_live:
  assumes "live_ok E st"
  shows "live_ok E (snd (channel_add E name ts creator st))"
proof (cases "\<not> valid_global_channel_pfx name \<or> channel_find E name st \<noteq> None")
  case True
  then show ?thesis using assms by (auto simp: channel_add_def split: option.split)
next
  case False
  note i = net_butD [OF live_okD(1) [OF assms]]
  let ?c = "fresh_ref st" and ?k = "canon E name"
  let ?C = "\<lparr>nc_name = name, nc_modes = 0, nc_nummembers = 0, nc_numsvcmembers = 0, nc_ts = ts, nc_members = []\<rparr>"
  let ?st = "snd (channel_add E name ts creator st)"
  have k: "chanlist st ?k = None" using False by (simp add: channel_find_def)
  have f: "users ?st = users st" "channels ?st = (channels st)(?c := Some ?C)" "members ?st = members st"
    "servers ?st = servers st" "userlist ?st = userlist st" "uidlist ?st = uidlist st" "accounts ?st = accounts st"
    "chanlist ?st = (chanlist st)(?k := Some ?c)" "fresh_ref ?st = Suc ?c" "cnt_user ?st = cnt_user st"
    "cnt_chan ?st = cnt_chan st + 1" "cnt_chanuser ?st = cnt_chanuser st"
    "mychan_chan ?st = (case mychan_chan st ?k of None \<Rightarrow> mychan_chan st
                                            | Some _ \<Rightarrow> (mychan_chan st)(?k := Some (Some ?c)))"
    using False k by (auto simp: channel_add_def dict_add_def Let_def)
  have new: "channels st ?c = None" "\<And>m M. members st m = Some M \<Longrightarrow> nm_chan M \<noteq> ?c"
    using i(6) memb_okD(3) [OF i(1)] unfolding fresh_ok_def by (metis less_irrefl)+
  have "memb_ok ?st"
    unfolding memb_ok_def f
  proof (intro conjI allI impI)
    fix c C assume h: "((channels st)(?c := Some ?C)) c = Some C"
    show "lists (nc_members C) (members st) (\<lambda>M. nm_chan M = c)"
    proof (cases "c = ?c")
      case True
      with h new(2) show ?thesis by (auto simp: lists_def)
    next
      case False
      with h memb_okD(1) [OF i(1)] show ?thesis by simp
    qed
  next
    fix m M assume "members st m = Some M"
    with memb_okD(3) [OF i(1) this]
    show "((channels st)(?c := Some ?C)) (nm_chan M) \<noteq> None" "users st (nm_user M) \<noteq> None" by auto
  qed (use memb_okD(2,4) [OF i(1)] in blast)+
  moreover have "counts_but E {} ?st"
  proof -
    have "svc_member E ?st = svc_member E st" by (rule svc_member_cong) (simp_all only: f)
    then show ?thesis using i(2) by (simp add: counts_but_def count_ok_def f)
  qed
  moreover have "names_ok E ?st"
  proof -
    have ch: "((chanlist st)(?k := Some ?c)) k = Some c \<longleftrightarrow>
        (\<exists>C. ((channels st)(?c := Some ?C)) c = Some C \<and> canon E (nc_name C) = k)" for k c
    proof (cases "c = ?c")
      case True
      have "chanlist st k \<noteq> Some ?c" using names_chan [OF i(3), of k ?c] new(1) by simp
      with True show ?thesis by auto
    next
      case False
      then show ?thesis using names_chan [OF i(3), of k c] k by auto
    qed
    moreover have "((chanlist st)(?k := Some ?c)) k = Some c" if "mychan_chan ?st k = Some (Some c)" for k c
    proof (cases "k = ?k \<and> mychan_chan st ?k \<noteq> None")
      case True
      with that show ?thesis by (auto simp: f(13) split: option.splits)
    next
      case False
      with that have m: "mychan_chan st k = Some (Some c)" by (auto simp: f(13) split: option.splits if_splits)
      then have "chanlist st k = Some c" using i(3) unfolding names_ok_def by blast
      with k False m show ?thesis by auto
    qed
    ultimately show ?thesis using i(3) unfolding names_ok_def f(1-8) by blast
  qed
  moreover have "servers_but {} ?st" using i(4) by (simp add: servers_but_def f)
  moreover have "logins_ok ?st" using i(5) by (simp add: logins_ok_def f)
  moreover have "fresh_ok ?st" using i(6) by (auto simp: fresh_ok_def f(1-12) less_Suc_eq)
  moreover have "totals_ok ?st"
    using i(7) fresh_finite [OF i(6)] new(1) by (simp add: totals_ok_def f(1-12) domIff)
  ultimately show ?thesis
    using live_okD(2) [OF assms] by (intro live_okI) (simp_all add: net_but_def f(4))
qed

section \<open>Joining\<close>

lemma upd_member_live:
  assumes "live_ok E st" "\<And>M. nm_chan (h M) = nm_chan M \<and> nm_user (h M) = nm_user M"
  shows "live_ok E (upd_member m h st)"
proof -
  note i = net_butD [OF live_okD(1) [OF assms(1)]]
  let ?st = "upd_member m h st"
  have old: "\<exists>M0. members st n = Some M0 \<and> nm_chan M0 = nm_chan M \<and> nm_user M0 = nm_user M" if "members ?st n = Some M" for n M
  proof -
    from that obtain M0 where "members st n = Some M0" "M = (if n = m then h M0 else M0)"
      unfolding upd_member_simps(1) by (rule upd_SomeE)
    then show ?thesis using assms(2) by auto
  qed
  have ls: "lists ms (members ?st) P" if "lists ms (members st) P" "\<And>M. P (h M) = P M" for ms P
    unfolding upd_member_simps(1) by (rule lists_map [OF that(1)]) (rule that(2))
  have "memb_ok ?st"
    unfolding memb_ok_def
  proof (intro conjI allI impI)
    show "lists (nc_members C) (members ?st) (\<lambda>M. nm_chan M = c)" if "channels ?st c = Some C" for c C
      by (rule ls) (use that memb_okD(1) [OF i(1)] assms(2) in simp_all)
    show "lists (un_channels U) (members ?st) (\<lambda>M. nm_user M = u)" if "users ?st u = Some U" for u U
      by (rule ls) (use that memb_okD(2) [OF i(1)] assms(2) in simp_all)
    show "channels ?st (nm_chan M) \<noteq> None" "users ?st (nm_user M) \<noteq> None" if "members ?st n = Some M" for n M
    proof -
      from old [OF that] obtain M0 where "members st n = Some M0" "nm_chan M0 = nm_chan M" "nm_user M0 = nm_user M" by blast
      with memb_okD(3) [OF i(1)] show "channels ?st (nm_chan M) \<noteq> None" "users ?st (nm_user M) \<noteq> None" by fastforce+
    qed
    fix n k N K assume a: "members ?st n = Some N \<and> members ?st k = Some K \<and> nm_chan N = nm_chan K \<and> nm_user N = nm_user K"
    then obtain N0 K0 where "members st n = Some N0" "nm_chan N0 = nm_chan N" "nm_user N0 = nm_user N"
      "members st k = Some K0" "nm_chan K0 = nm_chan K" "nm_user K0 = nm_user K" using old by metis
    with a show "n = k" using memb_okD(4) [OF i(1)] by metis
  qed
  moreover have "counts_but E {} ?st"
  proof -
    have "svc_member E ?st = svc_member E st"
      by (rule ext) (use assms(2) in \<open>auto simp: svc_member_def is_internal_client_def split: option.split\<close>)
    then show ?thesis using i(2) by (simp add: counts_but_def count_ok_def)
  qed
  moreover have "dom (members ?st) = dom (members st)" by (auto simp: dom_def)
  then have "totals_ok ?st" using i(7) by (simp add: totals_ok_def)
  moreover have "fresh_ok ?st" using i(6) by (auto simp: fresh_ok_def)
  moreover have "names_ok E ?st = names_ok E st" "servers_but {} ?st = servers_but {} st" "logins_ok ?st = logins_ok st"
    by (simp_all add: names_ok_def servers_but_def logins_ok_def)
  ultimately show ?thesis
    using i(3-5) live_okD(2) [OF assms(1)] by (intro live_okI) (simp_all add: net_but_def)
qed

lemma lists_cong:
  assumes "\<And>m. (\<exists>M. store m = Some M \<and> P M) = (\<exists>M. store' m = Some M \<and> P M)"
  shows "lists ms store P = lists ms store' P"
  using assms by (simp add: lists_def)

lemma link_member_live:
  assumes "live_ok E st" "channels st c = Some C" "users st u = Some U" "chanuser_find c u st = None"
  shows "live_ok E (link_member E c u flags st)"
proof -
  note i = net_butD [OF live_okD(1) [OF assms(1)]]
  let ?m = "fresh_ref st" and ?M = "\<lparr>nm_chan = c, nm_user = u, nm_modes = flags\<rparr>"
  let ?st = "link_member E c u flags st" and ?int = "is_internal_client E u st"
  let ?C = "C\<lparr>nc_nummembers := nc_nummembers C + 1, nc_numsvcmembers := (if ?int then nc_numsvcmembers C + 1 else nc_numsvcmembers C),
              nc_members := nc_members C @ [?m]\<rparr>"
  let ?U = "U\<lparr>un_channels := un_channels U @ [?m]\<rparr>"
  have f: "users ?st = (users st)(u := Some ?U)" "channels ?st = (channels st)(c := Some ?C)"
    "members ?st = (members st)(?m := Some ?M)" "servers ?st = servers st" "userlist ?st = userlist st"
    "uidlist ?st = uidlist st" "chanlist ?st = chanlist st" "accounts ?st = accounts st" "mychan_chan ?st = mychan_chan st"
    "fresh_ref ?st = Suc ?m" "cnt_user ?st = cnt_user st" "cnt_chan ?st = cnt_chan st" "cnt_chanuser ?st = cnt_chanuser st + 1"
    using assms(2,3) by (simp_all add: link_member_def Let_def)
  have new: "members st ?m = None" using i(6) unfolding fresh_ok_def by (metis less_irrefl)
  have none: "\<not> (nm_chan M = c \<and> nm_user M = u)" if "members st m = Some M" for m M
    using assms(4) chanuser_find_iff [OF i(1) assms(2,3), of m] that by auto
  have "memb_ok ?st"
    unfolding memb_ok_def f
  proof (intro conjI allI impI)
    fix d D assume h: "((channels st)(c := Some ?C)) d = Some D"
    show "lists (nc_members D) ((members st)(?m := Some ?M)) (\<lambda>M. nm_chan M = d)"
    proof (cases "d = c")
      case True
      with h lists_append [OF memb_okD(1) [OF i(1) assms(2)] new, of ?M] show ?thesis by auto
    next
      case False
      with h have "lists (nc_members D) (members st) (\<lambda>M. nm_chan M = d)" using memb_okD(1) [OF i(1)] by simp
      from lists_add_other [OF this new, of ?M] False show ?thesis by simp
    qed
  next
    fix v V assume h: "((users st)(u := Some ?U)) v = Some V"
    show "lists (un_channels V) ((members st)(?m := Some ?M)) (\<lambda>M. nm_user M = v)"
    proof (cases "v = u")
      case True
      with h lists_append [OF memb_okD(2) [OF i(1) assms(3)] new, of ?M] show ?thesis by auto
    next
      case False
      with h have "lists (un_channels V) (members st) (\<lambda>M. nm_user M = v)" using memb_okD(2) [OF i(1)] by simp
      from lists_add_other [OF this new, of ?M] False show ?thesis by simp
    qed
  next
    fix m M assume h: "((members st)(?m := Some ?M)) m = Some M"
    have "channels st (nm_chan M) \<noteq> None \<and> users st (nm_user M) \<noteq> None"
      using h memb_okD(3) [OF i(1), of m M] assms(2,3) by (auto split: if_splits)
    then show "((channels st)(c := Some ?C)) (nm_chan M) \<noteq> None" "((users st)(u := Some ?U)) (nm_user M) \<noteq> None" by auto
  next
    fix m n M N assume h: "((members st)(?m := Some ?M)) m = Some M \<and> ((members st)(?m := Some ?M)) n = Some N \<and>
      nm_chan M = nm_chan N \<and> nm_user M = nm_user N"
    show "m = n"
    proof (cases "m = ?m \<or> n = ?m")
      case True
      then consider "m = ?m" | "n = ?m" by blast
      then show ?thesis
      proof cases
        case 1
        then show ?thesis using h none [of n N] by (cases "n = ?m") auto
      next
        case 2
        then show ?thesis using h none [of m M] by (cases "m = ?m") auto
      qed
    next
      case False
      then show ?thesis using h memb_okD(4) [OF i(1)] by simp
    qed
  qed
  moreover have "counts_but E {} ?st"
    unfolding counts_but_def
  proof (intro allI impI, elim conjE)
    fix d D assume h: "channels ?st d = Some D"
    have int: "is_internal_client E v ?st = is_internal_client E v st" for v
      using assms(3) by (simp add: is_internal_client_def f)
    have svc: "svc_member E ?st n = svc_member E st n" if "n \<noteq> ?m" for n
      using that by (simp add: svc_member_def f int split: option.split)
    have old: "filter (svc_member E ?st) (nc_members D0) = filter (svc_member E st) (nc_members D0)"
      if "channels st d0 = Some D0" for d0 D0
    proof (intro filter_cong refl svc)
      fix n assume "n \<in> set (nc_members D0)"
      then have "members st n \<noteq> None" using lists_mem [OF memb_okD(1) [OF i(1) that]] by auto
      then show "n \<noteq> ?m" using new by auto
    qed
    have m: "svc_member E ?st ?m = ?int" by (simp add: svc_member_def f int)
    show "count_ok E ?st D"
    proof (cases "d = c")
      case True
      then have D: "D = ?C" using h by (simp add: f)
      have "count_ok E st C" using i(2) assms(2) by (simp add: counts_but_def)
      then show ?thesis using old [OF assms(2)] m by (simp add: D count_ok_def)
    next
      case False
      then have "channels st d = Some D" using h by (simp add: f)
      then show ?thesis using i(2) old by (simp add: counts_but_def count_ok_def)
    qed
  qed
  moreover have "names_ok E ?st"
  proof -
    have "(\<exists>V. ((users st)(u := Some ?U)) v = Some V \<and> P V) = (\<exists>V. users st v = Some V \<and> P V)" if "P ?U = P U" for v P
      using that assms(3) by (cases "v = u") auto
    note ux = this
    have "(\<exists>V. ((channels st)(c := Some ?C)) v = Some V \<and> P V) = (\<exists>V. channels st v = Some V \<and> P V)" if "P ?C = P C" for v P
      using that assms(2) by (cases "v = c") auto
    then show ?thesis
      using i(3) ux [of "\<lambda>V. canon E (un_nick V) = k" for k] ux [of "\<lambda>V. un_uid V = Some k" for k]
      unfolding names_ok_def f by simp
  qed
  moreover have "servers_but {} ?st" "logins_ok ?st"
  proof -
    have ls: "lists us ((users st)(u := Some ?U)) P = lists us (users st) P" if "P ?U = P U" for us P
      by (rule lists_cong) (use that assms(3) in \<open>auto\<close>)
    show "servers_but {} ?st"
      using i(4) ls [of "\<lambda>V. un_server V = s" for s] assms(3) unfolding servers_but_def f by auto
    show "logins_ok ?st"
      using i(5) ls [of "\<lambda>V. un_myuser V = Some a" for a] assms(3) unfolding logins_ok_def f by auto
  qed
  moreover have "fresh_ok ?st" using i(6) assms(2,3) by (auto simp: fresh_ok_def f less_Suc_eq)
  moreover have "totals_ok ?st"
    using i(7) fresh_finite [OF i(6)] new assms(2,3) by (simp add: totals_ok_def f domIff insert_absorb)
  ultimately show ?thesis
    using live_okD(2) [OF assms(1)] by (intro live_okI) (simp_all add: net_but_def f(4))
qed

lemma user_find_live:
  assumes "live_ok E st" "user_find E nick st = (r, st')"
  shows "live_ok E st' \<and> channels st' = channels st \<and> (\<forall>u. r = Some u \<longrightarrow> users st' u \<noteq> None)"
proof -
  note i = net_butD(3) [OF live_okD(1) [OF assms(1)]]
  have "users st u \<noteq> None" if "uidlist st k = Some u" for k u using names_uid [OF i that] by blast
  moreover have "users st u \<noteq> None" if "userlist st k = Some u" for k u using names_user [OF i] that by blast
  ultimately show ?thesis
    using assms by (auto simp: user_find_def split: option.splits if_splits)
qed

lemma chanuser_add_live:
  assumes "live_ok E st"
  shows "live_ok E (snd (chanuser_add E c nick st))"
proof (cases "channels st c")
  case None
  then show ?thesis using assms by (simp add: chanuser_add_def)
next
  case (Some C)
  obtain flags nick' where p: "strip_prefixes (ne_prefix_modes E) 0 nick = (flags, nick')"
    by (cases "strip_prefixes (ne_prefix_modes E) 0 nick") auto
  obtain r st' where r: "user_find E nick' st = (r, st')" by (cases "user_find E nick' st") auto
  note l = user_find_live [OF assms r]
  show ?thesis
  proof (cases r)
    case None
    then show ?thesis using l Some p r assms by (simp add: chanuser_add_def)
  next
    case (Some u)
    then obtain U where U: "users st' u = Some U" using l by blast
    have C: "channels st' c = Some C" using l \<open>channels st c = Some C\<close> by simp
    have m: "live_ok E (upd_member m (\<lambda>M. M\<lparr>nm_modes := nm_modes M OR flags\<rparr>) st')" for m
      by (rule upd_member_live) (use l in simp_all)
    show ?thesis
      using link_member_live [OF _ C U] m l Some p r \<open>channels st c = Some C\<close> assms
      by (simp add: chanuser_add_def split: option.split)
  qed
qed

end
