(* ===== verification/NetworkTree.thy ===== *)
theory NetworkTree
  imports NetworkLive
begin

text \<open>
  The server tree of \<open>libathemecore/servers.c\<close>: what the operations of clients and channels leave of the
  servers (\<open>srv_frame\<close>), the tree invariant (\<open>tree_ok\<close>), \<open>server_add\<close>, and the recursion of
  \<open>server_delete_serv\<close>, which returns, keeps both invariants and removes exactly the servers behind the one
  that split (\<open>server_delete_serv_ok\<close>).
\<close>

section \<open>What the operations of clients leave of the servers\<close>

definition srv_shape :: "nserver \<Rightarrow> nserver" where
  "srv_shape S = S\<lparr>ns_users := 0, ns_invis := 0, ns_opers := 0, ns_userlist := []\<rparr>"

lemma srv_shape_fields:
  "srv_shape S = srv_shape R \<Longrightarrow> ns_name S = ns_name R \<and> ns_sid S = ns_sid R \<and> ns_flags S = ns_flags R \<and>
     ns_uplink S = ns_uplink R \<and> ns_children S = ns_children R"
  by (cases S; cases R) (simp add: srv_shape_def)

definition srv_frame :: "net \<Rightarrow> net \<Rightarrow> bool" where
  "srv_frame st st' \<longleftrightarrow> servlist st' = servlist st \<and> sidlist st' = sidlist st \<and> cnt_server st' = cnt_server st \<and>
     (\<forall>s. map_option srv_shape (servers st' s) = map_option srv_shape (servers st s))"

lemma srv_frame_refl [simp]: "srv_frame st st"
  by (simp add: srv_frame_def)

lemma srv_frame_trans: "srv_frame st st' \<Longrightarrow> srv_frame st' st'' \<Longrightarrow> srv_frame st st''"
  by (simp add: srv_frame_def)

lemma srv_frame_upd [simp]:
  "srv_frame st (emit e st') = srv_frame st st'" "srv_frame (emit e st') st = srv_frame st' st"
  "srv_frame st (upd_user u f st') = srv_frame st st'" "srv_frame (upd_user u f st') st = srv_frame st' st"
  "srv_frame st (upd_channel c g st') = srv_frame st st'" "srv_frame (upd_channel c g st') st = srv_frame st' st"
  "srv_frame st (upd_member m h st') = srv_frame st st'" "srv_frame (upd_member m h st') st = srv_frame st' st"
  by (simp_all add: srv_frame_def)

lemma srv_frame_upd_server:
  assumes "\<And>S. srv_shape (g S) = srv_shape S"
  shows "srv_frame st (upd_server s g st') = srv_frame st st'"
proof -
  have "map_option srv_shape (servers (upd_server s g st') r) = map_option srv_shape (servers st' r)" for r
    using assms by (cases "servers st' s") auto
  then show ?thesis unfolding srv_frame_def by simp
qed

lemma srv_frame_fold:
  assumes "\<And>x st. x \<in> set xs \<Longrightarrow> srv_frame st (f x st)"
  shows "srv_frame st (fold f xs st)"
  using assms by (induction xs arbitrary: st) (auto intro: srv_frame_trans)

lemma srv_frame_unlink: "srv_frame st (unlink_member m st)"
  by (simp add: srv_frame_def)

lemma srv_frame_channel_delete: "srv_frame st (channel_delete E c st)"
proof (cases "channels st c")
  case (Some C)
  have "srv_frame st (fold unlink_member (nc_members C) (emit (Modestack_finalize c) st))"
    using srv_frame_fold [of "nc_members C" unlink_member "emit (Modestack_finalize c) st"] srv_frame_unlink by simp
  then show ?thesis
    unfolding channel_delete_def Some by (simp add: srv_frame_def Let_def)
qed (simp add: channel_delete_def)

lemma srv_frame_chanuser_delete: "srv_frame st (chanuser_delete E c u st)"
proof (cases "chanuser_find c u st")
  case (Some m)
  have "srv_frame st (unlink_member m (emit (Hook_channel_part m) st))"
    using srv_frame_unlink [of "emit (Hook_channel_part m) st"] by simp
  then show ?thesis
    using Some srv_frame_trans [OF _ srv_frame_channel_delete]
    by (auto simp: chanuser_delete_def Let_def split: option.split)
qed (simp add: chanuser_delete_def)

lemma srv_frame_user_new: "srv_frame st (snd (user_new E d s ts st))"
proof -
  have "srv_shape (S\<lparr>ns_users := n, ns_userlist := us\<rparr>) = srv_shape S" for S n us by (simp add: srv_shape_def)
  then show ?thesis by (auto simp: user_new_def Let_def srv_frame_def option.map_comp o_def)
qed

lemma srv_frame_enforcer: "srv_frame st (introduce_enforcer E nick st)"
  using srv_frame_user_new [of st E _ "ne_me E" 1]
  by (auto simp: introduce_enforcer_def split_def Let_def split: option.split)

lemma drop_login_srv [simp]: "servlist (drop_login E u st) = servlist st" "sidlist (drop_login E u st) = sidlist st"
  "cnt_server (drop_login E u st) = cnt_server st"
  by (simp_all add: drop_login_def Let_def split: option.split)

lemma srv_frame_drop_user: "srv_frame st (drop_user E u U st)"
proof -
  have "srv_shape (S\<lparr>ns_userlist := us\<rparr>) = srv_shape S" for S us by (simp add: srv_shape_def)
  then show ?thesis by (simp add: drop_user_def Let_def srv_frame_def option.map_comp o_def)
qed

lemma srv_frame_part_all: "srv_frame st (part_all E u ms st)"
  unfolding part_all_def by (rule srv_frame_fold) (simp add: srv_frame_chanuser_delete split: option.split)

lemma srv_frame_user_delete: "srv_frame st (user_delete E u comment st)"
proof (cases "users st u")
  case (Some U0)
  define U where "U = U0\<lparr>un_flags := un_flags U0 AND NOT UF_DOENFORCE\<rparr>"
  define st1 where "st1 = upd_server (un_server U) (\<lambda>S. S\<lparr>ns_users := ns_users S - 1,
                      ns_opers := (if is_ircop U then ns_opers S - 1 else ns_opers S),
                      ns_invis := (if is_invis U then ns_invis S - 1 else ns_invis S)\<rparr>)
                    (emit (Hook_user_delete u comment) (upd_user u (\<lambda>_. U) st))"
  have "srv_frame st st1"
    unfolding st1_def by (subst srv_frame_upd_server) (simp_all add: srv_shape_def)
  then have "srv_frame st (drop_user E u U (part_all E u (un_channels U) st1))"
    by (meson srv_frame_trans srv_frame_part_all srv_frame_drop_user)
  then show ?thesis
    unfolding user_delete_eq [OF Some U_def st1_def] using srv_frame_trans [OF _ srv_frame_enforcer] by (simp add: Let_def)
qed (simp add: user_delete_def)

section \<open>The server tree\<close>

text \<open>
  The children of a server are the live servers that have it as their uplink; an uplink is older than its
  children, and services are a root.  The two dictionaries lead to live servers with that name or sid.
\<close>

definition tree_ok :: "net_env \<Rightarrow> net \<Rightarrow> bool" where
  "tree_ok E st \<longleftrightarrow>
     (\<forall>s S. servers st s = Some S \<longrightarrow> lists (ns_children S) (servers st) (\<lambda>C. ns_uplink C = Some s) \<and>
        (\<forall>p. ns_uplink S = Some p \<longrightarrow> p < s \<and> servers st p \<noteq> None) \<and> (s = ne_me E \<longrightarrow> ns_uplink S = None)) \<and>
     (\<forall>k s. servlist st k = Some s \<longrightarrow>
        (\<exists>S. servers st s = Some S \<and> canon E (ns_name S) = k \<and> ns_flags S AND SF_MASKED = 0)) \<and>
     (\<forall>i s. sidlist st i = Some s \<longrightarrow> (\<exists>S. servers st s = Some S \<and> ns_sid S = Some i)) \<and>
     cnt_server st = of_nat (card (dom (servers st)))"

lemma tree_okD:
  assumes "tree_ok E st" "servers st s = Some S"
  shows "lists (ns_children S) (servers st) (\<lambda>C. ns_uplink C = Some s)"
    and "ns_uplink S = Some p \<Longrightarrow> p < s \<and> servers st p \<noteq> None"
    and "s = ne_me E \<Longrightarrow> ns_uplink S = None"
  using assms unfolding tree_ok_def by blast+

lemma tree_dicts:
  assumes "tree_ok E st"
  shows "servlist st k = Some s \<Longrightarrow> \<exists>S. servers st s = Some S \<and> canon E (ns_name S) = k \<and> ns_flags S AND SF_MASKED = 0"
    and "sidlist st i = Some s \<Longrightarrow> \<exists>S. servers st s = Some S \<and> ns_sid S = Some i"
    and "cnt_server st = of_nat (card (dom (servers st)))"
  using assms unfolding tree_ok_def by blast+

lemma srv_frame_ex:
  assumes "srv_frame st st'" "\<And>S R. srv_shape S = srv_shape R \<Longrightarrow> P S = P R"
  shows "(\<exists>S. servers st' s = Some S \<and> P S) = (\<exists>S. servers st s = Some S \<and> P S)"
proof -
  have e: "map_option srv_shape (servers st' s) = map_option srv_shape (servers st s)"
    using assms(1) by (simp add: srv_frame_def)
  show ?thesis
  proof (cases "servers st s")
    case None
    with e show ?thesis by simp
  next
    case (Some S)
    with e obtain S' where "servers st' s = Some S'" "srv_shape S' = srv_shape S" by (cases "servers st' s") auto
    with Some show ?thesis using assms(2) [of S' S] by simp
  qed
qed

lemma srv_frame_some:
  assumes "srv_frame st st'" "servers st' s = Some S'"
  obtains S where "servers st s = Some S" "srv_shape S' = srv_shape S"
  using srv_frame_ex [OF assms(1), of "\<lambda>S. srv_shape S = srv_shape S'" s] assms(2) by auto

lemma tree_frame:
  assumes "srv_frame st st'" "tree_ok E st"
  shows "tree_ok E st'"
proof -
  have d: "servlist st' = servlist st" "sidlist st' = sidlist st" using assms(1) by (simp_all add: srv_frame_def)
  have up: "(\<exists>C. servers st' c = Some C \<and> ns_uplink C = x) = (\<exists>C. servers st c = Some C \<and> ns_uplink C = x)" for c x
    by (rule srv_frame_ex [OF assms(1)]) (drule srv_shape_fields, simp)
  have live: "(servers st' p \<noteq> None) = (servers st p \<noteq> None)" for p
    using srv_frame_ex [OF assms(1), of "\<lambda>_. True" p] by auto
  have nm: "(\<exists>C. servers st' c = Some C \<and> canon E (ns_name C) = k \<and> ns_flags C AND SF_MASKED = 0) =
      (\<exists>C. servers st c = Some C \<and> canon E (ns_name C) = k \<and> ns_flags C AND SF_MASKED = 0)" for c k
    by (rule srv_frame_ex [OF assms(1)]) (drule srv_shape_fields, simp)
  have sd: "(\<exists>C. servers st' c = Some C \<and> ns_sid C = x) = (\<exists>C. servers st c = Some C \<and> ns_sid C = x)" for c x
    by (rule srv_frame_ex [OF assms(1)]) (drule srv_shape_fields, simp)
  have "lists (ns_children S') (servers st') (\<lambda>C. ns_uplink C = Some s) \<and>
        (\<forall>p. ns_uplink S' = Some p \<longrightarrow> p < s \<and> servers st' p \<noteq> None) \<and> (s = ne_me E \<longrightarrow> ns_uplink S' = None)"
    if h: "servers st' s = Some S'" for s S'
  proof -
    obtain S where S: "servers st s = Some S" "srv_shape S' = srv_shape S" by (rule srv_frame_some [OF assms(1) h])
    note f = srv_shape_fields [OF S(2)] and t = tree_okD [OF assms(2) S(1)]
    have "lists (ns_children S) (servers st') (\<lambda>C. ns_uplink C = Some s)"
      using t(1) up by (simp add: lists_def)
    then show ?thesis using f t(2,3) live by metis
  qed
  moreover have "dom (servers st') = dom (servers st)" using live by (auto simp: dom_def)
  then have "cnt_server st' = of_nat (card (dom (servers st')))"
    using tree_dicts(3) [OF assms(2)] assms(1) by (simp add: srv_frame_def)
  ultimately show ?thesis
    unfolding tree_ok_def d nm sd using tree_dicts(1,2) [OF assms(2)] by blast
qed

lemma tld_step [simp]:
  fixes f :: "nat \<Rightarrow> cstr" and b :: "nat \<Rightarrow> bool"
  defines "g \<equiv> \<lambda>x st. case x of None \<Rightarrow> st | Some i \<Rightarrow> if b i then tld_add (f i) st else st"
  shows "users (g x st) = users st" "channels (g x st) = channels st" "members (g x st) = members st"
    "servers (g x st) = servers st" "userlist (g x st) = userlist st" "uidlist (g x st) = uidlist st"
    "chanlist (g x st) = chanlist st" "accounts (g x st) = accounts st" "mychan_chan (g x st) = mychan_chan st"
    "fresh_ref (g x st) = fresh_ref st" "cnt_user (g x st) = cnt_user st" "cnt_chan (g x st) = cnt_chan st"
    "cnt_chanuser (g x st) = cnt_chanuser st" "servlist (g x st) = servlist st" "sidlist (g x st) = sidlist st"
    "cnt_server (g x st) = cnt_server st"
  by (simp_all add: g_def tld_add_def split: option.split)

text \<open>The new server, as \<open>server_add\<close> links it in.\<close>

definition new_server :: "cstr option \<Rightarrow> nat \<Rightarrow> sref option \<Rightarrow> cstr option \<Rightarrow> cstr \<Rightarrow> net \<Rightarrow> nserver" where
  "new_server name hops uplink sid desc st =
     \<lparr>ns_name = (case name of Some n \<Rightarrow> n
                 | None \<Rightarrow> (case uplink of None \<Rightarrow> [] | Some p \<Rightarrow> (case servers st p of None \<Rightarrow> [] | Some P \<Rightarrow> ns_name P))),
      ns_desc = snd (split_hidden desc), ns_sid = sid, ns_hops = hops, ns_users = 0, ns_invis = 0, ns_opers = 0,
      ns_flags = (if name = None then fst (split_hidden desc) OR SF_MASKED else fst (split_hidden desc)),
      ns_uplink = uplink, ns_children = [], ns_userlist = []\<rparr>"

lemma new_server_simps [simp]:
  "ns_children (new_server name hops uplink sid desc st) = []" "ns_userlist (new_server name hops uplink sid desc st) = []"
  "ns_users (new_server name hops uplink sid desc st) = 0" "ns_uplink (new_server name hops uplink sid desc st) = uplink"
  "ns_sid (new_server name hops uplink sid desc st) = sid" "ns_name (new_server (Some n) hops uplink sid desc st) = n"
  "ns_flags (new_server name hops uplink sid desc st) AND SF_MASKED = 0 \<longleftrightarrow> name \<noteq> None"
  by (auto simp: new_server_def split_hidden_def SF_MASKED_def SF_HIDE_def)

lemma server_add_simps:
  assumes "\<not> ((name = None \<and> sid = None) \<or> (name = None \<and> uplink = None))"
    and "s = fresh_ref st" "S = new_server name hops uplink sid desc st"
    and "st' = snd (server_add E name hops uplink sid desc st)"
  shows "servers st' = (case uplink of None \<Rightarrow> (servers st)(s := Some S)
       | Some p \<Rightarrow> ((servers st)(s := Some S))(p := map_option (\<lambda>P. P\<lparr>ns_children := ns_children P @ [s]\<rparr>) (((servers st)(s := Some S)) p)))"
    and "servlist st' = (case name of None \<Rightarrow> servlist st | Some n \<Rightarrow> dict_add (servlist st) (canon E n) s)"
    and "sidlist st' = (case sid of None \<Rightarrow> sidlist st | Some i \<Rightarrow> dict_add (sidlist st) i s)"
    and "users st' = users st" "channels st' = channels st" "members st' = members st" "userlist st' = userlist st"
    "uidlist st' = uidlist st" "chanlist st' = chanlist st" "accounts st' = accounts st" "mychan_chan st' = mychan_chan st"
    "fresh_ref st' = Suc s" "cnt_user st' = cnt_user st" "cnt_chan st' = cnt_chan st" "cnt_chanuser st' = cnt_chanuser st"
    "cnt_server st' = cnt_server st + 1"
  using assms(1) unfolding assms(2-4)
  by (simp_all only: server_add_def Let_def if_False split_def snd_conv emit_simps tld_step net.simps new_server_def)
     (simp_all split: option.split)

lemma net_but_cong:
  assumes "users st' = users st" "channels st' = channels st" "members st' = members st" "userlist st' = userlist st"
    "uidlist st' = uidlist st" "chanlist st' = chanlist st" "accounts st' = accounts st" "mychan_chan st' = mychan_chan st"
    "cnt_user st' = cnt_user st" "cnt_chan st' = cnt_chan st" "cnt_chanuser st' = cnt_chanuser st"
    and "net_but T E X st" "servers_but T' st'" "fresh_ok st'"
  shows "net_but T' E X st'"
proof -
  note i = net_butD [OF assms(12)]
  have m: "svc_member E st' = svc_member E st" by (rule svc_member_cong) (use assms in simp_all)
  have "counts_but E X st'" using i(2) by (simp add: counts_but_def count_ok_def m assms(1-3))
  moreover have "memb_ok st' = memb_ok st" "names_ok E st' = names_ok E st" "logins_ok st' = logins_ok st" "totals_ok st' = totals_ok st"
    by (simp_all only: memb_ok_def names_ok_def logins_ok_def totals_ok_def assms(1-11))
  ultimately show ?thesis
    using i assms(13,14) by (simp add: net_but_def)
qed

lemma servers_butD:
  assumes "servers_but T st"
  shows "users st u = Some U \<Longrightarrow> servers st (un_server U) \<noteq> None"
    and "servers st s = Some S \<Longrightarrow> lists (ns_userlist S) (users st) (\<lambda>U. un_server U = s)"
    and "servers st s = Some S \<Longrightarrow> s \<notin> T \<Longrightarrow> ns_users S = of_nat (length (ns_userlist S))"
  using assms unfolding servers_but_def by blast+

lemma server_add_net:
  assumes "net_but {} E {} st" "\<And>p. uplink = Some p \<Longrightarrow> servers st p \<noteq> None"
  shows "net_but {} E {} (snd (server_add E name hops uplink sid desc st))"
proof (cases "(name = None \<and> sid = None) \<or> (name = None \<and> uplink = None)")
  case True
  then show ?thesis using assms by (auto simp: server_add_def)
next
  case False
  define s where "s = fresh_ref st"
  define S where "S = new_server name hops uplink sid desc st"
  define st' where "st' = snd (server_add E name hops uplink sid desc st)"
  note i = net_butD [OF assms(1)] and f = server_add_simps [OF False s_def S_def st'_def]
  have new: "servers st s = None" "users st s = None"
    using i(6) unfolding fresh_ok_def s_def by (metis less_irrefl)+
  have old: "r = s \<and> R = S \<or> (\<exists>R0. servers st r = Some R0 \<and> ns_userlist R = ns_userlist R0 \<and> ns_users R = ns_users R0)"
    if "servers st' r = Some R" for r R
    using that assms(2) new(1) unfolding f by (auto split: option.splits if_splits)
  have live: "servers st' r \<noteq> None \<longleftrightarrow> r = s \<or> servers st r \<noteq> None" for r
    using assms(2) unfolding f by (auto split: option.splits)
  have no: "un_server U \<noteq> s" if "users st u = Some U" for u U
    using servers_butD(1) [OF i(4) that] new by metis
  have l: "lists [] (users st) (\<lambda>U. un_server U = s)" using no by (auto simp: lists_def)
  have "servers_but {} st'"
    unfolding servers_but_def
  proof (intro conjI allI impI)
    show "servers st' (un_server U) \<noteq> None" if "users st' u = Some U" for u U
      using servers_butD(1) [OF i(4), of u U] that f(4) unfolding live by simp
    fix r R assume "servers st' r = Some R"
    from old [OF this] show "lists (ns_userlist R) (users st') (\<lambda>U. un_server U = r)" "ns_users R = of_nat (length (ns_userlist R))"
      using servers_butD(2,3) [OF i(4)] l by (auto simp: f S_def)
  qed
  moreover have "fresh_ok st'"
    unfolding fresh_ok_def live f(4-6,12)
  proof (intro allI impI)
    fix r assume "users st r \<noteq> None \<or> channels st r \<noteq> None \<or> members st r \<noteq> None \<or> (r = s \<or> servers st r \<noteq> None)"
    then have "r < s \<or> r = s" using i(6) unfolding fresh_ok_def s_def by blast
    then show "r < Suc s" by auto
  qed
  ultimately have "net_but {} E {} st'"
    by (rule net_but_cong [OF f(4-11,13-15) assms(1)])
  then show ?thesis by (simp add: st'_def)
qed

lemma server_add_live:
  assumes "live_ok E st" "\<And>p. uplink = Some p \<Longrightarrow> servers st p \<noteq> None"
  shows "live_ok E (snd (server_add E name hops uplink sid desc st))"
proof (rule live_okI [OF server_add_net])
  show "servers (snd (server_add E name hops uplink sid desc st)) (ne_me E) \<noteq> None"
  proof (cases "(name = None \<and> sid = None) \<or> (name = None \<and> uplink = None)")
    case True
    then show ?thesis using live_okD(2) [OF assms(1)] by (auto simp: server_add_def)
  next
    case False
    then show ?thesis using server_add_simps(1) [OF False refl refl refl, of E hops desc st] live_okD(2) [OF assms(1)]
      by (auto split: option.splits)
  qed
qed (use assms live_okD in auto)

lemma fresh_servers: "fresh_ok st \<Longrightarrow> finite (dom (servers st))"
  unfolding fresh_ok_def dom_def by (auto intro: finite_subset [of _ "{..< fresh_ref st}"])

lemma server_add_tree:
  assumes "tree_ok E st" "fresh_ok st" "\<And>p. uplink = Some p \<Longrightarrow> servers st p \<noteq> None"
    and "fresh_ref st = ne_me E \<Longrightarrow> uplink = None"
  shows "tree_ok E (snd (server_add E name hops uplink sid desc st))"
proof (cases "(name = None \<and> sid = None) \<or> (name = None \<and> uplink = None)")
  case True
  then show ?thesis using assms by (auto simp: server_add_def)
next
  case False
  define s where "s = fresh_ref st"
  define S where "S = new_server name hops uplink sid desc st"
  define st' where "st' = snd (server_add E name hops uplink sid desc st)"
  note f = server_add_simps [OF False s_def S_def st'_def]
  have new: "servers st s = None" using assms(2) unfolding fresh_ok_def s_def by (metis less_irrefl)
  have lt: "r < s" if "servers st r \<noteq> None" for r using assms(2) that unfolding fresh_ok_def s_def by blast
  let ?up = "\<lambda>r R. if uplink = Some r then R\<lparr>ns_children := ns_children R @ [s]\<rparr> else R"
  have sv: "servers st' r = (if r = s then Some S else map_option (?up r) (servers st r))" for r
    using assms(3) new unfolding f by (cases "servers st r") (auto split: option.split)
  have up: "(\<exists>C. servers st' c = Some C \<and> ns_uplink C = x) =
      (if c = s then uplink = x else (\<exists>C. servers st c = Some C \<and> ns_uplink C = x))" for c x
    unfolding sv by (cases "servers st c") (auto simp: S_def)
  have "lists (ns_children R) (servers st') (\<lambda>C. ns_uplink C = Some r) \<and>
        (\<forall>p. ns_uplink R = Some p \<longrightarrow> p < r \<and> servers st' p \<noteq> None) \<and> (r = ne_me E \<longrightarrow> ns_uplink R = None)"
    if h: "servers st' r = Some R" for r R
  proof (cases "r = s")
    case True
    then have "R = S" using h by (simp add: sv)
    moreover have "\<nexists>c C. servers st c = Some C \<and> ns_uplink C = Some s"
      using tree_okD(2) [OF assms(1)] new by metis
    then have "{c. \<exists>C. servers st' c = Some C \<and> ns_uplink C = Some s} = {}"
      unfolding up using assms(3) new by auto
    ultimately show ?thesis using True assms(3,4) lt
      by (auto simp: lists_def S_def s_def sv)
  next
    case False
    then obtain R0 where R0: "servers st r = Some R0" "R = ?up r R0" using h by (auto simp: sv)
    note t = tree_okD [OF assms(1) R0(1)]
    have "lists (ns_children R) (servers st') (\<lambda>C. ns_uplink C = Some r)"
      using t(1) new R0(2) unfolding lists_def up by (auto split: if_splits)
    moreover have "ns_uplink R = ns_uplink R0" using R0(2) by simp
    moreover have "servers st' p \<noteq> None" if "servers st p \<noteq> None" for p using that by (simp add: sv)
    ultimately show ?thesis using t(2,3) by metis
  qed
  moreover have "\<exists>R. servers st' r = Some R \<and> canon E (ns_name R) = k \<and> ns_flags R AND SF_MASKED = 0"
    if "servlist st' k = Some r" for k r
  proof (cases "servlist st k = Some r")
    case True
    then obtain R0 where "servers st r = Some R0" "canon E (ns_name R0) = k" "ns_flags R0 AND SF_MASKED = 0"
      using tree_dicts(1) [OF assms(1)] by blast
    then show ?thesis using new by (cases "uplink = Some r") (auto simp: sv)
  next
    case False
    then have "r = s" "\<exists>n. name = Some n \<and> canon E n = k"
      using that unfolding f dict_add_def by (auto split: option.splits if_splits)
    then show ?thesis by (auto simp: sv S_def)
  qed
  moreover have "\<exists>R. servers st' r = Some R \<and> ns_sid R = Some k" if "sidlist st' k = Some r" for k r
  proof (cases "sidlist st k = Some r")
    case True
    then obtain R0 where "servers st r = Some R0" "ns_sid R0 = Some k"
      using tree_dicts(2) [OF assms(1)] by blast
    then show ?thesis using new by (cases "uplink = Some r") (auto simp: sv)
  next
    case False
    then have "r = s" "sid = Some k" using that unfolding f dict_add_def by (auto split: option.splits if_splits)
    then show ?thesis by (auto simp: sv S_def)
  qed
  moreover have "dom (servers st') = insert s (dom (servers st))" unfolding dom_def sv by (auto split: if_splits)
  then have "cnt_server st' = of_nat (card (dom (servers st')))"
    using tree_dicts(3) [OF assms(1)] new fresh_servers [OF assms(2)] unfolding f by (simp add: domIff)
  ultimately have "tree_ok E st'" unfolding tree_ok_def by blast
  then show ?thesis by (simp add: st'_def)
qed

section \<open>Splitting servers off\<close>

text \<open>The server \<open>r\<close> is \<open>s\<close> or behind it.\<close>

inductive below :: "net \<Rightarrow> sref \<Rightarrow> sref \<Rightarrow> bool" for st s where
  below_self: "below st s s"
| below_step: "servers st r = Some R \<Longrightarrow> ns_uplink R = Some p \<Longrightarrow> below st s p \<Longrightarrow> below st s r"

definition same_id :: "nserver \<Rightarrow> nserver \<Rightarrow> bool" where
  "same_id R S \<longleftrightarrow> ns_uplink R = ns_uplink S \<and> ns_sid R = ns_sid S \<and> ns_name R = ns_name S \<and> ns_flags R = ns_flags S"

definition shrinks :: "net_env \<Rightarrow> sref set \<Rightarrow> net \<Rightarrow> net \<Rightarrow> bool" where
  "shrinks E K st st' \<longleftrightarrow>
     (\<forall>r R'. servers st' r = Some R' \<longrightarrow> (\<exists>R. servers st r = Some R \<and> same_id R R')) \<and>
     (\<forall>r. servers st r \<noteq> None \<and> r \<notin> K \<longrightarrow> servers st' r \<noteq> None) \<and>
     (\<forall>u U'. users st' u = Some U' \<longrightarrow> un_server U' = ne_me E \<or> (\<exists>U. users st u = Some U \<and> un_server U = un_server U'))"

lemma shrinks_refl [simp]: "shrinks E K st st"
  by (auto simp: shrinks_def same_id_def)

lemma shrinksD:
  assumes "shrinks E K st st'"
  shows "servers st' r = Some R' \<Longrightarrow> \<exists>R. servers st r = Some R \<and> same_id R R'"
    and "servers st r \<noteq> None \<Longrightarrow> r \<notin> K \<Longrightarrow> servers st' r \<noteq> None"
    and "users st' u = Some U' \<Longrightarrow> un_server U' \<noteq> ne_me E \<Longrightarrow> \<exists>U. users st u = Some U \<and> un_server U = un_server U'"
  using assms unfolding shrinks_def by blast+

lemma shrinks_mono: "shrinks E K st st' \<Longrightarrow> K \<subseteq> L \<Longrightarrow> shrinks E L st st'"
  unfolding shrinks_def by blast

lemma shrinks_trans:
  assumes "shrinks E K st st'" "shrinks E L st' st''" "L \<subseteq> K"
  shows "shrinks E K st st''"
  unfolding shrinks_def
proof (intro conjI allI impI)
  show "\<exists>R. servers st r = Some R \<and> same_id R R'" if "servers st'' r = Some R'" for r R'
    using shrinksD(1) [OF assms(2) that] shrinksD(1) [OF assms(1)] by (fastforce simp: same_id_def)
  show "servers st'' r \<noteq> None" if "servers st r \<noteq> None \<and> r \<notin> K" for r
    using that shrinksD(2) [OF assms(1)] shrinksD(2) [OF assms(2)] assms(3) by blast
  show "un_server U' = ne_me E \<or> (\<exists>U. users st u = Some U \<and> un_server U = un_server U')" if "users st'' u = Some U'" for u U'
    using shrinksD(3) [OF assms(2) that] shrinksD(3) [OF assms(1)] by fastforce
qed

lemma below_shrinks: "below st' s r \<Longrightarrow> shrinks E K st st' \<Longrightarrow> below st s r"
proof (induction rule: below.induct)
  case (below_step r R p)
  then show ?case using shrinksD(1) [OF below_step.prems below_step.hyps(1)] below.below_step unfolding same_id_def by metis
qed (rule below_self)

lemma below_trans: "below st c r \<Longrightarrow> below st s c \<Longrightarrow> below st s r"
  by (induction rule: below.induct) (auto intro: below_step)

lemma below_ge: "below st s r \<Longrightarrow> tree_ok E st \<Longrightarrow> s \<le> r"
proof (induction rule: below.induct)
  case (below_step r R p)
  then show ?case using tree_okD(2) [OF below_step.prems below_step.hyps(1,2)] by simp
qed simp

lemma ushapes_part_all: "ushapes_eq st (part_all E u ms st)"
proof (induction ms arbitrary: st)
  case (Cons m ms)
  have "ushapes_eq st (case members st m of None \<Rightarrow> st | Some M \<Rightarrow> chanuser_delete E (nm_chan M) u st)"
    by (simp add: ushapes_chanuser_delete split: option.split)
  from ushapes_trans [OF this Cons.IH] show ?case by (simp add: part_all_def)
qed (simp add: part_all_def)

lemma enforcer_users:
  assumes "users (introduce_enforcer E nick st) v = Some V"
  shows "un_server V = ne_me E \<or> users st v = Some V"
  using assms by (auto simp: introduce_enforcer_def user_new_def Let_def split: option.splits if_splits)

lemma user_delete_users:
  assumes "live_ok E st" "users (user_delete E u comment st) v = Some V" "un_server V \<noteq> ne_me E" "users st u \<noteq> None"
  shows "v \<noteq> u \<and> (\<exists>V0. users st v = Some V0 \<and> un_server V0 = un_server V)"
proof -
  from assms(4) obtain U0 where Some: "users st u = Some U0" by blast
  define U where "U = U0\<lparr>un_flags := un_flags U0 AND NOT UF_DOENFORCE\<rparr>"
  define st1 where "st1 = upd_server (un_server U) (\<lambda>S. S\<lparr>ns_users := ns_users S - 1,
                      ns_opers := (if is_ircop U then ns_opers S - 1 else ns_opers S),
                      ns_invis := (if is_invis U then ns_invis S - 1 else ns_invis S)\<rparr>)
                    (emit (Hook_user_delete u comment) (upd_user u (\<lambda>_. U) st))"
  let ?st2 = "part_all E u (un_channels U) st1"
  have p: "ushapes_eq st1 ?st2" by (rule ushapes_part_all)
  then have sh: "map_option user_shape (users ?st2 w) = map_option user_shape (users st1 w)" for w
    unfolding ushapes_eq_def by blast
  have "users st1 u = Some U" using Some by (simp add: st1_def)
  with sh [of u] obtain U2 where U2: "users ?st2 u = Some U2" "user_shape U2 = user_shape U" by auto
  have "users (drop_user E u U ?st2) = (users ?st2)(u := None)"
    using drop_user_simps(1) [OF U2(1)] user_shape_fields [OF U2(2)] by simp
  moreover have "users (drop_user E u U ?st2) v = Some V"
    using assms(2,3) enforcer_users [of E _ "drop_user E u U ?st2" v V]
    unfolding user_delete_eq [OF Some U_def st1_def] by (auto simp: Let_def split: if_splits)
  ultimately have v: "v \<noteq> u" "users ?st2 v = Some V" by (auto split: if_splits)
  with sh [of v] obtain W where W: "users st1 v = Some W" "user_shape V = user_shape W" by (cases "users st1 v") auto
  then have "users st v = Some W" using v(1) by (simp add: st1_def)
  then show ?thesis using v(1) user_shape_fields [OF W(2)] by auto
qed

lemma accounts_live:
  assumes "live_ok E st" "\<And>A. la_logins (f A) = la_logins A"
  shows "live_ok E (st\<lparr>accounts := (accounts st)(a := map_option f (accounts st a))\<rparr>)"
proof -
  let ?st = "st\<lparr>accounts := (accounts st)(a := map_option f (accounts st a))\<rparr>"
  note i = net_butD [OF live_okD(1) [OF assms(1)]]
  have "svc_member E ?st = svc_member E st" by (rule svc_member_cong) simp_all
  then have "counts_but E {} ?st = counts_but E {} st" by (simp add: counts_but_def count_ok_def)
  moreover have "memb_ok ?st = memb_ok st" "names_ok E ?st = names_ok E st" "servers_but {} ?st = servers_but {} st"
    "fresh_ok ?st = fresh_ok st" "totals_ok ?st = totals_ok st"
    by (simp_all add: memb_ok_def names_ok_def servers_but_def fresh_ok_def totals_ok_def)
  moreover have "logins_ok ?st"
    unfolding logins_ok_def
  proof (intro conjI allI impI)
    fix b B assume "accounts ?st b = Some B"
    then obtain B0 where "accounts st b = Some B0" "la_logins B = la_logins B0"
      using assms(2) by (auto split: if_splits)
    then show "lists (la_logins B) (users ?st) (\<lambda>U. un_myuser U = Some b)"
      using i(5) unfolding logins_ok_def by simp
  next
    fix u U b assume "users ?st u = Some U \<and> un_myuser U = Some b"
    then show "accounts ?st b \<noteq> None" using i(5) unfolding logins_ok_def by auto
  qed
  ultimately show ?thesis
    using i live_okD(2) [OF assms(1)] by (intro live_okI) (simp_all add: net_but_def)
qed

text \<open>Killing the users of a server that splits.\<close>

lemma split_user_spec:
  assumes "live_ok E st"
  shows "live_ok E (split_user E u st)" "srv_frame st (split_user E u st)"
    "users (split_user E u st) v = Some V \<Longrightarrow> un_server V \<noteq> ne_me E \<Longrightarrow>
       v \<noteq> u \<and> (\<exists>V0. users st v = Some V0 \<and> un_server V0 = un_server V)"
proof -
  obtain st1 where st1: "split_user E u st = user_delete E u ''*.net *.split'' st1" "live_ok E st1" "users st1 = users st" "srv_frame st st1"
  proof (cases "users st u")
    case None
    then show thesis using assms by (intro that [of st]) (simp_all add: split_user_def)
  next
    case (Some U)
    show thesis
    proof (cases "un_myuser U")
      case None
      then show thesis using assms Some by (intro that [of st]) (simp_all add: split_user_def)
    next
      case (Some a)
      show thesis
        by (rule that [OF _ accounts_live [OF assms, of "\<lambda>A. A\<lparr>la_noburstlogin := False\<rparr>" a]])
           (simp_all add: split_user_def \<open>users st u = Some U\<close> Some srv_frame_def)
    qed
  qed
  show "live_ok E (split_user E u st)" using user_delete_live st1 by simp
  show "srv_frame st (split_user E u st)" using srv_frame_trans [OF st1(4) srv_frame_user_delete] st1(1) by simp
  show "v \<noteq> u \<and> (\<exists>V0. users st v = Some V0 \<and> un_server V0 = un_server V)"
    if h: "users (split_user E u st) v = Some V" "un_server V \<noteq> ne_me E"
  proof (cases "users st u")
    case None
    then have "split_user E u st = st" using st1(3) by (simp add: split_user_def user_delete_def)
    then show ?thesis using h None by auto
  next
    case (Some U)
    show ?thesis using user_delete_users [OF st1(2), of u _ v V] h Some st1(1,3) by simp
  qed
qed

lemma fold_split_spec:
  assumes "live_ok E st"
  shows "live_ok E (fold (split_user E) us st)" "srv_frame st (fold (split_user E) us st)"
    "users (fold (split_user E) us st) v = Some V \<Longrightarrow> un_server V \<noteq> ne_me E \<Longrightarrow>
       v \<notin> set us \<and> (\<exists>V0. users st v = Some V0 \<and> un_server V0 = un_server V)"
proof -
  have "live_ok E (fold (split_user E) us st) \<and> srv_frame st (fold (split_user E) us st) \<and>
    (users (fold (split_user E) us st) v = Some V \<longrightarrow> un_server V \<noteq> ne_me E \<longrightarrow>
       v \<notin> set us \<and> (\<exists>V0. users st v = Some V0 \<and> un_server V0 = un_server V))"
    using assms
  proof (induction us arbitrary: st)
    case (Cons u us)
    note s = split_user_spec [OF Cons.prems, of u]
    note ih = Cons.IH [OF s(1)]
    show ?case
    proof (intro conjI impI)
      show "live_ok E (fold (split_user E) (u # us) st)" using ih by simp
      show "srv_frame st (fold (split_user E) (u # us) st)" using ih srv_frame_trans [OF s(2)] by simp
      assume h: "users (fold (split_user E) (u # us) st) v = Some V" "un_server V \<noteq> ne_me E"
      then obtain V1 where V1: "v \<notin> set us" "users (split_user E u st) v = Some V1" "un_server V1 = un_server V" using ih by auto
      then show "v \<notin> set (u # us)" "\<exists>V0. users st v = Some V0 \<and> un_server V0 = un_server V"
        using s(3) [OF V1(2)] h(2) by auto
    qed
  qed auto
  then show "live_ok E (fold (split_user E) us st)" "srv_frame st (fold (split_user E) us st)"
    "users (fold (split_user E) us st) v = Some V \<Longrightarrow> un_server V \<noteq> ne_me E \<Longrightarrow>
       v \<notin> set us \<and> (\<exists>V0. users st v = Some V0 \<and> un_server V0 = un_server V)" by blast+
qed

text \<open>Taking an empty leaf out of the tree.\<close>

lemma server_remove_simps:
  "servers (server_remove E s S st) =
     (case ns_uplink S of None \<Rightarrow> servers st
      | Some p \<Rightarrow> (servers st)(p := map_option (\<lambda>P. P\<lparr>ns_children := remove1 s (ns_children P)\<rparr>) (servers st p)))(s := None)"
  "servlist (server_remove E s S st) =
     (if ns_flags S AND SF_MASKED = 0 then (servlist st)(canon E (ns_name S) := None) else servlist st)"
  "sidlist (server_remove E s S st) = (case ns_sid S of None \<Rightarrow> sidlist st | Some i \<Rightarrow> (sidlist st)(i := None))"
  "cnt_server (server_remove E s S st) = cnt_server st - 1"
  "users (server_remove E s S st) = users st" "channels (server_remove E s S st) = channels st"
  "members (server_remove E s S st) = members st" "userlist (server_remove E s S st) = userlist st"
  "uidlist (server_remove E s S st) = uidlist st" "chanlist (server_remove E s S st) = chanlist st"
  "accounts (server_remove E s S st) = accounts st" "mychan_chan (server_remove E s S st) = mychan_chan st"
  "fresh_ref (server_remove E s S st) = fresh_ref st" "cnt_user (server_remove E s S st) = cnt_user st"
  "cnt_chan (server_remove E s S st) = cnt_chan st" "cnt_chanuser (server_remove E s S st) = cnt_chanuser st"
  by (simp_all add: server_remove_def Let_def split: option.split)

lemma server_remove_servers:
  assumes "tree_ok E st" "servers st s = Some S0" "ns_uplink S0 = ns_uplink S"
  shows "servers (server_remove E s S st) r = (if r = s then None else
    map_option (\<lambda>R. if ns_uplink S = Some r then R\<lparr>ns_children := remove1 s (ns_children R)\<rparr> else R) (servers st r))"
  unfolding server_remove_simps by (cases "servers st r") (auto split: option.split)

lemma server_remove_live:
  assumes "live_ok E st" "s \<noteq> ne_me E" "\<And>u U. users st u = Some U \<Longrightarrow> un_server U \<noteq> s"
    and "tree_ok E st" "servers st s = Some S0" "ns_uplink S0 = ns_uplink S"
  shows "live_ok E (server_remove E s S st)"
proof -
  note i = net_butD [OF live_okD(1) [OF assms(1)]] and f = server_remove_simps [of E s S st]
    and sv = server_remove_servers [OF assms(4-6)]
  let ?st = "server_remove E s S st"
  have "servers_but {} ?st"
    unfolding servers_but_def
  proof (intro conjI allI impI)
    fix u U assume "users ?st u = Some U"
    then show "servers ?st (un_server U) \<noteq> None"
      using servers_butD(1) [OF i(4)] assms(3) by (simp add: f(5) sv)
  next
    fix r R assume "servers ?st r = Some R"
    then obtain R0 where "servers st r = Some R0" "ns_userlist R = ns_userlist R0" "ns_users R = ns_users R0"
      by (auto simp: sv split: if_splits)
    then show "lists (ns_userlist R) (users ?st) (\<lambda>U. un_server U = r)" "ns_users R = of_nat (length (ns_userlist R))"
      using servers_butD(2,3) [OF i(4)] by (auto simp: f)
  qed
  moreover have "fresh_ok ?st"
    unfolding fresh_ok_def f(5-7,13)
  proof (intro allI impI)
    fix r assume "users st r \<noteq> None \<or> channels st r \<noteq> None \<or> members st r \<noteq> None \<or> servers ?st r \<noteq> None"
    then have "users st r \<noteq> None \<or> channels st r \<noteq> None \<or> members st r \<noteq> None \<or> servers st r \<noteq> None"
      by (auto simp: sv split: if_splits)
    then show "r < fresh_ref st" using i(6) unfolding fresh_ok_def by blast
  qed
  ultimately have "net_but {} E {} ?st" by (rule net_but_cong [OF f(5-12,14-16) live_okD(1) [OF assms(1)]])
  then show ?thesis by (rule live_okI) (use live_okD(2) [OF assms(1)] assms(2) in \<open>auto simp: sv\<close>)
qed

lemma server_remove_tree:
  assumes "live_ok E st" "tree_ok E st" "servers st s = Some S0" "ns_uplink S0 = ns_uplink S" "ns_sid S0 = ns_sid S"
    "ns_name S0 = ns_name S" "ns_flags S0 = ns_flags S"
    and none: "\<And>r R. servers st r = Some R \<Longrightarrow> ns_uplink R \<noteq> Some s"
  shows "tree_ok E (server_remove E s S st)"
proof -
  note f = server_remove_simps [of E s S st] and sv = server_remove_servers [OF assms(2-4)]
  let ?st = "server_remove E s S st"
  have up: "(\<exists>C. servers ?st c = Some C \<and> ns_uplink C = x) = (c \<noteq> s \<and> (\<exists>C. servers st c = Some C \<and> ns_uplink C = x))" for c x
    unfolding sv by (cases "servers st c") auto
  have "lists (ns_children R) (servers ?st) (\<lambda>C. ns_uplink C = Some r) \<and>
        (\<forall>p. ns_uplink R = Some p \<longrightarrow> p < r \<and> servers ?st p \<noteq> None) \<and> (r = ne_me E \<longrightarrow> ns_uplink R = None)"
    if h: "servers ?st r = Some R" for r R
  proof -
    have "r \<noteq> s" using h by (auto simp: sv)
    with h have "map_option (\<lambda>R. if ns_uplink S = Some r then R\<lparr>ns_children := remove1 s (ns_children R)\<rparr> else R) (servers st r) = Some R"
      by (simp add: sv)
    then obtain R0 where "servers st r = Some R0"
      "R = (if ns_uplink S = Some r then R0\<lparr>ns_children := remove1 s (ns_children R0)\<rparr> else R0)" by (rule map_option_SomeE)
    with \<open>r \<noteq> s\<close> have R0: "r \<noteq> s" "servers st r = Some R0" "ns_uplink R = ns_uplink R0"
      "ns_children R = (if ns_uplink S = Some r then remove1 s (ns_children R0) else ns_children R0)"
      by auto
    note t = tree_okD [OF assms(2) R0(2)]
    have "lists (ns_children R) (servers ?st) (\<lambda>C. ns_uplink C = Some r)"
      using t(1) assms(3,4) unfolding lists_def up R0(4) by auto
    moreover have "servers ?st p \<noteq> None" if "ns_uplink R = Some p" for p
      using t(2) none [OF R0(2)] that R0(3) by (auto simp: sv)
    ultimately show ?thesis using t(2,3) R0(3) by metis
  qed
  moreover have "\<exists>R. servers ?st r = Some R \<and> canon E (ns_name R) = k \<and> ns_flags R AND SF_MASKED = 0"
    if h: "servlist ?st k = Some r" for k r
  proof -
    have "servlist st k = Some r" using h by (auto simp: f split: if_splits)
    then obtain R where R: "servers st r = Some R" "canon E (ns_name R) = k" "ns_flags R AND SF_MASKED = 0"
      using tree_dicts(1) [OF assms(2)] by blast
    moreover from R have "r \<noteq> s" using h assms(3,6,7) by (auto simp: f split: if_splits)
    ultimately show ?thesis by (auto simp: sv)
  qed
  moreover have "\<exists>R. servers ?st r = Some R \<and> ns_sid R = Some i" if h: "sidlist ?st i = Some r" for i r
  proof -
    have "sidlist st i = Some r" using h by (auto simp: f split: option.splits if_splits)
    then obtain R where R: "servers st r = Some R" "ns_sid R = Some i" using tree_dicts(2) [OF assms(2)] by blast
    moreover from R have "r \<noteq> s" using h assms(3,5) by (auto simp: f split: option.splits if_splits)
    ultimately show ?thesis by (auto simp: sv)
  qed
  moreover have "dom (servers ?st) = dom (servers st) - {s}" unfolding dom_def sv by auto
  then have "cnt_server ?st = of_nat (card (dom (servers ?st)))"
    using tree_dicts(3) [OF assms(2)] fresh_servers [OF net_butD(6) [OF live_okD(1) [OF assms(1)]]] assms(3)
    by (simp add: f)
  ultimately show ?thesis unfolding tree_ok_def by blast
qed

text \<open>
  The recursion.  Every server reference is below \<open>B\<close> and a child is newer than its uplink, so that
  \<open>B - s\<close> bounds the depth below \<open>s\<close>.
\<close>

definition tree_live :: "nat \<Rightarrow> net_env \<Rightarrow> net \<Rightarrow> bool" where
  "tree_live B E st \<longleftrightarrow> live_ok E st \<and> tree_ok E st \<and> (\<forall>r. servers st r \<noteq> None \<longrightarrow> r < B)"

lemma tree_liveD:
  assumes "tree_live B E st"
  shows "live_ok E st" "tree_ok E st" "servers st r \<noteq> None \<Longrightarrow> r < B"
  using assms unfolding tree_live_def by blast+

lemma shrinks_bound: "shrinks E K st st' \<Longrightarrow> servers st' r \<noteq> None \<Longrightarrow> servers st r \<noteq> None"
  using shrinksD(1) by fastforce

lemma srv_frame_live: "srv_frame st st' \<Longrightarrow> servers st' r \<noteq> None \<longleftrightarrow> servers st r \<noteq> None"
  using srv_frame_ex [of st st' "\<lambda>_. True" r] by auto

lemma fold_split_shrinks:
  assumes "live_ok E st"
  shows "shrinks E {} st (fold (split_user E) us st)"
  unfolding shrinks_def
proof (intro conjI allI impI)
  note s = fold_split_spec [OF assms, of us]
  show "\<exists>R. servers st r = Some R \<and> same_id R R'" if "servers (fold (split_user E) us st) r = Some R'" for r R'
    using srv_frame_some [OF s(2) that] srv_shape_fields unfolding same_id_def by metis
  show "servers (fold (split_user E) us st) r \<noteq> None" if "servers st r \<noteq> None \<and> r \<notin> {}" for r
    using that srv_frame_live [OF s(2)] by blast
  show "un_server U' = ne_me E \<or> (\<exists>U. users st u = Some U \<and> un_server U = un_server U')"
    if "users (fold (split_user E) us st) u = Some U'" for u U'
    using s(3) [OF that] by blast
qed

lemma fold_opt_shrinks:
  assumes step: "\<And>c st. c \<in> set cs \<Longrightarrow> tree_live B E st \<Longrightarrow>
      \<exists>st'. f c st = Some st' \<and> tree_live B E st' \<and> shrinks E {r. below st c r} st st' \<and> servers st' c = None"
    and "tree_live B E st" "\<And>c r. c \<in> set cs \<Longrightarrow> below st c r \<Longrightarrow> r \<in> K"
  shows "\<exists>st'. fold_opt f cs st = Some st' \<and> tree_live B E st' \<and> shrinks E K st st' \<and> (\<forall>c\<in>set cs. servers st' c = None)"
  using assms
proof (induction cs arbitrary: st)
  case (Cons c cs)
  have "c \<in> set (c # cs)" by simp
  from Cons.prems(1) [OF this Cons.prems(2)] obtain st1 where
    st1: "f c st = Some st1" "tree_live B E st1" "shrinks E {r. below st c r} st st1" "servers st1 c = None" by blast
  have "\<exists>st'. fold_opt f cs st1 = Some st' \<and> tree_live B E st' \<and> shrinks E K st1 st' \<and> (\<forall>c\<in>set cs. servers st' c = None)"
  proof (rule Cons.IH [OF _ st1(2)])
    fix d st assume "d \<in> set cs" "tree_live B E st"
    then show "\<exists>st'. f d st = Some st' \<and> tree_live B E st' \<and> shrinks E {r. below st d r} st st' \<and> servers st' d = None"
      by (intro Cons.prems(1)) simp_all
  next
    fix d r assume "d \<in> set cs" "below st1 d r"
    then show "r \<in> K" using Cons.prems(3) [of d r] below_shrinks [OF _ st1(3)] by simp
  qed
  then obtain st2 where st2: "fold_opt f cs st1 = Some st2" "tree_live B E st2" "shrinks E K st1 st2" "\<forall>c\<in>set cs. servers st2 c = None"
    by blast
  have "shrinks E K st st1" by (rule shrinks_mono [OF st1(3)]) (use Cons.prems(3) in auto)
  then have "shrinks E K st st2" by (rule shrinks_trans [OF _ st2(3)]) simp
  moreover have "servers st2 c = None" using shrinks_bound [OF st2(3)] st1(4) by blast
  ultimately show ?case using st1(1) st2 by auto
qed simp

lemma server_delete_serv_ok:
  assumes "tree_live B E st" "s \<noteq> ne_me E" "s < B" "B < n + s"
  shows "\<exists>st'. server_delete_serv n E s st = Some st' \<and> tree_live B E st' \<and> shrinks E {r. below st s r} st st' \<and> servers st' s = None"
  using assms
proof (induction n arbitrary: s st)
  case (Suc n)
  show ?case
  proof (cases "servers st s")
    case None
    then show ?thesis using Suc.prems by (auto simp: shrinks_def same_id_def)
  next
    case (Some S)
    note l = tree_liveD [OF Suc.prems(1)]
    define st0 where "st0 = emit (Hook_server_delete s) st"
    define st1 where "st1 = fold (split_user E) (ns_userlist S) st0"
    have l0: "live_ok E st0" using l(1) by (simp add: st0_def)
    note f = fold_split_spec [OF l0, of "ns_userlist S", folded st1_def]
    have fr: "srv_frame st st1" using f(2) by (simp add: st0_def)
    have sh1: "shrinks E {} st st1" using fold_split_shrinks [OF l0, of "ns_userlist S"] by (simp add: st0_def st1_def shrinks_def)
    have tl1: "tree_live B E st1"
      using f(1) tree_frame [OF fr l(2)] l(3) srv_frame_live [OF fr] by (simp add: tree_live_def)
    have nous: "un_server V \<noteq> s" if hv: "users st1 v = Some V" for v V
    proof
      assume h: "un_server V = s"
      then obtain V0 where "v \<notin> set (ns_userlist S)" "users st v = Some V0" "un_server V0 = s"
        using f(3) [OF hv] Suc.prems(2) by (auto simp: st0_def)
      then show False
        using lists_mem [OF servers_butD(2) [OF net_butD(4) [OF live_okD(1) [OF l(1)]] Some]] by blast
    qed
    have child: "c \<noteq> ne_me E \<and> s < c \<and> c < B \<and> below st s c" if hc: "c \<in> set (ns_children S)" for c
    proof -
      obtain C where C: "servers st c = Some C" "ns_uplink C = Some s"
        using hc lists_mem [OF tree_okD(1) [OF l(2) Some]] by blast
      then show ?thesis
        using tree_okD(2,3) [OF l(2) C(1)] l(3) [of c] below_step [OF C below_self] by auto
    qed
    have "\<exists>st'. fold_opt (server_delete_serv n E) (ns_children S) st1 = Some st' \<and> tree_live B E st' \<and>
        shrinks E {r. below st s r \<and> r \<noteq> s} st1 st' \<and> (\<forall>c\<in>set (ns_children S). servers st' c = None)"
    proof (rule fold_opt_shrinks [OF _ tl1])
      fix c st' assume "c \<in> set (ns_children S)" "tree_live B E st'"
      then show "\<exists>st''. server_delete_serv n E c st' = Some st'' \<and> tree_live B E st'' \<and> shrinks E {r. below st' c r} st' st'' \<and> servers st'' c = None"
        using child Suc.prems(4) by (intro Suc.IH) fastforce+
    next
      fix c r assume c: "c \<in> set (ns_children S)" "below st1 c r"
      then have "below st c r" using below_shrinks [OF _ sh1] by blast
      then show "r \<in> {r. below st s r \<and> r \<noteq> s}"
        using child [OF c(1)] below_trans [of st c r s] below_ge [OF _ l(2), of c r] by auto
    qed
    then obtain st2 where st2: "fold_opt (server_delete_serv n E) (ns_children S) st1 = Some st2" "tree_live B E st2"
        "shrinks E {r. below st s r \<and> r \<noteq> s} st1 st2" "\<forall>c\<in>set (ns_children S). servers st2 c = None" by blast
    note l2 = tree_liveD [OF st2(2)]
    have sh2: "shrinks E {r. below st s r \<and> r \<noteq> s} st st2"
      by (rule shrinks_trans [OF shrinks_mono [OF sh1] st2(3)]) simp_all
    obtain S2 where S2: "servers st2 s = Some S2" using shrinksD(2) [OF sh2, of s] Some by auto
    have id2: "same_id S S2" using shrinksD(1) [OF sh2 S2] Some by auto
    have none: "ns_uplink R \<noteq> Some s" if h: "servers st2 r = Some R" for r R
    proof
      assume "ns_uplink R = Some s"
      then obtain R0 where "servers st r = Some R0" "ns_uplink R0 = Some s"
        using shrinksD(1) [OF sh2 h] by (auto simp: same_id_def)
      then have "r \<in> set (ns_children S)" using lists_mem [OF tree_okD(1) [OF l(2) Some]] by blast
      with st2(4) h show False by simp
    qed
    have nous2: "un_server V \<noteq> s" if "users st2 v = Some V" for v V
      using shrinksD(3) [OF st2(3) that] nous Suc.prems(2) by metis
    define st3 where "st3 = server_remove E s S st2"
    have idf: "ns_uplink S2 = ns_uplink S" "ns_sid S2 = ns_sid S" "ns_name S2 = ns_name S" "ns_flags S2 = ns_flags S"
      using id2 by (simp_all add: same_id_def)
    note sv = server_remove_servers [OF l2(2) S2 idf(1), folded st3_def]
    have live3: "live_ok E st3"
      unfolding st3_def by (rule server_remove_live [OF l2(1) Suc.prems(2) nous2 l2(2) S2 idf(1)])
    have "tree_ok E st3"
      unfolding st3_def by (rule server_remove_tree [OF l2(1,2) S2 idf none])
    with live3 have tl3: "tree_live B E st3" using l2(3) by (auto simp: tree_live_def sv split: if_splits)
    have us3: "users st3 = users st2" by (simp add: st3_def server_remove_simps)
    have sh3: "shrinks E {s} st2 st3"
      unfolding shrinks_def us3 sv same_id_def by auto
    have sh: "shrinks E {r. below st s r} st st3"
      by (rule shrinks_trans [OF shrinks_mono [OF sh2] sh3]) (auto intro: below_self)
    have "server_delete_serv (Suc n) E s st = Some st3"
      using Suc.prems(2) Some st2(1) by (simp add: st3_def st1_def st0_def)
    then show ?thesis using tl3 sh by (auto simp: sv)
  qed
qed simp

end
