(* ===== verification/NetworkReach.thy ===== *)
theory NetworkReach
  imports NetworkTree
begin

text \<open>
  Every state that calls of the operations of \<open>users.c\<close>, \<open>servers.c\<close>, \<open>channels.c\<close> and \<open>services.c\<close> reach
  from the start of services is consistent: the step relation \<open>net_step\<close>, the reachable states \<open>net_reach\<close>
  and what follows for them.
\<close>

section \<open>Logging clients in and out\<close>

text \<open>The links \<open>myuser_login\<close> makes, and \<open>handle_clearlogin\<close> when no authentication service is loaded.\<close>

definition UF_SOPER_PASS :: u64 where "UF_SOPER_PASS = 0x400"

definition myuser_login :: "net_env \<Rightarrow> uref \<Rightarrow> aref \<Rightarrow> net \<Rightarrow> net" where
  "myuser_login E u a st =
     (case (users st u, accounts st a) of
        (Some U, Some A) \<Rightarrow>
          if un_myuser U \<noteq> None then st
          else let st1 = upd_user u (\<lambda>U. U\<lparr>un_myuser := Some a, un_flags := un_flags U AND NOT UF_SOPER_PASS\<rparr>) st;
                   st2 = st1\<lparr>accounts := (accounts st1)(a := Some (A\<lparr>la_logins := la_logins A @ [u], la_lastlogin := ne_now E\<rparr>))\<rparr>;
                   k = canon E (un_nick U)
               in (case mynicks st2 k of
                     Some n \<Rightarrow> if ln_owner n = a then st2\<lparr>mynicks := (mynicks st2)(k := Some (n\<lparr>ln_lastseen := ne_now E\<rparr>))\<rparr> else st2
                   | None \<Rightarrow> st2)
      | _ \<Rightarrow> st)"

definition handle_clearlogin :: "uref \<Rightarrow> net \<Rightarrow> net" where
  "handle_clearlogin u st =
     (case users st u of
        None \<Rightarrow> st
      | Some U \<Rightarrow>
          (case un_myuser U of
             None \<Rightarrow> st
           | Some a \<Rightarrow>
               upd_user u (\<lambda>U. U\<lparr>un_myuser := None\<rparr>)
                 (st\<lparr>accounts := (accounts st)(a := map_option (\<lambda>A. A\<lparr>la_logins := remove1 u (la_logins A)\<rparr>) (accounts st a))\<rparr>)))"

text \<open>Both change the login of one client and the login list of one account.\<close>

lemma relogin_live:
  assumes "live_ok E st" "users st u = Some U"
    and f: "\<And>V. un_nick (f V) = un_nick V \<and> un_uid (f V) = un_uid V \<and> un_server (f V) = un_server V \<and> un_channels (f V) = un_channels V"
    and l: "logins_ok (upd_user u f (st\<lparr>accounts := acc\<rparr>))"
  shows "live_ok E (upd_user u f (st\<lparr>accounts := acc\<rparr>))"
proof -
  let ?st = "upd_user u f (st\<lparr>accounts := acc\<rparr>)" and ?g = "\<lambda>V. (f V)\<lparr>un_myuser := un_myuser V\<rparr>"
  note i = net_butD [OF live_okD(1) [OF assms(1)]]
  have "net_but {} E {} (upd_user u ?g st)"
    by (rule upd_user_net [OF live_okD(1) [OF assms(1)]]) (use f in simp)
  note j = net_butD [OF this]
  have eq: "memb_ok ?st = memb_ok (upd_user u ?g st)" "names_ok E ?st = names_ok E (upd_user u ?g st)"
    "servers_but {} ?st = servers_but {} (upd_user u ?g st)" "counts_but E {} ?st = counts_but E {} (upd_user u ?g st)"
    "fresh_ok ?st = fresh_ok (upd_user u ?g st)" "totals_ok ?st = totals_ok (upd_user u ?g st)"
  proof -
    have p: "users ?st = (users st)(u := Some (f U))" "channels ?st = channels st" "members ?st = members st"
      "servers ?st = servers st" "userlist ?st = userlist st" "uidlist ?st = uidlist st" "chanlist ?st = chanlist st"
      "mychan_chan ?st = mychan_chan st"
      using assms(2) by simp_all
    have q: "users (upd_user u ?g st) = (users st)(u := Some (?g U))" using assms(2) by simp
    have ex: "(\<exists>V. ((users st)(u := Some (f U))) v = Some V \<and> P V) = (\<exists>V. ((users st)(u := Some (?g U))) v = Some V \<and> P V)"
      if "P (f U) = P (?g U)" for v P using that by simp
    have al: "(\<forall>v V. ((users st)(u := Some (f U))) v = Some V \<longrightarrow> P v V) = (\<forall>v V. ((users st)(u := Some (?g U))) v = Some V \<longrightarrow> P v V)"
      if "P u (f U) = P u (?g U)" for P using that by auto
    show "memb_ok ?st = memb_ok (upd_user u ?g st)"
      unfolding memb_ok_def p q upd_user_simps(2-)
      by (subst al) (simp_all add: f)
    show "names_ok E ?st = names_ok E (upd_user u ?g st)"
      unfolding names_ok_def p q upd_user_simps(2-)
      by (subst ex, simp add: f, subst ex, simp add: f) simp
    have ls: "lists us ((users st)(u := Some (f U))) P = lists us ((users st)(u := Some (?g U))) P" if "P (f U) = P (?g U)" for us P
      by (rule lists_cong) (use that in simp)
    show "servers_but {} ?st = servers_but {} (upd_user u ?g st)"
      unfolding servers_but_def p q upd_user_simps(2-)
      by (subst al, simp add: f, subst ls) (simp_all add: f)
    have "is_internal_client E v ?st = is_internal_client E v (upd_user u ?g st)" for v
      using assms(2) by (simp add: is_internal_client_def)
    then have "svc_member E ?st = svc_member E (upd_user u ?g st)"
      by (intro ext) (simp add: svc_member_def split: option.split)
    then show "counts_but E {} ?st = counts_but E {} (upd_user u ?g st)"
      by (simp add: counts_but_def count_ok_def)
    show "fresh_ok ?st = fresh_ok (upd_user u ?g st)" using assms(2) by (simp add: fresh_ok_def)
    show "totals_ok ?st = totals_ok (upd_user u ?g st)" using assms(2) by (simp add: totals_ok_def)
  qed
  show ?thesis
    by (rule live_okI) (use j l live_okD(2) [OF assms(1)] in \<open>simp_all add: net_but_def eq\<close>)
qed

lemma myuser_login_live:
  assumes "live_ok E st"
  shows "live_ok E (myuser_login E u a st)"
proof (cases "users st u = None \<or> accounts st a = None \<or> (\<exists>U. users st u = Some U \<and> un_myuser U \<noteq> None)")
  case True
  then show ?thesis using assms by (auto simp: myuser_login_def split: option.split)
next
  case False
  then obtain U A where h: "users st u = Some U" "accounts st a = Some A" "un_myuser U = None" by auto
  note i = net_butD [OF live_okD(1) [OF assms]]
  let ?f = "\<lambda>U. U\<lparr>un_myuser := Some a, un_flags := un_flags U AND NOT UF_SOPER_PASS\<rparr>"
  let ?acc = "(accounts st)(a := Some (A\<lparr>la_logins := la_logins A @ [u], la_lastlogin := ne_now E\<rparr>))"
  have old: "lists (la_logins B) (users st) (\<lambda>V. un_myuser V = Some b)" if "accounts st b = Some B" for b B
    using i(5) that unfolding logins_ok_def by blast
  have u: "u \<notin> set (la_logins B)" if "accounts st b = Some B" for b B
    using lists_mem [OF old [OF that], of u] h by simp
  have "logins_ok (upd_user u ?f (st\<lparr>accounts := ?acc\<rparr>))"
    unfolding logins_ok_def
  proof (intro conjI allI impI)
    fix b B assume "accounts (upd_user u ?f (st\<lparr>accounts := ?acc\<rparr>)) b = Some B"
    then have "b = a \<Longrightarrow> la_logins B = la_logins A @ [u]" "b \<noteq> a \<Longrightarrow> accounts st b = Some B"
      by (auto split: if_splits)
    note B = this
    have us: "users (upd_user u ?f (st\<lparr>accounts := ?acc\<rparr>)) = (users st)(u := Some (?f U))" using h(1) by simp
    have ex: "(\<exists>V. ((users st)(u := Some (?f U))) v = Some V \<and> un_myuser V = Some b) =
        (if v = u then b = a else (\<exists>V. users st v = Some V \<and> un_myuser V = Some b))" for v
      by auto
    show "lists (la_logins B) (users (upd_user u ?f (st\<lparr>accounts := ?acc\<rparr>))) (\<lambda>V. un_myuser V = Some b)"
    proof (cases "b = a")
      case True
      have "distinct (la_logins A @ [u])" using old [OF h(2)] u [OF h(2)] by (simp add: lists_def)
      moreover have "set (la_logins A @ [u]) = {v. if v = u then b = a else (\<exists>V. users st v = Some V \<and> un_myuser V = Some b)}"
        using old [OF h(2)] h(1,3) True by (auto simp: lists_def)
      ultimately show ?thesis using B(1) [OF True] by (simp only: lists_def us ex)
    next
      case False
      then have "{v. if v = u then b = a else (\<exists>V. users st v = Some V \<and> un_myuser V = Some b)} =
          {v. \<exists>V. users st v = Some V \<and> un_myuser V = Some b}" using h(1,3) by auto
      then show ?thesis using old [OF B(2) [OF False]] by (simp only: lists_def us ex)
    qed
  next
    fix v V b assume "users (upd_user u ?f (st\<lparr>accounts := ?acc\<rparr>)) v = Some V \<and> un_myuser V = Some b"
    then show "accounts (upd_user u ?f (st\<lparr>accounts := ?acc\<rparr>)) b \<noteq> None"
      using i(5) h unfolding logins_ok_def by (auto split: if_splits)
  qed
  then have "live_ok E (upd_user u ?f (st\<lparr>accounts := ?acc\<rparr>))"
    by (intro relogin_live [OF assms h(1)]) simp_all
  moreover have "(upd_user u ?f st)\<lparr>accounts := (accounts (upd_user u ?f st))(a := Some (A\<lparr>la_logins := la_logins A @ [u], la_lastlogin := ne_now E\<rparr>))\<rparr> =
      upd_user u ?f (st\<lparr>accounts := ?acc\<rparr>)"
    by (simp add: upd_user_def)
  ultimately show ?thesis
    using h by (auto simp: myuser_login_def Let_def split: option.split)
qed

lemma handle_clearlogin_live:
  assumes "live_ok E st"
  shows "live_ok E (handle_clearlogin u st)"
proof (cases "users st u")
  case None
  then show ?thesis using assms by (simp add: handle_clearlogin_def)
next
  case (Some U)
  show ?thesis
  proof (cases "un_myuser U")
    case None
    then show ?thesis using assms Some by (simp add: handle_clearlogin_def)
  next
    case (Some a)
    note i = net_butD [OF live_okD(1) [OF assms]] and U = \<open>users st u = Some U\<close>
    let ?f = "\<lambda>U. U\<lparr>un_myuser := None\<rparr>"
    let ?acc = "(accounts st)(a := map_option (\<lambda>A. A\<lparr>la_logins := remove1 u (la_logins A)\<rparr>) (accounts st a))"
    have "logins_ok (upd_user u ?f (st\<lparr>accounts := ?acc\<rparr>))"
      unfolding logins_ok_def
    proof (intro conjI allI impI)
      fix b B assume "accounts (upd_user u ?f (st\<lparr>accounts := ?acc\<rparr>)) b = Some B"
      then obtain B0 where B0: "accounts st b = Some B0" "la_logins B = (if b = a then remove1 u (la_logins B0) else la_logins B0)"
        by (auto split: if_splits)
      then have "lists (la_logins B0) (users st) (\<lambda>V. un_myuser V = Some b)" using i(5) unfolding logins_ok_def by blast
      then show "lists (la_logins B) (users (upd_user u ?f (st\<lparr>accounts := ?acc\<rparr>))) (\<lambda>V. un_myuser V = Some b)"
        using B0(2) U Some by (auto simp: lists_def)
    next
      fix v V b assume "users (upd_user u ?f (st\<lparr>accounts := ?acc\<rparr>)) v = Some V \<and> un_myuser V = Some b"
      then show "accounts (upd_user u ?f (st\<lparr>accounts := ?acc\<rparr>)) b \<noteq> None"
        using i(5) U unfolding logins_ok_def by (auto split: if_splits)
    qed
    then have "live_ok E (upd_user u ?f (st\<lparr>accounts := ?acc\<rparr>))" by (intro relogin_live [OF assms U]) simp_all
    then show ?thesis using U Some by (simp add: handle_clearlogin_def)
  qed
qed

lemma srv_frame_login: "srv_frame st (myuser_login E u a st)" "srv_frame st (handle_clearlogin u st)"
  by (auto simp: myuser_login_def handle_clearlogin_def Let_def srv_frame_def split: option.split)

section \<open>Every reachable network\<close>

lemma srv_frame_find: "user_find E nick st = (r, st') \<Longrightarrow> srv_frame st st'"
  by (auto simp: user_find_def split: option.splits if_splits)

lemma srv_frame_ops:
  "srv_frame st (snd (user_add E d s ts st))" "srv_frame st (user_changeuid u uid st)"
  "srv_frame st (user_mode E u modes st)" "srv_frame st (user_sethost src u host st)"
  "srv_frame st (kill_user E source u reason st)" "srv_frame st (part E chan nick st)"
  "srv_frame st (snd (channel_add E name ts creator st))"
proof -
  note d = srv_frame_user_delete [of "emit e st" for e, simplified] srv_frame_user_delete [of "emit e (emit e' st)" for e e', simplified]
    srv_frame_user_delete [of "emit e (emit e' (emit e'' st))" for e e' e'', simplified]
  show "srv_frame st (snd (user_add E d s ts st))"
    using srv_frame_user_new [of st E d s ts] by (simp add: user_add_def split_def Let_def d split: option.split)
  show "srv_frame st (user_changeuid u uid st)"
    by (simp add: user_changeuid_def Let_def srv_frame_def split: option.split)
  have sh: "srv_shape (S\<lparr>ns_invis := i\<rparr>) = srv_shape S" "srv_shape (S\<lparr>ns_opers := i\<rparr>) = srv_shape S" for S i
    by (simp_all add: srv_shape_def)
  show "srv_frame st (user_mode E u modes st)"
    by (simp add: user_mode_def Let_def srv_frame_upd_server sh split: option.split)
  show "srv_frame st (user_sethost src u host st)" by (simp add: user_sethost_def)
  show "srv_frame st (kill_user E source u reason st)" by (simp add: kill_user_def Let_def d split: option.split)
  show "srv_frame st (part E chan nick st)"
    using srv_frame_chanuser_delete [of "emit e st" for e, simplified] srv_frame_chanuser_delete
    by (simp add: part_def split: option.split)
  show "srv_frame st (snd (channel_add E name ts creator st))"
    by (simp add: channel_add_def Let_def srv_frame_def split: option.split)
qed

lemma srv_frame_chanuser_add: "srv_frame st (snd (chanuser_add E c nick st))"
proof (cases "channels st c")
  case (Some C)
  obtain flags nick' where p: "strip_prefixes (ne_prefix_modes E) 0 nick = (flags, nick')"
    by (cases "strip_prefixes (ne_prefix_modes E) 0 nick") auto
  obtain r st' where r: "user_find E nick' st = (r, st')" by (cases "user_find E nick' st") auto
  have "srv_frame st' (link_member E c u flags st')" for u
    by (simp add: link_member_def Let_def srv_frame_def)
  then show ?thesis
    using srv_frame_find [OF r] Some p r srv_frame_trans
    by (auto simp: chanuser_add_def split: option.split)
qed (simp add: chanuser_add_def)

lemma srv_frame_changenick: "srv_frame st (snd (user_changenick E u nick ts st))"
proof (cases "users st u")
  case (Some U0)
  have d: "srv_frame st' (user_delete E v c2 (user_delete E u c st'))" for v c c2 st'
    by (rule srv_frame_trans [OF srv_frame_user_delete srv_frame_user_delete])
  note d2 = d [of "emit e (upd_user u f st)" for e f, simplified] d [of "emit e (emit e' (emit e'' (upd_user u f st)))" for e e' e'' f, simplified]
  note d1 = srv_frame_user_delete [of "emit e (upd_user u f st)" for e f, simplified]
  have n: "srv_frame st' (st'\<lparr>userlist := x\<rparr>)" "srv_frame st' (st'\<lparr>mynicks := y\<rparr>)" for st' x y by (simp_all add: srv_frame_def)
  have rec: "srv_frame st (st'\<lparr>userlist := x\<rparr>) = srv_frame st st'" "srv_frame st (st'\<lparr>mynicks := y\<rparr>) = srv_frame st st'" for st' x y
    by (simp_all add: srv_frame_def)
  have e: "srv_frame st (introduce_enforcer E old st') " if "srv_frame st st'" for old st'
    by (rule srv_frame_trans [OF that srv_frame_enforcer])
  show ?thesis
    unfolding user_changenick_def Some
    by (simp add: Let_def d1 d2 rec e split: option.split)
qed (simp add: user_changenick_def)

text \<open>
  The state services start from: accounts without logins, registered channels without a channel, and
  \<open>server_add\<close> for our own server.
\<close>

definition net_blank :: "(aref \<Rightarrow> login_account option) \<Rightarrow> (cstr \<Rightarrow> login_nick option) \<Rightarrow> (cstr \<Rightarrow> cref option option) \<Rightarrow> net" where
  "net_blank acc nicks regs =
     \<lparr>users = (\<lambda>_. None), channels = (\<lambda>_. None), members = (\<lambda>_. None), servers = (\<lambda>_. None), userlist = (\<lambda>_. None),
      uidlist = (\<lambda>_. None), chanlist = (\<lambda>_. None), servlist = (\<lambda>_. None), sidlist = (\<lambda>_. None), tldlist = [],
      accounts = map_option (la_logins_update (\<lambda>_. [])) \<circ> acc, mynicks = nicks,
      mychan_chan = map_option (\<lambda>_. None) \<circ> regs, fresh_ref = 0, cnt_user = 0, cnt_chan = 0, cnt_chanuser = 0,
      cnt_server = 0, cnt_tld = 0, trace = []\<rparr>"

definition services_start :: "net_env \<Rightarrow> cstr option \<Rightarrow> cstr \<Rightarrow> net \<Rightarrow> net" where
  "services_start E sid desc st = snd (server_add E (Some (ne_me_name E)) 0 None sid desc st)"

text \<open>One call of an operation, with arguments that name live objects where the caller passes a pointer.\<close>

inductive net_step :: "net_env \<Rightarrow> net \<Rightarrow> net \<Rightarrow> bool" for E where
  "servers st s \<noteq> None \<Longrightarrow> net_step E st (snd (user_add E d s ts st))"
| "net_step E st (user_delete E u comment st)"
| "net_step E st (user_changeuid u uid st)"
| "net_step E st (snd (user_changenick E u nick ts st))"
| "net_step E st (user_mode E u modes st)"
| "net_step E st (user_sethost src u host st)"
| "net_step E st (kill_user E source u reason st)"
| "net_step E st (introduce_enforcer E nick st)"
| "net_step E st (myuser_login E u a st)"
| "net_step E st (handle_clearlogin u st)"
| "net_step E st (snd (channel_add E name ts creator st))"
| "net_step E st (channel_delete E c st)"
| "net_step E st (snd (chanuser_add E c nick st))"
| "net_step E st (chanuser_delete E c u st)"
| "net_step E st (part E chan nick st)"
| "(\<And>p. uplink = Some p \<Longrightarrow> servers st p \<noteq> None) \<Longrightarrow> net_step E st (snd (server_add E name hops uplink sid desc st))"
| "server_delete n E name st = Some st' \<Longrightarrow> net_step E st st'"

inductive net_reach :: "net_env \<Rightarrow> net \<Rightarrow> bool" for E where
  start: "ne_me E = 0 \<Longrightarrow> net_reach E (services_start E sid desc (net_blank acc nicks regs))"
| step: "net_reach E st \<Longrightarrow> net_step E st st' \<Longrightarrow> net_reach E st'"

lemma start_live:
  assumes "ne_me E = 0"
  shows "live_ok E (services_start E sid desc (net_blank acc nicks regs)) \<and> tree_ok E (services_start E sid desc (net_blank acc nicks regs))"
proof -
  let ?b = "net_blank acc nicks regs"
  have b: "net_but {} E {} ?b"
    by (simp add: net_but_def net_blank_def memb_ok_def counts_but_def names_ok_def servers_but_def logins_ok_def lists_def
        fresh_ok_def totals_ok_def)
      (auto split: option.splits)
  have t: "tree_ok E ?b" by (simp add: tree_ok_def net_blank_def)
  have n: "\<not> ((Some (ne_me_name E) = None \<and> sid = None) \<or> (Some (ne_me_name E) = None \<and> None = (None :: sref option)))" by simp
  have f0: "fresh_ref ?b = 0" by (simp add: net_blank_def)
  have "servers (services_start E sid desc ?b) (ne_me E) \<noteq> None"
    unfolding services_start_def server_add_simps(1) [OF n refl refl refl] using f0 assms by simp
  moreover have "net_but {} E {} (services_start E sid desc ?b)"
    unfolding services_start_def by (rule server_add_net [OF b]) simp
  moreover have "tree_ok E (services_start E sid desc ?b)"
    unfolding services_start_def by (rule server_add_tree [OF t net_butD(6) [OF b]]) simp_all
  ultimately show ?thesis by (simp add: live_okI)
qed

text \<open>Fuel above the references handed out so far is enough, and more fuel changes nothing.\<close>

lemma fold_opt_mono:
  assumes "\<And>x s t. x \<in> set xs \<Longrightarrow> f x s = Some t \<Longrightarrow> g x s = Some t" "fold_opt f xs s = Some t"
  shows "fold_opt g xs s = Some t"
  using assms
proof (induction xs arbitrary: s)
  case (Cons x xs)
  then obtain s1 where "f x s = Some s1" "fold_opt f xs s1 = Some t" by (cases "f x s") auto
  then show ?case using Cons by simp
qed simp

lemma server_delete_serv_mono: "server_delete_serv n E s st = Some st' \<Longrightarrow> n \<le> m \<Longrightarrow> server_delete_serv m E s st = Some st'"
proof (induction n arbitrary: m s st st')
  case (Suc n)
  then obtain k where m: "m = Suc k" "n \<le> k" by (cases m) auto
  show ?case
  proof (cases "s = ne_me E \<or> servers st s = None")
    case True
    then show ?thesis using Suc.prems m by (auto split: if_splits)
  next
    case False
    then obtain S where S: "servers st s = Some S" "s \<noteq> ne_me E" by auto
    let ?st1 = "fold (split_user E) (ns_userlist S) (emit (Hook_server_delete s) st)"
    obtain st2 where st2: "fold_opt (server_delete_serv n E) (ns_children S) ?st1 = Some st2" "st' = server_remove E s S st2"
      using Suc.prems(1) S by (auto simp: Let_def)
    have "fold_opt (server_delete_serv k E) (ns_children S) ?st1 = Some st2"
      by (rule fold_opt_mono [OF _ st2(1)]) (rule Suc.IH [OF _ m(2)])
    then show ?thesis using S st2(2) m(1) by (simp add: Let_def)
  qed
qed simp

lemma server_find_live:
  assumes "tree_ok E st" "server_find E name st = Some s"
  shows "servers st s \<noteq> None"
  using assms(2) tree_dicts [OF assms(1)] unfolding server_find_def by (fastforce split: option.splits)

lemma server_delete_ok:
  assumes "live_ok E st" "tree_ok E st"
  obtains st' where "\<And>n. fresh_ref st < n \<Longrightarrow> server_delete n E name st = Some st'"
    "live_ok E st'" "tree_ok E st'"
    "\<And>s. server_find E name st = Some s \<Longrightarrow> s \<noteq> ne_me E \<Longrightarrow> shrinks E {r. below st s r} st st' \<and> servers st' s = None"
proof (cases "server_find E name st")
  case None
  then show thesis using assms by (intro that [of st]) (simp_all add: server_delete_def)
next
  case (Some s)
  note l = server_find_live [OF assms(2) Some]
  show thesis
  proof (cases "s = ne_me E")
    case True
    have "server_delete n E name st = Some st" if "fresh_ref st < n" for n
      using Some True that by (cases n) (simp_all add: server_delete_def)
    then show thesis using assms Some True by (intro that [of st]) simp_all
  next
    case False
    have b: "servers st r \<noteq> None \<Longrightarrow> r < fresh_ref st" for r
      using net_butD(6) [OF live_okD(1) [OF assms(1)]] unfolding fresh_ok_def by blast
    then have "tree_live (fresh_ref st) E st" using assms by (auto simp: tree_live_def)
    from server_delete_serv_ok [OF this False b [OF l], of "Suc (fresh_ref st)"]
    obtain st' where st': "server_delete_serv (Suc (fresh_ref st)) E s st = Some st'" "tree_live (fresh_ref st) E st'"
      "shrinks E {r. below st s r} st st'" "servers st' s = None" by auto
    have "server_delete n E name st = Some st'" if "fresh_ref st < n" for n
      using server_delete_serv_mono [OF st'(1), of n] that Some by (simp add: server_delete_def)
    then show thesis using Some st' tree_liveD [OF st'(2)] by (intro that [of st']) auto
  qed
qed

lemma net_step_ok:
  assumes "net_step E st st'" "live_ok E st" "tree_ok E st"
  shows "live_ok E st' \<and> tree_ok E st'"
  using assms(1)
proof (cases rule: net_step.cases)
  case (16 uplink name hops sid desc)
  have "fresh_ref st \<noteq> ne_me E"
    using live_okD(2) [OF assms(2)] net_butD(6) [OF live_okD(1) [OF assms(2)]] unfolding fresh_ok_def by (metis less_irrefl)
  then show ?thesis
    using server_add_live [OF assms(2)] server_add_tree [OF assms(3) net_butD(6) [OF live_okD(1) [OF assms(2)]]] 16 by simp
next
  case (17 n name)
  obtain st2 where st2: "\<And>n. fresh_ref st < n \<Longrightarrow> server_delete n E name st = Some st2" "live_ok E st2" "tree_ok E st2"
    using server_delete_ok [OF assms(2,3)] by metis
  obtain m where m: "n \<le> m" "fresh_ref st < m" by (metis max.cobounded1 max.cobounded2 less_eq_Suc_le)
  have "server_delete m E name st = Some st'"
    using 17 server_delete_serv_mono [OF _ m(1)] by (simp add: server_delete_def split: option.splits)
  then have "st' = st2" using st2(1) [OF m(2)] by simp
  then show ?thesis using st2 by simp
qed (use assms(2,3) user_add_live user_delete_live user_changeuid_live user_changenick_live user_mode_live user_sethost_live
      kill_user_live introduce_enforcer_live myuser_login_live handle_clearlogin_live channel_add_live channel_delete_live
      chanuser_add_live chanuser_delete_live part_live
      tree_frame [OF srv_frame_ops(1)] tree_frame [OF srv_frame_user_delete] tree_frame [OF srv_frame_ops(2)]
      tree_frame [OF srv_frame_changenick] tree_frame [OF srv_frame_ops(3)] tree_frame [OF srv_frame_ops(4)]
      tree_frame [OF srv_frame_ops(5)] tree_frame [OF srv_frame_enforcer] tree_frame [OF srv_frame_login(1)]
      tree_frame [OF srv_frame_login(2)] tree_frame [OF srv_frame_ops(7)] tree_frame [OF srv_frame_channel_delete]
      tree_frame [OF srv_frame_chanuser_add] tree_frame [OF srv_frame_chanuser_delete] tree_frame [OF srv_frame_ops(6)]
    in \<open>metis\<close>)+

lemma net_reach_ok: "net_reach E st \<Longrightarrow> live_ok E st \<and> tree_ok E st"
  by (induction rule: net_reach.induct) (use start_live net_step_ok in blast)+

section \<open>Properties of reachable networks\<close>

lemma subtree_gone:
  assumes "below st s r" "shrinks E K st st'" "tree_ok E st'" "servers st' s = None"
  shows "servers st' r = None"
  using assms(1)
proof (induction rule: below.induct)
  case (below_step r R p)
  show ?case
  proof (rule ccontr)
    assume "servers st' r \<noteq> None"
    then obtain R' where R': "servers st' r = Some R'" by blast
    then have "ns_uplink R' = Some p" using shrinksD(1) [OF assms(2) R'] below_step.hyps(1,2) by (auto simp: same_id_def)
    then show False using tree_okD(2) [OF assms(3) R'] below_step.IH by blast
  qed
qed (rule assms(4))

lemma user_delete_gone:
  assumes "live_ok E st" "users st u = Some U0"
  shows "users (user_delete E u comment st) u = None"
proof -
  define U where "U = U0\<lparr>un_flags := un_flags U0 AND NOT UF_DOENFORCE\<rparr>"
  define st1 where "st1 = upd_server (un_server U) (\<lambda>S. S\<lparr>ns_users := ns_users S - 1,
                      ns_opers := (if is_ircop U then ns_opers S - 1 else ns_opers S),
                      ns_invis := (if is_invis U then ns_invis S - 1 else ns_invis S)\<rparr>)
                    (emit (Hook_user_delete u comment) (upd_user u (\<lambda>_. U) st))"
  let ?st2 = "part_all E u (un_channels U) st1"
  let ?st3 = "drop_user E u U ?st2"
  have p: "ushapes_eq st1 ?st2" by (rule ushapes_part_all)
  have "users st1 u = Some U" using assms(2) by (simp add: st1_def)
  moreover have "map_option user_shape (users ?st2 u) = map_option user_shape (users st1 u)" using p unfolding ushapes_eq_def by blast
  ultimately obtain U2 where U2: "users ?st2 u = Some U2" "user_shape U2 = user_shape U" by auto
  have n: "users ?st3 u = None" using drop_user_simps(1) [OF U2(1)] user_shape_fields [OF U2(2)] by simp
  have "fresh_ref ?st3 = fresh_ref ?st2" by (simp add: drop_user_def Let_def)
  also have "\<dots> = fresh_ref st" using p by (simp add: ushapes_eq_def st1_def)
  finally have "u < fresh_ref ?st3"
    using net_butD(6) [OF live_okD(1) [OF assms(1)]] assms(2) unfolding fresh_ok_def by simp
  then have "users (introduce_enforcer E nick ?st3) u = None" for nick
    using n by (auto simp: introduce_enforcer_def user_new_def Let_def split: option.split)
  then show ?thesis
    unfolding user_delete_eq [OF assms(2) U_def st1_def] using n by (simp add: Let_def)
qed

text \<open>An environment and a network for the examples: an uplink hub, a leaf behind it, a client on the
  leaf and a channel.\<close>

definition demo_env :: net_env where
  "demo_env = \<lparr>ne_mapping = 1, ne_perm_mode = 0, ne_uses_uid = True, ne_uses_p10 = False, ne_me = 0,
     ne_me_name = ''services.int'', ne_me_connected = True, ne_now = 100, ne_uid_get = (\<lambda>_. None),
     ne_prefix_modes = [(CHR ''@'', 0x1), (CHR ''+'', 0x2)], ne_user_modes = [(CHR ''i'', UF_INVIS), (CHR ''o'', UF_IRCOP)]\<rparr>"

definition demo_net :: net where
  "demo_net =
    snd (channel_add demo_env ''#dev'' 60 2
     (snd (user_add demo_env \<lparr>ud_nick = ''jilles'', ud_user = ''j'', ud_host = ''h'', ud_vhost = None, ud_ip = None,
            ud_uid = Some ''1AA'', ud_gecos = ''J''\<rparr> 2 50
      (snd (server_add demo_env (Some ''leaf.int'') 2 (Some 1) (Some ''2AA'') ''leaf''
       (snd (server_add demo_env (Some ''hub.int'') 1 (Some 0) (Some ''1HU'') ''hub''
        (services_start demo_env (Some ''00A'') ''services'' (net_blank (\<lambda>_. None) (\<lambda>_. None) (\<lambda>_. None))))))))))"

lemma demo_reach: "net_reach demo_env demo_net"
proof -
  let ?b = "net_blank (\<lambda>_. None) (\<lambda>_. None) (\<lambda>_. None)"
  let ?s0 = "services_start demo_env (Some ''00A'') ''services'' ?b"
  let ?s1 = "snd (server_add demo_env (Some ''hub.int'') 1 (Some 0) (Some ''1HU'') ''hub'' ?s0)"
  let ?s2 = "snd (server_add demo_env (Some ''leaf.int'') 2 (Some 1) (Some ''2AA'') ''leaf'' ?s1)"
  have n: "\<not> ((Some nm = None \<and> (sid :: cstr option) = None) \<or> (Some nm = None \<and> (up :: sref option) = None))" for nm :: cstr and sid up by simp
  have f0: "fresh_ref ?b = 0" by (simp add: net_blank_def)
  have f1: "fresh_ref ?s0 = 1" unfolding services_start_def using server_add_simps(12) [OF n refl refl refl] f0 by simp
  have f2: "fresh_ref ?s1 = 2" using server_add_simps(12) [OF n refl refl refl] f1 by simp
  have l0: "servers ?s0 0 \<noteq> None"
    unfolding services_start_def server_add_simps(1) [OF n refl refl refl] using f0 by simp
  have l1: "servers ?s1 1 \<noteq> None"
    unfolding server_add_simps(1) [OF n refl refl refl] using f1 by simp
  have l2: "servers ?s2 2 \<noteq> None"
    unfolding server_add_simps(1) [OF n refl refl refl, of demo_env "''leaf.int''"] using f2 by simp
  have "net_reach demo_env ?s0" by (rule net_reach.start) (simp add: demo_env_def)
  then have "net_reach demo_env ?s1" by (rule net_reach.step) (rule net_step.intros(16), use l0 in simp)
  then have "net_reach demo_env ?s2" by (rule net_reach.step) (rule net_step.intros(16), use l1 in simp)
  then have "net_reach demo_env (snd (user_add demo_env \<lparr>ud_nick = ''jilles'', ud_user = ''j'', ud_host = ''h'', ud_vhost = None,
      ud_ip = None, ud_uid = Some ''1AA'', ud_gecos = ''J''\<rparr> 2 50 ?s2))" by (rule net_reach.step) (rule net_step.intros(1), rule l2)
  then show ?thesis unfolding demo_net_def by (rule net_reach.step) (rule net_step.intros(11))
qed

lemma demo_facts:
  "\<exists>U. users demo_net 3 = Some U \<and> un_nick U = ''jilles''" "server_find demo_env ''1HU'' demo_net = Some 1"
  "channels demo_net 4 \<noteq> None" "fresh_ref demo_net = 5" "servers demo_net 0 \<noteq> None" "user_find_named demo_env ''x'' demo_net = None"
proof -
  let ?b = "net_blank (\<lambda>_. None) (\<lambda>_. None) (\<lambda>_. None)"
  let ?s0 = "services_start demo_env (Some ''00A'') ''services'' ?b"
  let ?s1 = "snd (server_add demo_env (Some ''hub.int'') 1 (Some 0) (Some ''1HU'') ''hub'' ?s0)"
  let ?s2 = "snd (server_add demo_env (Some ''leaf.int'') 2 (Some 1) (Some ''2AA'') ''leaf'' ?s1)"
  have n: "\<not> ((Some nm = None \<and> (sid :: cstr option) = None) \<or> (Some nm = None \<and> (up :: sref option) = None))" for nm :: cstr and sid up by simp
  note a = server_add_simps [OF n refl refl refl]
  have "fresh_ref ?b = 0" "userlist ?b k = None" "chanlist ?b k = None" "mychan_chan ?b k = None" "sidlist ?b k = None" for k
    by (simp_all add: net_blank_def)
  then have s0: "fresh_ref ?s0 = 1" "userlist ?s0 k = None" "chanlist ?s0 k = None" "mychan_chan ?s0 k = None" "servers ?s0 0 \<noteq> None"
      "sidlist ?s0 = (\<lambda>_. None)(''00A'' := Some 0)" for k
    unfolding services_start_def a by (auto simp: dict_add_def)
  then have s1: "fresh_ref ?s1 = 2" "userlist ?s1 k = None" "chanlist ?s1 k = None" "mychan_chan ?s1 k = None" "servers ?s1 0 \<noteq> None"
      "sidlist ?s1 ''1HU'' = Some 1" for k
    unfolding a by (auto simp: dict_add_def)
  then have s2: "fresh_ref ?s2 = 3" "userlist ?s2 k = None" "chanlist ?s2 k = None" "mychan_chan ?s2 k = None" "servers ?s2 0 \<noteq> None"
      "sidlist ?s2 ''1HU'' = Some 1" for k
    unfolding a by (auto simp: dict_add_def)
  have c: "canon demo_env ''x'' \<noteq> canon demo_env ''jilles''" by (simp add: canon_def irccasecanon_def)
  show "\<exists>U. users demo_net 3 = Some U \<and> un_nick U = ''jilles''" "server_find demo_env ''1HU'' demo_net = Some 1"
    "channels demo_net 4 \<noteq> None" "fresh_ref demo_net = 5" "servers demo_net 0 \<noteq> None" "user_find_named demo_env ''x'' demo_net = None"
    unfolding demo_net_def using s2 c
    by (simp_all add: user_add_def user_find_named_def user_new_def Let_def server_find_def channel_add_def
        valid_global_channel_pfx_def char_at_def channel_find_def dict_add_def)
qed
text \<open>
  C2: Whatever calls of the network operations run after services start, in whatever order, the state is
  consistent: every membership is on its channel's and its user's list and nowhere else, the member and
  services-member counters of every channel, the user counter of every server and the global counters are
  exact, the nick and channel dictionaries lead to the live objects with that canonical name and to no
  other, the login lists match the clients' accounts, our own server stays, and the servers form a tree.
\<close>

theorem network_invariant:
  assumes "net_reach E st"
  shows "live_ok E st \<and> tree_ok E st"
  by (rule net_reach_ok [OF assms])

theorem network_invariant_witness: "live_ok demo_env demo_net \<and> tree_ok demo_env demo_net"
  using network_invariant [OF demo_reach] by blast

text \<open>
  C3: A server split terminates: with a depth bound above the number of objects allocated so far,
  \<open>server_delete\<close> returns, and with the same result for every larger bound.  When the name leads to a server
  other than our own, exactly that server and the servers behind it are gone afterwards, and every client
  left is on a server that is still there.
\<close>

theorem server_delete_terminates:
  assumes "net_reach E st"
  shows "\<exists>st'. (\<forall>n>fresh_ref st. server_delete n E name st = Some st') \<and>
    (\<forall>u U. users st' u = Some U \<longrightarrow> servers st' (un_server U) \<noteq> None) \<and>
    (\<forall>s. server_find E name st = Some s \<longrightarrow> s \<noteq> ne_me E \<longrightarrow>
       (\<forall>r. servers st' r \<noteq> None \<longleftrightarrow> servers st r \<noteq> None \<and> \<not> below st s r))"
proof -
  note ok = net_reach_ok [OF assms]
  obtain st' where st': "\<And>n. fresh_ref st < n \<Longrightarrow> server_delete n E name st = Some st'" "live_ok E st'" "tree_ok E st'"
    "\<And>s. server_find E name st = Some s \<Longrightarrow> s \<noteq> ne_me E \<Longrightarrow> shrinks E {r. below st s r} st st' \<and> servers st' s = None"
    using server_delete_ok [of E st name] ok by blast
  have "servers st' r \<noteq> None \<longleftrightarrow> servers st r \<noteq> None \<and> \<not> below st s r"
    if "server_find E name st = Some s" "s \<noteq> ne_me E" for s r
  proof -
    note d = st'(4) [OF that, THEN conjunct1]
    show ?thesis
    proof
      assume h: "servers st' r \<noteq> None"
      then have "\<not> below st s r" using subtree_gone [OF _ d st'(3) st'(4) [OF that, THEN conjunct2], of r] by auto
      with shrinks_bound [OF d h] show "servers st r \<noteq> None \<and> \<not> below st s r" by simp
    next
      assume "servers st r \<noteq> None \<and> \<not> below st s r"
      then show "servers st' r \<noteq> None" by (intro shrinksD(2) [OF d]) simp_all
    qed
  qed
  moreover have "servers st' (un_server U) \<noteq> None" if "users st' u = Some U" for u U
    using servers_butD(1) [OF net_butD(4) [OF live_okD(1) [OF st'(2)]] that] .
  ultimately show ?thesis using st'(1) by blast
qed

theorem server_delete_terminates_witness:
  "\<exists>st'. server_delete 6 demo_env ''1HU'' demo_net = Some st' \<and> servers st' 1 = None"
proof -
  obtain st' where st': "\<forall>n>fresh_ref demo_net. server_delete n demo_env ''1HU'' demo_net = Some st'"
    "\<forall>s. server_find demo_env ''1HU'' demo_net = Some s \<longrightarrow> s \<noteq> ne_me demo_env \<longrightarrow>
       (\<forall>r. servers st' r \<noteq> None \<longleftrightarrow> servers demo_net r \<noteq> None \<and> \<not> below demo_net s r)"
    using server_delete_terminates [OF demo_reach, of "''1HU''"] by blast
  have "ne_me demo_env = 0" by (simp add: demo_env_def)
  then have "servers st' 1 = None" using st'(2) demo_facts(2) below_self [of demo_net 1] by fastforce
  then show ?thesis using st'(1) demo_facts(4) by simp
qed

text \<open>
  C4: Deleting a client leaves no trace of it: afterwards its reference is free, no membership, channel list,
  server list, login list or dictionary mentions it.
\<close>

theorem user_delete_leaves_nothing:
  assumes "net_reach E st" "users st u = Some U" "st' = user_delete E u comment st"
  shows "users st' u = None \<and>
    (\<forall>m M. members st' m = Some M \<longrightarrow> nm_user M \<noteq> u) \<and>
    (\<forall>c C m. channels st' c = Some C \<longrightarrow> m \<in> set (nc_members C) \<longrightarrow> (\<exists>M. members st' m = Some M \<and> nm_user M \<noteq> u)) \<and>
    (\<forall>s S. servers st' s = Some S \<longrightarrow> u \<notin> set (ns_userlist S)) \<and>
    (\<forall>a A. accounts st' a = Some A \<longrightarrow> u \<notin> set (la_logins A)) \<and>
    (\<forall>k. userlist st' k \<noteq> Some u \<and> uidlist st' k \<noteq> Some u)"
proof -
  note ok = net_reach_ok [OF assms(1)]
  have live: "live_ok E st'" using user_delete_live ok assms(3) by blast
  note i = net_butD [OF live_okD(1) [OF live]]
  have gone: "users st' u = None" using user_delete_gone [of E st u U comment] ok assms(2,3) by blast
  have mem: "nm_user M \<noteq> u" if "members st' m = Some M" for m M
    using memb_okD(3) [OF i(1) that] gone by auto
  moreover have "\<exists>M. members st' m = Some M \<and> nm_user M \<noteq> u" if "channels st' c = Some C" "m \<in> set (nc_members C)" for c C m
    using lists_mem [OF memb_okD(1) [OF i(1) that(1)]] that(2) mem by blast
  moreover have "u \<notin> set (ns_userlist S)" if "servers st' s = Some S" for s S
    using lists_mem [OF servers_butD(2) [OF i(4) that]] gone by auto
  moreover have "u \<notin> set (la_logins A)" if "accounts st' a = Some A" for a A
  proof -
    have "lists (la_logins A) (users st') (\<lambda>U. un_myuser U = Some a)" using i(5) that unfolding logins_ok_def by blast
    from lists_mem [OF this] show ?thesis using gone by auto
  qed
  moreover have "userlist st' k \<noteq> Some u \<and> uidlist st' k \<noteq> Some u" for k
    using names_user [OF i(3), of k u] names_uid [OF i(3), of k u] gone by auto
  ultimately show ?thesis using gone by blast
qed

theorem user_delete_leaves_nothing_witness:
  "users (user_delete demo_env 3 ''bye'' demo_net) 3 = None"
  using user_delete_leaves_nothing [OF demo_reach _ refl, of 3] demo_facts(1) by blast

text \<open>
  \<open>chanuser_find\<close> searches whichever of the two lists is shorter; in every reachable state that is the
  same answer as searching the channel's members, or the user's channels.
\<close>

theorem chanuser_find_either_list:
  assumes "net_reach E st" "channels st c = Some C" "users st u = Some U"
  shows "chanuser_find c u st = find (\<lambda>m. case members st m of None \<Rightarrow> False | Some M \<Rightarrow> nm_user M = u) (nc_members C) \<and>
    chanuser_find c u st = find (\<lambda>m. case members st m of None \<Rightarrow> False | Some M \<Rightarrow> nm_chan M = c) (un_channels U)"
proof -
  have m: "memb_ok st" using net_reach_ok [OF assms(1)] net_butD(1) live_okD(1) by blast
  note l = memb_okD(1) [OF m assms(2)] memb_okD(2) [OF m assms(3)] and uniq = memb_okD(4) [OF m]
  have "chanuser_find c u st = Some n \<longleftrightarrow>
      find (\<lambda>m. case members st m of None \<Rightarrow> False | Some M \<Rightarrow> nm_user M = u) (nc_members C) = Some n" for n
    unfolding chanuser_find_iff [OF m assms(2,3)] by (subst find_lists [OF l(1)]) (use uniq in auto)
  moreover have "chanuser_find c u st = Some n \<longleftrightarrow>
      find (\<lambda>m. case members st m of None \<Rightarrow> False | Some M \<Rightarrow> nm_chan M = c) (un_channels U) = Some n" for n
    unfolding chanuser_find_iff [OF m assms(2,3)] by (subst find_lists [OF l(2)]) (use uniq in auto)
  ultimately show ?thesis by (metis option.exhaust)
qed

theorem chanuser_find_either_list_witness:
  "\<exists>C U. channels demo_net 4 = Some C \<and> users demo_net 3 = Some U \<and>
     chanuser_find 4 3 demo_net = find (\<lambda>m. case members demo_net m of None \<Rightarrow> False | Some M \<Rightarrow> nm_user M = 3) (nc_members C)"
  using chanuser_find_either_list [OF demo_reach, of 4 _ 3] demo_facts(1,3) by blast

text \<open>
  C22: No two clients share a nick: two clients of a reachable network whose nicks have the same canonical
  form are the same client, and \<open>user_find_named\<close> finds each client under its nick, however it is cased.
\<close>

theorem nicks_unique:
  assumes "net_reach E st" "users st u = Some U"
  shows "(\<forall>nick. user_find_named E nick st = Some u \<longleftrightarrow> canon E nick = canon E (un_nick U)) \<and>
    (\<forall>v V. users st v = Some V \<longrightarrow> canon E (un_nick V) = canon E (un_nick U) \<longrightarrow> v = u)"
proof -
  have n: "names_ok E st" using net_reach_ok [OF assms(1)] net_butD(3) live_okD(1) by blast
  have u: "userlist st (canon E (un_nick U)) = Some u" using names_user [OF n] assms(2) by blast
  have "user_find_named E nick st = Some u \<longleftrightarrow> canon E nick = canon E (un_nick U)" for nick
    using names_user [OF n, of "canon E nick" u] assms(2) by (auto simp: user_find_named_def)
  moreover have "v = u" if "users st v = Some V" "canon E (un_nick V) = canon E (un_nick U)" for v V
    using u that names_user [OF n, of "canon E (un_nick V)" v] by auto
  ultimately show ?thesis by blast
qed

theorem nicks_unique_witness: "user_find_named demo_env ''jilles'' demo_net = Some 3"
proof -
  obtain U where U: "users demo_net 3 = Some U" "un_nick U = ''jilles''" using demo_facts(1) by blast
  from nicks_unique [OF demo_reach U(1), THEN conjunct1, THEN spec [of _ "''jilles''"]] show ?thesis
    unfolding U(2) by (rule iffD2) (rule refl)
qed

text \<open>
  An enforcer's invisibility is counted when it leaves but not when it arrives: \<open>introduce_enforcer\<close> sets
  \<open>UF_INVIS\<close> behind \<open>user_add\<close>'s back, and \<open>user_delete\<close>, called when the enforcer is killed, takes one off the
  invisible-users counter of our own server.  From zero the counter wraps around.
\<close>

theorem enforcer_invis_wraps:
  assumes "net_reach E st" "servers st (ne_me E) = Some S" "user_find_named E nick st = None"
    and "st' = kill_user E None (fresh_ref st) reason (introduce_enforcer E nick st)"
  shows "\<exists>S'. servers st' (ne_me E) = Some S' \<and> ns_invis S' = ns_invis S - 1 \<and> ns_users S' = ns_users S \<and>
    (ns_invis S = 0 \<longrightarrow> ns_invis S' = 0xFFFFFFFF)"
proof -
  define F where "F = UF_INVIS OR UF_ENFORCER"
  have fl: "F AND UF_ENFORCER \<noteq> 0" "F AND UF_DOENFORCE = 0" "(F AND NOT UF_DOENFORCE) AND UF_INVIS \<noteq> 0" "0 OR UF_INVIS OR UF_ENFORCER = F"
    by (simp_all add: F_def UF_INVIS_def UF_ENFORCER_def UF_DOENFORCE_def)
  obtain U where U: "users (introduce_enforcer E nick st) (fresh_ref st) = Some U" "un_flags U = F" "un_server U = ne_me E"
    "un_channels U = []" "un_myuser U = None"
    using assms(3) fl(4) by (simp add: introduce_enforcer_def user_new_def Let_def or.assoc)
  have s: "servers (introduce_enforcer E nick st) (ne_me E) =
      Some (S\<lparr>ns_users := ns_users S + 1, ns_userlist := ns_userlist S @ [fresh_ref st]\<rparr>)"
    using assms(2,3) by (simp add: introduce_enforcer_def user_new_def Let_def)
  have "ns_invis S = 0 \<Longrightarrow> ns_invis S - 1 = 0xFFFFFFFF" by simp
  then show ?thesis
    unfolding assms(4)
    using U s fl by (simp add: kill_user_def Let_def user_delete_def is_invis_def)
qed

theorem enforcer_invis_wraps_witness:
  "servers (kill_user demo_env None (fresh_ref demo_net) ''released'' (introduce_enforcer demo_env ''x'' demo_net)) 0 \<noteq> None"
proof -
  obtain S where "servers demo_net (ne_me demo_env) = Some S" using demo_facts(5) by (auto simp: demo_env_def)
  from enforcer_invis_wraps [OF demo_reach this demo_facts(6) refl, of "''released''"] show ?thesis
    by (auto simp: demo_env_def)
qed

end
