(* ===== verification/Parse.thy ===== *)
theory Parse
  imports NetworkReach
begin

text \<open>
  Protocol input: how a line from the uplink becomes a call of a command handler.
  \<open>libathemecore/tokenize.c\<close> splits parameters, \<open>libathemecore/pmodule.c\<close> holds the command table, and
  \<open>irc_parse\<close> and \<open>p10_parse\<close> (\<open>modules/transport\<close>) take a line apart, find its source in the network of
  theory Network and check that the source may send the command.

  Strings are overwritten in place in the code; here a parameter is the list of bytes from its pointer to the
  next \<open>NUL\<close> at the time of the call.  \<open>parv\<close> is the list of the first \<open>parc\<close> pointers, the others are \<open>NULL\<close>.
\<close>

section \<open>Tokenizers\<close>

definition MAXPARC :: nat where "MAXPARC = 35"
definition SJ_LIMIT :: nat where "SJ_LIMIT = 256"

text \<open>
  The search for \<open>:\<close> with a space before it.  The byte before a colon at the start of the message is
  \<open>message[-1]\<close>, outside the string; it is the first argument.
\<close>

definition byte_before :: "char \<Rightarrow> cstr \<Rightarrow> nat \<Rightarrow> char" where
  "byte_before b0 msg i = (case i of 0 \<Rightarrow> b0 | Suc j \<Rightarrow> msg ! j)"

function colon_loop :: "char \<Rightarrow> cstr \<Rightarrow> nat \<Rightarrow> nat option" where
  "colon_loop b0 msg pos =
     (case strchr (drop pos msg) (CHR '':'') of
        None \<Rightarrow> None
      | Some k \<Rightarrow> if byte_before b0 msg (pos + k) \<noteq> CHR '' '' then colon_loop b0 msg (Suc (pos + k)) else Some (pos + k))"
  by pat_completeness auto

lemma strchr_drop_less: "strchr (drop pos s) c = Some k \<Longrightarrow> c \<noteq> NUL \<Longrightarrow> pos + k < length s"
  by (auto dest!: strchr_SomeD)

termination colon_loop
  by (relation "measure (\<lambda>(_, msg, pos). length msg - pos)") (auto dest!: strchr_drop_less)

declare colon_loop.simps [simp del]

text \<open>
  The loop over the parameters: \<open>cur\<close> is the part of the current one already passed.  The result tells
  whether it ended at the limit, where the last parameter keeps everything that is left.
\<close>

lemma length_dropWhile_Suc [termination_simp]: "length (dropWhile P xs) < Suc (length xs)"
  by (simp add: length_dropWhile_le le_imp_less_Suc)

fun token_loop :: "nat \<Rightarrow> cstr \<Rightarrow> cstr \<Rightarrow> cstr list \<times> bool" where
  "token_loop count cur [] = ([cur], False)"
| "token_loop count cur (c # s) =
     (if count = MAXPARC then ([cur @ c # s], True)
      else if c = CHR '' ''
      then (let r = dropWhile (\<lambda>d. d = CHR '' '') s
            in if r = [] then ([cur], False)
               else (let (ps, lim) = token_loop (Suc count) [] r in (cur # ps, lim)))
      else token_loop count (cur @ [c]) s)"

definition tokenize :: "char \<Rightarrow> cstr \<Rightarrow> cstr list" where
  "tokenize b0 msg =
     (case colon_loop b0 msg 0 of
        None \<Rightarrow> fst (token_loop 1 [] msg)
      | Some i \<Rightarrow>
          (let (ps, lim) = token_loop 1 [] (take (i - 1) msg)
           in if lim then ps else ps @ [drop (Suc i) msg]))"

fun sj_loop :: "char \<Rightarrow> nat \<Rightarrow> cstr \<Rightarrow> cstr \<Rightarrow> cstr list" where
  "sj_loop d count cur [] = [cur]"
| "sj_loop d count cur (c # s) =
     (if count = SJ_LIMIT then [cur @ c # s]
      else if c = d
      then (let r = dropWhile (\<lambda>x. x = d) s
            in if r = [] \<or> hd r = CHR 0x0D then [cur] else cur # sj_loop d (Suc count) [] r)
      else sj_loop d count (cur @ [c]) s)"

definition sjtoken :: "char \<Rightarrow> cstr \<Rightarrow> cstr list" where
  "sjtoken d msg = sj_loop d 1 [] (dropWhile (\<lambda>x. x = d) msg)"

section \<open>Command table\<close>

text \<open>Handlers are functions of the protocol modules; here each is a name.\<close>

record 'h pcommand =
  pc_handler :: "'h option"
  pc_minparc :: int
  pc_sourcetype :: u32

type_synonym 'h pcommands = "cstr \<Rightarrow> 'h pcommand option"

definition MSRC_UNREG :: u32 where "MSRC_UNREG = 1"
definition MSRC_USER :: u32 where "MSRC_USER = 2"
definition MSRC_SERVER :: u32 where "MSRC_SERVER = 4"

definition pcommand_find :: "'h pcommands \<Rightarrow> cstr \<Rightarrow> 'h pcommand option" where
  "pcommand_find cmds token = cmds token"

definition pcommand_add :: "cstr \<Rightarrow> 'h option \<Rightarrow> int \<Rightarrow> u32 \<Rightarrow> 'h pcommands \<Rightarrow> 'h pcommands" where
  "pcommand_add token handler minparc sourcetype cmds =
     (if pcommand_find cmds token \<noteq> None then cmds
      else cmds(token := Some \<lparr>pc_handler = handler, pc_minparc = minparc, pc_sourcetype = sourcetype\<rparr>))"

definition pcommand_delete :: "cstr \<Rightarrow> 'h pcommands \<Rightarrow> 'h pcommands" where
  "pcommand_delete token cmds = (if pcommand_find cmds token = None then cmds else cmds(token := None))"

section \<open>The parsers\<close>

text \<open>
  The part of \<open>sourceinfo_t\<close> the parsers fill in; what is known of the uplink (\<open>me.recvsvr\<close>, \<open>me.actual\<close>).
  Most ends of a parse are silent; the reasons are the log messages.
\<close>

record source =
  so_s :: "sref option"
  so_su :: "uref option"
  so_smu :: "aref option"

record uplink_info =
  up_recvsvr :: bool
  up_actual :: cstr

datatype ignore_reason =
    Empty_line | Unknown_source | From_myself | From_own_client | No_command | Unknown_command
  | Disallowed_user | Disallowed_server | Disallowed_unreg | Insufficient_parameters | No_handler

datatype 'h parsed = Ignored ignore_reason | Handled 'h source "cstr list"

definition split_word :: "cstr \<Rightarrow> cstr \<times> cstr option" where
  "split_word s = (case strchr s (CHR '' '') of None \<Rightarrow> (s, None) | Some i \<Rightarrow> (take i s, Some (drop (Suc i) s)))"

definition parameters :: "cstr option \<Rightarrow> cstr list" where
  "parameters message =
     (case message of
        None \<Rightarrow> []
      | Some m \<Rightarrow> if char_at m 0 = CHR '':'' then [drop 1 m] else tokenize NUL m)"

definition refused :: "net_env \<Rightarrow> uplink_info \<Rightarrow> sref option \<Rightarrow> uref option \<Rightarrow> net \<Rightarrow> ignore_reason option" where
  "refused E U s su st =
     (if s = None \<and> su = None \<and> up_recvsvr U then Some Unknown_source
      else if s = Some (ne_me E) then Some From_myself
      else if su \<noteq> None \<and> is_internal_client E (the su) st then Some From_own_client
      else None)"

definition run_command :: "uplink_info \<Rightarrow> 'h pcommands \<Rightarrow> source \<Rightarrow> cstr \<Rightarrow> cstr list \<Rightarrow> 'h parsed" where
  "run_command U cmds si command parv =
     (case pcommand_find cmds command of
        None \<Rightarrow> Ignored Unknown_command
      | Some pcmd \<Rightarrow>
          if so_su si \<noteq> None \<and> pc_sourcetype pcmd AND MSRC_USER = 0 then Ignored Disallowed_user
          else if so_s si \<noteq> None \<and> pc_sourcetype pcmd AND MSRC_SERVER = 0 then Ignored Disallowed_server
          else if \<not> up_recvsvr U \<and> pc_sourcetype pcmd AND MSRC_UNREG = 0 then Ignored Disallowed_unreg
          else if int (length parv) < pc_minparc pcmd then Ignored Insufficient_parameters
          else (case pc_handler pcmd of None \<Rightarrow> Ignored No_handler | Some h \<Rightarrow> Handled h si parv))"

text \<open>
  \<open>irc_parse\<close>: the state can change only by the warning of \<open>user_find\<close>.
\<close>

definition finish_parse :: "net_env \<Rightarrow> uplink_info \<Rightarrow> 'h pcommands \<Rightarrow> sref option \<Rightarrow> uref option \<Rightarrow> cstr \<Rightarrow> cstr option \<Rightarrow> net \<Rightarrow> 'h parsed" where
  "finish_parse E U cmds s su command message st =
     (case refused E U s su st of
        Some r \<Rightarrow> Ignored r
      | None \<Rightarrow>
          let si = \<lparr>so_s = s, so_su = su, so_smu = Option.bind (Option.bind su (users st)) un_myuser\<rparr>
          in run_command U cmds si command (parameters message))"

definition irc_parse :: "net_env \<Rightarrow> uplink_info \<Rightarrow> 'h pcommands \<Rightarrow> cstr \<Rightarrow> net \<Rightarrow> 'h parsed \<times> net" where
  "irc_parse E U cmds line st =
     (if char_at line 0 = CHR 0x0A \<or> char_at line 0 = NUL then (Ignored Empty_line, st)
      else
        let actual = (if up_recvsvr U then server_find E (up_actual U) st else None)
        in case split_word line of
             (w, None) \<Rightarrow> (finish_parse E U cmds actual None w None st, st)
           | (w, Some pos) \<Rightarrow>
               if char_at w 0 = CHR '':''
               then (let origin = drop 1 w; s = server_find E origin st; (su, st1) = user_find E origin st;
                         (command, message) = split_word pos
                     in (finish_parse E U cmds s su command message st1, st1))
               else (finish_parse E U cmds actual None w (Some pos) st, st))"

text \<open>
  \<open>p10_parse\<close>: a line from a known uplink always starts with its source, a numeric unless there is a colon.
\<close>

definition p10_parse :: "net_env \<Rightarrow> uplink_info \<Rightarrow> 'h pcommands \<Rightarrow> cstr \<Rightarrow> net \<Rightarrow> 'h parsed \<times> net" where
  "p10_parse E U cmds line st =
     (if char_at line 0 = CHR 0x0A \<or> char_at line 0 = NUL then (Ignored Empty_line, st)
      else
        case split_word line of
          (w, None) \<Rightarrow> (Ignored (case refused E U None None st of Some r \<Rightarrow> r | None \<Rightarrow> No_command), st)
        | (w, Some pos) \<Rightarrow>
            if char_at w 0 = CHR '':'' \<or> up_recvsvr U
            then (let (command, message) = split_word pos
                  in if char_at w 0 = CHR '':''
                     then (let origin = drop 1 w
                           in (finish_parse E U cmds (server_find E origin st) (user_find_named E origin st) command message st, st))
                     else (let s = server_find E w st; (su, st1) = user_find E w st
                           in (finish_parse E U cmds s su command message st1, st1)))
            else (finish_parse E U cmds None None w (Some pos) st, st))"

section \<open>Tokenizing inverts writing\<close>

text \<open>A parameter that is not the last: not empty, without spaces, not starting with a colon.\<close>

definition middle :: "cstr \<Rightarrow> bool" where
  "middle w \<longleftrightarrow> w \<noteq> [] \<and> CHR '' '' \<notin> set w \<and> hd w \<noteq> CHR '':''"

fun join_words :: "cstr list \<Rightarrow> cstr" where
  "join_words [] = []"
| "join_words [w] = w"
| "join_words (w # ws) = w @ CHR '' '' # join_words ws"

lemma token_loop_word:
  assumes "CHR '' '' \<notin> set w" "count \<noteq> MAXPARC"
  shows "token_loop count cur (w @ s) = (if s = [] then ([cur @ w], False) else token_loop count (cur @ w) s)"
  using assms
proof (induction w arbitrary: cur)
  case Nil
  then show ?case by (cases s) simp_all
next
  case (Cons c w)
  have "c \<noteq> CHR '' ''" using Cons.prems(1) by auto
  then have "token_loop count cur ((c # w) @ s) = token_loop count (cur @ [c]) (w @ s)" using Cons.prems(2) by simp
  also have "\<dots> = (if s = [] then ([cur @ c # w], False) else token_loop count (cur @ c # w) s)"
    using Cons.IH [of "cur @ [c]"] Cons.prems by simp
  finally show ?case by simp
qed

lemma join_words_Cons: "ws \<noteq> [] \<Longrightarrow> join_words (w # ws) = w @ CHR '' '' # join_words ws"
  by (cases ws) auto

lemma middle_start: "middle w \<Longrightarrow> w \<noteq> [] \<and> hd w \<noteq> CHR '' ''"
  by (cases w) (auto simp: middle_def)

lemma join_words_starts: "ws \<noteq> [] \<Longrightarrow> middle (hd ws) \<Longrightarrow> join_words ws \<noteq> [] \<and> hd (join_words ws) \<noteq> CHR '' ''"
  by (cases ws rule: join_words.cases) (auto dest: middle_start)

lemma dropWhile_start: "s \<noteq> [] \<Longrightarrow> \<not> P (hd s) \<Longrightarrow> dropWhile P s = s"
  by (cases s) auto

text \<open>Up to the limit every word is a parameter; the word at the limit takes all that follows it.\<close>

lemma token_loop_words:
  assumes "ws \<noteq> []" "\<forall>w \<in> set ws. middle w" "0 < count" "count + length ws \<le> MAXPARC"
  shows "token_loop count [] (join_words ws) = (ws, False)"
  using assms
proof (induction ws arbitrary: count)
  case (Cons w ws)
  show ?case
  proof (cases "ws = []")
    case True
    then show ?thesis using Cons.prems token_loop_word [of w count "[]" "[]"] by (simp add: middle_def)
  next
    case False
    let ?r = "join_words ws"
    have s: "?r \<noteq> []" "hd ?r \<noteq> CHR '' ''" using join_words_starts [OF False] False Cons.prems(2) by auto
    have "token_loop count [] (join_words (w # ws)) = token_loop count w (CHR '' '' # ?r)"
      using Cons.prems False token_loop_word [of w count "[]" "CHR '' '' # ?r"] by (simp add: middle_def join_words_Cons)
    also have "\<dots> = (w # ws, False)"
      using Cons.IH [OF False, of "Suc count"] Cons.prems False s
      by (cases ws) (auto simp: dropWhile_start Let_def)
    finally show ?thesis .
  qed
qed simp

lemma token_loop_full:
  assumes "ws \<noteq> []" "\<forall>w \<in> set ws. middle w" "0 < count" "count + length ws = Suc MAXPARC"
  shows "token_loop count [] (join_words ws @ s) = (butlast ws @ [last ws @ s], True)"
  using assms
proof (induction ws arbitrary: count)
  case (Cons w ws)
  show ?case
  proof (cases "ws = []")
    case True
    then have "count = MAXPARC" using Cons.prems by simp
    then show ?thesis using Cons.prems True by (cases w) (auto simp: middle_def)
  next
    case False
    let ?r = "join_words ws @ s"
    have r: "?r \<noteq> []" "hd ?r \<noteq> CHR '' ''" using join_words_starts [OF False] False Cons.prems(2) by auto
    have c: "count \<noteq> MAXPARC" using Cons.prems False by (cases ws) auto
    have "token_loop count [] (join_words (w # ws) @ s) = token_loop count w (CHR '' '' # ?r)"
      using Cons.prems False c token_loop_word [of w count "[]" "CHR '' '' # ?r"] by (simp add: middle_def join_words_Cons)
    also have "\<dots> = (butlast (w # ws) @ [last (w # ws) @ s], True)"
      using Cons.IH [OF False, of "Suc count"] Cons.prems False r c by (auto simp: dropWhile_start Let_def)
    finally show ?thesis .
  qed
qed simp

text \<open>The colon found is the first one behind a space.\<close>

definition trailing_at :: "char \<Rightarrow> cstr \<Rightarrow> nat \<Rightarrow> bool" where
  "trailing_at b0 msg i \<longleftrightarrow> i < length msg \<and> msg ! i = CHR '':'' \<and> byte_before b0 msg i = CHR '' ''"

lemma strchr_drop_first:
  assumes "strchr (drop pos s) c = Some k" "c \<noteq> NUL"
  shows "s ! (pos + k) = c" "\<And>j. pos \<le> j \<Longrightarrow> j < pos + k \<Longrightarrow> s ! j \<noteq> c"
proof -
  have d: "k < length (drop pos s)" "drop pos s ! k = c" "c \<notin> set (take k (drop pos s))"
    using strchr_SomeD [OF assms] by auto
  then show "s ! (pos + k) = c" by simp
  fix j assume j: "pos \<le> j" "j < pos + k"
  then have "s ! j = take k (drop pos s) ! (j - pos)" using d(1) by simp
  moreover have "\<dots> \<in> set (take k (drop pos s))" using j d(1) by (intro nth_mem) auto
  ultimately show "s ! j \<noteq> c" using d(3) by auto
qed

lemma colon_loop_spec:
  "case colon_loop b0 msg pos of
     None \<Rightarrow> \<forall>i. pos \<le> i \<longrightarrow> \<not> trailing_at b0 msg i
   | Some i \<Rightarrow> pos \<le> i \<and> trailing_at b0 msg i \<and> (\<forall>j. pos \<le> j \<and> j < i \<longrightarrow> \<not> trailing_at b0 msg j)"
proof (induction b0 msg pos rule: colon_loop.induct)
  case (1 b0 msg pos)
  show ?case
  proof (cases "strchr (drop pos msg) (CHR '':'')")
    case None
    have "msg ! i \<noteq> CHR '':''" if "pos \<le> i" "i < length msg" for i
    proof -
      have "i - pos < length (drop pos msg)" "drop pos msg ! (i - pos) = msg ! i" using that by simp_all
      then have "msg ! i \<in> set (drop pos msg)" by (metis nth_mem)
      then show ?thesis using None by (auto simp: strchr_None_iff)
    qed
    then show ?thesis using None by (subst colon_loop.simps) (auto simp: trailing_at_def)
  next
    case (Some k)
    note f = strchr_drop_first [OF Some] strchr_drop_less [OF Some]
    show ?thesis
    proof (cases "byte_before b0 msg (pos + k) = CHR '' ''")
      case True
      then show ?thesis using Some f by (subst colon_loop.simps) (auto simp: trailing_at_def)
    next
      case False
      have n: "\<not> trailing_at b0 msg j" if "pos \<le> j" "j < Suc (pos + k)" for j
        using that f False by (cases "j = pos + k") (auto simp: trailing_at_def)
      have e: "colon_loop b0 msg pos = colon_loop b0 msg (Suc (pos + k))"
        using Some False by (subst colon_loop.simps) simp
      note IH = "1.IH" [OF Some False]
      show ?thesis
      proof (cases "colon_loop b0 msg (Suc (pos + k))")
        case None
        then have "\<forall>i \<ge> Suc (pos + k). \<not> trailing_at b0 msg i" using IH by simp
        then show ?thesis unfolding e None option.case using n by (meson not_less_eq_eq not_le)
      next
        case (Some i)
        then have "Suc (pos + k) \<le> i" "trailing_at b0 msg i" "\<forall>j. Suc (pos + k) \<le> j \<and> j < i \<longrightarrow> \<not> trailing_at b0 msg j"
          using IH by simp_all
        then show ?thesis unfolding e Some option.case using n by (meson Suc_leD le_add1 le_trans not_less_eq_eq not_le)
      qed
    qed
  qed
qed

lemma colon_loop_none: "(\<And>i. \<not> trailing_at b0 msg i) \<Longrightarrow> colon_loop b0 msg 0 = None"
  using colon_loop_spec [of 0 b0 msg] by (auto split: option.splits)

lemma colon_loop_first:
  assumes "trailing_at b0 msg i" "\<And>j. j < i \<Longrightarrow> \<not> trailing_at b0 msg j"
  shows "colon_loop b0 msg 0 = Some i"
proof (cases "colon_loop b0 msg 0")
  case None
  then show ?thesis using colon_loop_spec [of 0 b0 msg] assms(1) by auto
next
  case (Some k)
  then have "trailing_at b0 msg k" "\<forall>j < k. \<not> trailing_at b0 msg j" using colon_loop_spec [of 0 b0 msg] by auto
  then show ?thesis using Some assms by (metis linorder_neqE_nat)
qed

text \<open>No colon behind a space, the start of the string counting as a space.\<close>

definition no_trailing :: "cstr \<Rightarrow> bool" where
  "no_trailing s \<longleftrightarrow> successively (\<lambda>a b. \<not> (a = CHR '' '' \<and> b = CHR '':'')) (CHR '' '' # s)"

lemma no_trailing_word: "CHR '' '' \<notin> set w \<Longrightarrow> successively (\<lambda>a b. \<not> (a = CHR '' '' \<and> b = CHR '':'')) w"
  by (auto simp: successively_conv_nth) (metis Suc_lessD nth_mem)

lemma no_trailing_join: "\<forall>w \<in> set ws. middle w \<Longrightarrow> no_trailing (join_words ws)"
proof (induction ws rule: join_words.induct)
  case (2 w)
  then show ?case using no_trailing_word [of w] by (cases w) (auto simp: no_trailing_def middle_def)
next
  case (3 w v vs)
  then have w: "successively (\<lambda>a b. \<not> (a = CHR '' '' \<and> b = CHR '':'')) (CHR '' '' # w)"
    using no_trailing_word [of w] by (cases w) (auto simp: middle_def)
  have "no_trailing (join_words (v # vs))" using 3 by simp
  then show ?case using w successively_append_iff [of _ "CHR '' '' # w" "CHR '' '' # join_words (v # vs)"]
    by (auto simp: no_trailing_def)
qed (simp add: no_trailing_def)

lemma no_trailing_at:
  assumes "no_trailing s" "i < length s"
  shows "\<not> trailing_at b0 (s @ t) i"
proof
  assume t: "trailing_at b0 (s @ t) i"
  have "\<not> ((CHR '' '' # s) ! i = CHR '' '' \<and> s ! i = CHR '':'')"
    using assms by (auto simp: no_trailing_def successively_conv_nth)
  moreover have "s ! i = CHR '':''" using t assms by (simp add: trailing_at_def nth_append)
  ultimately show False using t assms by (cases i) (auto simp: trailing_at_def byte_before_def nth_append)
qed

definition trailing_text :: "cstr option \<Rightarrow> cstr" where
  "trailing_text tr = (case tr of None \<Rightarrow> [] | Some t \<Rightarrow> '' :'' @ t)"

lemma colon_loop_line:
  assumes "no_trailing s"
  shows "colon_loop b0 (s @ trailing_text tr) 0 = (case tr of None \<Rightarrow> None | Some t \<Rightarrow> Some (Suc (length s)))"
proof (cases tr)
  case None
  have "\<not> trailing_at b0 s i" for i
    using no_trailing_at [OF assms, of i b0 "[]"] by (cases "i < length s") (auto simp: trailing_at_def)
  then show ?thesis using None by (simp add: trailing_text_def colon_loop_none)
next
  case (Some t)
  have "\<not> trailing_at b0 (s @ '' :'' @ t) j" if "j < Suc (length s)" for j
    using that no_trailing_at [OF assms, of j] by (cases "j = length s") (auto simp: trailing_at_def nth_append)
  moreover have "trailing_at b0 (s @ '' :'' @ t) (Suc (length s))" by (simp add: trailing_at_def byte_before_def nth_append)
  ultimately show ?thesis using Some by (simp add: trailing_text_def colon_loop_first)
qed

lemma tokenize_line:
  assumes "ws \<noteq> []" "\<forall>w \<in> set ws. middle w" "length ws < MAXPARC"
  shows "tokenize b0 (join_words ws @ trailing_text tr) = ws @ (case tr of None \<Rightarrow> [] | Some t \<Rightarrow> [t])"
  using colon_loop_line [OF no_trailing_join [OF assms(2)], of b0 tr] token_loop_words [OF assms(1,2), of 1] assms(3)
  by (cases tr) (simp_all add: tokenize_def trailing_text_def)

text \<open>
  With as many words as \<open>MAXPARC\<close> the parameter after the colon is lost: \<open>tokenize\<close> returns at the limit,
  although its comment says that the limit leaves room for that parameter.
\<close>

lemma tokenize_limit:
  assumes "\<forall>w \<in> set ws. middle w" "length ws = MAXPARC"
  shows "tokenize b0 (join_words ws @ trailing_text tr) = ws"
proof -
  have "ws \<noteq> []" using assms(2) by (auto simp: MAXPARC_def)
  then show ?thesis
    using colon_loop_line [OF no_trailing_join [OF assms(1)], of b0 tr] token_loop_full [OF _ assms(1), of 1 "[]"] assms(2)
    by (cases tr) (simp_all add: tokenize_def trailing_text_def)
qed

lemma token_loop_length:
  assumes "count \<le> MAXPARC" "s = [] \<Longrightarrow> count \<noteq> MAXPARC" "token_loop count cur s = (ps, lim)"
  shows "0 < length ps \<and> count + length ps \<le> (if lim then Suc MAXPARC else MAXPARC)"
  using assms
proof (induction count cur s arbitrary: ps lim rule: token_loop.induct)
  case (2 count cur c s)
  show ?case
  proof (cases "count \<noteq> MAXPARC \<and> c = CHR '' '' \<and> dropWhile (\<lambda>d. d = CHR '' '') s \<noteq> []")
    case True
    obtain qs l where q: "token_loop (Suc count) [] (dropWhile (\<lambda>d. d = CHR '' '') s) = (qs, l)" by fastforce
    have "0 < length qs \<and> Suc count + length qs \<le> (if l then Suc MAXPARC else MAXPARC)"
      by (rule "2.IH"(1) [OF _ _ refl _ _ _ q]) (use True 2 in auto)
    moreover have "token_loop count cur (c # s) = (cur # qs, l)" using True q by auto
    moreover from this have "ps = cur # qs" "lim = l" using "2.prems"(3) by simp_all
    ultimately show ?thesis by auto
  next
    case False
    then consider "count = MAXPARC" | "count \<noteq> MAXPARC" "c = CHR '' ''" "dropWhile (\<lambda>d. d = CHR '' '') s = []"
      | "count \<noteq> MAXPARC" "c \<noteq> CHR '' ''" by blast
    then show ?thesis
    proof cases
      case 1
      then have "ps = [cur @ c # s] \<and> lim" using "2.prems"(3) by simp
      then show ?thesis using "2.prems"(1) by simp
    next
      case 2
      then have "token_loop count cur (c # s) = ([cur], False)" by (simp only: token_loop.simps if_True if_False Let_def simp_thms)
      then have "ps = [cur]" "\<not> lim" using "2.prems"(3) by (simp_all only: prod.inject) auto
      then show ?thesis using "2.prems"(1) 2(1) by simp
    next
      case 3
      then have "token_loop count (cur @ [c]) s = (ps, lim)" using "2.prems"(3) by simp
      then show ?thesis using "2.IH"(2) [OF 3 "2.prems"(1)] 3(1) by blast
    qed
  qed
qed auto

lemma tokenize_length: "0 < length (tokenize b0 msg) \<and> length (tokenize b0 msg) \<le> MAXPARC"
proof -
  have l: "0 < length ps \<and> Suc (length ps) \<le> (if lim then Suc MAXPARC else MAXPARC)" if "token_loop 1 [] s = (ps, lim)" for s ps lim
    using token_loop_length [OF _ _ that] by (simp add: MAXPARC_def)
  show ?thesis
  proof (cases "colon_loop b0 msg 0")
    case None
    obtain ps lim where p: "token_loop 1 [] msg = (ps, lim)" by fastforce
    then show ?thesis using None l [OF p] by (auto simp: tokenize_def split: if_splits)
  next
    case (Some i)
    obtain ps lim where p: "token_loop 1 [] (take (i - 1) msg) = (ps, lim)" by fastforce
    then show ?thesis using Some l [OF p] by (auto simp: tokenize_def split: if_splits)
  qed
qed

lemma parameters_length: "length (parameters message) \<le> MAXPARC"
  using tokenize_length by (auto simp: parameters_def MAXPARC_def [symmetric] split: option.splits) (simp add: MAXPARC_def)

section \<open>Properties\<close>

text \<open>\<open>parse\<close>, the function pointer: \<open>irc_parse\<close> unless the P10 transport is loaded.\<close>

definition transport_parse :: "bool \<Rightarrow> net_env \<Rightarrow> uplink_info \<Rightarrow> 'h pcommands \<Rightarrow> cstr \<Rightarrow> net \<Rightarrow> 'h parsed \<times> net" where
  "transport_parse p10 = (if p10 then p10_parse else irc_parse)"

definition allowed_source :: "net_env \<Rightarrow> uplink_info \<Rightarrow> source \<Rightarrow> net \<Rightarrow> bool" where
  "allowed_source E U si st \<longleftrightarrow>
     (up_recvsvr U \<longrightarrow> so_s si \<noteq> None \<or> so_su si \<noteq> None) \<and>
     (\<forall>s. so_s si = Some s \<longrightarrow> s \<noteq> ne_me E \<and> servers st s \<noteq> None) \<and>
     (\<forall>u. so_su si = Some u \<longrightarrow> (\<exists>V. users st u = Some V \<and> un_server V \<noteq> ne_me E \<and> so_smu si = un_myuser V))"

definition allowed_command :: "uplink_info \<Rightarrow> 'h pcommands \<Rightarrow> source \<Rightarrow> 'h \<Rightarrow> cstr list \<Rightarrow> bool" where
  "allowed_command U cmds si h parv \<longleftrightarrow>
     (\<exists>command pcmd. pcommand_find cmds command = Some pcmd \<and> pc_handler pcmd = Some h \<and>
        pc_minparc pcmd \<le> int (length parv) \<and>
        (so_su si \<noteq> None \<longrightarrow> pc_sourcetype pcmd AND MSRC_USER \<noteq> 0) \<and>
        (so_s si \<noteq> None \<longrightarrow> pc_sourcetype pcmd AND MSRC_SERVER \<noteq> 0) \<and>
        (\<not> up_recvsvr U \<longrightarrow> pc_sourcetype pcmd AND MSRC_UNREG \<noteq> 0))"

lemma run_command_handled:
  "run_command U cmds si command parv = Handled h si' parv' \<Longrightarrow>
     si' = si \<and> parv' = parv \<and> allowed_command U cmds si h parv"
  unfolding run_command_def allowed_command_def
  by (cases "pcommand_find cmds command") (auto simp: not_less split: option.splits if_splits intro!: exI [of _ command])

lemma finish_parse_handled:
  assumes "finish_parse E U cmds s su command message st = Handled h si parv"
    and "\<And>r. s = Some r \<Longrightarrow> servers st r \<noteq> None" "\<And>u. su = Some u \<Longrightarrow> users st u \<noteq> None"
  shows "allowed_command U cmds si h parv \<and> allowed_source E U si st \<and> length parv \<le> MAXPARC"
proof -
  have r: "refused E U s su st = None" using assms(1) by (auto simp: finish_parse_def split: option.splits)
  let ?si = "\<lparr>so_s = s, so_su = su, so_smu = Option.bind (Option.bind su (users st)) un_myuser\<rparr>"
  have "run_command U cmds ?si command (parameters message) = Handled h si parv"
    using assms(1) r by (simp add: finish_parse_def)
  then have h: "si = ?si" "parv = parameters message" "allowed_command U cmds si h parv" 
    by (auto dest!: run_command_handled)
  have "\<exists>V. users st u = Some V \<and> un_server V \<noteq> ne_me E \<and> so_smu si = un_myuser V" if u: "su = Some u" for u
    using r assms(3) [OF u] u by (auto simp: h(1) refused_def is_internal_client_def split: if_splits)
  moreover have "up_recvsvr U \<longrightarrow> s \<noteq> None \<or> su \<noteq> None" "\<forall>x. s = Some x \<longrightarrow> x \<noteq> ne_me E"
    using r by (auto simp: refused_def split: if_splits)
  ultimately show ?thesis using h assms(2) parameters_length [of message] by (simp add: allowed_source_def)
qed

lemma user_find_frame: "user_find E n st = (r, st') \<Longrightarrow> users st' = users st \<and> servers st' = servers st \<and> st' = st\<lparr>trace := trace st'\<rparr>"
  by (auto simp: user_find_def emit_def split: option.splits if_splits)

lemma user_find_named_live: "live_ok E st \<Longrightarrow> user_find_named E n st = Some u \<Longrightarrow> users st u \<noteq> None"
  using names_user [OF net_butD(3) [OF live_okD(1)]] unfolding user_find_named_def by blast

lemma allowed_source_cong: "servers st' = servers st \<Longrightarrow> users st' = users st \<Longrightarrow> allowed_source E U si st' = allowed_source E U si st"
  by (simp add: allowed_source_def)

lemma find_finish:
  assumes ok: "live_ok E st" "tree_ok E st" and f: "user_find E n st = (su, st1)"
    and h: "finish_parse E U cmds (server_find E n st) su command message st1 = Handled h si parv"
  shows "allowed_command U cmds si h parv \<and> allowed_source E U si st \<and> length parv \<le> MAXPARC \<and> st1 = st\<lparr>trace := trace st1\<rparr>"
proof -
  have fr: "users st1 = users st" "servers st1 = servers st" "st1 = st\<lparr>trace := trace st1\<rparr>" using user_find_frame [OF f] by auto
  have "allowed_command U cmds si h parv \<and> allowed_source E U si st1 \<and> length parv \<le> MAXPARC"
    by (rule finish_parse_handled [OF h]) (use server_find_live [OF ok(2)] user_find_live [OF ok(1) f] fr in auto)
  then show ?thesis using fr allowed_source_cong [of st1 st E U si] by simp
qed

definition parse_safe :: "net_env \<Rightarrow> uplink_info \<Rightarrow> 'h pcommands \<Rightarrow> net \<Rightarrow> 'h parsed \<times> net \<Rightarrow> bool" where
  "parse_safe E U cmds st r \<longleftrightarrow> (\<forall>h si parv. fst r = Handled h si parv \<longrightarrow>
     allowed_command U cmds si h parv \<and> allowed_source E U si st \<and> length parv \<le> MAXPARC) \<and> snd r = st\<lparr>trace := trace (snd r)\<rparr>"

lemma safe_ignored: "parse_safe E U cmds st (Ignored r, st)"
  by (simp add: parse_safe_def)

lemma safe_finish:
  assumes "\<And>r. s = Some r \<Longrightarrow> servers st r \<noteq> None" "\<And>u. su = Some u \<Longrightarrow> users st u \<noteq> None"
  shows "parse_safe E U cmds st (finish_parse E U cmds s su command message st, st)"
  unfolding parse_safe_def using finish_parse_handled [OF _ assms, where U = U and cmds = cmds and E = E] by auto

lemma safe_find:
  assumes "live_ok E st" "tree_ok E st" "user_find E n st = (su, st1)"
  shows "parse_safe E U cmds st (finish_parse E U cmds (server_find E n st) su command message st1, st1)"
  unfolding parse_safe_def fst_conv snd_conv
proof (intro conjI allI impI)
  show "st1 = st\<lparr>trace := trace st1\<rparr>" using user_find_frame [OF assms(3)] by blast
qed (use find_finish [OF assms, where U = U and cmds = cmds] in blast)+

lemma irc_parse_safe:
  assumes ok: "live_ok E st" "tree_ok E st"
  shows "parse_safe E U cmds st (irc_parse E U cmds line st)"
proof -
  have f: "parse_safe E U cmds st (finish_parse E U cmds (if up_recvsvr U then server_find E n st else None) None c m st, st)" for n c m
    by (rule safe_finish) (use server_find_live [OF ok(2)] in \<open>auto split: if_splits\<close>)
  obtain w rest where w: "split_word line = (w, rest)" by fastforce
  obtain su st1 where u: "user_find E (drop 1 w) st = (su, st1)" by fastforce
  show ?thesis
    unfolding irc_parse_def w Let_def
    using f safe_ignored safe_find [OF ok u] u by (cases rest) (auto split: prod.splits)
qed

lemma p10_parse_safe:
  assumes ok: "live_ok E st" "tree_ok E st"
  shows "parse_safe E U cmds st (p10_parse E U cmds line st)"
proof -
  have f: "parse_safe E U cmds st (finish_parse E U cmds None None c m st, st)" for c m
    by (rule safe_finish) simp_all
  have g: "parse_safe E U cmds st (finish_parse E U cmds (server_find E n st) (user_find_named E n st) c m st, st)" for n c m
    by (rule safe_finish) (use server_find_live [OF ok(2)] user_find_named_live [OF ok(1)] in auto)
  obtain w rest where w: "split_word line = (w, rest)" by fastforce
  obtain su st1 where u: "user_find E w st = (su, st1)" by fastforce
  show ?thesis
    unfolding p10_parse_def w Let_def
    using f g safe_ignored safe_find [OF ok u] u by (cases rest) (auto split: prod.splits)
qed

text \<open>
  C31: Commands come from where they claim to.  Whatever line the uplink sends in whatever state the network has
  reached, a handler runs only if it is registered for the kind of its source, with at least the parameters it
  asks for and at most \<open>MAXPARC\<close>; the source is a live server other than services, or a live client of another server,
  one of them known once the uplink is, with the account the client is logged into.  Parsing itself
  changes nothing but the log.
\<close>

theorem irc_parse_authentic:
  assumes "net_reach E st" "transport_parse p10 E U cmds line st = (Handled h si parv, st')"
  shows "allowed_command U cmds si h parv \<and> allowed_source E U si st \<and> length parv \<le> MAXPARC \<and> st' = st\<lparr>trace := trace st'\<rparr>"
proof -
  have "parse_safe E U cmds st (transport_parse p10 E U cmds line st)"
    using net_reach_ok [OF assms(1)] irc_parse_safe p10_parse_safe by (cases p10) (auto simp: transport_parse_def)
  then show ?thesis unfolding assms(2) parse_safe_def by simp
qed

text \<open>How a line is written: source, command, words, and a last parameter behind a colon.\<close>

definition irc_line :: "cstr \<Rightarrow> cstr \<Rightarrow> cstr list \<Rightarrow> cstr option \<Rightarrow> cstr" where
  "irc_line origin command ws tr = CHR '':'' # join_words (origin # command # ws) @ trailing_text tr"

lemma split_word_space: "CHR '' '' \<notin> set w \<Longrightarrow> split_word (w @ CHR '' '' # s) = (w, Some s)"
  unfolding split_word_def by (induction w) (auto split: option.splits)

lemma split_word_all: "CHR '' '' \<notin> set w \<Longrightarrow> split_word w = (w, None)"
  by (simp add: split_word_def strchr_None_iff split: option.splits)

lemma char_at_start: "s \<noteq> [] \<Longrightarrow> char_at s 0 = hd s"
  by (cases s) auto

lemma command_part:
  assumes "CHR '' '' \<notin> set command" "\<forall>w \<in> set ws. middle w" "length ws < MAXPARC"
  shows "\<exists>message. split_word (join_words (command # ws) @ trailing_text tr) = (command, message) \<and>
     parameters message = ws @ (case tr of None \<Rightarrow> [] | Some t \<Rightarrow> [t])"
proof (cases "ws = []")
  case True
  then show ?thesis
    using assms(1) split_word_space [OF assms(1), of "CHR '':'' # t" for t]
    by (cases tr) (auto simp: trailing_text_def split_word_all parameters_def)
next
  case False
  let ?m = "join_words ws @ trailing_text tr"
  have m: "middle (hd ws)" using False assms(2) by (cases ws) auto
  have "hd (join_words ws) \<noteq> CHR '':''" "join_words ws \<noteq> []"
    using False m middle_start [OF m] by (cases ws rule: join_words.cases; auto simp: middle_def)+
  then have "char_at ?m 0 \<noteq> CHR '':''" using char_at_start [of ?m] by (cases "join_words ws") auto
  then have "parameters (Some ?m) = ws @ (case tr of None \<Rightarrow> [] | Some t \<Rightarrow> [t])"
    using tokenize_line [OF False assms(2,3)] by (simp add: parameters_def)
  moreover have "split_word (join_words (command # ws) @ trailing_text tr) = (command, Some ?m)"
    using split_word_space [OF assms(1)] False by (simp add: join_words_Cons)
  ultimately show ?thesis by blast
qed

text \<open>
  C32: What was written is what is run.  A line made of a source, a command, at most 34 words and a last
  parameter that may be anything is taken apart into exactly these: the source is the server or client
  of that name, and if it is not refused the command of that name is called with exactly these parameters.
\<close>

theorem irc_line_roundtrip:
  assumes "CHR '' '' \<notin> set origin" "CHR '' '' \<notin> set command" "\<forall>w \<in> set ws. middle w" "length ws < MAXPARC"
    and "user_find E origin st = (su, st1)"
  shows "irc_parse E U cmds (irc_line origin command ws tr) st =
    (case refused E U (server_find E origin st) su st1 of
       Some r \<Rightarrow> Ignored r
     | None \<Rightarrow> run_command U cmds \<lparr>so_s = server_find E origin st, so_su = su, so_smu = Option.bind (Option.bind su (users st1)) un_myuser\<rparr>
                 command (ws @ (case tr of None \<Rightarrow> [] | Some t \<Rightarrow> [t])), st1)"
proof -
  let ?r = "join_words (command # ws) @ trailing_text tr"
  obtain message where m: "split_word ?r = (command, message)" "parameters message = ws @ (case tr of None \<Rightarrow> [] | Some t \<Rightarrow> [t])"
    using command_part [OF assms(2-4), of tr] by blast
  have l: "irc_line origin command ws tr = (CHR '':'' # origin) @ CHR '' '' # ?r" by (simp add: irc_line_def)
  then have "split_word (irc_line origin command ws tr) = (CHR '':'' # origin, Some ?r)"
    using split_word_space [of "CHR '':'' # origin" ?r] assms(1) by simp
  then have "split_word (irc_line origin command ws tr) = (CHR '':'' # origin, Some ?r)" "char_at (irc_line origin command ws tr) 0 = CHR '':''"
    using split_word_space [of "CHR '':'' # origin" ?r] assms(1) l by simp_all
  note p = this
  show ?thesis
    unfolding irc_parse_def p Let_def prod.case option.case using m assms(5)
    by (cases "refused E U (server_find E origin st) su st1") (simp_all add: finish_parse_def)
qed

lemma demo_hub: "user_find demo_env ''1HU'' demo_net = (None, demo_net)"
proof -
  let ?b = "net_blank (\<lambda>_. None) (\<lambda>_. None) (\<lambda>_. None)"
  let ?s0 = "services_start demo_env (Some ''00A'') ''services'' ?b"
  let ?s1 = "snd (server_add demo_env (Some ''hub.int'') 1 (Some 0) (Some ''1HU'') ''hub'' ?s0)"
  let ?s2 = "snd (server_add demo_env (Some ''leaf.int'') 2 (Some 1) (Some ''2AA'') ''leaf'' ?s1)"
  have n: "\<not> ((Some nm = None \<and> (sid :: cstr option) = None) \<or> (Some nm = None \<and> (up :: sref option) = None))" for nm :: cstr and sid up by simp
  note a = server_add_simps [OF n refl refl refl]
  have "userlist ?s2 k = None" "uidlist ?s2 k = None" "chanlist ?s2 k = None" "mychan_chan ?s2 k = None" for k
    unfolding services_start_def a by (simp_all add: net_blank_def)
  moreover have "canon demo_env ''1HU'' \<noteq> canon demo_env ''jilles''" by (simp add: canon_def irccasecanon_def)
  ultimately have "userlist demo_net (canon demo_env ''1HU'') = None" "uidlist demo_net ''1HU'' = None"
    unfolding demo_net_def by (simp_all add: user_add_def user_find_named_def user_new_def Let_def channel_add_def
        valid_global_channel_pfx_def char_at_def channel_find_def dict_add_def)
  then show ?thesis by (simp add: user_find_def)
qed

text \<open>The hub sends a command with two words and a text.\<close>

definition demo_cmds :: "nat pcommands" where
  "demo_cmds = pcommand_add ''ENCAP'' (Some 7) 3 MSRC_SERVER (\<lambda>_. None)"

theorem irc_line_roundtrip_witness:
  "irc_parse demo_env \<lparr>up_recvsvr = True, up_actual = ''hub.int''\<rparr> demo_cmds (irc_line ''1HU'' ''ENCAP'' [''*'', ''INFO''] (Some '' x :y '')) demo_net =
     (Handled 7 \<lparr>so_s = Some 1, so_su = None, so_smu = None\<rparr> [''*'', ''INFO'', '' x :y ''], demo_net)"
proof -
  have me: "ne_me demo_env = 0" by (simp add: demo_env_def)
  show ?thesis
  using irc_line_roundtrip [OF _ _ _ _ demo_hub, of "''ENCAP''" "[''*'', ''INFO'']" "\<lparr>up_recvsvr = True, up_actual = ''hub.int''\<rparr>" demo_cmds "Some '' x :y ''"]
  by (simp add: middle_def MAXPARC_def demo_facts(2) refused_def me run_command_def demo_cmds_def pcommand_add_def
      pcommand_find_def MSRC_SERVER_def)
qed

text \<open>The hub's line is handled, so the property above says that the hub may send it.\<close>

theorem irc_parse_authentic_witness:
  "allowed_source demo_env \<lparr>up_recvsvr = True, up_actual = ''hub.int''\<rparr> \<lparr>so_s = Some 1, so_su = None, so_smu = None\<rparr> demo_net"
proof -
  have me: "ne_me demo_env = 0" by (simp add: demo_env_def)
  have w: "split_word '':1HU ENCAP * INFO : x :y '' = ('':1HU'', Some ''ENCAP * INFO : x :y '')"
    "split_word ''ENCAP * INFO : x :y '' = (''ENCAP'', Some ''* INFO : x :y '')"
    by (simp_all add: split_word_def)
  have p: "parameters (Some ''* INFO : x :y '') = [''*'', ''INFO'', '' x :y '']"
    using tokenize_line [of "[''*'', ''INFO'']" NUL "Some '' x :y ''"]
    by (simp add: parameters_def middle_def MAXPARC_def trailing_text_def)
  have "irc_parse demo_env \<lparr>up_recvsvr = True, up_actual = ''hub.int''\<rparr> demo_cmds '':1HU ENCAP * INFO : x :y '' demo_net =
     (Handled 7 \<lparr>so_s = Some 1, so_su = None, so_smu = None\<rparr> [''*'', ''INFO'', '' x :y ''], demo_net)"
    by (simp add: irc_parse_def w demo_hub demo_facts(2) finish_parse_def refused_def me p run_command_def demo_cmds_def pcommand_add_def
      pcommand_find_def MSRC_SERVER_def)
  then have "transport_parse False demo_env \<lparr>up_recvsvr = True, up_actual = ''hub.int''\<rparr> demo_cmds '':1HU ENCAP * INFO : x :y '' demo_net =
     (Handled 7 \<lparr>so_s = Some 1, so_su = None, so_smu = None\<rparr> [''*'', ''INFO'', '' x :y ''], demo_net)"
    by (simp add: transport_parse_def)
  then show ?thesis using irc_parse_authentic [OF demo_reach, THEN conjunct2, THEN conjunct1] by fast
qed

section \<open>Lists of words\<close>

text \<open>\<open>sjtoken\<close>, used for member lists and modes, gives back the words of a list with one delimiter between them.\<close>

fun join_with :: "char \<Rightarrow> cstr list \<Rightarrow> cstr" where
  "join_with d [] = []"
| "join_with d [w] = w"
| "join_with d (w # ws) = w @ d # join_with d ws"

definition sj_word :: "char \<Rightarrow> cstr \<Rightarrow> bool" where
  "sj_word d w \<longleftrightarrow> w \<noteq> [] \<and> d \<notin> set w \<and> hd w \<noteq> CHR 0x0D"

lemma sj_loop_word: "d \<notin> set w \<Longrightarrow> count \<noteq> SJ_LIMIT \<Longrightarrow> sj_loop d count cur (w @ s) = sj_loop d count (cur @ w) s"
proof (induction w arbitrary: cur)
  case (Cons c w)
  then have "sj_loop d count cur ((c # w) @ s) = sj_loop d count (cur @ [c]) (w @ s)" by auto
  then show ?case using Cons.IH [of "cur @ [c]"] Cons.prems by simp
qed simp

lemma sj_word_start: "sj_word d w \<Longrightarrow> w \<noteq> [] \<and> hd w \<noteq> d \<and> hd w \<noteq> CHR 0x0D"
  by (cases w) (auto simp: sj_word_def)

lemma join_with_starts: "ws \<noteq> [] \<Longrightarrow> sj_word d (hd ws) \<Longrightarrow> join_with d ws \<noteq> [] \<and> hd (join_with d ws) \<noteq> d \<and> hd (join_with d ws) \<noteq> CHR 0x0D"
  by (cases "(d, ws)" rule: join_with.cases) (auto dest: sj_word_start)

lemma sj_loop_words:
  assumes "ws \<noteq> []" "\<forall>w \<in> set ws. sj_word d w" "0 < count" "count + length ws \<le> SJ_LIMIT"
  shows "sj_loop d count [] (join_with d ws) = ws"
  using assms
proof (induction ws arbitrary: count)
  case (Cons w ws)
  have w: "d \<notin> set w" "count \<noteq> SJ_LIMIT" using Cons.prems by (auto simp: sj_word_def)
  show ?case
  proof (cases ws)
    case Nil
    then show ?thesis using sj_loop_word [OF w, of "[]" "[]"] by simp
  next
    case (Cons v vs)
    let ?r = "join_with d ws"
    have r: "?r \<noteq> []" "hd ?r \<noteq> d" "hd ?r \<noteq> CHR 0x0D"
      using join_with_starts [of ws d] Cons Cons.prems(2) by auto
    have "sj_loop d count [] (join_with d (w # ws)) = sj_loop d count w (d # ?r)"
      using sj_loop_word [OF w, of "[]" "d # ?r"] Cons by simp
    also have "\<dots> = w # sj_loop d (Suc count) [] ?r" using w r dropWhile_start [of ?r "\<lambda>x. x = d"] by (simp add: Let_def)
    finally show ?thesis using Cons.IH [of "Suc count"] Cons.prems Cons by auto
  qed
qed simp

lemma sjtoken_words:
  assumes "ws \<noteq> []" "\<forall>w \<in> set ws. sj_word d w" "length ws < SJ_LIMIT"
  shows "sjtoken d (join_with d ws) = ws"
  using sj_loop_words [OF assms(1,2), of 1] join_with_starts [OF assms(1), of d] assms dropWhile_start [of "join_with d ws" "\<lambda>x. x = d"]
  by (simp add: sjtoken_def)

end
