(* ===== verification/Codec.thy ===== *)
theory Codec
  imports Prelude
begin

text \<open>
  The two base 64 codecs: \<open>libathemecore/base64.c\<close> (RFC 1521, for SASL messages, passwords and addresses) and
  \<open>ubase64.c\<close> (ircu's, for numerics and P10 addresses), with the bounds of every buffer they write.
\<close>

section \<open>Base64\<close>

definition Base64 :: cstr where
  "Base64 = ''ABCDEFGHIJKLMNOPQRSTUVWXYZabcdefghijklmnopqrstuvwxyz0123456789+/''"

abbreviation Pad64 :: char where "Pad64 \<equiv> CHR ''=''"

text \<open>
  The four six-bit groups of three bytes, \<open>output[0 .. 3]\<close>.  The sums in the code are of numbers without
  a common bit.
\<close>

definition out0 :: "u8 \<Rightarrow> u8" where "out0 a = drop_bit 2 a"
definition out1 :: "u8 \<Rightarrow> u8 \<Rightarrow> u8" where "out1 a b = push_bit 4 (a AND 0x03) + drop_bit 4 b"
definition out2 :: "u8 \<Rightarrow> u8 \<Rightarrow> u8" where "out2 b c = push_bit 2 (b AND 0x0f) + drop_bit 6 c"
definition out3 :: "u8 \<Rightarrow> u8" where "out3 c = c AND 0x3f"

definition digit64 :: "u8 \<Rightarrow> char" where "digit64 v = Base64 ! unat v"

text \<open>
  \<open>base64_encode\<close>: the text written so far is the accumulator, \<open>None\<close> the result \<open>-1\<close>.  The number
  returned is the length of the text.
\<close>

fun encode_loop :: "nat \<Rightarrow> u8 list \<Rightarrow> cstr \<Rightarrow> cstr option" where
  "encode_loop targsize (a # b # c # src) out =
     (if targsize < length out + 4 then None
      else encode_loop targsize src
             (out @ [digit64 (out0 a), digit64 (out1 a b), digit64 (out2 b c), digit64 (out3 c)]))"
| "encode_loop targsize [a, b] out =
     (if targsize < length out + 4 then None
      else Some (out @ [digit64 (out0 a), digit64 (out1 a b), digit64 (out2 b 0), Pad64]))"
| "encode_loop targsize [a] out =
     (if targsize < length out + 4 then None
      else Some (out @ [digit64 (out0 a), digit64 (out1 a 0), Pad64, Pad64]))"
| "encode_loop targsize [] out = Some out"

definition base64_encode :: "u8 list \<Rightarrow> nat \<Rightarrow> cstr option" where
  "base64_encode src targsize =
     (case encode_loop targsize src [] of
        None \<Rightarrow> None
      | Some out \<Rightarrow> if targsize \<le> length out then None else Some out)"

text \<open>
  \<open>base64_decode\<close>.  The target is a buffer of \<open>targsize\<close> bytes or \<open>NULL\<close>; an access outside it is the
  outcome \<open>Decode_fault\<close>.  The state is \<open>(state, tarindex, target)\<close>.
\<close>

datatype decoded = Decode_fault | Decode_fail | Decode_ok nat "u8 list option"

type_synonym decode_state = "nat \<times> nat \<times> u8 list option"

definition b64_set :: "nat \<Rightarrow> u8 \<Rightarrow> u8 list \<Rightarrow> u8 list option" where
  "b64_set i v t = (if i < length t then Some (t[i := v]) else None)"

definition decode_digit :: "nat \<Rightarrow> nat \<Rightarrow> decode_state \<Rightarrow> decoded + decode_state" where
  "decode_digit targsize pos s =
     (let (st, t, tgt) = s;
          wr = (\<lambda>st' t' ws.
                  case tgt of
                    None \<Rightarrow> Inr (st', t', None)
                  | Some buf \<Rightarrow>
                      (case fold (\<lambda>(i, f) b. Option.bind b (\<lambda>b. if i < length b then Some (b[i := f (b ! i)]) else None)) ws (Some buf) of
                         None \<Rightarrow> Inl Decode_fault
                       | Some buf' \<Rightarrow> Inr (st', t', Some buf')))
      in if st = 0 then
           (if tgt \<noteq> None \<and> targsize \<le> t then Inl Decode_fail
            else wr 1 t [(t, \<lambda>_. word_of_nat (pos * 4))])
         else if st = 1 then
           (if tgt \<noteq> None \<and> targsize \<le> t + 1 then Inl Decode_fail
            else wr 2 (t + 1) [(t, \<lambda>x. x OR word_of_nat (pos div 16)), (t + 1, \<lambda>_. word_of_nat (pos mod 16 * 16))])
         else if st = 2 then
           (if tgt \<noteq> None \<and> targsize \<le> t + 1 then Inl Decode_fail
            else wr 3 (t + 1) [(t, \<lambda>x. x OR word_of_nat (pos div 4)), (t + 1, \<lambda>_. word_of_nat (pos mod 4 * 64))])
         else
           (if tgt \<noteq> None \<and> targsize \<le> t then Inl Decode_fail
            else wr 0 (t + 1) [(t, \<lambda>x. x OR word_of_nat pos)]))"

text \<open>
  Behind the digits: \<open>rest\<close> is the text behind the first pad character, \<open>None\<close> when the text ended
  without one.
\<close>

definition only_spaces :: "cstr \<Rightarrow> bool" where
  "only_spaces s \<longleftrightarrow> (\<forall>c \<in> set s. is_space c)"

definition slop_ok :: "nat \<Rightarrow> u8 list option \<Rightarrow> decoded" where
  "slop_ok t tgt =
     (case tgt of
        None \<Rightarrow> Decode_ok t None
      | Some buf \<Rightarrow> if length buf \<le> t then Decode_fault
                    else if buf ! t \<noteq> 0 then Decode_fail else Decode_ok t tgt)"

definition decode_finish :: "cstr option \<Rightarrow> decode_state \<Rightarrow> decoded" where
  "decode_finish rest s =
     (let (st, t, tgt) = s
      in case rest of
           None \<Rightarrow> if st \<noteq> 0 then Decode_fail else Decode_ok t tgt
         | Some r \<Rightarrow>
             if st = 0 \<or> st = 1 then Decode_fail
             else if st = 2 then
               (case dropWhile is_space r of
                  [] \<Rightarrow> Decode_fail
                | c # r' \<Rightarrow> if c \<noteq> Pad64 then Decode_fail
                            else if only_spaces r' then slop_ok t tgt else Decode_fail)
             else if only_spaces r then slop_ok t tgt else Decode_fail)"

fun decode_loop :: "nat \<Rightarrow> cstr \<Rightarrow> decode_state \<Rightarrow> decoded" where
  "decode_loop targsize [] s = decode_finish None s"
| "decode_loop targsize (ch # src) s =
     (if is_space ch then decode_loop targsize src s
      else if ch = Pad64 then decode_finish (Some src) s
      else case strchr Base64 ch of
             None \<Rightarrow> Decode_fail
           | Some pos \<Rightarrow>
               (case decode_digit targsize pos s of
                  Inl d \<Rightarrow> d
                | Inr s' \<Rightarrow> decode_loop targsize src s'))"

definition base64_decode :: "cstr \<Rightarrow> u8 list option \<Rightarrow> nat \<Rightarrow> decoded" where
  "base64_decode src target targsize = decode_loop targsize src (0, 0, target)"

section \<open>Bounds\<close>

lemma encode_loop_length:
  "encode_loop n src out = Some r \<Longrightarrow> length r = length out + 4 * ((length src + 2) div 3) \<and> (src \<noteq> [] \<longrightarrow> length r \<le> n)"
proof (induction n src out rule: encode_loop.induct)
  case (1 n a b c src out)
  have "(length (a # b # c # src) + 2) div 3 = (length src + 2) div 3 + 1" by simp
  then show ?case using 1 by (auto split: if_splits)
qed (auto split: if_splits)

lemma encode_loop_fits: "length out + 4 * ((length src + 2) div 3) \<le> n \<Longrightarrow> encode_loop n src out \<noteq> None"
proof (induction n src out rule: encode_loop.induct)
  case (1 n a b c src out)
  have "(length (a # b # c # src) + 2) div 3 = (length src + 2) div 3 + 1" by simp
  then have "length out + 4 + 4 * ((length src + 2) div 3) \<le> n" using 1(2) by simp
  then show ?case using 1(1) by simp
qed auto

text \<open>A decoder state whose writes stay inside the target.\<close>

definition decode_inv :: "nat \<Rightarrow> decode_state \<Rightarrow> bool" where
  "decode_inv n s \<longleftrightarrow> fst s < 4 \<and> (case snd (snd s) of None \<Rightarrow> True
     | Some buf \<Rightarrow> length buf = n \<and> (fst s \<noteq> 0 \<longrightarrow> fst (snd s) < n))"

lemma decode_digit_inv:
  assumes "decode_inv n s"
  shows "case decode_digit n pos s of Inl d \<Rightarrow> d = Decode_fail | Inr s' \<Rightarrow> decode_inv n s'"
proof -
  obtain st t tgt where s: "s = (st, t, tgt)" by (cases s)
  have "st = 0 \<or> st = 1 \<or> st = 2 \<or> st = 3" using assms by (auto simp: s decode_inv_def)
  then show ?thesis
    using assms by (cases tgt) (auto simp: s decode_digit_def decode_inv_def)
qed

lemma decode_finish_inv: "decode_inv n s \<Longrightarrow> decode_finish r s \<noteq> Decode_fault"
  by (cases s) (auto simp: decode_finish_def decode_inv_def slop_ok_def split: option.splits list.splits if_splits)

lemma decode_loop_inv: "decode_inv n s \<Longrightarrow> decode_loop n src s \<noteq> Decode_fault"
proof (induction n src s rule: decode_loop.induct)
  case (1 n s)
  then show ?case by (simp add: decode_finish_inv)
next
  case (2 n ch src s)
  note inv = decode_digit_inv [OF 2(3)] and fin = decode_finish_inv [OF 2(3)]
  show ?case
  proof (cases "is_space ch \<or> ch = Pad64")
    case True
    then show ?thesis using 2 fin by (auto simp del: not_None_eq)
  next
    case False
    show ?thesis
    proof (cases "strchr Base64 ch")
      case (Some pos)
      show ?thesis
        using inv [of pos] 2(2) False Some by (cases "decode_digit n pos s") auto
    qed (use False in simp)
  qed
qed

section \<open>Decoding what was encoded\<close>

lemma and_masks: "(w :: u8) AND 0x03 = take_bit 2 w" "w AND 0x0f = take_bit 4 w" "w AND 0x3f = take_bit 6 w"
  by (simp_all add: take_bit_eq_mask mask_eq_exp_minus_1)

lemma out_or:
  "out1 a b = push_bit 4 (take_bit 2 a) OR drop_bit 4 b" "out2 b c = push_bit 2 (take_bit 4 b) OR drop_bit 6 c"
  "out3 c = take_bit 6 c"
proof -
  have "push_bit 4 (take_bit 2 a) AND drop_bit 4 b = 0" "push_bit 2 (take_bit 4 b) AND drop_bit 6 c = 0"
    by (rule bit_word_eqI, auto simp: bit_simps dest: bit_imp_le_length)+
  then show "out1 a b = push_bit 4 (take_bit 2 a) OR drop_bit 4 b" "out2 b c = push_bit 2 (take_bit 4 b) OR drop_bit 6 c"
    by (simp_all add: out1_def out2_def and_masks disjunctive_add_eq_or)
qed (simp add: out3_def and_masks)

lemma of_nat_unat_ops:
  fixes w :: u8
  shows "word_of_nat (unat w * 2 ^ k) = push_bit k w" "(word_of_nat (unat w div 2 ^ k) :: u8) = drop_bit k w"
    "(word_of_nat (unat w mod 2 ^ k * 2 ^ j) :: u8) = push_bit j (take_bit k w)"
proof -
  show "word_of_nat (unat w * 2 ^ k) = push_bit k w" by (simp add: push_bit_eq_mult)
  have "unat w div 2 ^ k = unat (drop_bit k w)" by (simp add: unat_drop_bit_eq flip: drop_bit_eq_div)
  then show "(word_of_nat (unat w div 2 ^ k) :: u8) = drop_bit k w" by simp
  have "unat w mod 2 ^ k = unat (take_bit k w)" by (simp add: unsigned_take_bit_eq flip: take_bit_eq_mod)
  then show "(word_of_nat (unat w mod 2 ^ k * 2 ^ j) :: u8) = push_bit j (take_bit k w)" by (simp add: push_bit_eq_mult)
qed

lemma out_lt: "unat (out0 a) < 64" "unat (out1 a b) < 64" "unat (out2 b c) < 64" "unat (out3 c) < 64"
proof -
  have lt: "unat w < 64" if "take_bit 6 w = w" for w :: u8
  proof -
    have "unat w = take_bit 6 (unat w)" using that by (metis unsigned_take_bit_eq)
    then show ?thesis using take_bit_nat_less_exp [of 6 "unat w"] by simp
  qed
  show "unat (out0 a) < 64" "unat (out1 a b) < 64" "unat (out2 b c) < 64" "unat (out3 c) < 64"
    by (rule lt, rule bit_word_eqI, auto simp: out0_def out_or bit_simps dest: bit_imp_le_length)+
qed

lemma regroup:
  "word_of_nat (unat (out0 a) * 4) OR word_of_nat (unat (out1 a b) div 16) = a"
  "word_of_nat (unat (out1 a b) mod 16 * 16) OR word_of_nat (unat (out2 b c) div 4) = b"
  "word_of_nat (unat (out2 b c) mod 4 * 64) OR word_of_nat (unat (out3 c)) = c"
  "word_of_nat (unat (out1 a 0) mod 16 * 16) = (0 :: u8)" "word_of_nat (unat (out2 b 0) mod 4 * 64) = (0 :: u8)"
proof -
  have ss: "Suc (Suc (n - 2)) = (if n < 2 then 2 else n)" for n :: nat by arith
  have o1: "word_of_nat (unat w * 4) = push_bit 2 w" for w :: u8 using of_nat_unat_ops(1) [of w 2] by simp
  have o2: "(word_of_nat (unat w div 16) :: u8) = drop_bit 4 w" "(word_of_nat (unat w div 4) :: u8) = drop_bit 2 w" for w :: u8
    using of_nat_unat_ops(2) [of w 4] of_nat_unat_ops(2) [of w 2] by simp_all
  have o3: "(word_of_nat (unat w mod 16 * 16) :: u8) = push_bit 4 (take_bit 4 w)"
    "(word_of_nat (unat w mod 4 * 64) :: u8) = push_bit 6 (take_bit 2 w)" for w :: u8
    using of_nat_unat_ops(3) [of w 4 4] of_nat_unat_ops(3) [of w 2 6] by simp_all
  show "word_of_nat (unat (out0 a) * 4) OR word_of_nat (unat (out1 a b) div 16) = a"
    unfolding o1 o2 by (rule bit_word_eqI) (auto simp: ss out0_def out_or bit_simps dest: bit_imp_le_length)
  show "word_of_nat (unat (out1 a b) mod 16 * 16) OR word_of_nat (unat (out2 b c) div 4) = b"
    unfolding o2 o3 by (rule bit_word_eqI) (auto simp: out_or bit_simps dest: bit_imp_le_length)
  show "word_of_nat (unat (out2 b c) mod 4 * 64) OR word_of_nat (unat (out3 c)) = c"
    unfolding o3 by (rule bit_word_eqI) (auto simp: out_or bit_simps dest: bit_imp_le_length)
  show "word_of_nat (unat (out1 a 0) mod 16 * 16) = (0 :: u8)" "word_of_nat (unat (out2 b 0) mod 4 * 64) = (0 :: u8)"
    unfolding o3 by (rule bit_word_eqI, auto simp: out_or bit_simps dest: bit_imp_le_length)+
qed

lemma Base64_lookup: "i < 64 \<Longrightarrow> strchr Base64 (Base64 ! i) = Some i \<and> \<not> is_space (Base64 ! i) \<and> Base64 ! i \<noteq> Pad64"
proof -
  have "\<forall>i \<in> set [0..<64]. strchr Base64 (Base64 ! i) = Some i \<and> \<not> is_space (Base64 ! i) \<and> Base64 ! i \<noteq> Pad64"
    by code_simp
  then show "i < 64 \<Longrightarrow> ?thesis" by simp
qed

lemma decode_loop_digit:
  assumes "unat v < 64"
  shows "decode_loop n (digit64 v # src) s = (case decode_digit n (unat v) s of Inl d \<Rightarrow> d | Inr s' \<Rightarrow> decode_loop n src s')"
  using Base64_lookup [OF assms] by (simp add: digit64_def)

lemma is_space_Pad [simp]: "\<not> is_space Pad64"
  by (simp add: is_space_def)

lemma decode_loop_pad: "decode_loop n (Pad64 # src) s = decode_finish (Some src) s"
  by simp

lemmas decode_steps = decode_loop_digit decode_loop_pad out_lt decode_digit_def

lemma decode_group:
  assumes "t + 3 < length buf \<or> t + 3 = length buf"
  shows "decode_loop (length buf) (digit64 (out0 a) # digit64 (out1 a b) # digit64 (out2 b c) # digit64 (out3 c) # rest) (0, t, Some buf) =
    decode_loop (length buf) rest (0, t + 3, Some (take t buf @ [a, b, c] @ drop (t + 3) buf))"
proof -
  have len: "t < length buf" "t + 1 < length buf" "t + 2 < length buf" using assms by auto
  have eq: "buf[t := a, Suc t := b, Suc (Suc t) := c] = take t buf @ [a, b, c] @ drop (t + 3) buf"
  proof (rule nth_equalityI)
    fix i assume "i < length (buf[t := a, Suc t := b, Suc (Suc t) := c])"
    then show "buf[t := a, Suc t := b, Suc (Suc t) := c] ! i = (take t buf @ [a, b, c] @ drop (t + 3) buf) ! i"
      using len by (auto simp: nth_append nth_list_update nth_Cons' less_Suc_eq)
  qed (use len in simp)
  have e3: "t + 3 = Suc (Suc (Suc t))" by simp
  show ?thesis
    using len eq regroup unfolding e3 by (simp add: decode_steps del: decode_loop.simps(2))
qed

text \<open>What is left of the buffer after the last group, and what the end of the text says.\<close>

lemma only_spaces_Nil [simp]: "only_spaces []"
  by (simp add: only_spaces_def)

lemma decode_last_two:
  assumes "t + 2 < length buf"
  shows "decode_loop (length buf) [digit64 (out0 a), digit64 (out1 a b), digit64 (out2 b 0), Pad64] (0, t, Some buf) =
    Decode_ok (t + 2) (Some (buf[t := a, Suc t := b, Suc (Suc t) := 0]))"
  using assms regroup(1) [of a b] regroup(2) [of a b 0] regroup(5) [of b]
  by (simp add: decode_steps decode_finish_def slop_ok_def del: decode_loop.simps(2))

lemma decode_last_one:
  assumes "t + 1 < length buf"
  shows "decode_loop (length buf) [digit64 (out0 a), digit64 (out1 a 0), Pad64, Pad64] (0, t, Some buf) =
    Decode_ok (t + 1) (Some (buf[t := a, Suc t := 0]))"
  using assms regroup(1) [of a 0] regroup(4) [of a]
  by (simp add: decode_steps decode_finish_def slop_ok_def del: decode_loop.simps(2))


text \<open>The text of \<open>base64_encode\<close> without the size checks.\<close>

fun encoding :: "u8 list \<Rightarrow> cstr" where
  "encoding (a # b # c # src) = digit64 (out0 a) # digit64 (out1 a b) # digit64 (out2 b c) # digit64 (out3 c) # encoding src"
| "encoding [a, b] = [digit64 (out0 a), digit64 (out1 a b), digit64 (out2 b 0), Pad64]"
| "encoding [a] = [digit64 (out0 a), digit64 (out1 a 0), Pad64, Pad64]"
| "encoding [] = []"

lemma encode_loop_encoding: "encode_loop n src out = Some r \<Longrightarrow> r = out @ encoding src"
  by (induction n src out rule: encode_loop.induct) (auto split: if_splits)

lemma length_encoding: "length (encoding src) = 4 * ((length src + 2) div 3)"
proof (induction src rule: encoding.induct)
  case (1 a b c src)
  have "(length (a # b # c # src) + 2) div 3 = (length src + 2) div 3 + 1" by simp
  then show ?case using 1 by simp
qed auto

lemma decode_encoding:
  assumes "t + length src < length buf \<or> (t + length src = length buf \<and> length src mod 3 = 0)"
  shows "\<exists>buf'. decode_loop (length buf) (encoding src) (0, t, Some buf) = Decode_ok (t + length src) (Some buf') \<and>
    take (t + length src) buf' = take t buf @ src \<and> length buf' = length buf"
  using assms
proof (induction src arbitrary: t buf rule: encoding.induct)
  case (1 a b c src)
  define buf2 where "buf2 = take t buf @ [a, b, c] @ drop (t + 3) buf"
  have t3: "t + 3 < length buf \<or> t + 3 = length buf" using 1(2) by auto
  then have l: "length buf2 = length buf" and tk: "take (t + 3) buf2 = take t buf @ [a, b, c]" by (auto simp: buf2_def)
  have "(length (a # b # c # src)) mod 3 = length src mod 3" by simp
  then have "t + 3 + length src < length buf2 \<or> (t + 3 + length src = length buf2 \<and> length src mod 3 = 0)"
    using 1(2) unfolding l by auto
  from 1(1) [OF this] obtain buf' where
    "decode_loop (length buf) (encoding src) (0, t + 3, Some buf2) = Decode_ok (t + 3 + length src) (Some buf')"
    "take (t + 3 + length src) buf' = take (t + 3) buf2 @ src" "length buf' = length buf" unfolding l by blast
  moreover have "t + length (a # b # c # src) = t + 3 + length src" by simp
  ultimately show ?case
    using decode_group [OF t3, of a b c "encoding src", folded buf2_def] tk
    by (intro exI [of _ buf']) (simp only: encoding.simps append.simps append_assoc simp_thms)
next
  case (2 a b)
  then have "t + 2 < length buf" by auto
  then show ?case
    using decode_last_two [of t buf a b]
    by (simp del: decode_loop.simps(2)) (auto simp: list_eq_iff_nth_eq nth_append nth_list_update less_Suc_eq nth_Cons')
next
  case (3 a)
  then have "t + 1 < length buf" by auto
  then show ?case
    using decode_last_one [of t buf a]
    by (simp del: decode_loop.simps(2)) (auto simp: list_eq_iff_nth_eq nth_append nth_list_update less_Suc_eq nth_Cons')
qed (simp add: decode_finish_def)

lemma decode_encoding_tight:
  assumes "t + length src = length buf" "length src mod 3 \<noteq> 0"
  shows "decode_loop (length buf) (encoding src) (0, t, Some buf) = Decode_fail"
  using assms
proof (induction src arbitrary: t buf rule: encoding.induct)
  case (1 a b c src)
  define buf2 where "buf2 = take t buf @ [a, b, c] @ drop (t + 3) buf"
  have t3: "t + 3 < length buf \<or> t + 3 = length buf" using 1(2) by auto
  then have l: "length buf2 = length buf" by (auto simp: buf2_def)
  have "t + 3 + length src = length buf2" "length src mod 3 \<noteq> 0" using 1(2,3) unfolding l by simp_all
  from 1(1) [OF this] show ?case
    using decode_group [OF t3, of a b c "encoding src", folded buf2_def] by (simp only: l encoding.simps)
next
  case (2 a b)
  then show ?case by (simp add: decode_steps del: decode_loop.simps(2))
next
  case (3 a)
  then show ?case by (simp add: decode_steps del: decode_loop.simps(2))
qed simp

text \<open>
  C39: Base 64 round trip.  What \<open>base64_encode\<close> writes, \<open>base64_decode\<close> reads back: it returns the number of
  bytes and leaves them at the start of the target, when the target has room for one byte more than the
  data, or for the data when their number is a multiple of three.
\<close>

theorem base64_roundtrip:
  assumes "base64_encode src n = Some s"
    and "length src < length buf \<or> (length src = length buf \<and> length src mod 3 = 0)"
  shows "\<exists>buf'. base64_decode s (Some buf) (length buf) = Decode_ok (length src) (Some buf') \<and>
    take (length src) buf' = src \<and> length buf' = length buf"
proof -
  have "s = encoding src"
    using assms(1) encode_loop_encoding [of n src "[]"] by (auto simp: base64_encode_def split: option.splits if_splits)
  then show ?thesis
    using decode_encoding [of 0 src buf] assms(2) by (simp add: base64_decode_def)
qed

theorem base64_roundtrip_witness:
  "\<exists>s buf'. base64_encode [0x61, 0xFF] 5 = Some s \<and> base64_decode s (Some [7, 7, 7]) 3 = Decode_ok 2 (Some buf') \<and>
     take 2 buf' = [0x61, 0xFF]"
proof -
  have "base64_encode [0x61, 0xFF] 5 = Some (encoding [0x61, 0xFF])" by (simp add: base64_encode_def)
  note e = this
  have l: "length [7, 7, 7 :: u8] = 3" "length [0x61, 0xFF :: u8] = 2" and lt: "length [0x61, 0xFF :: u8] < length [7, 7, 7 :: u8]"
    by simp_all
  obtain buf' where "base64_decode (encoding [0x61, 0xFF]) (Some [7, 7, 7]) 3 = Decode_ok 2 (Some buf')" "take 2 buf' = [0x61, 0xFF]"
    using base64_roundtrip [OF e disjI1 [OF lt]] unfolding l by blast
  with e show ?thesis by blast
qed



text \<open>
  A target of exactly the size of the data is too small unless that size is a multiple of three:
  \<open>base64_decode\<close> asks for one byte more than it will use.  So the encoding of the 4 bytes of an IPv4 address,
  or of the 16 bytes of an IPv6 address, is rejected by a caller that passes that length as the target size.
\<close>

theorem base64_decode_exact_fails:
  assumes "base64_encode src n = Some s" "length src = length buf" "length src mod 3 \<noteq> 0"
  shows "base64_decode s (Some buf) (length buf) = Decode_fail"
proof -
  have "s = encoding src"
    using assms(1) encode_loop_encoding [of n src "[]"] by (auto simp: base64_encode_def split: option.splits if_splits)
  then show ?thesis
    using decode_encoding_tight [of 0 src buf] assms(2,3) by (simp add: base64_decode_def)
qed

theorem base64_decode_exact_fails_witness:
  "base64_decode (the (base64_encode [127, 0, 0, 1] 9)) (Some [0, 0, 0, 0]) 4 = Decode_fail"
proof -
  have e: "base64_encode [127, 0, 0, 1] 9 = Some (encoding [127, 0, 0, 1])" by (simp add: base64_encode_def)
  have l: "length [127, 0, 0, 1 :: u8] = length [0, 0, 0, 0 :: u8]" "length [127, 0, 0, 1 :: u8] mod 3 \<noteq> 0" "length [0, 0, 0, 0 :: u8] = 4"
    by simp_all
  from base64_decode_exact_fails [OF e l(1,2)] show ?thesis unfolding e option.sel l(3) .
qed

section \<open>The base 64 of ircu\<close>

definition ub64_alphabet :: cstr where
  "ub64_alphabet = ''ABCDEFGHIJKLMNOPQRSTUVWXYZabcdefghijklmnopqrstuvwxyz0123456789[]''"

text \<open>The table \<open>ub64_lookuptab\<close>; \<open>None\<close> is the entry \<open>'\377'\<close>.\<close>

definition ub64_lookup :: "char \<Rightarrow> nat option" where
  "ub64_lookup ch =
     (let c = of_char ch :: nat
      in if 48 \<le> c \<and> c \<le> 57 then Some (c + 4)
         else if 65 \<le> c \<and> c \<le> 90 then Some (c - 65)
         else if c = 91 then Some 62
         else if c = 93 then Some 63
         else if 97 \<le> c \<and> c \<le> 122 then Some (c - 71)
         else None)"

fun uint_digits :: "nat \<Rightarrow> 64 word \<Rightarrow> cstr \<Rightarrow> cstr" where
  "uint_digits 0 v buf = buf"
| "uint_digits (Suc count) v buf = uint_digits count (drop_bit 6 v) (ub64_alphabet ! unat (v AND 63) # buf)"

definition uinttobase64 :: "64 word \<Rightarrow> nat \<Rightarrow> cstr" where
  "uinttobase64 v count = uint_digits count v []"

fun touint_loop :: "nat \<Rightarrow> cstr \<Rightarrow> u32 \<Rightarrow> u32" where
  "touint_loop 0 buf v = v"
| "touint_loop (Suc count) [] v = v"
| "touint_loop (Suc count) (c # buf) v =
     (case ub64_lookup c of
        None \<Rightarrow> v
      | Some bits \<Rightarrow> touint_loop count buf (push_bit 6 v OR word_of_nat bits))"

definition base64touint :: "cstr \<Rightarrow> u32" where
  "base64touint buf = touint_loop 6 buf 0"

definition hex_digit :: "nat \<Rightarrow> char" where
  "hex_digit d = ''0123456789abcdef'' ! d"

text \<open>\<open>"%x"\<close>\<close>

fun show_hex :: "nat \<Rightarrow> cstr" where
  "show_hex n = (if n < 16 then [hex_digit n] else show_hex (n div 16) @ [hex_digit (n mod 16)])"

declare show_hex.simps [simp del]

text \<open>\<open>inet_ntop(AF_INET)\<close> of an address in network order; it is shorter than the buffer.\<close>

definition quad :: "u32 \<Rightarrow> cstr" where
  "quad ip = show_nat (unat ip div 2 ^ 24) @ ''.'' @ show_nat (unat ip div 2 ^ 16 mod 256) @ ''.'' @
     show_nat (unat ip div 2 ^ 8 mod 256) @ ''.'' @ show_nat (unat ip mod 256)"

text \<open>The second argument is \<open>ipstring[0 .. j - 1]\<close>.\<close>

function (sequential) p10_loop :: "cstr \<Rightarrow> cstr \<Rightarrow> cstr" where
  "p10_loop [] ips = ips"
| "p10_loop (ch # b64) ips =
     (if ch = CHR ''_'' then
        (if HOSTIPLEN - 2 \<le> length ips then ips
         else p10_loop b64 ((if ips = [] then ''0'' else ips) @ (if b64 = [] then ''::'' else '':'')))
      else if HOSTIPLEN - 5 \<le> length ips then ips
      else p10_loop (drop 2 b64)
             ((if ips = [] then [] else ips @ '':'') @
              show_hex (unat (ucast (base64touint (strlcpy (ch # b64) 4)) :: 16 word))))"
  by pat_completeness auto
termination p10_loop
  by (relation "measure (\<lambda>(b64, ips). length b64)") auto

definition decode_p10_ip :: "cstr \<Rightarrow> cstr" where
  "decode_p10_ip b64 =
     (if length b64 = 6 then quad (base64touint b64)
      else if length b64 = 24 \<or> (length b64 < 24 \<and> strchr b64 (CHR ''_'') \<noteq> None) then p10_loop b64 []
      else [])"

lemma length_show_hex: "n < 16 ^ k \<Longrightarrow> 0 < k \<Longrightarrow> length (show_hex n) \<le> k"
proof (induction k arbitrary: n)
  case (Suc k)
  show ?case
  proof (cases "n < 16")
    case True
    then show ?thesis by (subst show_hex.simps) simp
  next
    case False
    with Suc.prems have "n div 16 < 16 ^ k" "0 < k"
      by (auto simp: less_mult_imp_div_less mult.commute intro: gr0I)
    with Suc.IH have "length (show_hex (n div 16)) \<le> k" by blast
    with False show ?thesis by (subst show_hex.simps) simp
  qed
qed simp

lemma length_show_hex16: "length (show_hex (unat (w :: 16 word))) \<le> 4"
  by (rule length_show_hex) (use unsigned_less [of w] in simp_all)

lemma p10_loop_length: "length ips < HOSTIPLEN \<Longrightarrow> length (p10_loop b64 ips) < HOSTIPLEN"
proof (induction b64 ips rule: p10_loop.induct)
  case (2 ch b64 ips)
  have h: "HOSTIPLEN = 54" by (simp add: HOSTIPLEN_def)
  let ?x = "show_hex (unat (ucast (base64touint (strlcpy (ch # b64) 4)) :: 16 word))"
  show ?case
  proof (cases "ch = CHR ''_''")
    case True
    show ?thesis
    proof (cases "HOSTIPLEN - 2 \<le> length ips")
      case False
      then have "length ((if ips = [] then ''0'' else ips) @ (if b64 = [] then ''::'' else '':'')) < HOSTIPLEN" by (simp add: h)
      from 2(1) [OF True False this] True False show ?thesis by simp
    qed (use True 2(3) in simp)
  next
    case ch: False
    show ?thesis
    proof (cases "HOSTIPLEN - 5 \<le> length ips")
      case False
      then have "length ((if ips = [] then [] else ips @ '':'') @ ?x) < HOSTIPLEN"
        using length_show_hex16 [of "ucast (base64touint (strlcpy (ch # b64) 4))"] by (simp add: h)
      from 2(2) [OF ch False this] ch False show ?thesis by simp
    qed (use ch 2(3) in simp)
  qed
qed simp

lemma quad_length: "length (quad ip) \<le> 15"
proof -
  have "unat ip < 2 ^ 32" using unsigned_less [of ip] by simp
  then have "unat ip div 2 ^ 24 < 1000" by (simp add: less_mult_imp_div_less)
  moreover have "x mod 256 < (1000 :: nat)" for x by (rule order.strict_trans [OF mod_less_divisor]) simp_all
  ultimately have "length (show_nat (unat ip div 2 ^ 24)) \<le> 3" "length (show_nat (unat ip div 2 ^ 16 mod 256)) \<le> 3"
    "length (show_nat (unat ip div 2 ^ 8 mod 256)) \<le> 3" "length (show_nat (unat ip mod 256)) \<le> 3"
    by (auto intro!: length_show_nat_le)
  then show ?thesis by (simp add: quad_def)
qed

lemma ub64_lookup_alphabet: "i < 64 \<Longrightarrow> ub64_lookup (ub64_alphabet ! i) = Some i"
proof -
  have "map ub64_lookup ub64_alphabet = map Some [0..<64]"
    by (simp add: ub64_alphabet_def ub64_lookup_def upt_rec)
  moreover have "length ub64_alphabet = 64" by (simp add: ub64_alphabet_def)
  ultimately show "i < 64 \<Longrightarrow> ?thesis" by (metis length_upt minus_nat.diff_0 nth_map nth_upt plus_nat.add_0)
qed

lemma uint_digits_append: "uint_digits n v buf = uint_digits n v [] @ buf"
proof (induction n arbitrary: v buf)
  case (Suc n)
  show ?case using Suc [of "drop_bit 6 v" "ub64_alphabet ! unat (v AND 63) # buf"] Suc [of "drop_bit 6 v" "[ub64_alphabet ! unat (v AND 63)]"]
    by simp
qed simp

lemma touint_append:
  assumes "length ds + k \<le> n" "\<forall>d \<in> set ds. ub64_lookup d \<noteq> None"
  shows "touint_loop n (ds @ rest) v = touint_loop (n - length ds) rest (touint_loop (length ds) ds v)"
  using assms
proof (induction ds arbitrary: n v)
  case (Cons d ds)
  then obtain m where "n = Suc m" by (cases n) auto
  with Cons show ?case by auto
qed simp

lemma length_uint_digits: "length (uint_digits n v []) = n"
proof (induction n arbitrary: v)
  case (Suc n)
  then show ?case using uint_digits_append [of n "drop_bit 6 v" "[ub64_alphabet ! unat (v AND 63)]"] by simp
qed simp

lemma mask63: "(v :: 64 word) AND 63 = take_bit 6 v"
  by (simp add: take_bit_eq_mask mask_eq_exp_minus_1)

lemma unat_take6: "unat (take_bit 6 (v :: 64 word)) < 64"
  using take_bit_nat_less_exp [of 6 "unat v"] by (simp add: unsigned_take_bit_eq)

lemma uint_digits_valid: "\<forall>d \<in> set (uint_digits n v []). ub64_lookup d \<noteq> None"
proof (induction n arbitrary: v)
  case (Suc n)
  have "ub64_lookup (ub64_alphabet ! unat (v AND 63)) \<noteq> None"
    using ub64_lookup_alphabet [OF unat_take6 [of v]] by (simp add: mask63)
  then show ?case using Suc uint_digits_append [of n "drop_bit 6 v" "[ub64_alphabet ! unat (v AND 63)]"] by auto
qed simp

lemma touint_digits: "touint_loop n (uint_digits n v []) 0 = ucast (take_bit (6 * n) v)"
proof (induction n arbitrary: v)
  case (Suc n)
  let ?d = "ub64_alphabet ! unat (v AND 63)" and ?ds = "uint_digits n (drop_bit 6 v) []"
  have d: "ub64_lookup ?d = Some (unat (take_bit 6 v))" using ub64_lookup_alphabet [OF unat_take6 [of v]] by (simp add: mask63)
  have "uint_digits (Suc n) v [] = ?ds @ [?d]" using uint_digits_append [of n "drop_bit 6 v" "[?d]"] by simp
  then have "touint_loop (Suc n) (uint_digits (Suc n) v []) 0 = touint_loop (Suc n - n) [?d] (touint_loop n ?ds 0)"
    using touint_append [of ?ds 1 "Suc n" "[?d]" 0] uint_digits_valid [of n "drop_bit 6 v"] length_uint_digits [of n "drop_bit 6 v"] by simp
  also have "\<dots> = push_bit 6 (ucast (take_bit (6 * n) (drop_bit 6 v))) OR word_of_nat (unat (take_bit 6 v))"
    using d Suc [of "drop_bit 6 v"] by (simp add: Suc_diff_le)
  also have "(word_of_nat (unat (take_bit 6 v)) :: u32) = ucast (take_bit 6 v)" by (simp add: unsigned_ucast_eq of_nat_unat)
  also have "push_bit 6 (ucast (take_bit (6 * n) (drop_bit 6 v))) OR ucast (take_bit 6 v) = (ucast (take_bit (6 * Suc n) v) :: u32)"
    by (rule bit_word_eqI) (auto simp: bit_simps)
  finally show ?case .
qed simp

text \<open>
  Ircu base 64 round trip: reading back \<open>count\<close> digits written by \<open>uinttobase64\<close> gives the low
  \<open>6 * count\<close> bits of the number, as far as they fit in an \<open>unsigned int\<close>; so every number below
  \<open>64 ^ count\<close> that fits in 32 bits comes back.
\<close>

theorem ub64_roundtrip:
  assumes "count \<le> 6"
  shows "length (uinttobase64 v count) = count \<and> base64touint (uinttobase64 v count @ rest) =
    (if count = 6 then ucast v
     else touint_loop (6 - count) rest (ucast (take_bit (6 * count) v)))"
proof -
  have "touint_loop 6 (uint_digits count v [] @ rest) 0 =
      touint_loop (6 - count) rest (ucast (take_bit (6 * count) v))"
    using touint_append [of "uint_digits count v []" 0 6 rest 0] assms uint_digits_valid [of count v]
    by (simp add: length_uint_digits touint_digits)
  moreover have "(ucast (take_bit 36 v) :: u32) = ucast v"
    by (rule bit_word_eqI) (auto simp: bit_simps)
  ultimately show ?thesis by (auto simp: uinttobase64_def base64touint_def length_uint_digits)
qed

theorem ub64_roundtrip_witness: "base64touint (uinttobase64 0xFF00FF 6) = 0xFF00FF"
  using ub64_roundtrip [of 6 "0xFF00FF" "[]"] by simp

lemma touint_zero: "touint_loop n [] v = v"
  by (cases n) simp_all

text \<open>The string of an IPv6 address as ircu sends it: eight groups of three digits.\<close>

definition p10_groups :: "16 word list \<Rightarrow> cstr" where
  "p10_groups ws = concat (map (\<lambda>w. uinttobase64 (ucast w) 3) ws)"

fun colon_join :: "cstr list \<Rightarrow> cstr" where
  "colon_join [] = []"
| "colon_join [x] = x"
| "colon_join (x # y # xs) = x @ '':'' @ colon_join (y # xs)"

lemma uint3: "\<exists>a b c. uinttobase64 v 3 = [a, b, c] \<and> a \<noteq> CHR ''_''"
proof -
  have "length (uinttobase64 v 3) = 3" by (simp add: uinttobase64_def length_uint_digits)
  then obtain a b c where abc: "uinttobase64 v 3 = [a, b, c]" by (auto simp: length_Suc_conv eval_nat_numeral)
  then have "ub64_lookup a \<noteq> None" using uint_digits_valid [of 3 v] by (simp add: uinttobase64_def)
  then have "a \<noteq> CHR ''_''" by (auto simp: ub64_lookup_def)
  with abc show ?thesis by blast
qed

lemma touint_group: "(ucast (base64touint (uinttobase64 (ucast (w :: 16 word)) 3)) :: 16 word) = w"
proof -
  have "base64touint (uinttobase64 (ucast w) 3) = ucast (take_bit 18 (ucast w :: 64 word))"
    using ub64_roundtrip [of 3 "ucast w" "[]"] by (simp add: touint_zero)
  then show ?thesis by (auto intro!: bit_word_eqI simp: bit_simps dest: bit_imp_le_length)
qed

lemma p10_loop_groups:
  assumes "length ips + 5 * length ws \<le> 40"
  shows "p10_loop (p10_groups ws) ips =
    (if ws = [] then ips else (if ips = [] then [] else ips @ '':'') @ colon_join (map (\<lambda>w. show_hex (unat w)) ws))"
  using assms
proof (induction ws arbitrary: ips)
  case (Cons w ws)
  obtain a b c where abc: "uinttobase64 (ucast w) 3 = [a, b, c]" "a \<noteq> CHR ''_''" using uint3 by blast
  have g: "(ucast (base64touint [a, b, c]) :: 16 word) = w" using touint_group [of w] abc by simp
  have p: "p10_groups (w # ws) = a # b # c # p10_groups ws" using abc by (simp add: p10_groups_def)
  have "strlcpy (a # b # c # p10_groups ws) 4 = [a, b, c]" by (simp add: strlcpy_def)
  moreover have "\<not> HOSTIPLEN - 5 \<le> length ips" using Cons.prems by (simp add: HOSTIPLEN_def)
  ultimately have s: "p10_loop (p10_groups (w # ws)) ips =
      p10_loop (p10_groups ws) ((if ips = [] then [] else ips @ '':'') @ show_hex (unat w))"
    unfolding p using abc(2) g by simp
  have ne: "show_hex (unat w) \<noteq> []" by (subst show_hex.simps) simp
  have "length ((if ips = [] then [] else ips @ '':'') @ show_hex (unat w)) + 5 * length ws \<le> 40"
    using Cons.prems length_show_hex16 [of w] by auto
  from Cons.IH [OF this] show ?case
    unfolding s using ne by (cases ws) auto
qed (simp add: p10_groups_def)

text \<open>
  \<open>decode_p10_ip\<close> turns eight groups of three digits into the eight hexadecimal groups of the IPv6
  address, and for every input, well formed or not, it stays within the \<open>HOSTIPLEN\<close> bytes of its buffer.
\<close>

theorem decode_p10_ip_ok:
  "length (decode_p10_ip b64) < HOSTIPLEN \<and>
   (length ws = 8 \<longrightarrow> decode_p10_ip (p10_groups ws) = colon_join (map (\<lambda>w. show_hex (unat w)) ws))"
proof (intro conjI impI)
  show "length (decode_p10_ip b64) < HOSTIPLEN"
    using p10_loop_length [of "[]" b64] quad_length [of "base64touint b64"] by (simp add: decode_p10_ip_def HOSTIPLEN_def)
  assume l: "length ws = 8"
  have "length (p10_groups xs) = 3 * length xs" for xs
    by (induction xs) (simp_all add: p10_groups_def uinttobase64_def length_uint_digits)
  with l have "decode_p10_ip (p10_groups ws) = p10_loop (p10_groups ws) []" by (simp add: decode_p10_ip_def)
  also have "\<dots> = colon_join (map (\<lambda>w. show_hex (unat w)) ws)"
    using p10_loop_groups [of "[]" ws] l by auto
  finally show "decode_p10_ip (p10_groups ws) = colon_join (map (\<lambda>w. show_hex (unat w)) ws)" .
qed

theorem decode_p10_ip_ok_witness:
  "decode_p10_ip (p10_groups [0x2001, 0xdb8, 0, 0, 0, 0, 0, 1]) =
     colon_join (map (\<lambda>w. show_hex (unat w)) [0x2001 :: 16 word, 0xdb8, 0, 0, 0, 0, 0, 1])"
  using decode_p10_ip_ok [of "[]" "[0x2001, 0xdb8, 0, 0, 0, 0, 0, 1]", THEN conjunct2] by (rule mp) simp

end
