(* ===== verification/Uids.thy ===== *)
theory Uids
  imports Network Codec Cidr
begin

text \<open>
  Unique identifiers: the UIDs given to our own clients (\<open>modules/protocol/base36uid.c\<close>) and those given to
  accounts and groups (\<open>libathemecore/entity.c\<close>), with the two dictionaries of entities.

  Both generators count in base 36, the digits in the order \<open>A\<close> to \<open>Z\<close>, \<open>0\<close> to \<open>9\<close>, except that the first
  position has letters only.  The locale \<open>uid_counter\<close> states what users of a generator rely on.
\<close>

section \<open>Client UIDs\<close>

text \<open>
  \<open>new_uid\<close> is a string of at most 9 bytes, \<open>uindex\<close> its length, \<open>sid\<close> the length of \<open>me.numeric\<close>.  \<open>add_one_to_uid\<close>
  calls itself on the position before; \<open>None\<close> is a position behind the string or before its start.
\<close>

definition char_succ :: "char \<Rightarrow> char" where
  "char_succ c = char_of (Suc (of_char c))"

fun add_one_to_uid :: "nat \<Rightarrow> nat \<Rightarrow> cstr \<Rightarrow> cstr option" where
  "add_one_to_uid sid i u =
     (if i \<ge> length u then None
      else if i \<noteq> sid
      then (if u ! i = CHR ''Z'' then Some (u[i := CHR ''0''])
            else if u ! i = CHR ''9''
            then (case i of 0 \<Rightarrow> None | Suc j \<Rightarrow> add_one_to_uid sid j (u[i := CHR ''A'']))
            else Some (u[i := char_succ (u ! i)]))
      else (if u ! i = CHR ''Z'' then Some (take sid u @ replicate (9 - sid) (CHR ''A''))
            else Some (u[i := char_succ (u ! i)])))"

declare add_one_to_uid.simps [simp del]

definition uid_length :: "bool \<Rightarrow> nat" where
  "uid_length p10 = (if p10 then 5 else 9)"

text \<open>\<open>base36_uid_init\<close>: the numeric of the server and the first UID; a P10 numeric is written in two digits.\<close>

definition base36_uid_init :: "bool \<Rightarrow> cstr \<Rightarrow> cstr \<times> cstr" where
  "base36_uid_init p10 numeric =
     (let numeric = (if p10 then uinttobase64 (word_of_int (atoi numeric)) 2 else numeric)
      in (numeric, numeric @ replicate (uid_length p10 - length numeric) (CHR ''A'')))"

definition base36_uid_get :: "bool \<Rightarrow> cstr \<Rightarrow> cstr \<Rightarrow> cstr option" where
  "base36_uid_get p10 numeric u = add_one_to_uid (length numeric) (uid_length p10 - 1) u"

section \<open>Entity UIDs\<close>

text \<open>The loop of \<open>myentity_alloc_uid\<close> from position 8 down to 4, and what follows it.\<close>

fun alloc_loop :: "nat \<Rightarrow> cstr \<Rightarrow> cstr" where
  "alloc_loop i u =
     (if i > 3
      then (if u ! i = CHR ''Z'' then u[i := CHR ''0'']
            else if u ! i \<noteq> CHR ''9'' then u[i := char_succ (u ! i)]
            else alloc_loop (i - 1) (u[i := CHR ''A'']))
      else if u ! 3 = CHR ''Z'' then u[i := CHR ''A'']
      else u[3 := char_succ (u ! 3)])"

declare alloc_loop.simps [simp del]

definition myentity_alloc_uid :: "cstr \<Rightarrow> cstr" where
  "myentity_alloc_uid last_uid = alloc_loop 8 last_uid"

definition myentity_set_last_uid :: "cstr \<Rightarrow> cstr" where
  "myentity_set_last_uid last_id = strlcpy last_id IDLEN"

text \<open>
  The dictionaries: by name up to case, and by id.  An entity is a reference with its name and id; an empty
  id is none.
\<close>

record uid_entity =
  ue_name :: cstr
  ue_id :: cstr

record entity_db =
  eb_ents :: "nat \<Rightarrow> uid_entity option"
  eb_names :: "cstr \<Rightarrow> nat option"
  eb_ids :: "cstr \<Rightarrow> nat option"
  eb_last :: cstr

definition myentity_put :: "int \<Rightarrow> nat \<Rightarrow> entity_db \<Rightarrow> entity_db" where
  "myentity_put mapping e db =
     (case eb_ents db e of
        None \<Rightarrow> db
      | Some X \<Rightarrow>
          let new = (ue_id X = []);
              l = (if new then myentity_alloc_uid (eb_last db) else eb_last db);
              i = (if new then strlcpy l IDLEN else ue_id X)
          in db\<lparr>eb_last := l, eb_ents := (eb_ents db)(e := Some (X\<lparr>ue_id := i\<rparr>)),
                eb_names := dict_add (eb_names db) (irccasecanon mapping (ue_name X)) e,
                eb_ids := dict_add (eb_ids db) i e\<rparr>)"

definition myentity_del :: "int \<Rightarrow> nat \<Rightarrow> entity_db \<Rightarrow> entity_db" where
  "myentity_del mapping e db =
     (case eb_ents db e of
        None \<Rightarrow> db
      | Some X \<Rightarrow> db\<lparr>eb_names := (eb_names db)(irccasecanon mapping (ue_name X) := None), eb_ids := (eb_ids db)(ue_id X := None)\<rparr>)"

text \<open>The hook \<open>myentity_find\<close> answers for names that are in no dictionary; it is a parameter.\<close>

definition myentity_find :: "int \<Rightarrow> (cstr \<Rightarrow> nat option) \<Rightarrow> cstr \<Rightarrow> entity_db \<Rightarrow> nat option" where
  "myentity_find mapping hook name db =
     (case eb_names db (irccasecanon mapping name) of Some e \<Rightarrow> Some e | None \<Rightarrow> hook name)"

definition myentity_find_uid :: "cstr \<Rightarrow> entity_db \<Rightarrow> nat option" where
  "myentity_find_uid uid db = eb_ids db uid"

section \<open>Counters\<close>

text \<open>
  What a generator promises: on well-formed identifiers the next one is one more, modulo a period, and an
  identifier is determined by its number.
\<close>

locale uid_counter =
  fixes next_uid :: "cstr \<Rightarrow> cstr" and ok :: "cstr \<Rightarrow> bool" and number :: "cstr \<Rightarrow> nat" and period :: nat
  assumes ok_next: "ok u \<Longrightarrow> ok (next_uid u)"
    and number_next: "ok u \<Longrightarrow> number (next_uid u) = Suc (number u) mod period"
    and number_less: "ok u \<Longrightarrow> number u < period"
    and number_inject: "ok u \<Longrightarrow> ok v \<Longrightarrow> number u = number v \<Longrightarrow> u = v"
begin

lemma ok_iterate: "ok u \<Longrightarrow> ok ((next_uid ^^ n) u)"
  by (induction n) (simp_all add: ok_next)

lemma number_iterate: "ok u \<Longrightarrow> number ((next_uid ^^ n) u) = (number u + n) mod period"
proof (induction n)
  case 0
  then show ?case by (simp add: number_less)
next
  case (Suc n)
  then show ?case using number_next [OF ok_iterate [OF Suc.prems], of n] by (simp add: mod_Suc_eq)
qed

lemma iterate_eq_iff: "ok u \<Longrightarrow> (next_uid ^^ m) u = (next_uid ^^ n) u \<longleftrightarrow> m mod period = n mod period"
proof -
  assume u: "ok u"
  have "(next_uid ^^ m) u = (next_uid ^^ n) u \<longleftrightarrow> (number u + m) mod period = (number u + n) mod period"
    using number_inject [OF ok_iterate [OF u] ok_iterate [OF u]] number_iterate [OF u] by metis
  also have "\<dots> \<longleftrightarrow> m mod period = n mod period" by (simp add: nat_mod_eq_iff)
  finally show ?thesis .
qed

lemma next_greater: "ok u \<Longrightarrow> Suc (number u) < period \<Longrightarrow> number (next_uid u) = Suc (number u)"
  by (simp add: number_next)

end

section \<open>The odometer\<close>

text \<open>
  Both loops change the variable part of an identifier in the same way: read from its last position, this
  is an odometer over the digits, the list's last element being the first position.
\<close>

definition uid_letter :: "char \<Rightarrow> bool" where
  "uid_letter c \<longleftrightarrow> 65 \<le> (of_char c :: nat) \<and> (of_char c :: nat) \<le> 90"

definition uid_digit :: "char \<Rightarrow> bool" where
  "uid_digit c \<longleftrightarrow> uid_letter c \<or> 48 \<le> (of_char c :: nat) \<and> (of_char c :: nat) \<le> 57"

definition digit_number :: "char \<Rightarrow> nat" where
  "digit_number c = (if uid_letter c then of_char c - 65 else of_char c - 48 + 26)"

fun odometer :: "cstr \<Rightarrow> cstr" where
  "odometer [] = []"
| "odometer [c] = [if c = CHR ''Z'' then CHR ''A'' else char_succ c]"
| "odometer (c # d # ds) =
     (if c = CHR ''Z'' then CHR ''0'' # d # ds
      else if c = CHR ''9'' then CHR ''A'' # odometer (d # ds)
      else char_succ c # d # ds)"

fun wheels_ok :: "cstr \<Rightarrow> bool" where
  "wheels_ok [] \<longleftrightarrow> False"
| "wheels_ok [c] \<longleftrightarrow> uid_letter c"
| "wheels_ok (c # d # ds) \<longleftrightarrow> uid_digit c \<and> wheels_ok (d # ds)"

fun wheels_number :: "cstr \<Rightarrow> nat" where
  "wheels_number [] = 0"
| "wheels_number (c # cs) = digit_number c + 36 * wheels_number cs"

fun wheels_period :: "nat \<Rightarrow> nat" where
  "wheels_period 0 = 1"
| "wheels_period (Suc 0) = 26"
| "wheels_period (Suc (Suc n)) = 36 * wheels_period (Suc n)"

lemma of_char_succ: "(of_char c :: nat) < 255 \<Longrightarrow> of_char (char_succ c) = (Suc (of_char c) :: nat)"
  by (simp add: char_succ_def)

lemma char_Z: "c = CHR ''Z'' \<longleftrightarrow> (of_char c :: nat) = 90"
  using of_char_eq_iff [of c "CHR ''Z''", where 'a = nat] by simp

lemma char_9: "c = CHR ''9'' \<longleftrightarrow> (of_char c :: nat) = 57"
  using of_char_eq_iff [of c "CHR ''9''", where 'a = nat] by simp

lemma succ_letter: "uid_letter c \<Longrightarrow> c \<noteq> CHR ''Z'' \<Longrightarrow> uid_letter (char_succ c) \<and> digit_number (char_succ c) = Suc (digit_number c)"
  by (auto simp: uid_letter_def digit_number_def of_char_succ char_Z)

lemma succ_digit:
  "uid_digit c \<Longrightarrow> c \<noteq> CHR ''Z'' \<Longrightarrow> c \<noteq> CHR ''9'' \<Longrightarrow>
     uid_digit (char_succ c) \<and> digit_number (char_succ c) = Suc (digit_number c)"
  by (auto simp: uid_letter_def uid_digit_def digit_number_def of_char_succ char_Z char_9)

lemma digit_number_values [simp]:
  "digit_number (CHR ''A'') = 0" "digit_number (CHR ''Z'') = 25" "digit_number (CHR ''0'') = 26" "digit_number (CHR ''9'') = 35"
  by (simp_all add: digit_number_def uid_letter_def)

lemma uid_letter_values [simp]: "uid_letter (CHR ''A'')" "uid_digit (CHR ''A'')" "uid_digit (CHR ''0'')"
  by (simp_all add: uid_letter_def uid_digit_def)

lemma digit_number_less: "uid_digit c \<Longrightarrow> digit_number c < 36" "uid_letter c \<Longrightarrow> digit_number c < 26"
  by (auto simp: digit_number_def uid_digit_def uid_letter_def)

lemma digit_number_inject: "uid_digit c \<Longrightarrow> uid_digit d \<Longrightarrow> digit_number c = digit_number d \<Longrightarrow> c = d"
proof -
  assume "uid_digit c" "uid_digit d" "digit_number c = digit_number d"
  then have "(of_char c :: nat) = of_char d"
 
    unfolding digit_number_def uid_digit_def uid_letter_def by (auto simp del: of_char_eq_iff split: if_splits)
  then show "c = d" by simp
qed

lemma letter_digit: "uid_letter c \<Longrightarrow> uid_digit c"
  by (simp add: uid_digit_def)

lemma length_odometer [simp]: "length (odometer r) = length r"
  by (induction r rule: odometer.induct) auto

lemma wheels_period_pos [simp]: "0 < wheels_period n"
  by (induction n rule: wheels_period.induct) auto

lemma wheels_less: "wheels_ok r \<Longrightarrow> wheels_number r < wheels_period (length r)"
proof (induction r rule: wheels_ok.induct)
  case (3 c d ds)
  then have "digit_number c < 36" "wheels_number (d # ds) < wheels_period (length (d # ds))"
    using digit_number_less(1) by auto
  then show ?case by simp
qed (auto simp: digit_number_less)

lemma odometer_ok: "wheels_ok r \<Longrightarrow> wheels_ok (odometer r)"
proof (induction r rule: wheels_ok.induct)
  case (3 c d ds)
  moreover have "odometer (d # ds) \<noteq> []" using length_odometer [of "d # ds"] by (metis length_0_conv list.distinct(1))
  then obtain x xs where "odometer (d # ds) = x # xs" by (cases "odometer (d # ds)") auto
  ultimately show ?case using succ_digit [of c] by auto
qed (auto simp: succ_letter)

lemma odometer_number: "wheels_ok r \<Longrightarrow> wheels_number (odometer r) = Suc (wheels_number r) mod wheels_period (length r)"
proof (induction r rule: wheels_ok.induct)
  case (2 c)
  then show ?case using succ_letter [of c] digit_number_less(2) [of "char_succ c"] by auto
next
  case (3 c d ds)
  let ?n = "wheels_number (d # ds)" and ?P = "wheels_period (length (d # ds))"
  have P: "wheels_period (length (c # d # ds)) = 36 * ?P" by simp
  have n: "?n < ?P" using wheels_less [of "d # ds"] 3 by simp
  show ?case
  proof (cases "c = CHR ''9''")
    case True
    have "wheels_number (odometer (c # d # ds)) = 36 * wheels_number (odometer (d # ds))" using True by simp
    also have "\<dots> = 36 * (Suc ?n mod ?P)" using 3 by simp
    also have "\<dots> = (36 * Suc ?n) mod (36 * ?P)" by (simp only: mult_mod_right)
    also have "36 * Suc ?n = Suc (wheels_number (c # d # ds))" using True by simp
    finally show ?thesis unfolding P .
  next
    case False
    then have o: "wheels_number (odometer (c # d # ds)) = Suc (wheels_number (c # d # ds))"
      using succ_digit [of c] 3 by auto
    have "wheels_ok (odometer (c # d # ds))" using odometer_ok 3 by blast
    then have "wheels_number (odometer (c # d # ds)) < 36 * ?P" using wheels_less by fastforce
    then show ?thesis unfolding P using o by simp
  qed
qed simp

lemma wheels_digits: "wheels_ok r \<Longrightarrow> \<forall>c \<in> set r. uid_digit c"
  by (induction r rule: wheels_ok.induct) (auto simp: letter_digit)

lemma wheels_inject:
  assumes "length r = length q" "\<forall>c \<in> set r. uid_digit c" "\<forall>c \<in> set q. uid_digit c" "wheels_number r = wheels_number q"
  shows "r = q"
  using assms
proof (induction r q rule: list_induct2)
  case (Cons c r d q)
  have l: "digit_number c < 36" "digit_number d < 36" using Cons.prems digit_number_less(1) by auto
  have e: "digit_number c + 36 * wheels_number r = digit_number d + 36 * wheels_number q" using Cons.prems by simp
  then have "(digit_number c + 36 * wheels_number r) mod 36 = (digit_number d + 36 * wheels_number q) mod 36" by simp
  then have d: "digit_number c = digit_number d" using l by simp
  then have "wheels_number r = wheels_number q" using e by simp
  then have "r = q" using Cons.IH Cons.prems by simp
  moreover have "c = d" using digit_number_inject [OF _ _ d] Cons.prems by simp
  ultimately show ?case by simp
qed simp

section \<open>The generators turn the odometer\<close>

lemma nth_wheel: "(p @ rev (x # xs) @ b) ! (length p + length xs) = x"
  by (simp add: nth_append)

lemma update_wheel: "(p @ rev (x # xs) @ b) [length p + length xs := y] = p @ rev (y # xs) @ b"
  by (simp add: list_update_append)

lemma carry_full: "d < 36 \<Longrightarrow> n < P \<Longrightarrow> d + 36 * n + 1 = 36 * P \<longleftrightarrow> d = 35 \<and> n + 1 = P" for d n P :: nat
  by (cases "n + 1 = P") auto

text \<open>
  From a position on, with every later position already \<open>A\<close>; running out of identifiers refills the array up to its
  ninth byte, whatever its length was.
\<close>

lemma add_one_odometer:
  assumes "wheels_ok (x # xs)"
  shows "add_one_to_uid (length p) (length p + length xs) (p @ rev (x # xs) @ replicate k (CHR ''A'')) =
    Some (if wheels_number (x # xs) + 1 = wheels_period (length (x # xs)) then p @ replicate (9 - length p) (CHR ''A'')
          else p @ rev (odometer (x # xs)) @ replicate k (CHR ''A''))"
  using assms
proof (induction xs arbitrary: x k)
  case Nil
  have n: "(p @ z # b) ! length p = z" "(p @ z # b)[length p := y] = p @ y # b" for b y z
    using nth_wheel [of p z "[]" b] update_wheel [of p z "[]" b] by simp_all
  have "digit_number x + 1 = 26 \<longleftrightarrow> x = CHR ''Z''"
    using digit_number_inject [of x "CHR ''Z''"] Nil by (auto simp: letter_digit uid_letter_def uid_digit_def)
  then show ?case using n by (auto simp: add_one_to_uid.simps [of "length p" "length p"])
next
  case (Cons d ds)
  let ?i = "length p + length (d # ds)"
  let ?u = "p @ rev (x # d # ds) @ replicate k (CHR ''A'')"
  let ?n = "wheels_number (d # ds)" and ?P = "wheels_period (length (d # ds))"
  have u: "?u ! ?i = x" "?u[?i := y] = p @ rev (y # d # ds) @ replicate k (CHR ''A'')" for y
    using nth_wheel update_wheel by fast+
  have w: "wheels_ok (d # ds)" "uid_digit x" using Cons.prems by auto
  have n: "?n < ?P" using wheels_less [OF w(1)] .
  have full: "wheels_number (x # d # ds) + 1 = wheels_period (length (x # d # ds)) \<longleftrightarrow> x = CHR ''9'' \<and> ?n + 1 = ?P"
  proof -
    have "digit_number x < 36" using digit_number_less(1) [OF w(2)] .
    moreover have "x = CHR ''9'' \<longleftrightarrow> digit_number x = 35"
      using digit_number_inject [OF w(2), of "CHR ''9''"] by (auto simp: uid_digit_def)
    moreover have "wheels_number (x # d # ds) + 1 = wheels_period (length (x # d # ds)) \<longleftrightarrow> digit_number x + 36 * ?n + 1 = 36 * ?P" by simp
    ultimately show ?thesis using carry_full [of "digit_number x" ?n ?P] n by blast
  qed
  have step: "add_one_to_uid (length p) ?i ?u =
      (if x = CHR ''Z'' then Some (p @ rev (CHR ''0'' # d # ds) @ replicate k (CHR ''A''))
       else if x = CHR ''9'' then add_one_to_uid (length p) (length p + length ds) (p @ rev (d # ds) @ replicate (Suc k) (CHR ''A''))
       else Some (p @ rev (char_succ x # d # ds) @ replicate k (CHR ''A'')))"
    unfolding add_one_to_uid.simps [of _ ?i] u by (simp add: replicate_app_Cons_same)
  show ?case
  proof (cases "x = CHR ''9''")
    case True
    then show ?thesis unfolding step full using Cons.IH [OF w(1), of "Suc k"] by (simp add: replicate_app_Cons_same)
  next
    case False
    then show ?thesis unfolding step full by simp
  qed
qed

lemma alloc_odometer:
  assumes "wheels_ok (x # xs)" "length p = 3"
  shows "alloc_loop (3 + length xs) (p @ rev (x # xs) @ b) =
    p @ rev (odometer (x # xs)) @ b"
  using assms
proof (induction xs arbitrary: x b)
  case Nil
  let ?u = "p @ rev [x] @ b"
  have n: "(p @ z # b) ! 3 = z" "(p @ z # b)[3 := y] = p @ y # b" for y z
    using nth_wheel [of p z "[]" b] update_wheel [of p z "[]" b] Nil by simp_all
  show ?case using n by (simp add: alloc_loop.simps [of 3])
next
  case (Cons d ds)
  let ?i = "3 + length (d # ds)"
  let ?u = "p @ rev (x # d # ds) @ b"
  have u: "?u ! ?i = x" "?u[?i := y] = p @ rev (y # d # ds) @ b" for y
    using nth_wheel [of p x "d # ds" b] update_wheel [of p x "d # ds" b] Cons.prems(2) by simp_all
  have "alloc_loop ?i ?u =
      (if x = CHR ''Z'' then p @ rev (CHR ''0'' # d # ds) @ b
       else if x \<noteq> CHR ''9'' then p @ rev (char_succ x # d # ds) @ b
       else alloc_loop (3 + length ds) (p @ rev (d # ds) @ CHR ''A'' # b))"
    unfolding alloc_loop.simps [of ?i] u by simp
  then show ?case using Cons.IH [of d "CHR ''A'' # b"] Cons.prems by simp
qed

section \<open>Both generators are counters\<close>

definition uid_ok :: "cstr \<Rightarrow> nat \<Rightarrow> cstr \<Rightarrow> bool" where
  "uid_ok p n u \<longleftrightarrow> take (length p) u = p \<and> length u = length p + n \<and> wheels_ok (rev (drop (length p) u))"

definition uid_number :: "cstr \<Rightarrow> cstr \<Rightarrow> nat" where
  "uid_number p u = wheels_number (rev (drop (length p) u))"

lemma uid_ok_iff: "uid_ok p n u \<longleftrightarrow> (\<exists>r. u = p @ rev r \<and> length r = n \<and> wheels_ok r)"
proof
  assume "uid_ok p n u"
  then have "u = p @ rev (rev (drop (length p) u)) \<and> length (rev (drop (length p) u)) = n \<and> wheels_ok (rev (drop (length p) u))"
    unfolding uid_ok_def by (metis add_diff_cancel_left' append_take_drop_id length_drop length_rev rev_rev_ident)
  then show "\<exists>r. u = p @ rev r \<and> length r = n \<and> wheels_ok r" by blast
qed (auto simp: uid_ok_def)

lemma uid_number_rev [simp]: "uid_number p (p @ rev r) = wheels_number r"
  by (simp add: uid_number_def)

lemma wheels_zero: "wheels_ok r \<Longrightarrow> wheels_number r = 0 \<Longrightarrow> r = replicate (length r) (CHR ''A'')"
proof (induction r rule: wheels_ok.induct)
  case (2 c)
  then show ?case using digit_number_inject [of c "CHR ''A''"] by (simp add: letter_digit)
next
  case (3 c d ds)
  then show ?case using digit_number_inject [of c "CHR ''A''"] by simp
qed simp

lemma odometer_wrap:
  assumes "wheels_ok r" "wheels_number r + 1 = wheels_period (length r)"
  shows "odometer r = replicate (length r) (CHR ''A'')"
  using wheels_zero [OF odometer_ok [OF assms(1)]] odometer_number [OF assms(1)] assms(2) by simp

lemma uid_get_odometer:
  assumes "length p < 9" "length r = 9 - length p" "wheels_ok r"
  shows "base36_uid_get False p (p @ rev r) = Some (p @ rev (odometer r))"
proof -
  obtain x xs where r: "r = x # xs" using assms(3) by (cases r) auto
  have i: "length p + length xs = 8" using assms r by simp
  have "add_one_to_uid (length p) 8 (p @ rev r) =
      Some (if wheels_number r + 1 = wheels_period (length r) then p @ replicate (9 - length p) (CHR ''A'') else p @ rev (odometer r))"
    using add_one_odometer [of x xs p 0] assms(3) i unfolding r by simp
  also have "\<dots> = Some (p @ rev (odometer r))" using odometer_wrap [OF assms(3)] assms(2) by simp
  finally show ?thesis by (simp add: base36_uid_get_def uid_length_def)
qed

lemma alloc_uid_odometer:
  assumes "length p = 3" "length r = 6" "wheels_ok r"
  shows "myentity_alloc_uid (p @ rev r) = p @ rev (odometer r)"
proof -
  obtain x xs where r: "r = x # xs" using assms(2) by (cases r) auto
  then have "3 + length xs = 8" using assms(2) by simp
  then show ?thesis using alloc_odometer [of x xs p "[]"] assms r by (simp add: myentity_alloc_uid_def)
qed

definition base36_next :: "cstr \<Rightarrow> cstr \<Rightarrow> cstr" where
  "base36_next p u = the (base36_uid_get False p u)"

lemma uid_counter_odometer:
  assumes "\<And>r. length r = n \<Longrightarrow> wheels_ok r \<Longrightarrow> f (p @ rev r) = p @ rev (odometer r)"
  shows "uid_counter f (uid_ok p n) (uid_number p) (wheels_period n)"
proof
  fix u assume "uid_ok p n u"
  then obtain r where r: "u = p @ rev r" "length r = n" "wheels_ok r" by (auto simp: uid_ok_iff)
  show "uid_ok p n (f u)" using assms [OF r(2,3)] r odometer_ok by (auto simp: uid_ok_iff)
  show "uid_number p (f u) = Suc (uid_number p u) mod wheels_period n"
    using assms [OF r(2,3)] r odometer_number by simp
  show "uid_number p u < wheels_period n" using r wheels_less by auto
  fix v assume "uid_ok p n v" "uid_number p u = uid_number p v"
  then obtain q where q: "v = p @ rev q" "length q = n" "wheels_ok q" by (auto simp: uid_ok_iff)
  then have "wheels_number r = wheels_number q" using \<open>uid_number p u = uid_number p v\<close> r by simp
  then show "u = v" using wheels_inject [of r q] wheels_digits r q by auto
qed

text \<open>The identifiers of one installation share their first three characters; those of clients start with the server's.\<close>

definition entity_uid_ok :: "cstr \<Rightarrow> cstr \<Rightarrow> bool" where
  "entity_uid_ok p u \<longleftrightarrow> length p = 3 \<and> uid_ok p 6 u"

definition client_uid_ok :: "cstr \<Rightarrow> cstr \<Rightarrow> bool" where
  "client_uid_ok p u \<longleftrightarrow> length p < 9 \<and> uid_ok p (9 - length p) u"

lemma entity_counter: "uid_counter myentity_alloc_uid (entity_uid_ok p) (uid_number p) (wheels_period 6)"
proof (cases "length p = 3")
  case True
  then show ?thesis unfolding entity_uid_ok_def using uid_counter_odometer [OF alloc_uid_odometer, where p = p and n = 6] by simp
qed (unfold_locales, auto simp: entity_uid_ok_def)

lemma client_counter: "uid_counter (base36_next p) (client_uid_ok p) (uid_number p) (wheels_period (9 - length p))"
proof (cases "length p < 9")
  case True
  then have "base36_next p (p @ rev r) = p @ rev (odometer r)" if "length r = 9 - length p" "wheels_ok r" for r
    using uid_get_odometer [OF True that] by (simp add: base36_next_def)
  then show ?thesis unfolding client_uid_ok_def using uid_counter_odometer [of "9 - length p" "base36_next p" p] True by simp
qed (unfold_locales, auto simp: client_uid_ok_def)

interpretation entity_uids: uid_counter myentity_alloc_uid "entity_uid_ok p" "uid_number p" "wheels_period 6" for p
  by (rule entity_counter)

interpretation client_uids: uid_counter "base36_next p" "client_uid_ok p" "uid_number p" "wheels_period (9 - length p)" for p
  by (rule client_counter)

section \<open>The UIDs of clients\<close>

lemma wheels_A: "0 < n \<Longrightarrow> wheels_ok (replicate n (CHR ''A''))"
proof (induction n)
  case (Suc n)
  then show ?case by (cases n) auto
qed simp

lemma wheels_period_pow: "wheels_period (Suc n) = 26 * 36 ^ n"
  by (induction n) simp_all

text \<open>The UIDs of \<open>n\<close> calls one after the other.\<close>

fun uid_calls :: "bool \<Rightarrow> cstr \<Rightarrow> nat \<Rightarrow> cstr \<Rightarrow> cstr list option" where
  "uid_calls p10 numeric 0 u = Some []"
| "uid_calls p10 numeric (Suc n) u =
     (case base36_uid_get p10 numeric u of None \<Rightarrow> None | Some v \<Rightarrow> map_option (Cons v) (uid_calls p10 numeric n v))"

lemma client_get: "client_uid_ok p u \<Longrightarrow> base36_uid_get False p u = Some (base36_next p u)"
  unfolding client_uid_ok_def uid_ok_iff using uid_get_odometer [of p] by (auto simp: base36_next_def)

lemma uid_calls_iterate:
  "client_uid_ok p u \<Longrightarrow> uid_calls False p n u = Some (map (\<lambda>i. (base36_next p ^^ Suc i) u) [0..<n])"
proof (induction n arbitrary: u)
  case (Suc n)
  have "map (\<lambda>i. (base36_next p ^^ Suc i) u) [0..<Suc n] = base36_next p u # map (\<lambda>i. (base36_next p ^^ Suc i) (base36_next p u)) [0..<n]"
    by (simp add: map_upt_Suc funpow_swap1 del: upt_Suc)
  then show ?case using Suc.IH [OF client_uids.ok_next [OF Suc.prems]] client_get [OF Suc.prems] by simp
qed simp

lemma client_init: "length p < 9 \<Longrightarrow> client_uid_ok p (snd (base36_uid_init False p))"
  using wheels_A [of "9 - length p"] by (auto simp: client_uid_ok_def uid_ok_def base36_uid_init_def uid_length_def)



text \<open>
  A P10 identifier is five characters, but when the last one has been used the refill writes up to the ninth
  byte: the next UID has nine characters.
\<close>

lemma replicate_A: "replicate 7 (CHR ''A'') = ''AAAAAAA''"
  by code_simp

lemma p10_wrap: "base36_uid_get True ''AB'' ''ABZ99'' = Some ''ABAAAAAAA''"
proof -
  have four: "Suc (Suc (Suc (Suc 0))) = 4" by simp
  show ?thesis
    using add_one_odometer [of "CHR ''9''" "''9Z''" "''AB''" 0]
    wheels_period_pow [of 2]
  by (simp add: base36_uid_get_def uid_length_def uid_digit_def uid_letter_def replicate_A four)
qed

section \<open>The entities\<close>

text \<open>
  Entities come from the database with the ids they had, or are new; a name is registered only when it is free,
  which is what the callers of \<open>myentity_put\<close> check; when an entity is gone its reference is.  The last id of
  the database is not before any id in it, and the counter is not yet exhausted.
\<close>

inductive entity_reach :: "int \<Rightarrow> cstr \<Rightarrow> entity_db \<Rightarrow> bool" for mapping :: int and p :: cstr where
  start: "entity_uid_ok p (myentity_set_last_uid l) \<Longrightarrow>
    entity_reach mapping p \<lparr>eb_ents = Map.empty, eb_names = Map.empty, eb_ids = Map.empty, eb_last = myentity_set_last_uid l\<rparr>"
| loaded: "entity_reach mapping p db \<Longrightarrow> eb_ents db e = None \<Longrightarrow> eb_names db (irccasecanon mapping name) = None \<Longrightarrow>
    entity_uid_ok p i \<Longrightarrow> uid_number p i \<le> uid_number p (eb_last db) \<Longrightarrow> eb_ids db i = None \<Longrightarrow>
    entity_reach mapping p (myentity_put mapping e (db\<lparr>eb_ents := (eb_ents db)(e := Some \<lparr>ue_name = name, ue_id = i\<rparr>)\<rparr>))"
| created: "entity_reach mapping p db \<Longrightarrow> eb_ents db e = None \<Longrightarrow> eb_names db (irccasecanon mapping name) = None \<Longrightarrow>
    Suc (uid_number p (eb_last db)) < wheels_period 6 \<Longrightarrow>
    entity_reach mapping p (myentity_put mapping e (db\<lparr>eb_ents := (eb_ents db)(e := Some \<lparr>ue_name = name, ue_id = []\<rparr>)\<rparr>))"
| deleted: "entity_reach mapping p db \<Longrightarrow>
    entity_reach mapping p (myentity_del mapping e db\<lparr>eb_ents := (eb_ents db)(e := None)\<rparr>)"

definition entities_found :: "int \<Rightarrow> entity_db \<Rightarrow> bool" where
  "entities_found mapping db \<longleftrightarrow>
     (\<forall>e k. eb_names db k = Some e \<longleftrightarrow> (\<exists>X. eb_ents db e = Some X \<and> k = irccasecanon mapping (ue_name X))) \<and>
     (\<forall>e i. eb_ids db i = Some e \<longleftrightarrow> (\<exists>X. eb_ents db e = Some X \<and> i = ue_id X))"

definition ids_counted :: "cstr \<Rightarrow> entity_db \<Rightarrow> bool" where
  "ids_counted p db \<longleftrightarrow> entity_uid_ok p (eb_last db) \<and>
     (\<forall>e X. eb_ents db e = Some X \<longrightarrow> entity_uid_ok p (ue_id X) \<and> uid_number p (ue_id X) \<le> uid_number p (eb_last db))"

lemma entity_uid_length: "entity_uid_ok p u \<Longrightarrow> length u = 9 \<and> u \<noteq> []"
  by (auto simp: entity_uid_ok_def uid_ok_def)

text \<open>A dictionary by a key of its objects, when one is added and when one is removed.\<close>

lemma dict_put:
  assumes d: "\<And>f k. d k = Some f \<longleftrightarrow> (\<exists>X. es f = Some X \<and> k = key X)" and e: "es e = None" "d (key Y) = None"
  shows "dict_add d (key Y) e k = Some f \<longleftrightarrow> (\<exists>X. (es(e := Some Y)) f = Some X \<and> k = key X)"
proof -
  have a: "dict_add d (key Y) e = d(key Y := Some e)" using e(2) by (simp add: dict_add_def)
  have n: "d k \<noteq> Some e" using d [of k e] e(1) by simp
  have "\<not> (\<exists>X. es f = Some X \<and> key Y = key X)" using d [of "key Y" f] e(2) by simp
  then show ?thesis unfolding a using n d [of k f] by (cases "f = e"; cases "k = key Y") simp_all
qed

lemma dict_remove:
  assumes d: "\<And>f k. d k = Some f \<longleftrightarrow> (\<exists>X. es f = Some X \<and> k = key X)" and e: "es e = Some Y"
  shows "(d(key Y := None)) k = Some f \<longleftrightarrow> (\<exists>X. (es(e := None)) f = Some X \<and> k = key X)"
proof -
  have y: "d (key Y) = Some e" using d [of "key Y" e] e by simp
  have n: "d k \<noteq> Some e" if "k \<noteq> key Y" using d [of k e] e that by simp
  have "\<not> (\<exists>X. es f = Some X \<and> key Y = key X)" if "f \<noteq> e" using d [of "key Y" f] y that by simp
  then show ?thesis using n d [of k f] by (cases "f = e"; cases "k = key Y") simp_all
qed

lemma put_found:
  assumes "entities_found mapping db" "eb_ents db e = None" "eb_names db (irccasecanon mapping name) = None" "eb_ids db i = None"
  shows "entities_found mapping (db\<lparr>eb_last := l, eb_ents := (eb_ents db)(e := Some \<lparr>ue_name = name, ue_id = i\<rparr>),
    eb_names := dict_add (eb_names db) (irccasecanon mapping name) e, eb_ids := dict_add (eb_ids db) i e\<rparr>)"
proof -
  let ?Y = "\<lparr>ue_name = name, ue_id = i\<rparr>"
  have d: "eb_names db k = Some f \<longleftrightarrow> (\<exists>X. eb_ents db f = Some X \<and> k = irccasecanon mapping (ue_name X))"
    "eb_ids db k = Some f \<longleftrightarrow> (\<exists>X. eb_ents db f = Some X \<and> k = ue_id X)" for f k
    using assms(1) unfolding entities_found_def by blast+
  have "dict_add (eb_names db) (irccasecanon mapping name) e k = Some f \<longleftrightarrow>
      (\<exists>X. ((eb_ents db)(e := Some ?Y)) f = Some X \<and> k = irccasecanon mapping (ue_name X))" for f k
    using dict_put [of "eb_names db" "eb_ents db" "\<lambda>X. irccasecanon mapping (ue_name X)" e ?Y k f, OF d(1) assms(2)] assms(3) by simp
  moreover have "dict_add (eb_ids db) i e k = Some f \<longleftrightarrow> (\<exists>X. ((eb_ents db)(e := Some ?Y)) f = Some X \<and> k = ue_id X)" for f k
    using dict_put [of "eb_ids db" "eb_ents db" ue_id e ?Y k f, OF d(2) assms(2)] assms(4) by simp
  ultimately show ?thesis unfolding entities_found_def by simp
qed

lemma del_found:
  assumes "entities_found mapping db" "eb_ents db e = Some Y"
  shows "entities_found mapping (myentity_del mapping e db\<lparr>eb_ents := (eb_ents db)(e := None)\<rparr>)"
proof -
  have d: "eb_names db k = Some f \<longleftrightarrow> (\<exists>X. eb_ents db f = Some X \<and> k = irccasecanon mapping (ue_name X))"
    "eb_ids db k = Some f \<longleftrightarrow> (\<exists>X. eb_ents db f = Some X \<and> k = ue_id X)" for f k
    using assms(1) unfolding entities_found_def by blast+
  note r = dict_remove [of "eb_names db" "eb_ents db" "\<lambda>X. irccasecanon mapping (ue_name X)" e Y, OF d(1) assms(2)]
    dict_remove [of "eb_ids db" "eb_ents db" ue_id e Y, OF d(2) assms(2)]
  show ?thesis using r unfolding entities_found_def myentity_del_def assms(2) by simp
qed

lemma put_eq:
  "myentity_put mapping e (db\<lparr>eb_ents := (eb_ents db)(e := Some \<lparr>ue_name = name, ue_id = i\<rparr>)\<rparr>) =
    (let l = (if i = [] then myentity_alloc_uid (eb_last db) else eb_last db); j = (if i = [] then strlcpy l IDLEN else i)
     in db\<lparr>eb_last := l, eb_ents := (eb_ents db)(e := Some \<lparr>ue_name = name, ue_id = j\<rparr>),
       eb_names := dict_add (eb_names db) (irccasecanon mapping name) e, eb_ids := dict_add (eb_ids db) j e\<rparr>)"
  by (simp add: myentity_put_def Let_def)

lemma entity_reach_ok: "entity_reach mapping p db \<Longrightarrow> entities_found mapping db \<and> ids_counted p db"
proof (induction rule: entity_reach.induct)
  case (start l)
  then show ?case by (simp add: entities_found_def ids_counted_def)
next
  case (loaded db e name i)
  have n: "i \<noteq> []" using entity_uid_length loaded by blast
  show ?case
    unfolding put_eq using n loaded put_found [of mapping db e name i "eb_last db"] by (auto simp: ids_counted_def)
next
  case (created db e name)
  let ?l = "myentity_alloc_uid (eb_last db)"
  have o: "entity_uid_ok p (eb_last db)" using created by (simp add: ids_counted_def)
  have l: "entity_uid_ok p ?l" "uid_number p ?l = Suc (uid_number p (eb_last db))"
    using entity_uids.ok_next [OF o] entity_uids.next_greater [OF o] created by auto
  have c: "strlcpy ?l IDLEN = ?l" using entity_uid_length [OF l(1)] by (simp add: strlcpy_def IDLEN_def)
  have free: "eb_ids db ?l = None"
  proof (cases "eb_ids db ?l")
    case (Some x)
    then obtain X where "eb_ents db x = Some X" "?l = ue_id X" using created.IH by (auto simp: entities_found_def)
    then show ?thesis using created.IH l(2) unfolding ids_counted_def by fastforce
  qed
  have "ids_counted p (db\<lparr>eb_last := ?l, eb_ents := (eb_ents db)(e := Some \<lparr>ue_name = name, ue_id = ?l\<rparr>),
      eb_names := dict_add (eb_names db) (irccasecanon mapping name) e, eb_ids := dict_add (eb_ids db) ?l e\<rparr>)"
    using created.IH l by (simp add: ids_counted_def) (meson le_Suc_eq)
  moreover have "entities_found mapping (db\<lparr>eb_last := ?l, eb_ents := (eb_ents db)(e := Some \<lparr>ue_name = name, ue_id = ?l\<rparr>),
      eb_names := dict_add (eb_names db) (irccasecanon mapping name) e, eb_ids := dict_add (eb_ids db) ?l e\<rparr>)"
    by (rule put_found) (use created free in auto)
  ultimately show ?case unfolding put_eq Let_def if_P [OF refl] c by blast
next
  case (deleted db e)
  show ?case
  proof (cases "eb_ents db e")
    case None
    then have "(eb_ents db)(e := None) = eb_ents db" by auto
    then show ?thesis using deleted None by (simp add: myentity_del_def)
  next
    case (Some X)
    have "entities_found mapping (myentity_del mapping e db\<lparr>eb_ents := (eb_ents db)(e := None)\<rparr>)"
      using del_found [OF _ Some] deleted.IH by blast
    then show ?thesis using deleted Some by (simp add: ids_counted_def myentity_del_def)
  qed
qed


text \<open>A database that had got to \<open>AAAAAAAAB\<close>, and one account registered after it.\<close>

definition demo_entities :: entity_db where
  "demo_entities = myentity_put 1 7
     \<lparr>eb_ents = [7 \<mapsto> \<lparr>ue_name = ''Alice'', ue_id = []\<rparr>], eb_names = Map.empty, eb_ids = Map.empty, eb_last = ''AAAAAAAAB''\<rparr>"

lemma demo_period: "Suc (Suc 0) < wheels_period 6"
  using wheels_period_pow [of 5] by simp

lemma demo_succ: "char_succ (CHR ''B'') = CHR ''C''"
  by code_simp

lemma demo_entities_last: "entity_uid_ok ''AAA'' (myentity_set_last_uid ''AAAAAAAAB'')" "myentity_set_last_uid ''AAAAAAAAB'' = ''AAAAAAAAB''"
    "uid_number ''AAA'' ''AAAAAAAAB'' = 1" "myentity_alloc_uid ''AAAAAAAAB'' = ''AAAAAAAAC''"
  by (simp_all add: myentity_set_last_uid_def strlcpy_def IDLEN_def entity_uid_ok_def uid_ok_def uid_number_def
      uid_digit_def uid_letter_def digit_number_def myentity_alloc_uid_def alloc_loop.simps demo_succ)


end
