(* ===== verification/Privs.thy ===== *)
theory Privs
  imports Network
begin

text \<open>
  Services operators and their privileges: \<open>libathemecore/privs.c\<close>, the parts of \<open>account.c\<close> and
  \<open>node.c\<close> that keep the operators of accounts, the check of \<open>command_exec\<close> (\<open>commandtree.c\<close>), the
  verification of passwords (\<open>crypto.c\<close>) and the commands of \<open>modules/operserv/soper.c\<close> and \<open>identify.c\<close>.

  Operclasses, operators, accounts and clients live in stores indexed by references, so that a pointer from an
  account to its operator and the pointer back are explicit.
\<close>

section \<open>Data\<close>

record operclass =
  oc_name :: cstr
  oc_privs :: cstr
  oc_flags :: u32

record soper =
  sp_myuser :: "nat option"
  sp_name :: "cstr option"
  sp_operclass :: "nat option"
  sp_classname :: cstr
  sp_flags :: u32
  sp_password :: "cstr option"

text \<open>The part of an account and of a client that privileges depend on.\<close>

record priv_account =
  pa_name :: cstr
  pa_soper :: "nat option"

record priv_user =
  pu_flags :: u64
  pu_myuser :: "nat option"

text \<open>\<open>operclasslist\<close> and \<open>soperlist\<close>, the names of accounts, the three built-in classes and the counters.\<close>

record privs =
  pv_classes :: "nat \<Rightarrow> operclass option"
  pv_classlist :: "nat list"
  pv_sopers :: "nat \<Rightarrow> soper option"
  pv_soperlist :: "nat list"
  pv_accounts :: "nat \<Rightarrow> priv_account option"
  pv_names :: "cstr \<Rightarrow> nat option"
  pv_users :: "nat \<Rightarrow> priv_user option"
  pv_user_r :: "nat option"
  pv_authenticated_r :: "nat option"
  pv_ircop_r :: "nat option"
  pv_fresh :: nat
  pv_cnt_operclass :: u32
  pv_cnt_soper :: u32

text \<open>The case mapping of the network.\<close>

type_synonym mapping_mode = int

definition OPERCLASS_NEEDOPER :: u32 where "OPERCLASS_NEEDOPER = 0x1"
definition OPERCLASS_BUILTIN :: u32 where "OPERCLASS_BUILTIN = 0x2"
definition SOPER_CONF :: u32 where "SOPER_CONF = 0x1"
definition UF_SOPER_PASS :: u64 where "UF_SOPER_PASS = 0x400"
definition AC_AUTHENTICATED :: cstr where "AC_AUTHENTICATED = ''special:authenticated''"
definition PRIV_GRANT :: cstr where "PRIV_GRANT = ''operserv:grant''"
definition PASSLEN :: nat where "PASSLEN = 289"

definition upd_soper :: "nat \<Rightarrow> (soper \<Rightarrow> soper) \<Rightarrow> privs \<Rightarrow> privs" where
  "upd_soper s f st = st\<lparr>pv_sopers := (pv_sopers st)(s := map_option f (pv_sopers st s))\<rparr>"

definition upd_account :: "nat \<Rightarrow> (priv_account \<Rightarrow> priv_account) \<Rightarrow> privs \<Rightarrow> privs" where
  "upd_account a f st = st\<lparr>pv_accounts := (pv_accounts st)(a := map_option f (pv_accounts st a))\<rparr>"

section \<open>Operclasses\<close>

definition operclass_find :: "privs \<Rightarrow> cstr \<Rightarrow> nat option" where
  "operclass_find st name =
     find (\<lambda>o'. case pv_classes st o' of None \<Rightarrow> False | Some C \<Rightarrow> strcaseeq (oc_name C) name) (pv_classlist st)"

definition operclass_add :: "cstr \<Rightarrow> cstr \<Rightarrow> u32 \<Rightarrow> privs \<Rightarrow> nat \<times> privs" where
  "operclass_add name privs flags st =
     (case operclass_find st name of
        Some o' \<Rightarrow>
          (o', st\<lparr>pv_classes := (pv_classes st)(o' := map_option (\<lambda>C. C\<lparr>oc_privs := privs,
                    oc_flags := flags OR (if oc_flags C AND OPERCLASS_BUILTIN \<noteq> 0 then OPERCLASS_BUILTIN else 0)\<rparr>) (pv_classes st o'))\<rparr>)
      | None \<Rightarrow>
          let o' = pv_fresh st
          in (o', st\<lparr>pv_fresh := Suc o',
                   pv_classes := (pv_classes st)(o' := Some \<lparr>oc_name = name, oc_privs = privs, oc_flags = flags\<rparr>),
                   pv_classlist := pv_classlist st @ [o'],
                   pv_cnt_operclass := pv_cnt_operclass st + 1,
                   pv_sopers := (\<lambda>s. map_option (\<lambda>S. if sp_operclass S = None \<and> strcaseeq name (sp_classname S)
                                                      then S\<lparr>sp_operclass := Some o'\<rparr> else S) (pv_sopers st s))\<rparr>))"

definition operclass_delete :: "nat \<Rightarrow> privs \<Rightarrow> privs" where
  "operclass_delete o' st =
     (case pv_classes st o' of
        None \<Rightarrow> st
      | Some C \<Rightarrow>
          if oc_flags C AND OPERCLASS_BUILTIN \<noteq> 0 then st
          else st\<lparr>pv_classlist := remove1 o' (pv_classlist st),
                  pv_sopers := (\<lambda>s. map_option (\<lambda>S. if sp_operclass S = Some o' then S\<lparr>sp_operclass := None\<rparr> else S) (pv_sopers st s)),
                  pv_classes := (pv_classes st)(o' := None),
                  pv_cnt_operclass := pv_cnt_operclass st - 1\<rparr>)"

definition init_privs :: "privs \<Rightarrow> privs" where
  "init_privs st =
     (let (u, st1) = operclass_add ''user'' '''' OPERCLASS_BUILTIN st;
          (a, st2) = operclass_add ''authenticated'' AC_AUTHENTICATED OPERCLASS_BUILTIN st1;
          (i, st3) = operclass_add ''ircop'' '''' OPERCLASS_BUILTIN st2
      in st3\<lparr>pv_user_r := Some u, pv_authenticated_r := Some a, pv_ircop_r := Some i\<rparr>)"

section \<open>Operators\<close>

definition myuser_find_name :: "mapping_mode \<Rightarrow> privs \<Rightarrow> cstr \<Rightarrow> nat option" where
  "myuser_find_name m st name = pv_names st (irccasecanon m name)"

definition soper_find :: "privs \<Rightarrow> nat \<Rightarrow> nat option" where
  "soper_find st mu = find (\<lambda>s. case pv_sopers st s of None \<Rightarrow> False | Some S \<Rightarrow> sp_myuser S = Some mu) (pv_soperlist st)"

definition soper_find_named :: "mapping_mode \<Rightarrow> privs \<Rightarrow> cstr \<Rightarrow> nat option" where
  "soper_find_named m st name =
     find (\<lambda>s. case pv_sopers st s of None \<Rightarrow> False
               | Some S \<Rightarrow> sp_name S \<noteq> None \<and> irccasecmp m (sp_name S) (Some name) = 0) (pv_soperlist st)"

definition soper_delete :: "nat \<Rightarrow> privs \<Rightarrow> privs" where
  "soper_delete s st =
     (case pv_sopers st s of
        None \<Rightarrow> st
      | Some S \<Rightarrow>
          let st1 = (case sp_myuser S of None \<Rightarrow> st | Some a \<Rightarrow> upd_account a (\<lambda>A. A\<lparr>pa_soper := None\<rparr>) st)
          in st1\<lparr>pv_soperlist := remove1 s (pv_soperlist st1), pv_sopers := (pv_sopers st1)(s := None),
                 pv_cnt_soper := pv_cnt_soper st1 - 1\<rparr>)"

definition soper_new :: "nat option \<Rightarrow> cstr \<Rightarrow> cstr \<Rightarrow> u32 \<Rightarrow> cstr option \<Rightarrow> privs \<Rightarrow> nat \<times> privs" where
  "soper_new mu name classname flags password st =
     (let s = pv_fresh st;
          S = \<lparr>sp_myuser = mu, sp_name = (if mu = None then Some name else None), sp_operclass = operclass_find st classname,
               sp_classname = classname, sp_flags = flags, sp_password = password\<rparr>;
          st1 = (case mu of None \<Rightarrow> st | Some a \<Rightarrow> upd_account a (\<lambda>A. A\<lparr>pa_soper := Some s\<rparr>) st)
      in (s, st1\<lparr>pv_fresh := Suc s, pv_sopers := (pv_sopers st1)(s := Some S), pv_soperlist := pv_soperlist st1 @ [s],
                 pv_cnt_soper := pv_cnt_soper st1 + 1\<rparr>))"

text \<open>
  \<open>soper_add\<close>: an operator of the configuration replaces one of the database, otherwise the one that is there stays.
\<close>

definition soper_add :: "mapping_mode \<Rightarrow> cstr \<Rightarrow> cstr \<Rightarrow> u32 \<Rightarrow> cstr option \<Rightarrow> privs \<Rightarrow> nat option \<times> privs" where
  "soper_add m name classname flags password st =
     (let mu = myuser_find_name m st name;
          old = (case mu of Some a \<Rightarrow> soper_find st a | None \<Rightarrow> soper_find_named m st name)
      in case Option.bind old (pv_sopers st) of
           Some S \<Rightarrow>
             if flags AND SOPER_CONF \<noteq> 0 \<and> sp_flags S AND SOPER_CONF = 0
             then (let (s, st1) = soper_new mu name classname flags password (soper_delete (the old) st) in (Some s, st1))
             else (None, st)
         | None \<Rightarrow> let (s, st1) = soper_new mu name classname flags password st in (Some s, st1))"

definition account_soper :: "privs \<Rightarrow> nat \<Rightarrow> soper option" where
  "account_soper st mu = Option.bind (Option.bind (pv_accounts st mu) pa_soper) (pv_sopers st)"

definition is_soper :: "privs \<Rightarrow> nat option \<Rightarrow> bool" where
  "is_soper st mu = (case Option.bind mu (pv_accounts st) of None \<Rightarrow> False | Some A \<Rightarrow> pa_soper A \<noteq> None)"

definition is_conf_soper :: "privs \<Rightarrow> nat option \<Rightarrow> bool" where
  "is_conf_soper st mu =
     (case Option.bind mu (account_soper st) of None \<Rightarrow> False | Some S \<Rightarrow> sp_flags S AND SOPER_CONF \<noteq> 0)"

section \<open>Privileges\<close>

text \<open>\<open>string_in_list\<close>: the loop over a list of names with spaces between them.\<close>

lemma length_dropWhile_drop [termination_simp]:
  "strchr s (CHR '' '') = Some i \<Longrightarrow> length (dropWhile (\<lambda>c. c = CHR '' '') (drop i s)) < length s"
proof -
  assume "strchr s (CHR '' '') = Some i"
  then have i: "i < length s" "s ! i = CHR '' ''" using strchr_SomeD [of s "CHR '' ''" i] by auto
  then have "drop i s = CHR '' '' # drop (Suc i) s" by (simp add: Cons_nth_drop_Suc [symmetric])
  then have "dropWhile (\<lambda>c. c = CHR '' '') (drop i s) = dropWhile (\<lambda>c. c = CHR '' '') (drop (Suc i) s)" by simp
  moreover have "length (dropWhile (\<lambda>c. c = CHR '' '') (drop (Suc i) s)) \<le> length (drop (Suc i) s)" by (rule length_dropWhile_le)
  ultimately show ?thesis using i(1) by simp
qed

fun string_in_list :: "cstr \<Rightarrow> cstr \<Rightarrow> bool" where
  "string_in_list str name =
     (if str = [] then False
      else case strchr str (CHR '' '') of
             Some i \<Rightarrow>
               if i = length name \<and> strncaseeq str name i then True
               else string_in_list (dropWhile (\<lambda>c. c = CHR '' '') (drop i str)) name
           | None \<Rightarrow> strcaseeq str name)"

declare string_in_list.simps [simp del]

definition has_priv_operclass :: "privs \<Rightarrow> nat option \<Rightarrow> cstr \<Rightarrow> bool" where
  "has_priv_operclass st o' priv =
     (case Option.bind o' (pv_classes st) of None \<Rightarrow> False | Some C \<Rightarrow> string_in_list (oc_privs C) priv)"

definition pu_ircop :: "priv_user \<Rightarrow> bool" where
  "pu_ircop U \<longleftrightarrow> pu_flags U AND UF_IRCOP \<noteq> 0"

text \<open>\<open>sourceinfo_t\<close>: the client and the account a command comes from.\<close>

record priv_source =
  ps_su :: "nat option"
  ps_smu :: "nat option"

definition has_any_privs :: "privs \<Rightarrow> priv_source \<Rightarrow> bool" where
  "has_any_privs st si \<longleftrightarrow>
     (case Option.bind (ps_su si) (pv_users st) of None \<Rightarrow> False | Some U \<Rightarrow> pu_ircop U) \<or> is_soper st (ps_smu si)"

definition has_any_privs_user :: "privs \<Rightarrow> nat option \<Rightarrow> bool" where
  "has_any_privs_user st u =
     (case Option.bind u (pv_users st) of None \<Rightarrow> False | Some U \<Rightarrow> pu_ircop U \<or> is_soper st (pu_myuser U))"

definition has_priv_user :: "privs \<Rightarrow> nat option \<Rightarrow> cstr option \<Rightarrow> bool" where
  "has_priv_user st u priv =
     (case priv of
        None \<Rightarrow> True
      | Some p \<Rightarrow>
          (case Option.bind u (pv_users st) of
             None \<Rightarrow> False
           | Some U \<Rightarrow>
               if has_priv_operclass st (pv_user_r st) p then True
               else if pu_ircop U \<and> has_priv_operclass st (pv_ircop_r st) p then True
               else if pu_myuser U \<noteq> None \<and> has_priv_operclass st (pv_authenticated_r st) p then True
               else (case Option.bind (pu_myuser U) (account_soper st) of
                       None \<Rightarrow> False
                     | Some S \<Rightarrow>
                         (case Option.bind (sp_operclass S) (pv_classes st) of
                            None \<Rightarrow> False
                          | Some C \<Rightarrow>
                              if oc_flags C AND OPERCLASS_NEEDOPER \<noteq> 0 \<and> \<not> pu_ircop U then False
                              else if sp_password S \<noteq> None \<and> pu_flags U AND UF_SOPER_PASS = 0 then False
                              else has_priv_operclass st (sp_operclass S) p))))"

definition has_priv_myuser :: "privs \<Rightarrow> nat option \<Rightarrow> cstr option \<Rightarrow> bool" where
  "has_priv_myuser st mu priv =
     (case priv of
        None \<Rightarrow> True
      | Some p \<Rightarrow>
          (case mu of
             None \<Rightarrow> False
           | Some a \<Rightarrow>
               if has_priv_operclass st (pv_authenticated_r st) p then True
               else (case account_soper st a of
                       None \<Rightarrow> False
                     | Some S \<Rightarrow> has_priv_operclass st (sp_operclass S) p)))"

definition has_priv :: "privs \<Rightarrow> priv_source \<Rightarrow> cstr option \<Rightarrow> bool" where
  "has_priv st si priv = (if ps_su si \<noteq> None then has_priv_user st (ps_su si) priv else has_priv_myuser st (ps_smu si) priv)"

text \<open>The words \<open>strtok\<close> finds between spaces.\<close>

lemma length_dropWhile_word [termination_simp]:
  "length (dropWhile P (dropWhile Q s)) < length s" if "dropWhile Q s = c # r" "P c" for P Q s c r
proof -
  have "length (dropWhile P (dropWhile Q s)) \<le> length r" using that length_dropWhile_le [of P r] by simp
  also have "\<dots> < length (dropWhile Q s)" using that by simp
  also have "\<dots> \<le> length s" by (rule length_dropWhile_le)
  finally show ?thesis .
qed

function strtok_words :: "cstr \<Rightarrow> cstr list" where
  "strtok_words s =
     (let r = dropWhile (\<lambda>c. c = CHR '' '') s
      in if r = [] then [] else takeWhile (\<lambda>c. c \<noteq> CHR '' '') r # strtok_words (dropWhile (\<lambda>c. c \<noteq> CHR '' '') r))"
  by pat_completeness auto

lemma word_shorter:
  assumes "dropWhile (\<lambda>c. c = CHR '' '') s \<noteq> []"
  shows "length (dropWhile (\<lambda>c. c \<noteq> CHR '' '') (dropWhile (\<lambda>c. c = CHR '' '') s)) < length s"
proof -
  obtain c r where c: "dropWhile (\<lambda>c. c = CHR '' '') s = c # r" using assms by (cases "dropWhile (\<lambda>c. c = CHR '' '') s") auto
  then have "c \<noteq> CHR '' ''" using hd_dropWhile [OF assms] by simp
  then show ?thesis using length_dropWhile_word [OF c, of "\<lambda>c. c \<noteq> CHR '' ''"] by blast
qed

termination strtok_words
  by (relation "measure length") (simp_all only: in_measure wf_measure word_shorter not_False_eq_True)

declare strtok_words.simps [simp del]

definition has_all_operclass :: "privs \<Rightarrow> priv_source \<Rightarrow> operclass \<Rightarrow> bool" where
  "has_all_operclass st si C \<longleftrightarrow> (\<forall>p \<in> set (strtok_words (oc_privs C)). has_priv st si (Some p))"

definition get_sourceinfo_soper :: "privs \<Rightarrow> priv_source \<Rightarrow> nat option" where
  "get_sourceinfo_soper st si = (if is_soper st (ps_smu si) then Option.bind (Option.bind (ps_smu si) (pv_accounts st)) pa_soper else None)"

definition get_sourceinfo_operclass :: "privs \<Rightarrow> priv_source \<Rightarrow> nat option" where
  "get_sourceinfo_operclass st si =
     (case get_sourceinfo_soper st si of
        Some s \<Rightarrow> Option.bind (pv_sopers st s) sp_operclass
      | None \<Rightarrow>
          (case (if (case Option.bind (ps_su si) (pv_users st) of None \<Rightarrow> False | Some U \<Rightarrow> pu_ircop U)
                 then operclass_find st ''ircop'' else None) of
             Some o' \<Rightarrow> Some o'
           | None \<Rightarrow> operclass_find st ''user''))"

section \<open>Accounts and rehashing\<close>

text \<open>
  What \<open>myuser_add_id\<close>, \<open>myuser_rename\<close> and \<open>myuser_delete\<close> do to operators and to the names of accounts.  A new
  account activates the operator of its name.
\<close>

definition priv_myuser_add :: "mapping_mode \<Rightarrow> cstr \<Rightarrow> privs \<Rightarrow> nat option \<times> privs" where
  "priv_myuser_add m name st =
     (case myuser_find_name m st name of
        Some a \<Rightarrow> (Some a, st)
      | None \<Rightarrow>
          let a = pv_fresh st; s = soper_find_named m st name;
              st1 = st\<lparr>pv_fresh := Suc a, pv_names := (pv_names st)(irccasecanon m name := Some a),
                       pv_accounts := (pv_accounts st)(a := Some \<lparr>pa_name = name, pa_soper = s\<rparr>)\<rparr>
          in (Some a, case s of None \<Rightarrow> st1 | Some s \<Rightarrow> upd_soper s (\<lambda>S. S\<lparr>sp_myuser := Some a\<rparr>) st1))"

definition priv_myuser_rename :: "mapping_mode \<Rightarrow> nat \<Rightarrow> cstr \<Rightarrow> privs \<Rightarrow> privs" where
  "priv_myuser_rename m a name st =
     (case pv_accounts st a of
        None \<Rightarrow> st
      | Some A \<Rightarrow>
          upd_account a (\<lambda>A. A\<lparr>pa_name := name\<rparr>)
            (st\<lparr>pv_names := dict_add ((pv_names st)(irccasecanon m (pa_name A) := None)) (irccasecanon m name) a\<rparr>))"

definition priv_myuser_delete :: "mapping_mode \<Rightarrow> nat \<Rightarrow> privs \<Rightarrow> privs" where
  "priv_myuser_delete m a st =
     (case pv_accounts st a of
        None \<Rightarrow> st
      | Some A \<Rightarrow>
          let st1 = (case (soper_find st a, pa_soper A) of (Some _, Some s) \<Rightarrow> soper_delete s st | _ \<Rightarrow> st)
          in st1\<lparr>pv_names := (pv_names st1)(irccasecanon m (pa_name A) := None), pv_accounts := (pv_accounts st1)(a := None),
                 pv_users := (\<lambda>u. map_option (\<lambda>U. if pu_myuser U = Some a then U\<lparr>pu_myuser := None\<rparr> else U) (pv_users st1 u))\<rparr>)"

text \<open>\<open>mark_all_illegal\<close>, before a rehash: the operators of the configuration and all classes but the built-in ones go.\<close>

definition delete_conf_soper :: "nat \<Rightarrow> privs \<Rightarrow> privs" where
  "delete_conf_soper s st =
     (case pv_sopers st s of None \<Rightarrow> st | Some S \<Rightarrow> if sp_flags S AND SOPER_CONF \<noteq> 0 then soper_delete s st else st)"

definition mark_all_illegal :: "privs \<Rightarrow> privs" where
  "mark_all_illegal st =
     (let st1 = fold delete_conf_soper (pv_soperlist st) st in fold operclass_delete (pv_classlist st1) st1)"

section \<open>Passwords\<close>

text \<open>
  \<open>crypt_verify_password\<close>: each provider's \<open>crypt\<close> with the stored password as salt, and in the end the fallback,
  which leaves the string as it is.
\<close>

definition crypt_verify_password :: "(cstr \<Rightarrow> cstr \<Rightarrow> cstr option) list \<Rightarrow> cstr \<Rightarrow> cstr \<Rightarrow> bool" where
  "crypt_verify_password providers uinput pass \<longleftrightarrow>
     (\<exists>c \<in> set providers. c uinput pass = Some pass) \<or> uinput = pass"

definition verify_operserv_password :: "(cstr \<Rightarrow> cstr \<Rightarrow> cstr option) list \<Rightarrow> soper option \<Rightarrow> cstr option \<Rightarrow> bool" where
  "verify_operserv_password providers so password =
     (case (so, password) of
        (Some S, Some p) \<Rightarrow> (case sp_password S of None \<Rightarrow> False | Some q \<Rightarrow> crypt_verify_password providers p q)
      | _ \<Rightarrow> False)"

section \<open>Commands\<close>

text \<open>
  The surroundings of a command: the case mapping, \<open>myuser_find_ext\<close> (accounts by name, nick, client or uid), the
  password providers, \<open>crypt_string\<close> with the salt it is given, whether OperServ has the command \<open>IDENTIFY\<close>,
  \<open>service_set_access\<close> and the module's check in place of \<open>default_command_authorize\<close>.
\<close>

record priv_env =
  pe_mapping :: mapping_mode
  pe_find_ext :: "privs \<Rightarrow> cstr \<Rightarrow> nat option"
  pe_providers :: "(cstr \<Rightarrow> cstr \<Rightarrow> cstr option) list"
  pe_crypt_loaded :: bool
  pe_crypt :: "cstr \<Rightarrow> cstr"
  pe_identify_loaded :: bool
  pe_permissive :: bool
  pe_set_access :: "cstr option \<Rightarrow> cstr option"

datatype priv_fault = Need_more_params | No_such_target | No_privs | No_change | Auth_fail

type_synonym priv_result = "priv_fault + unit"

definition default_command_authorize :: "privs \<Rightarrow> priv_source \<Rightarrow> cstr option \<Rightarrow> cstr option \<Rightarrow> bool" where
  "default_command_authorize st si access userlevel \<longleftrightarrow> has_priv st si access \<and> has_priv st si userlevel"

definition command_verify :: "priv_env \<Rightarrow> privs \<Rightarrow> priv_source \<Rightarrow> cstr option \<Rightarrow> cstr option \<Rightarrow> bool" where
  "command_verify E st si access userlevel =
     (if default_command_authorize st si access userlevel then True
      else if pe_permissive E then default_command_authorize st si access userlevel else False)"

definition command_exec :: "priv_env \<Rightarrow> priv_source \<Rightarrow> cstr option \<Rightarrow> (privs \<Rightarrow> priv_result \<times> privs) \<Rightarrow> privs \<Rightarrow> priv_result \<times> privs" where
  "command_exec E si access cmd st =
     (if ps_smu si = None \<and> access \<noteq> None \<and> strcaseeq (the access) AC_AUTHENTICATED then (Inl No_privs, st)
      else if command_verify E st si access (pe_set_access E access) then cmd st
      else (Inl No_privs, st))"

definition os_cmd_soper_add :: "priv_env \<Rightarrow> priv_source \<Rightarrow> cstr list \<Rightarrow> privs \<Rightarrow> priv_result \<times> privs" where
  "os_cmd_soper_add E si parv st =
     (if length parv < 2 then (Inl Need_more_params, st)
      else case pe_find_ext E st (parv ! 0) of
        None \<Rightarrow> (Inl No_such_target, st)
      | Some mu \<Rightarrow>
          if is_conf_soper st (Some mu) then (Inl No_privs, st)
          else (case operclass_find st (parv ! 1) of
            None \<Rightarrow> (Inl No_such_target, st)
          | Some o' \<Rightarrow>
              (case (pv_accounts st mu, pv_classes st o') of
                 (Some A, Some C) \<Rightarrow>
                   let old = account_soper st mu
                   in if old \<noteq> None \<and> sp_operclass (the old) = Some o' then (Inl No_change, st)
                      else if \<not> has_all_operclass st si C then (Inl No_privs, st)
                      else if (case Option.bind (Option.bind old sp_operclass) (pv_classes st) of
                                 None \<Rightarrow> False | Some D \<Rightarrow> \<not> has_all_operclass st si D) then (Inl No_privs, st)
                      else
                        let st1 = (case pa_soper A of None \<Rightarrow> st | Some s \<Rightarrow> soper_delete s st);
                            pw = (if length parv < 3 then None
                                  else Some (if pe_crypt_loaded E then strlcpy (pe_crypt E (parv ! 2)) PASSLEN else parv ! 2))
                        in (Inr (), snd (soper_add (pe_mapping E) (pa_name A) (oc_name C) 0 pw st1))
               | _ \<Rightarrow> (Inl No_such_target, st))))"

text \<open>The checks \<open>os_cmd_soper_del\<close> and \<open>os_cmd_soper_setpass\<close> share: the operator that may be changed.\<close>

definition soper_target :: "priv_env \<Rightarrow> priv_source \<Rightarrow> cstr list \<Rightarrow> privs \<Rightarrow> priv_fault + nat \<times> nat" where
  "soper_target E si parv st =
     (if length parv < 1 then Inl Need_more_params
      else case pe_find_ext E st (parv ! 0) of
        None \<Rightarrow> Inl No_such_target
      | Some mu \<Rightarrow>
          if is_conf_soper st (Some mu) then Inl No_privs
          else (case Option.bind (pv_accounts st mu) pa_soper of
            None \<Rightarrow> Inl No_change
          | Some s \<Rightarrow>
              if (case Option.bind (Option.bind (pv_sopers st s) sp_operclass) (pv_classes st) of
                    None \<Rightarrow> False | Some D \<Rightarrow> \<not> has_all_operclass st si D) then Inl No_privs
              else Inr (mu, s)))"

definition os_cmd_soper_del :: "priv_env \<Rightarrow> priv_source \<Rightarrow> cstr list \<Rightarrow> privs \<Rightarrow> priv_result \<times> privs" where
  "os_cmd_soper_del E si parv st =
     (case soper_target E si parv st of Inl f \<Rightarrow> (Inl f, st) | Inr (mu, s) \<Rightarrow> (Inr (), soper_delete s st))"

text \<open>Setting a password, but not clearing it, makes the clients of the account unidentified.\<close>

definition clear_soper_pass :: "nat \<Rightarrow> privs \<Rightarrow> privs" where
  "clear_soper_pass mu st = st\<lparr>pv_users := (\<lambda>u. map_option (\<lambda>U.
     if pu_myuser U = Some mu then U\<lparr>pu_flags := pu_flags U AND NOT UF_SOPER_PASS\<rparr> else U) (pv_users st u))\<rparr>"

definition os_cmd_soper_setpass :: "priv_env \<Rightarrow> priv_source \<Rightarrow> cstr list \<Rightarrow> privs \<Rightarrow> priv_result \<times> privs" where
  "os_cmd_soper_setpass E si parv st =
     (case soper_target E si parv st of
        Inl f \<Rightarrow> (Inl f, st)
      | Inr (mu, s) \<Rightarrow>
          if length parv \<ge> 2
          then (if Option.bind (pv_sopers st s) sp_password = None \<and> \<not> pe_identify_loaded E then (Inl No_privs, st)
                else (Inr (), clear_soper_pass mu (upd_soper s (\<lambda>S. S\<lparr>sp_password := Some (parv ! 1)\<rparr>) st)))
          else (Inr (), upd_soper s (\<lambda>S. S\<lparr>sp_password := None\<rparr>) st))"

datatype soper_command = Soper_add | Soper_del | Soper_setpass

definition os_cmd_soper :: "priv_env \<Rightarrow> priv_source \<Rightarrow> soper_command \<Rightarrow> cstr list \<Rightarrow> privs \<Rightarrow> priv_result \<times> privs" where
  "os_cmd_soper E si c parv st =
     (if \<not> has_any_privs st si then (Inl No_privs, st)
      else command_exec E si (Some PRIV_GRANT)
        (case c of Soper_add \<Rightarrow> os_cmd_soper_add E si parv | Soper_del \<Rightarrow> os_cmd_soper_del E si parv
         | Soper_setpass \<Rightarrow> os_cmd_soper_setpass E si parv) st)"

definition os_cmd_identify :: "priv_env \<Rightarrow> priv_source \<Rightarrow> cstr list \<Rightarrow> privs \<Rightarrow> priv_result \<times> privs" where
  "os_cmd_identify E si parv st =
     (case Option.bind (ps_su si) (pv_users st) of
        None \<Rightarrow> (Inl No_privs, st)
      | Some U \<Rightarrow>
          if length parv < 1 then (Inl Need_more_params, st)
          else (case Option.bind (ps_smu si) (account_soper st) of
                  None \<Rightarrow> (Inl No_privs, st)
                | Some S \<Rightarrow>
                    if sp_password S = None then (Inl No_change, st)
                    else if pu_flags U AND UF_SOPER_PASS \<noteq> 0 then (Inl No_change, st)
                    else if \<not> verify_operserv_password (pe_providers E) (Some S) (Some (parv ! 0)) then (Inl Auth_fail, st)
                    else (Inr (), st\<lparr>pv_users := (pv_users st)(the (ps_su si) := Some (U\<lparr>pu_flags := pu_flags U OR UF_SOPER_PASS\<rparr>))\<rparr>)))"

section \<open>The invariant\<close>

definition classes_ok :: "privs \<Rightarrow> bool" where
  "classes_ok st \<longleftrightarrow> distinct (pv_classlist st) \<and> set (pv_classlist st) = dom (pv_classes st) \<and>
     (\<forall>x y X Y. pv_classes st x = Some X \<longrightarrow> pv_classes st y = Some Y \<longrightarrow> strcaseeq (oc_name X) (oc_name Y) \<longrightarrow> x = y)"

definition sopers_ok :: "privs \<Rightarrow> bool" where
  "sopers_ok st \<longleftrightarrow> distinct (pv_soperlist st) \<and> set (pv_soperlist st) = dom (pv_sopers st)"

text \<open>The class of an operator is the class of that name, or none while there is none.\<close>

definition classnames_ok :: "privs \<Rightarrow> bool" where
  "classnames_ok st \<longleftrightarrow> (\<forall>s S. pv_sopers st s = Some S \<longrightarrow> sp_operclass S = operclass_find st (sp_classname S))"

text \<open>Accounts and operators point to each other.\<close>

definition links_ok :: "privs \<Rightarrow> bool" where
  "links_ok st \<longleftrightarrow> (\<forall>s a. (\<exists>S. pv_sopers st s = Some S \<and> sp_myuser S = Some a) \<longleftrightarrow>
     (\<exists>A. pv_accounts st a = Some A \<and> pa_soper A = Some s))"

definition accounts_ok :: "mapping_mode \<Rightarrow> privs \<Rightarrow> bool" where
  "accounts_ok m st \<longleftrightarrow> (\<forall>k a. pv_names st k = Some a \<longleftrightarrow> (\<exists>A. pv_accounts st a = Some A \<and> k = irccasecanon m (pa_name A))) \<and>
     (\<forall>a A. pv_accounts st a = Some A \<longrightarrow> no_nul (pa_name A))"

text \<open>Operators with a name come from the configuration; once active, they belong to the account of that name.\<close>

definition named_soper :: "mapping_mode \<Rightarrow> (nat \<Rightarrow> priv_account option) \<Rightarrow> soper \<Rightarrow> bool" where
  "named_soper m accs S \<longleftrightarrow>
     (case sp_name S of
        None \<Rightarrow> sp_myuser S \<noteq> None
      | Some n \<Rightarrow> no_nul n \<and> sp_flags S AND SOPER_CONF \<noteq> 0 \<and>
          (\<forall>a A. sp_myuser S = Some a \<longrightarrow> accs a = Some A \<longrightarrow> irccasecanon m (pa_name A) = irccasecanon m n))"

definition named_ok :: "mapping_mode \<Rightarrow> privs \<Rightarrow> bool" where
  "named_ok m st \<longleftrightarrow> (\<forall>s S. pv_sopers st s = Some S \<longrightarrow> named_soper m (pv_accounts st) S)"

lemma named_soper_cong:
  "sp_name S = sp_name T \<Longrightarrow> sp_myuser S = sp_myuser T \<Longrightarrow> sp_flags S = sp_flags T \<Longrightarrow> named_soper m accs S = named_soper m accs T"
  by (cases "sp_name T") (simp_all add: named_soper_def)

definition counters_ok :: "privs \<Rightarrow> bool" where
  "counters_ok st \<longleftrightarrow> pv_cnt_operclass st = of_nat (length (pv_classlist st)) \<and> pv_cnt_soper st = of_nat (length (pv_soperlist st))"

definition builtin_class :: "privs \<Rightarrow> nat option \<Rightarrow> cstr \<Rightarrow> bool" where
  "builtin_class st r name \<longleftrightarrow> (\<exists>x C. r = Some x \<and> pv_classes st x = Some C \<and> strcaseeq (oc_name C) name \<and> oc_flags C AND OPERCLASS_BUILTIN \<noteq> 0)"

definition builtins_ok :: "privs \<Rightarrow> bool" where
  "builtins_ok st \<longleftrightarrow> builtin_class st (pv_user_r st) ''user'' \<and> builtin_class st (pv_authenticated_r st) ''authenticated'' \<and>
     builtin_class st (pv_ircop_r st) ''ircop''"

definition refs_ok :: "privs \<Rightarrow> bool" where
  "refs_ok st \<longleftrightarrow> (\<forall>x \<ge> pv_fresh st. pv_classes st x = None \<and> pv_sopers st x = None \<and> pv_accounts st x = None)"

definition privs_but :: "mapping_mode \<Rightarrow> privs \<Rightarrow> bool" where
  "privs_but m st \<longleftrightarrow> classes_ok st \<and> sopers_ok st \<and> classnames_ok st \<and> links_ok st \<and> accounts_ok m st \<and> named_ok m st \<and>
     counters_ok st \<and> refs_ok st"

definition privs_ok :: "mapping_mode \<Rightarrow> privs \<Rightarrow> bool" where
  "privs_ok m st \<longleftrightarrow> privs_but m st \<and> builtins_ok st"

lemma privs_butI:
  "classes_ok st \<Longrightarrow> sopers_ok st \<Longrightarrow> classnames_ok st \<Longrightarrow> links_ok st \<Longrightarrow> accounts_ok m st \<Longrightarrow> named_ok m st \<Longrightarrow>
     counters_ok st \<Longrightarrow> refs_ok st \<Longrightarrow> privs_but m st"
  by (simp add: privs_but_def)

lemma privs_butD:
  assumes "privs_but m st"
  shows "classes_ok st" "sopers_ok st" "classnames_ok st" "links_ok st" "accounts_ok m st" "named_ok m st" "counters_ok st" "refs_ok st"
  using assms by (simp_all add: privs_but_def)

subsection \<open>Operclasses\<close>

lemma class_find_Some:
  assumes "classes_ok st"
  shows "operclass_find st name = Some x \<longleftrightarrow> (\<exists>C. pv_classes st x = Some C \<and> strcaseeq (oc_name C) name)"
proof
  assume "operclass_find st name = Some x"
  then show "\<exists>C. pv_classes st x = Some C \<and> strcaseeq (oc_name C) name"
    unfolding operclass_find_def by (auto dest!: find_SomeD split: option.splits)
next
  assume "\<exists>C. pv_classes st x = Some C \<and> strcaseeq (oc_name C) name"
  then obtain C where C: "pv_classes st x = Some C" "strcaseeq (oc_name C) name" by blast
  let ?P = "\<lambda>y. case pv_classes st y of None \<Rightarrow> False | Some C \<Rightarrow> strcaseeq (oc_name C) name"
  have "x \<in> set (pv_classlist st)" using assms C by (auto simp: classes_ok_def)
  then have "find ?P (pv_classlist st) \<noteq> None" using C by (auto simp: find_None_iff)
  then obtain y where y: "find ?P (pv_classlist st) = Some y" by blast
  then obtain D where "pv_classes st y = Some D" "strcaseeq (oc_name D) name"
    using find_SomeD [OF y] by (auto split: option.splits)
  moreover from this have "y = x" using assms C unfolding classes_ok_def by (meson strcaseeq_sym strcaseeq_trans)
  ultimately show "operclass_find st name = Some x" using y by (simp add: operclass_find_def)
qed

lemma class_find_cong: "pv_classes st' = pv_classes st \<Longrightarrow> pv_classlist st' = pv_classlist st \<Longrightarrow> operclass_find st' n = operclass_find st n"
  by (simp add: operclass_find_def)

lemma class_find_None:
  "classes_ok st \<Longrightarrow> operclass_find st name = None \<longleftrightarrow> (\<forall>x C. pv_classes st x = Some C \<longrightarrow> \<not> strcaseeq (oc_name C) name)"
proof -
  assume ok: "classes_ok st"
  have "operclass_find st name = None \<longleftrightarrow> (\<forall>x. operclass_find st name \<noteq> Some x)" by (cases "operclass_find st name") auto
  then show ?thesis unfolding class_find_Some [OF ok] by blast
qed

text \<open>Two stores whose classes have the same names find the same.\<close>

lemma class_find_same:
  assumes "classes_ok st" "classes_ok st'" "\<And>x. map_option oc_name (pv_classes st' x) = map_option oc_name (pv_classes st x)"
  shows "operclass_find st' n = operclass_find st n"
proof -
  have "operclass_find st' n = Some x \<longleftrightarrow> operclass_find st n = Some x" for x
    unfolding class_find_Some [OF assms(1)] class_find_Some [OF assms(2)] using assms(3) [of x]
    by (cases "pv_classes st x"; cases "pv_classes st' x") auto
  then show ?thesis by (metis option.exhaust)
qed

lemma builtin_mono:
  "builtin_class st r n \<Longrightarrow> (\<And>x C. pv_classes st x = Some C \<Longrightarrow> oc_flags C AND OPERCLASS_BUILTIN \<noteq> 0 \<Longrightarrow>
     \<exists>D. pv_classes st' x = Some D \<and> oc_name D = oc_name C \<and> oc_flags D AND OPERCLASS_BUILTIN \<noteq> 0) \<Longrightarrow> builtin_class st' r n"
  unfolding builtin_class_def by fastforce

lemma builtin_or: "(f OR OPERCLASS_BUILTIN) AND OPERCLASS_BUILTIN \<noteq> 0"
proof -
  have "(f OR b) AND b = b" for b :: u32 by (rule bit_word_eqI) (auto simp: bit_simps)
  then show ?thesis by (simp add: OPERCLASS_BUILTIN_def)
qed

lemma class_add_old:
  assumes ok: "privs_but m st" and f: "operclass_find st name = Some x"
  shows "privs_but m (snd (operclass_add name p f' st))" "builtins_ok st \<Longrightarrow> builtins_ok (snd (operclass_add name p f' st))"
proof -
  let ?st = "snd (operclass_add name p f' st)"
  note d = privs_butD [OF ok]
  have e: "pv_classlist ?st = pv_classlist st" "pv_sopers ?st = pv_sopers st" "pv_soperlist ?st = pv_soperlist st"
    "pv_accounts ?st = pv_accounts st" "pv_names ?st = pv_names st" "pv_cnt_soper ?st = pv_cnt_soper st"
    "pv_cnt_operclass ?st = pv_cnt_operclass st" "pv_fresh ?st = pv_fresh st"
    "pv_user_r ?st = pv_user_r st" "pv_authenticated_r ?st = pv_authenticated_r st" "pv_ircop_r ?st = pv_ircop_r st"
    using f by (simp_all add: operclass_add_def)
  let ?g = "\<lambda>C. C\<lparr>oc_privs := p, oc_flags := f' OR (if oc_flags C AND OPERCLASS_BUILTIN \<noteq> 0 then OPERCLASS_BUILTIN else 0)\<rparr>"
  have g: "pv_classes ?st = (pv_classes st)(x := map_option ?g (pv_classes st x))" using f by (simp add: operclass_add_def)
  have n: "map_option oc_name (pv_classes ?st y) = map_option oc_name (pv_classes st y)" for y
    unfolding g by (cases "y = x"; cases "pv_classes st x") simp_all
  have dm: "dom (pv_classes ?st) = dom (pv_classes st)" unfolding g by (cases "pv_classes st x") auto
  have c: "classes_ok ?st"
  proof -
    have "y = z" if y: "pv_classes ?st y = Some Y" and z: "pv_classes ?st z = Some Z" and yz: "strcaseeq (oc_name Y) (oc_name Z)" for y z Y Z
    proof -
      obtain Y' where "pv_classes st y = Some Y'" "oc_name Y' = oc_name Y"
        using n [of y] unfolding y by (cases "pv_classes st y") auto
      moreover obtain Z' where "pv_classes st z = Some Z'" "oc_name Z' = oc_name Z"
        using n [of z] unfolding z by (cases "pv_classes st z") auto
      ultimately show ?thesis using d(1) yz unfolding classes_ok_def by metis
    qed
    then have "\<forall>x y X Y. pv_classes ?st x = Some X \<longrightarrow> pv_classes ?st y = Some Y \<longrightarrow> strcaseeq (oc_name X) (oc_name Y) \<longrightarrow> x = y" by simp
    then show ?thesis using d(1) e(1) dm unfolding classes_ok_def by simp
  qed
  have fs: "operclass_find ?st k = operclass_find st k" for k by (rule class_find_same [OF d(1) c n])
  have "sopers_ok ?st" using d(2) by (simp add: sopers_ok_def e)
  moreover have "classnames_ok ?st" using d(3) by (simp add: classnames_ok_def e fs)
  moreover have "links_ok ?st" using d(4) by (simp add: links_ok_def e)
  moreover have "accounts_ok m ?st" using d(5) by (simp add: accounts_ok_def e)
  moreover have "named_ok m ?st" using d(6) by (simp add: named_ok_def e)
  moreover have "counters_ok ?st" using d(7) by (simp add: counters_ok_def e)
  moreover have "pv_classes ?st y = None \<longleftrightarrow> pv_classes st y = None" for y using dm by (metis domIff)
  then have "refs_ok ?st" using d(8) by (simp add: refs_ok_def e)
  ultimately show "privs_but m ?st" using c by (intro privs_butI)
  have "\<exists>D. pv_classes ?st y = Some D \<and> oc_name D = oc_name C \<and> oc_flags D AND OPERCLASS_BUILTIN \<noteq> 0"
    if "pv_classes st y = Some C" "oc_flags C AND OPERCLASS_BUILTIN \<noteq> 0" for y C
    using that builtin_or unfolding g by (cases "y = x") simp_all
  then show "builtins_ok ?st" if "builtins_ok st" using that builtin_mono [of st _ _ ?st] unfolding builtins_ok_def e by blast
qed

lemma find_None_class: "find P xs = None \<Longrightarrow> x \<in> set xs \<Longrightarrow> \<not> P x"
  by (auto simp: find_None_iff)

lemma class_add_new:
  assumes ok: "privs_but m st" and f: "operclass_find st name = None"
  shows "privs_but m (snd (operclass_add name p f' st))" "builtins_ok st \<Longrightarrow> builtins_ok (snd (operclass_add name p f' st))"
    "pv_classes (snd (operclass_add name p f' st)) = (pv_classes st)(fst (operclass_add name p f' st) \<mapsto> \<lparr>oc_name = name, oc_privs = p, oc_flags = f'\<rparr>)"
    "pv_classes st (fst (operclass_add name p f' st)) = None"
proof -
  let ?st = "snd (operclass_add name p f' st)" and ?x = "pv_fresh st"
  let ?C = "\<lparr>oc_name = name, oc_privs = p, oc_flags = f'\<rparr>"
  let ?g = "\<lambda>S. if sp_operclass S = None \<and> strcaseeq name (sp_classname S) then S\<lparr>sp_operclass := Some ?x\<rparr> else S"
  note d = privs_butD [OF ok]
  have e: "pv_classes ?st = (pv_classes st)(?x \<mapsto> ?C)" "pv_classlist ?st = pv_classlist st @ [?x]"
    "pv_sopers ?st = (\<lambda>s. map_option ?g (pv_sopers st s))" "pv_soperlist ?st = pv_soperlist st"
    "pv_accounts ?st = pv_accounts st" "pv_names ?st = pv_names st" "pv_cnt_soper ?st = pv_cnt_soper st"
    "pv_cnt_operclass ?st = pv_cnt_operclass st + 1" "pv_fresh ?st = Suc ?x" "fst (operclass_add name p f' st) = ?x"
    "pv_user_r ?st = pv_user_r st" "pv_authenticated_r ?st = pv_authenticated_r st" "pv_ircop_r ?st = pv_ircop_r st"
    using f by (simp_all add: operclass_add_def Let_def)
  have x: "pv_classes st ?x = None" "?x \<notin> set (pv_classlist st)" using d(8,1) by (auto simp: refs_ok_def classes_ok_def)
  have nm: "\<not> strcaseeq (oc_name C) name" if "pv_classes st y = Some C" for y C
    using class_find_None [OF d(1)] f that by blast
  have c: "classes_ok ?st"
    unfolding classes_ok_def e
  proof (intro conjI allI impI)
    show "distinct (pv_classlist st @ [?x])" "set (pv_classlist st @ [?x]) = dom ((pv_classes st)(?x \<mapsto> ?C))"
      using d(1) x unfolding classes_ok_def by auto
    fix y z Y Z assume a: "((pv_classes st)(?x \<mapsto> ?C)) y = Some Y" "((pv_classes st)(?x \<mapsto> ?C)) z = Some Z" "strcaseeq (oc_name Y) (oc_name Z)"
    show "y = z"
    proof (cases "y = ?x \<or> z = ?x")
      case True
      then show ?thesis using a nm strcaseeq_sym by (metis fun_upd_apply operclass.select_convs(1) option.inject)
    next
      case False
      then show ?thesis using a d(1) unfolding classes_ok_def by (metis fun_upd_apply)
    qed
  qed
  have fs: "operclass_find ?st k = (if strcaseeq name k then Some ?x else operclass_find st k)" for k
  proof -
    have "operclass_find ?st k = Some y \<longleftrightarrow> (if strcaseeq name k then y = ?x else operclass_find st k = Some y)" for y
    proof (cases "y = ?x")
      case True
      then show ?thesis unfolding class_find_Some [OF d(1)] class_find_Some [OF c] e using x by simp
    next
      case False
      have "\<not> strcaseeq (oc_name C) k" if "pv_classes st y = Some C" "strcaseeq name k" for C
        using nm [OF that(1)] that(2) strcaseeq_sym strcaseeq_trans by blast
      then show ?thesis unfolding class_find_Some [OF d(1)] class_find_Some [OF c] e using False by auto
    qed
    then show ?thesis by (metis (full_types) option.exhaust)
  qed
  have "classnames_ok ?st"
    unfolding classnames_ok_def e(3)
  proof (intro allI impI)
    fix s S assume "map_option ?g (pv_sopers st s) = Some S"
    then obtain T where T: "pv_sopers st s = Some T" "S = ?g T" by auto
    have o: "sp_operclass T = operclass_find st (sp_classname T)" using d(3) T by (simp add: classnames_ok_def)
    have "sp_operclass T = None" if "strcaseeq name (sp_classname T)"
      using that class_find_None [OF d(1), of "sp_classname T"] nm strcaseeq_trans strcaseeq_sym unfolding o by blast
    then show "sp_operclass S = operclass_find ?st (sp_classname S)" unfolding fs using T o by auto
  qed
  moreover have "sopers_ok ?st" using d(2) by (auto simp: sopers_ok_def e dom_def)
  moreover have sm: "(\<exists>S. map_option ?g (pv_sopers st s) = Some S \<and> sp_myuser S = Some a) \<longleftrightarrow> (\<exists>S. pv_sopers st s = Some S \<and> sp_myuser S = Some a)" for s a
    by (cases "pv_sopers st s") auto
  moreover have "links_ok ?st" using d(4) unfolding links_ok_def e(3,5) sm .
  moreover have "accounts_ok m ?st" using d(5) by (simp add: accounts_ok_def e)
  moreover have "named_ok m ?st"
    unfolding named_ok_def e(3,5)
  proof (intro allI impI)
    fix s S assume "map_option ?g (pv_sopers st s) = Some S"
    then obtain T where T: "pv_sopers st s = Some T" "S = ?g T" by auto
    then have "named_soper m (pv_accounts st) S = named_soper m (pv_accounts st) T" by (intro named_soper_cong) auto
    then show "named_soper m (pv_accounts st) S" using d(6) T(1) by (simp add: named_ok_def)
  qed
  moreover have "counters_ok ?st" using d(7) by (simp add: counters_ok_def e)
  moreover have "refs_ok ?st" using d(8) by (auto simp: refs_ok_def e)
  ultimately show "privs_but m ?st" using c by (intro privs_butI)
  have "\<exists>D. pv_classes ?st y = Some D \<and> oc_name D = oc_name C \<and> oc_flags D AND OPERCLASS_BUILTIN \<noteq> 0"
    if "pv_classes st y = Some C" "oc_flags C AND OPERCLASS_BUILTIN \<noteq> 0" for y C
    using that x unfolding e by (metis fun_upd_other option.distinct(1))
  then show "builtins_ok ?st" if "builtins_ok st"
    using that builtin_mono [of st _ _ ?st] unfolding builtins_ok_def e(11-13) by blast
  show "pv_classes ?st = (pv_classes st)(fst (operclass_add name p f' st) \<mapsto> ?C)" "pv_classes st (fst (operclass_add name p f' st)) = None"
    using e x by simp_all
qed

lemma class_add_ok:
  "privs_ok m st \<Longrightarrow> privs_ok m (snd (operclass_add name p f st))"
  using class_add_old class_add_new unfolding privs_ok_def by (metis option.exhaust)

lemma class_delete_ok:
  assumes ok: "privs_ok m st"
  shows "privs_ok m (operclass_delete x st)"
proof (cases "\<exists>C. pv_classes st x = Some C \<and> oc_flags C AND OPERCLASS_BUILTIN = 0")
  case False
  then have "operclass_delete x st = st" by (auto simp: operclass_delete_def split: option.splits)
  then show ?thesis using ok by simp
next
  case True
  then obtain C where C: "pv_classes st x = Some C" "oc_flags C AND OPERCLASS_BUILTIN = 0" by blast
  let ?st = "operclass_delete x st"
  let ?g = "\<lambda>S. if sp_operclass S = Some x then S\<lparr>sp_operclass := None\<rparr> else S"
  note d = privs_butD [OF conjunct1 [OF ok [unfolded privs_ok_def]]]
  have e: "pv_classes ?st = (pv_classes st)(x := None)" "pv_classlist ?st = remove1 x (pv_classlist st)"
    "pv_sopers ?st = (\<lambda>s. map_option ?g (pv_sopers st s))" "pv_soperlist ?st = pv_soperlist st"
    "pv_accounts ?st = pv_accounts st" "pv_names ?st = pv_names st" "pv_cnt_soper ?st = pv_cnt_soper st"
    "pv_cnt_operclass ?st = pv_cnt_operclass st - 1" "pv_fresh ?st = pv_fresh st"
    "pv_user_r ?st = pv_user_r st" "pv_authenticated_r ?st = pv_authenticated_r st" "pv_ircop_r ?st = pv_ircop_r st"
    using C by (simp_all add: operclass_delete_def)
  have x: "x \<in> set (pv_classlist st)" "distinct (pv_classlist st)" using d(1) C by (auto simp: classes_ok_def)
  have c: "classes_ok ?st"
    unfolding classes_ok_def e
  proof (intro conjI allI impI)
    show "distinct (remove1 x (pv_classlist st))" "set (remove1 x (pv_classlist st)) = dom ((pv_classes st)(x := None))"
      using d(1) x unfolding classes_ok_def by auto
    fix y z Y Z assume "((pv_classes st)(x := None)) y = Some Y" "((pv_classes st)(x := None)) z = Some Z" "strcaseeq (oc_name Y) (oc_name Z)"
    then show "y = z" using d(1) unfolding classes_ok_def by (metis fun_upd_apply option.distinct(1))
  qed
  have fs: "operclass_find ?st k = (if operclass_find st k = Some x then None else operclass_find st k)" for k
  proof -
    have "operclass_find ?st k = Some y \<longleftrightarrow> y \<noteq> x \<and> operclass_find st k = Some y" for y
      unfolding class_find_Some [OF d(1)] class_find_Some [OF c] e by auto
    then show ?thesis by (metis option.exhaust option.inject)
  qed
  have r: "sp_operclass (?g T) = (if sp_operclass T = Some x then None else sp_operclass T)" "sp_classname (?g T) = sp_classname T"
    "sp_name (?g T) = sp_name T" "sp_myuser (?g T) = sp_myuser T" "sp_flags (?g T) = sp_flags T" for T by auto
  have "classnames_ok ?st"
    unfolding classnames_ok_def e(3)
  proof (intro allI impI)
    fix s S assume "map_option ?g (pv_sopers st s) = Some S"
    then obtain T where T: "pv_sopers st s = Some T" "S = ?g T" by auto
    have "sp_operclass T = operclass_find st (sp_classname T)" using d(3) T(1) by (simp add: classnames_ok_def)
    then show "sp_operclass S = operclass_find ?st (sp_classname S)" unfolding T(2) r fs by simp
  qed
  moreover have "sopers_ok ?st" using d(2) by (auto simp: sopers_ok_def e dom_def)
  moreover have sm: "(\<exists>S. map_option ?g (pv_sopers st s) = Some S \<and> sp_myuser S = Some a) \<longleftrightarrow> (\<exists>S. pv_sopers st s = Some S \<and> sp_myuser S = Some a)" for s a
    by (cases "pv_sopers st s") auto
  moreover have "links_ok ?st" using d(4) unfolding links_ok_def e(3,5) sm .
  moreover have "accounts_ok m ?st" using d(5) by (simp add: accounts_ok_def e)
  moreover have "named_ok m ?st"
    unfolding named_ok_def e(3,5)
  proof (intro allI impI)
    fix s S assume "map_option ?g (pv_sopers st s) = Some S"
    then obtain T where T: "pv_sopers st s = Some T" "S = ?g T" by auto
    have "named_soper m (pv_accounts st) S = named_soper m (pv_accounts st) T" unfolding T(2) by (intro named_soper_cong r)
    then show "named_soper m (pv_accounts st) S" using d(6) T(1) by (simp add: named_ok_def)
  qed
  moreover have "counters_ok ?st"
  proof -
    have "of_nat (length (pv_classlist st) - 1) = (of_nat (length (pv_classlist st)) - 1 :: u32)" using x(1) by (cases "pv_classlist st") auto
    then show ?thesis using d(7) x by (simp add: counters_ok_def e length_remove1)
  qed
  moreover have "refs_ok ?st" using d(8) by (auto simp: refs_ok_def e)
  ultimately have "privs_but m ?st" using c by (intro privs_butI)
  moreover have "\<exists>D. pv_classes ?st y = Some D \<and> oc_name D = oc_name Y \<and> oc_flags D AND OPERCLASS_BUILTIN \<noteq> 0"
    if "pv_classes st y = Some Y" "oc_flags Y AND OPERCLASS_BUILTIN \<noteq> 0" for y Y
    using that C unfolding e by (metis fun_upd_other option.inject)
  then have "builtins_ok ?st"
    using ok builtin_mono [of st _ _ ?st] unfolding privs_ok_def builtins_ok_def e(10-12) by blast
  ultimately show ?thesis by (simp add: privs_ok_def)
qed

subsection \<open>Operators\<close>

definition same_names :: "(nat \<Rightarrow> priv_account option) \<Rightarrow> (nat \<Rightarrow> priv_account option) \<Rightarrow> bool" where
  "same_names accs' accs \<longleftrightarrow> (\<forall>a. map_option pa_name (accs' a) = map_option pa_name (accs a))"

lemma same_names_upd:
  "(\<And>A. pa_name (f A) = pa_name A) \<Longrightarrow> same_names (accs(a := map_option f (accs a))) accs"
  by (cases "accs a") (auto simp: same_names_def)

lemma same_names_refl: "same_names accs accs"
  by (simp add: same_names_def)

lemma same_namesD: "same_names accs' accs \<Longrightarrow> (\<exists>A. accs' a = Some A \<and> P (pa_name A)) \<longleftrightarrow> (\<exists>A. accs a = Some A \<and> P (pa_name A))"
  unfolding same_names_def by (drule spec [of _ a]) (cases "accs a"; cases "accs' a"; simp)

lemma same_names_all: "same_names accs' accs \<Longrightarrow> (\<forall>A. accs' a = Some A \<longrightarrow> P (pa_name A)) \<longleftrightarrow> (\<forall>A. accs a = Some A \<longrightarrow> P (pa_name A))"
  using same_namesD [of accs' accs a "\<lambda>n. \<not> P n"] by blast

lemma named_soper_names: "same_names accs' accs \<Longrightarrow> named_soper m accs' S = named_soper m accs S"
  unfolding named_soper_def
  using same_names_all [of accs' accs _ "\<lambda>n. irccasecanon m n = irccasecanon m (the (sp_name S))"]
  by (cases "sp_name S") simp_all

lemma accounts_ok_names: "same_names (pv_accounts st') (pv_accounts st) \<Longrightarrow> pv_names st' = pv_names st \<Longrightarrow> accounts_ok m st \<Longrightarrow> accounts_ok m st'"
  unfolding accounts_ok_def
  by (simp add: same_namesD [where P = "\<lambda>n. _ = irccasecanon m n"] same_names_all [where P = no_nul])

lemma links_unique:
  "links_ok st \<Longrightarrow> pv_accounts st a = Some A \<Longrightarrow> pa_soper A = Some s \<Longrightarrow> \<exists>S. pv_sopers st s = Some S \<and> sp_myuser S = Some a"
  "links_ok st \<Longrightarrow> pv_sopers st s = Some S \<Longrightarrow> sp_myuser S = Some a \<Longrightarrow> \<exists>A. pv_accounts st a = Some A \<and> pa_soper A = Some s"
  unfolding links_ok_def by blast+

lemma builtins_classes:
  "pv_classes st' = pv_classes st \<Longrightarrow> pv_user_r st' = pv_user_r st \<Longrightarrow> pv_authenticated_r st' = pv_authenticated_r st \<Longrightarrow>
     pv_ircop_r st' = pv_ircop_r st \<Longrightarrow> builtins_ok st' = builtins_ok st"
  by (simp add: builtins_ok_def builtin_class_def)

lemma soper_delete_fields:
  assumes "pv_sopers st s = Some S"
  shows "pv_classes (soper_delete s st) = pv_classes st" "pv_classlist (soper_delete s st) = pv_classlist st"
    "pv_sopers (soper_delete s st) = (pv_sopers st)(s := None)" "pv_soperlist (soper_delete s st) = remove1 s (pv_soperlist st)"
    "pv_accounts (soper_delete s st) =
      (case sp_myuser S of None \<Rightarrow> pv_accounts st
       | Some a \<Rightarrow> (pv_accounts st)(a := map_option (\<lambda>A. A\<lparr>pa_soper := None\<rparr>) (pv_accounts st a)))"
    "pv_names (soper_delete s st) = pv_names st" "pv_users (soper_delete s st) = pv_users st" "pv_fresh (soper_delete s st) = pv_fresh st"
    "pv_user_r (soper_delete s st) = pv_user_r st" "pv_authenticated_r (soper_delete s st) = pv_authenticated_r st"
    "pv_ircop_r (soper_delete s st) = pv_ircop_r st" "pv_cnt_operclass (soper_delete s st) = pv_cnt_operclass st"
    "pv_cnt_soper (soper_delete s st) = pv_cnt_soper st - 1"
  using assms by (simp_all add: soper_delete_def upd_account_def split: option.splits)

lemma soper_delete_names: "pv_sopers st s = Some S \<Longrightarrow> same_names (pv_accounts (soper_delete s st)) (pv_accounts st)"
  by (cases "sp_myuser S") (simp_all add: soper_delete_fields same_names_refl same_names_upd)

lemma soper_delete_ok:
  assumes ok: "privs_ok m st"
  shows "privs_ok m (soper_delete s st)"
proof (cases "pv_sopers st s")
  case None
  then show ?thesis using ok by (simp add: soper_delete_def)
next
  case (Some S)
  let ?st = "soper_delete s st"
  note d = privs_butD [OF conjunct1 [OF ok [unfolded privs_ok_def]]]
  note e = soper_delete_fields [OF Some]
  note nm = soper_delete_names [OF Some]
  have s: "s \<in> set (pv_soperlist st)" "distinct (pv_soperlist st)" using d(2) Some by (auto simp: sopers_ok_def)
  have "classes_ok ?st" using d(1) by (simp add: classes_ok_def e)
  moreover have "sopers_ok ?st" using d(2) by (auto simp: sopers_ok_def e)
  moreover have "classnames_ok ?st" using d(3) class_find_cong [OF e(1,2)] by (simp add: classnames_ok_def e)
  moreover have "links_ok ?st"
    unfolding links_ok_def e(3)
  proof (intro allI)
    fix t b
    have l: "(\<exists>S. ((pv_sopers st)(s := None)) t = Some S \<and> sp_myuser S = Some b) \<longleftrightarrow>
        t \<noteq> s \<and> (\<exists>A. pv_accounts st b = Some A \<and> pa_soper A = Some t)"
      using d(4) unfolding links_ok_def by (metis fun_upd_apply option.distinct(1))
    show "(\<exists>S. ((pv_sopers st)(s := None)) t = Some S \<and> sp_myuser S = Some b) \<longleftrightarrow>
        (\<exists>A. pv_accounts ?st b = Some A \<and> pa_soper A = Some t)"
    proof (cases "sp_myuser S = Some b")
      case True
      then obtain A where A: "pv_accounts st b = Some A" "pa_soper A = Some s" using links_unique(2) [OF d(4) Some] by blast
      then show ?thesis unfolding l e(5) True by auto
    next
      case False
      then have "pv_accounts ?st b = pv_accounts st b" unfolding e(5) by (auto split: option.splits)
      moreover have "pa_soper A \<noteq> Some s" if "pv_accounts st b = Some A" for A
        using links_unique(1) [OF d(4) that] Some False by fastforce
      ultimately show ?thesis unfolding l by auto
    qed
  qed
  moreover have "accounts_ok m ?st" by (rule accounts_ok_names [OF nm e(6) d(5)])
  moreover have "named_ok m ?st" using d(6) unfolding named_ok_def e(3) named_soper_names [OF nm] by auto
  moreover have "counters_ok ?st"
  proof -
    have "of_nat (length (pv_soperlist st) - 1) = (of_nat (length (pv_soperlist st)) - 1 :: u32)" using s(1) by (cases "pv_soperlist st") auto
    then show ?thesis using d(7) s by (simp add: counters_ok_def e length_remove1)
  qed
  moreover have "pv_accounts ?st x = None \<longleftrightarrow> pv_accounts st x = None" for x
    using nm unfolding same_names_def by (metis option.map_disc_iff)
  then have "refs_ok ?st" using d(8) by (simp add: refs_ok_def e)
  ultimately have "privs_but m ?st" by (intro privs_butI)
  then show ?thesis using ok builtins_classes [OF e(1,9,10,11)] by (simp add: privs_ok_def)
qed

lemma soper_new_fields:
  "fst (soper_new mu name cn f pw st) = pv_fresh st"
  "pv_classes (snd (soper_new mu name cn f pw st)) = pv_classes st" "pv_classlist (snd (soper_new mu name cn f pw st)) = pv_classlist st"
  "pv_sopers (snd (soper_new mu name cn f pw st)) = (pv_sopers st)(pv_fresh st \<mapsto>
     \<lparr>sp_myuser = mu, sp_name = (if mu = None then Some name else None), sp_operclass = operclass_find st cn,
      sp_classname = cn, sp_flags = f, sp_password = pw\<rparr>)"
  "pv_soperlist (snd (soper_new mu name cn f pw st)) = pv_soperlist st @ [pv_fresh st]"
  "pv_accounts (snd (soper_new mu name cn f pw st)) =
     (case mu of None \<Rightarrow> pv_accounts st | Some a \<Rightarrow> (pv_accounts st)(a := map_option (\<lambda>A. A\<lparr>pa_soper := Some (pv_fresh st)\<rparr>) (pv_accounts st a)))"
  "pv_names (snd (soper_new mu name cn f pw st)) = pv_names st" "pv_users (snd (soper_new mu name cn f pw st)) = pv_users st"
  "pv_fresh (snd (soper_new mu name cn f pw st)) = Suc (pv_fresh st)"
  "pv_user_r (snd (soper_new mu name cn f pw st)) = pv_user_r st"
  "pv_authenticated_r (snd (soper_new mu name cn f pw st)) = pv_authenticated_r st"
  "pv_ircop_r (snd (soper_new mu name cn f pw st)) = pv_ircop_r st"
  "pv_cnt_operclass (snd (soper_new mu name cn f pw st)) = pv_cnt_operclass st"
  "pv_cnt_soper (snd (soper_new mu name cn f pw st)) = pv_cnt_soper st + 1"
  by (simp_all add: soper_new_def Let_def upd_account_def split: option.splits)

lemma soper_new_names: "same_names (pv_accounts (snd (soper_new mu name cn f pw st))) (pv_accounts st)"
  by (cases mu) (simp_all add: soper_new_fields same_names_refl same_names_upd)

lemma soper_new_ok:
  assumes ok: "privs_ok m st"
    and mu: "\<And>a. mu = Some a \<Longrightarrow> \<exists>A. pv_accounts st a = Some A \<and> pa_soper A = None"
    and none: "mu = None \<Longrightarrow> no_nul name \<and> f AND SOPER_CONF \<noteq> 0"
  shows "privs_ok m (snd (soper_new mu name cn f pw st))"
proof -
  let ?st = "snd (soper_new mu name cn f pw st)" and ?x = "pv_fresh st"
  note d = privs_butD [OF conjunct1 [OF ok [unfolded privs_ok_def]]]
  note e = soper_new_fields [of mu name cn f pw st]
  note nm = soper_new_names [of mu name cn f pw st]
  have x: "pv_sopers st ?x = None" "?x \<notin> set (pv_soperlist st)" using d(8,2) by (auto simp: refs_ok_def sopers_ok_def)
  have xa: "pa_soper A \<noteq> Some ?x" if "pv_accounts st a = Some A" for a A
    using links_unique(1) [OF d(4) that] x(1) by auto
  have "classes_ok ?st" using d(1) by (simp add: classes_ok_def e)
  moreover have "sopers_ok ?st" using d(2) x by (auto simp: sopers_ok_def e)
  moreover have "classnames_ok ?st" using d(3) class_find_cong [OF e(2,3)] by (simp add: classnames_ok_def e)
  moreover have "links_ok ?st"
    unfolding links_ok_def
  proof (intro allI)
    fix t b
    show "(\<exists>S. pv_sopers ?st t = Some S \<and> sp_myuser S = Some b) \<longleftrightarrow> (\<exists>A. pv_accounts ?st b = Some A \<and> pa_soper A = Some t)"
    proof (cases "mu = Some b")
      case True
      then obtain A where A: "pv_accounts st b = Some A" "pa_soper A = None" using mu by blast
      have "\<not> (\<exists>S. pv_sopers st t = Some S \<and> sp_myuser S = Some b)" using links_unique(2) [OF d(4), of t _ b] A by fastforce
      then show ?thesis unfolding e(4,6) using True A by (cases "t = ?x") auto
    next
      case False
      then have "pv_accounts ?st b = pv_accounts st b" unfolding e(6) by (auto split: option.splits)
      then show ?thesis using False d(4) x xa unfolding links_ok_def e(4) by (cases "t = ?x") auto
    qed
  qed
  moreover have "accounts_ok m ?st" by (rule accounts_ok_names [OF nm e(7) d(5)])
  moreover have "named_ok m ?st"
    unfolding named_ok_def named_soper_names [OF nm] e(4)
  proof (intro allI impI)
    fix s S assume s: "((pv_sopers st)(?x \<mapsto> \<lparr>sp_myuser = mu, sp_name = (if mu = None then Some name else None),
      sp_operclass = operclass_find st cn, sp_classname = cn, sp_flags = f, sp_password = pw\<rparr>)) s = Some S"
    show "named_soper m (pv_accounts st) S"
    proof (cases "s = ?x")
      case True
      then show ?thesis using s none by (cases mu) (auto simp: named_soper_def)
    next
      case False
      then show ?thesis using s d(6) by (simp add: named_ok_def)
    qed
  qed
  moreover have "counters_ok ?st" using d(7) by (simp add: counters_ok_def e)
  moreover have "pv_accounts ?st y = None \<longleftrightarrow> pv_accounts st y = None" for y
    using nm unfolding same_names_def by (metis option.map_disc_iff)
  then have "refs_ok ?st" using d(8) by (simp add: refs_ok_def e)
  ultimately have "privs_but m ?st" by (intro privs_butI)
  then show ?thesis using ok builtins_classes [OF e(2,10-12)] by (simp add: privs_ok_def)
qed

lemma soper_find_iff:
  assumes "privs_but m st"
  shows "soper_find st a = Some s \<longleftrightarrow> (\<exists>A. pv_accounts st a = Some A \<and> pa_soper A = Some s)"
proof -
  note d = privs_butD [OF assms]
  let ?P = "\<lambda>s. case pv_sopers st s of None \<Rightarrow> False | Some S \<Rightarrow> sp_myuser S = Some a"
  have P: "?P t \<longleftrightarrow> (\<exists>A. pv_accounts st a = Some A \<and> pa_soper A = Some t)" for t
    unfolding d(4) [unfolded links_ok_def, rule_format, of t a, symmetric] by (cases "pv_sopers st t") auto
  have mem: "?P t \<Longrightarrow> t \<in> set (pv_soperlist st)" for t
    using d(2) by (auto simp: sopers_ok_def split: option.splits)
  show ?thesis
  proof (cases "find ?P (pv_soperlist st)")
    case None
    then have "soper_find st a = None" unfolding soper_find_def .
    moreover have "\<not> ?P s" using None mem [of s] find_None_class [OF None, of s] by blast
    ultimately show ?thesis unfolding P by simp
  next
    case (Some t)
    then have "\<exists>A. pv_accounts st a = Some A \<and> pa_soper A = Some t" using find_SomeD [OF Some] P by blast
    moreover have "soper_find st a = Some t" unfolding soper_find_def by (rule Some)
    ultimately show ?thesis by auto
  qed
qed

lemma soper_find_named_Some:
  assumes "privs_but m st" "soper_find_named m st name = Some s"
  shows "\<exists>S n. pv_sopers st s = Some S \<and> sp_name S = Some n \<and> irccasecmp m (Some n) (Some name) = 0"
  using find_SomeD [OF assms(2) [unfolded soper_find_named_def]] by (auto split: option.splits)

text \<open>The name in the step relation below: an operator for a name without account comes from the configuration.\<close>

lemma soper_add_ok:
  assumes ok: "privs_ok m st" and n: "myuser_find_name m st name = None \<Longrightarrow> no_nul name \<and> f AND SOPER_CONF \<noteq> 0"
  shows "privs_ok m (snd (soper_add m name cn f pw st))"
proof -
  let ?mu = "myuser_find_name m st name"
  let ?old = "case ?mu of Some a \<Rightarrow> soper_find st a | None \<Rightarrow> soper_find_named m st name"
  note b = conjunct1 [OF ok [unfolded privs_ok_def]]
  note d = privs_butD [OF b]
  have acc: "\<exists>A. pv_accounts st a = Some A" if "?mu = Some a" for a
    using that d(5) unfolding accounts_ok_def myuser_find_name_def by blast
  show ?thesis
  proof (cases "Option.bind ?old (pv_sopers st)")
    case None
    have "\<exists>A. pv_accounts st a = Some A \<and> pa_soper A = None" if m: "?mu = Some a" for a
    proof -
      obtain A where A: "pv_accounts st a = Some A" using acc [OF m] by blast
      have "pa_soper A \<noteq> Some s" for s
        using soper_find_iff [OF b, of a s] links_unique(1) [OF d(4) A] None A m by fastforce
      then show ?thesis using A by (cases "pa_soper A") auto
    qed
    then have "privs_ok m (snd (soper_new ?mu name cn f pw st))" by (intro soper_new_ok [OF ok]) (use n in auto)
    then show ?thesis using None by (cases "soper_new ?mu name cn f pw st") (simp add: soper_add_def Let_def)
  next
    case (Some S)
    show ?thesis
    proof (cases "f AND SOPER_CONF \<noteq> 0 \<and> sp_flags S AND SOPER_CONF = 0")
      case False
      then show ?thesis using Some ok by (auto simp: soper_add_def Let_def)
    next
      case True
      obtain s where s: "?old = Some s" "pv_sopers st s = Some S" using Some by (cases ?old) auto
      let ?st = "soper_delete s st"
      have ok': "privs_ok m ?st" by (rule soper_delete_ok [OF ok])
      have "\<exists>A. pv_accounts ?st a = Some A \<and> pa_soper A = None" if m: "?mu = Some a" for a
      proof -
        obtain A where A: "pv_accounts st a = Some A" using acc [OF m] by blast
        have "soper_find st a = Some s" using s(1) m by simp
        then have "pa_soper A = Some s" using soper_find_iff [OF b] A by auto
        then have "sp_myuser S = Some a" using links_unique(1) [OF d(4) A] s(2) by auto
        then show ?thesis unfolding soper_delete_fields [OF s(2)] using A by simp
      qed
      then have "privs_ok m (snd (soper_new ?mu name cn f pw ?st))" by (intro soper_new_ok [OF ok']) (use n True in auto)
      then show ?thesis using Some True s by (cases "soper_new ?mu name cn f pw ?st") (simp add: soper_add_def Let_def)
    qed
  qed
qed

lemma delete_conf_ok: "privs_ok m st \<Longrightarrow> privs_ok m (delete_conf_soper s st)"
  using soper_delete_ok by (auto simp: delete_conf_soper_def split: option.splits)

lemma fold_privs_ok:
  assumes "\<And>x st. privs_ok m st \<Longrightarrow> privs_ok m (f x st)" "privs_ok m st"
  shows "privs_ok m (fold f xs st)"
  using assms by (induction xs arbitrary: st) auto

lemma mark_ok: "privs_ok m st \<Longrightarrow> privs_ok m (mark_all_illegal st)"
  unfolding mark_all_illegal_def Let_def
  by (intro fold_privs_ok [where f = operclass_delete] fold_privs_ok [where f = delete_conf_soper] class_delete_ok delete_conf_ok)

subsection \<open>Changes of operators and clients that keep the rest\<close>

lemma users_ok:
  "privs_ok m st \<Longrightarrow> privs_ok m (st\<lparr>pv_users := us\<rparr>)"
  by (simp add: privs_ok_def privs_but_def classes_ok_def sopers_ok_def classnames_ok_def links_ok_def accounts_ok_def named_ok_def
      counters_ok_def refs_ok_def builtins_ok_def builtin_class_def operclass_find_def)

lemma upd_soper_ok:
  assumes ok: "privs_ok m st"
    and f: "\<And>S. sp_operclass (f S) = sp_operclass S" "\<And>S. sp_classname (f S) = sp_classname S" "\<And>S. sp_name (f S) = sp_name S"
      "\<And>S. sp_myuser (f S) = sp_myuser S" "\<And>S. sp_flags (f S) = sp_flags S"
  shows "privs_ok m (upd_soper s f st)"
proof -
  let ?st = "upd_soper s f st"
  note d = privs_butD [OF conjunct1 [OF ok [unfolded privs_ok_def]]]
  have e: "pv_classes ?st = pv_classes st" "pv_classlist ?st = pv_classlist st" "pv_soperlist ?st = pv_soperlist st"
    "pv_accounts ?st = pv_accounts st" "pv_names ?st = pv_names st" "pv_fresh ?st = pv_fresh st" "pv_user_r ?st = pv_user_r st"
    "pv_authenticated_r ?st = pv_authenticated_r st" "pv_ircop_r ?st = pv_ircop_r st" "pv_cnt_operclass ?st = pv_cnt_operclass st"
    "pv_cnt_soper ?st = pv_cnt_soper st" "pv_sopers ?st = (pv_sopers st)(s := map_option f (pv_sopers st s))"
    by (simp_all add: upd_soper_def)
  have sm: "(\<exists>S. pv_sopers ?st t = Some S \<and> sp_myuser S = Some a) \<longleftrightarrow> (\<exists>S. pv_sopers st t = Some S \<and> sp_myuser S = Some a)" for t a
    unfolding e by (cases "t = s"; cases "pv_sopers st s") (auto simp: f)
  have "classes_ok ?st" using d(1) by (simp add: classes_ok_def e)
  moreover have "sopers_ok ?st" using d(2) by (cases "pv_sopers st s") (auto simp: sopers_ok_def e)
  moreover have "classnames_ok ?st"
    using d(3) class_find_cong [OF e(1,2)] unfolding classnames_ok_def e(12) by (auto simp: f split: if_splits)
  moreover have "links_ok ?st" using d(4) unfolding links_ok_def sm e(4) .
  moreover have "accounts_ok m ?st" using d(5) by (simp add: accounts_ok_def e)
  moreover have "named_soper m (pv_accounts st) (f S) = named_soper m (pv_accounts st) S" for S by (rule named_soper_cong; rule f)
  then have "named_ok m ?st" using d(6) unfolding named_ok_def e by (auto split: if_splits)
  moreover have "counters_ok ?st" using d(7) by (simp add: counters_ok_def e)
  moreover have "refs_ok ?st" using d(8) by (auto simp: refs_ok_def e)
  ultimately have "privs_but m ?st" by (intro privs_butI)
  then show ?thesis using ok builtins_classes [OF e(1,7,8,9)] by (simp add: privs_ok_def)
qed

subsection \<open>Accounts\<close>

lemma irccasecmp_self_eq: "no_nul n \<Longrightarrow> no_nul k \<Longrightarrow> irccasecmp m (Some n) (Some k) = 0 \<Longrightarrow> irccasecanon m n = irccasecanon m k"
  by (simp add: irccasecmp_0_iff)

text \<open>An operator whose name a new account has is not active yet.\<close>

lemma named_inactive:
  assumes b: "privs_but m st" and n: "no_nul name" "myuser_find_name m st name = None" and s: "soper_find_named m st name = Some s"
  shows "\<exists>S k. pv_sopers st s = Some S \<and> sp_myuser S = None \<and> sp_name S = Some k \<and> irccasecanon m name = irccasecanon m k \<and>
    no_nul k \<and> sp_flags S AND SOPER_CONF \<noteq> 0"
proof -
  note d = privs_butD [OF b]
  obtain S k where S: "pv_sopers st s = Some S" "sp_name S = Some k" "irccasecmp m (Some k) (Some name) = 0"
    using soper_find_named_Some [OF b s] by blast
  have o: "named_soper m (pv_accounts st) S" using d(6) S(1) by (simp add: named_ok_def)
  then have k: "no_nul k" "sp_flags S AND SOPER_CONF \<noteq> 0" using S(2) by (simp_all add: named_soper_def)
  have eq: "irccasecanon m k = irccasecanon m name" by (rule irccasecmp_self_eq [OF k(1) n(1) S(3)])
  have "sp_myuser S \<noteq> Some a" for a
  proof
    assume a: "sp_myuser S = Some a"
    then obtain A where A: "pv_accounts st a = Some A" using links_unique(2) [OF d(4) S(1)] by blast
    then have "irccasecanon m (pa_name A) = irccasecanon m k" using o a S(2) by (simp add: named_soper_def)
    then have "pv_names st (irccasecanon m name) = Some a" using d(5) A eq unfolding accounts_ok_def by metis
    then show False using n(2) by (simp add: myuser_find_name_def)
  qed
  then show ?thesis using S k eq by (cases "sp_myuser S") auto
qed

lemma myuser_add_ok:
  assumes ok: "privs_ok m st" and n: "no_nul name"
  shows "privs_ok m (snd (priv_myuser_add m name st))"
proof (cases "myuser_find_name m st name")
  case (Some a)
  then show ?thesis using ok by (simp add: priv_myuser_add_def)
next
  case None
  let ?st = "snd (priv_myuser_add m name st)" and ?x = "pv_fresh st" and ?s = "soper_find_named m st name"
  let ?A = "\<lparr>pa_name = name, pa_soper = ?s\<rparr>"
  note b = conjunct1 [OF ok [unfolded privs_ok_def]]
  note d = privs_butD [OF b]
  have e: "pv_classes ?st = pv_classes st" "pv_classlist ?st = pv_classlist st" "pv_soperlist ?st = pv_soperlist st"
    "pv_accounts ?st = (pv_accounts st)(?x \<mapsto> ?A)" "pv_names ?st = (pv_names st)(irccasecanon m name \<mapsto> ?x)" "pv_fresh ?st = Suc ?x"
    "pv_user_r ?st = pv_user_r st" "pv_authenticated_r ?st = pv_authenticated_r st" "pv_ircop_r ?st = pv_ircop_r st"
    "pv_cnt_operclass ?st = pv_cnt_operclass st" "pv_cnt_soper ?st = pv_cnt_soper st"
    "pv_sopers ?st = (case ?s of None \<Rightarrow> pv_sopers st | Some s \<Rightarrow> (pv_sopers st)(s := map_option (\<lambda>S. S\<lparr>sp_myuser := Some ?x\<rparr>) (pv_sopers st s)))"
    using None by (simp_all add: priv_myuser_add_def Let_def upd_soper_def split: option.splits)
  have x: "pv_accounts st ?x = None" using d(8) by (simp add: refs_ok_def)
  have sx: "sp_myuser S \<noteq> Some ?x" if "pv_sopers st s = Some S" for s S
    using links_unique(2) [OF d(4) that, of ?x] x by auto
  have in': "\<exists>S k. pv_sopers st s = Some S \<and> sp_myuser S = None \<and> sp_name S = Some k \<and> irccasecanon m name = irccasecanon m k \<and>
      no_nul k \<and> sp_flags S AND SOPER_CONF \<noteq> 0" if "?s = Some s" for s
    by (rule named_inactive [OF b n None that])
  have sp: "pv_sopers ?st t = (if ?s = Some t then map_option (\<lambda>S. S\<lparr>sp_myuser := Some ?x\<rparr>) (pv_sopers st t) else pv_sopers st t)" for t
    unfolding e by (auto split: option.splits)
  have "classes_ok ?st" using d(1) by (simp add: classes_ok_def e)
  moreover have "pv_sopers ?st t = None \<longleftrightarrow> pv_sopers st t = None" for t unfolding sp by simp
  then have "dom (pv_sopers ?st) = dom (pv_sopers st)" by (auto simp: dom_def)
  then have "sopers_ok ?st" using d(2) by (simp add: sopers_ok_def e)
  moreover have "classnames_ok ?st"
    using d(3) class_find_cong [OF e(1,2)] unfolding classnames_ok_def sp by (auto split: if_splits)
  moreover have "links_ok ?st"
    unfolding links_ok_def
  proof (intro allI)
    fix t c
    show "(\<exists>S. pv_sopers ?st t = Some S \<and> sp_myuser S = Some c) \<longleftrightarrow> (\<exists>C. pv_accounts ?st c = Some C \<and> pa_soper C = Some t)"
    proof (cases "?s = Some t")
      case True
      then obtain S where "pv_sopers st t = Some S" "sp_myuser S = None" using in' by blast
      moreover have "\<not> (\<exists>C. pv_accounts st c = Some C \<and> pa_soper C = Some t)" for c
        using calculation links_unique(1) [OF d(4)] by fastforce
      ultimately show ?thesis unfolding sp e(4) using True x by auto
    next
      case False
      have l: "(\<exists>S. pv_sopers st t = Some S \<and> sp_myuser S = Some c) \<longleftrightarrow> (\<exists>C. pv_accounts st c = Some C \<and> pa_soper C = Some t)"
        using d(4) unfolding links_ok_def by blast
      show ?thesis
        unfolding sp e(4) using False l x sx by (cases "c = ?x") auto
    qed
  qed
  moreover have "accounts_ok m ?st"
    unfolding accounts_ok_def e
  proof (intro conjI allI impI)
    fix k c
    have l: "pv_names st k = Some c \<longleftrightarrow> (\<exists>C. pv_accounts st c = Some C \<and> k = irccasecanon m (pa_name C))"
      using d(5) unfolding accounts_ok_def by blast
    have f: "pv_names st (irccasecanon m name) = None" using None by (simp add: myuser_find_name_def)
    show "((pv_names st)(irccasecanon m name \<mapsto> ?x)) k = Some c \<longleftrightarrow>
        (\<exists>C. ((pv_accounts st)(?x \<mapsto> ?A)) c = Some C \<and> k = irccasecanon m (pa_name C))"
      using l f x by (cases "k = irccasecanon m name"; cases "c = ?x") auto
  next
    fix c C assume "((pv_accounts st)(?x \<mapsto> ?A)) c = Some C"
    then show "no_nul (pa_name C)" using n d(5) unfolding accounts_ok_def by (cases "c = ?x") auto
  qed
  moreover have "named_ok m ?st"
    unfolding named_ok_def
  proof (intro allI impI)
    fix t T assume t: "pv_sopers ?st t = Some T"
    show "named_soper m (pv_accounts ?st) T"
    proof (cases "?s = Some t")
      case True
      then obtain S k where "pv_sopers st t = Some S" "sp_name S = Some k" "irccasecanon m name = irccasecanon m k" "no_nul k"
        "sp_flags S AND SOPER_CONF \<noteq> 0" using in' by blast
      then show ?thesis using t True by (auto simp: sp e(4) named_soper_def)
    next
      case False
      then have T: "pv_sopers st t = Some T" using t by (simp add: sp)
      then have o: "named_soper m (pv_accounts st) T" using d(6) by (simp add: named_ok_def)
      have "sp_myuser T \<noteq> Some ?x" using sx [OF T] .
      then show ?thesis using o unfolding named_soper_def e(4) by (cases "sp_name T") auto
    qed
  qed
  moreover have "counters_ok ?st" using d(7) by (simp add: counters_ok_def e)
  moreover have "refs_ok ?st"
    using d(8) \<open>\<And>t. pv_sopers ?st t = None \<longleftrightarrow> pv_sopers st t = None\<close> unfolding refs_ok_def e(1,4,6) by auto
  ultimately have "privs_but m ?st" by (intro privs_butI)
  then show ?thesis using ok builtins_classes [OF e(1,7,8,9)] by (simp add: privs_ok_def)
qed

lemma myuser_rename_ok:
  assumes ok: "privs_ok m st" and n: "no_nul name" "\<not> is_conf_soper st (Some a)"
    and free: "pv_names st (irccasecanon m name) \<in> {None, Some a}"
  shows "privs_ok m (priv_myuser_rename m a name st)"
proof (cases "pv_accounts st a")
  case None
  then show ?thesis using ok by (simp add: priv_myuser_rename_def)
next
  case (Some A)
  let ?st = "priv_myuser_rename m a name st"
  note b = conjunct1 [OF ok [unfolded privs_ok_def]]
  note d = privs_butD [OF b]
  let ?old = "irccasecanon m (pa_name A)" and ?new = "irccasecanon m name"
  have e: "pv_classes ?st = pv_classes st" "pv_classlist ?st = pv_classlist st" "pv_soperlist ?st = pv_soperlist st"
    "pv_accounts ?st = (pv_accounts st)(a \<mapsto> A\<lparr>pa_name := name\<rparr>)" "pv_names ?st = (pv_names st)(?old := None, ?new := Some a)"
    "pv_fresh ?st = pv_fresh st" "pv_user_r ?st = pv_user_r st" "pv_authenticated_r ?st = pv_authenticated_r st"
    "pv_ircop_r ?st = pv_ircop_r st" "pv_cnt_operclass ?st = pv_cnt_operclass st" "pv_cnt_soper ?st = pv_cnt_soper st"
    "pv_sopers ?st = pv_sopers st"
  proof -
    have "pv_names st ?old = Some a" using d(5) Some unfolding accounts_ok_def by blast
    moreover have "((pv_names st)(?old := None)) ?new = None"
      using free d(5) Some unfolding accounts_ok_def by (cases "?new = ?old") auto
    ultimately show "pv_names ?st = (pv_names st)(?old := None, ?new := Some a)"
      using Some by (simp add: priv_myuser_rename_def upd_account_def dict_add_def)
  qed (use Some in \<open>simp_all add: priv_myuser_rename_def upd_account_def\<close>)
  have "classes_ok ?st" using d(1) by (simp add: classes_ok_def e)
  moreover have "sopers_ok ?st" using d(2) by (simp add: sopers_ok_def e)
  moreover have "classnames_ok ?st" using d(3) class_find_cong [OF e(1,2)] by (simp add: classnames_ok_def e)
  moreover have "(\<exists>B. pv_accounts ?st c = Some B \<and> pa_soper B = Some t) \<longleftrightarrow> (\<exists>B. pv_accounts st c = Some B \<and> pa_soper B = Some t)" for c t
    using Some by (auto simp: e)
  then have "links_ok ?st" using d(4) unfolding links_ok_def e(12) by simp
  moreover have "accounts_ok m ?st"
    unfolding accounts_ok_def e
  proof (intro conjI allI impI)
    fix k c
    have l: "pv_names st k = Some c \<longleftrightarrow> (\<exists>C. pv_accounts st c = Some C \<and> k = irccasecanon m (pa_name C))"
      and o: "pv_names st ?old = Some a" and v: "pv_names st ?new = Some c \<longleftrightarrow> (\<exists>C. pv_accounts st c = Some C \<and> ?new = irccasecanon m (pa_name C))"
      using d(5) Some unfolding accounts_ok_def by blast+
    have fr: "c = a" if "pv_names st ?new = Some c" using that free by auto
    show "((pv_names st)(?old := None, ?new := Some a)) k = Some c \<longleftrightarrow>
        (\<exists>C. ((pv_accounts st)(a \<mapsto> A\<lparr>pa_name := name\<rparr>)) c = Some C \<and> k = irccasecanon m (pa_name C))"
    proof (cases "c = a")
      case True
      then show ?thesis using l Some by (cases "k = ?new"; cases "k = ?old") auto
    next
      case False
      then show ?thesis using l v o fr by (cases "k = ?new"; cases "k = ?old") auto
    qed
  next
    fix c C assume "((pv_accounts st)(a \<mapsto> A\<lparr>pa_name := name\<rparr>)) c = Some C"
    then show "no_nul (pa_name C)" using n d(5) unfolding accounts_ok_def by (cases "c = a") auto
  qed
  moreover have "named_ok m ?st"
    unfolding named_ok_def e(12)
  proof (intro allI impI)
    fix t T assume t: "pv_sopers st t = Some T"
    then have o: "named_soper m (pv_accounts st) T" using d(6) by (simp add: named_ok_def)
    show "named_soper m (pv_accounts ?st) T"
    proof (cases "sp_myuser T = Some a")
      case True
      then have "pa_soper A = Some t" using links_unique(2) [OF d(4) t] Some by auto
      then have "sp_flags T AND SOPER_CONF = 0" using n(2) Some t by (simp add: is_conf_soper_def account_soper_def)
      then show ?thesis using o by (cases "sp_name T") (simp_all add: named_soper_def)
    next
      case False
      then show ?thesis using o unfolding named_soper_def e(4) by (cases "sp_name T") auto
    qed
  qed
  moreover have "counters_ok ?st" using d(7) by (simp add: counters_ok_def e)
  moreover have "refs_ok ?st" using d(8) Some by (auto simp: refs_ok_def e)
  ultimately have "privs_but m ?st" by (intro privs_butI)
  then show ?thesis using ok builtins_classes [OF e(1,7,8,9)] by (simp add: privs_ok_def)
qed

lemma drop_account_ok:
  assumes ok: "privs_ok m st" and A: "pv_accounts st a = Some A" "pa_soper A = None"
  shows "privs_ok m (st\<lparr>pv_names := (pv_names st)(irccasecanon m (pa_name A) := None), pv_accounts := (pv_accounts st)(a := None)\<rparr>)"
proof -
  let ?st = "st\<lparr>pv_names := (pv_names st)(irccasecanon m (pa_name A) := None), pv_accounts := (pv_accounts st)(a := None)\<rparr>"
  note d = privs_butD [OF conjunct1 [OF ok [unfolded privs_ok_def]]]
  have nl: "sp_myuser S \<noteq> Some a" if "pv_sopers st s = Some S" for s S
    using links_unique(2) [OF d(4) that, of a] A by auto
  have "classes_ok ?st" using d(1) by (simp add: classes_ok_def)
  moreover have "sopers_ok ?st" using d(2) by (simp add: sopers_ok_def)
  moreover have "classnames_ok ?st" using d(3) class_find_cong [of ?st st] by (simp add: classnames_ok_def)
  moreover have "links_ok ?st"
    unfolding links_ok_def
  proof (intro allI)
    fix t c
    have l: "(\<exists>S. pv_sopers st t = Some S \<and> sp_myuser S = Some c) \<longleftrightarrow> (\<exists>C. pv_accounts st c = Some C \<and> pa_soper C = Some t)"
      using d(4) unfolding links_ok_def by blast
    show "(\<exists>S. pv_sopers ?st t = Some S \<and> sp_myuser S = Some c) \<longleftrightarrow> (\<exists>C. pv_accounts ?st c = Some C \<and> pa_soper C = Some t)"
      using l nl by (cases "c = a") auto
  qed
  moreover have "accounts_ok m ?st"
    unfolding accounts_ok_def
  proof (intro conjI allI impI)
    fix k c
    have l: "pv_names st k = Some c \<longleftrightarrow> (\<exists>C. pv_accounts st c = Some C \<and> k = irccasecanon m (pa_name C))"
      and o: "pv_names st (irccasecanon m (pa_name A)) = Some a"
      using d(5) A unfolding accounts_ok_def by blast+
    show "pv_names ?st k = Some c \<longleftrightarrow> (\<exists>C. pv_accounts ?st c = Some C \<and> k = irccasecanon m (pa_name C))"
      using l o A by (cases "k = irccasecanon m (pa_name A)"; cases "c = a") auto
  next
    fix c C assume "pv_accounts ?st c = Some C"
    then show "no_nul (pa_name C)" using d(5) unfolding accounts_ok_def by (cases "c = a") auto
  qed
  moreover have "named_ok m ?st"
    unfolding named_ok_def
  proof (intro allI impI)
    fix t T assume "pv_sopers ?st t = Some T"
    then have T: "pv_sopers st t = Some T" by simp
    then have "named_soper m (pv_accounts st) T" using d(6) by (simp add: named_ok_def)
    then show "named_soper m (pv_accounts ?st) T" using nl [OF T] unfolding named_soper_def by (cases "sp_name T") auto
  qed
  moreover have "counters_ok ?st" using d(7) by (simp add: counters_ok_def)
  moreover have "refs_ok ?st" using d(8) by (simp add: refs_ok_def)
  ultimately have "privs_but m ?st" by (intro privs_butI)
  moreover have "builtins_ok ?st = builtins_ok st" by (rule builtins_classes) simp_all
  ultimately show ?thesis using ok by (simp add: privs_ok_def)
qed

lemma myuser_delete_ok:
  assumes ok: "privs_ok m st"
  shows "privs_ok m (priv_myuser_delete m a st)"
proof (cases "pv_accounts st a")
  case None
  then show ?thesis using ok by (simp add: priv_myuser_delete_def)
next
  case (Some A)
  note b = conjunct1 [OF ok [unfolded privs_ok_def]]
  note d = privs_butD [OF b]
  let ?st1 = "case (soper_find st a, pa_soper A) of (Some _, Some s) \<Rightarrow> soper_delete s st | _ \<Rightarrow> st"
  have f: "soper_find st a = pa_soper A" using soper_find_iff [OF b, of a] Some by (cases "pa_soper A"; cases "soper_find st a") auto
  have "privs_ok m ?st1 \<and> (\<exists>B. pv_accounts ?st1 a = Some B \<and> pa_soper B = None \<and> pa_name B = pa_name A)"
  proof (cases "pa_soper A")
    case None
    then show ?thesis using ok Some f by simp
  next
    case (Some s)
    obtain S where "pv_sopers st s = Some S" "sp_myuser S = Some a" using links_unique(1) [OF d(4) \<open>pv_accounts st a = Some A\<close> Some] by blast
    then show ?thesis using f Some soper_delete_ok [OF ok] \<open>pv_accounts st a = Some A\<close> by (simp add: soper_delete_fields)
  qed
  then obtain B where B: "privs_ok m ?st1" "pv_accounts ?st1 a = Some B" "pa_soper B = None" "pa_name B = pa_name A" by blast
  show ?thesis
    using users_ok [OF drop_account_ok [OF B(1-3)]] Some unfolding priv_myuser_delete_def B(4) by (simp add: Let_def)
qed

subsection \<open>Commands and reachable states\<close>

lemma cmd_add_ok:
  assumes ok: "privs_ok (pe_mapping E) st"
  shows "privs_ok (pe_mapping E) (snd (os_cmd_soper_add E si parv st))"
proof -
  have "privs_ok (pe_mapping E) (snd (soper_add (pe_mapping E) (pa_name A) cn 0 pw (case pa_soper A of None \<Rightarrow> st | Some s \<Rightarrow> soper_delete s st)))"
    if A: "pv_accounts st a = Some A" for a A cn pw
  proof (rule soper_add_ok)
    show "privs_ok (pe_mapping E) (case pa_soper A of None \<Rightarrow> st | Some s \<Rightarrow> soper_delete s st)"
      using ok soper_delete_ok by (simp split: option.splits)
    note d = privs_butD [OF conjunct1 [OF ok [unfolded privs_ok_def]]]
    have "pv_names st (irccasecanon (pe_mapping E) (pa_name A)) = Some a" using d(5) A unfolding accounts_ok_def by blast
    moreover have "pv_names (soper_delete s st) = pv_names st" for s
      by (simp add: soper_delete_def upd_account_def split: option.splits)
    ultimately show "no_nul (pa_name A) \<and> (0 :: u32) AND SOPER_CONF \<noteq> 0"
      if "myuser_find_name (pe_mapping E) (case pa_soper A of None \<Rightarrow> st | Some s \<Rightarrow> soper_delete s st) (pa_name A) = None"
      using that by (cases "pa_soper A") (auto simp: myuser_find_name_def)
  qed
  then show ?thesis using ok by (auto simp: os_cmd_soper_add_def Let_def split: option.splits)
qed

lemma cmd_del_ok: "privs_ok m st \<Longrightarrow> privs_ok m (snd (os_cmd_soper_del E si parv st))"
  using soper_delete_ok by (auto simp: os_cmd_soper_del_def split: sum.splits)

lemma cmd_setpass_ok: "privs_ok m st \<Longrightarrow> privs_ok m (snd (os_cmd_soper_setpass E si parv st))"
  unfolding os_cmd_soper_setpass_def clear_soper_pass_def
  by (auto split: sum.splits intro!: users_ok upd_soper_ok)

lemma command_exec_cases: "command_exec E si access cmd st \<in> {cmd st, (Inl No_privs, st)}"
  by (simp add: command_exec_def)

lemma cmd_soper_ok:
  assumes "privs_ok (pe_mapping E) st"
  shows "privs_ok (pe_mapping E) (snd (os_cmd_soper E si c parv st))"
proof -
  let ?cmd = "case c of Soper_add \<Rightarrow> os_cmd_soper_add E si parv | Soper_del \<Rightarrow> os_cmd_soper_del E si parv
    | Soper_setpass \<Rightarrow> os_cmd_soper_setpass E si parv"
  have "privs_ok (pe_mapping E) (snd (?cmd st))"
    using cmd_add_ok cmd_del_ok cmd_setpass_ok assms by (cases c) simp_all
  then show ?thesis using command_exec_cases [of E si "Some PRIV_GRANT" ?cmd st] assms by (auto simp: os_cmd_soper_def)
qed

lemma identify_ok: "privs_ok m st \<Longrightarrow> privs_ok m (snd (os_cmd_identify E si parv st))"
  using users_ok by (simp add: os_cmd_identify_def split: option.splits)

definition privs_blank :: privs where
  "privs_blank = \<lparr>pv_classes = Map.empty, pv_classlist = [], pv_sopers = Map.empty, pv_soperlist = [], pv_accounts = Map.empty,
     pv_names = Map.empty, pv_users = Map.empty, pv_user_r = None, pv_authenticated_r = None, pv_ircop_r = None, pv_fresh = 0,
     pv_cnt_operclass = 0, pv_cnt_soper = 0\<rparr>"

text \<open>
  What happens to operators: classes and operators from the configuration and the database, rehashes, accounts that
  come, change their names and go, clients that come, log in, oper up and go in any way, and the commands.  Names are C strings.  An operator
  for a name without an account is one of the configuration, and an operator of the configuration keeps its account name, which
  \<open>SET ACCOUNTNAME\<close> and \<open>FUNGROUP\<close> see to; an account name is free or the same but for case.
\<close>

inductive privs_reach :: "priv_env \<Rightarrow> privs \<Rightarrow> bool" for E :: priv_env where
  pr_start: "privs_reach E (init_privs privs_blank)"
| pr_class_add: "privs_reach E st \<Longrightarrow> privs_reach E (snd (operclass_add name p f st))"
| pr_class_delete: "privs_reach E st \<Longrightarrow> privs_reach E (operclass_delete x st)"
| pr_soper_add: "privs_reach E st \<Longrightarrow> (myuser_find_name (pe_mapping E) st name = None \<longrightarrow> no_nul name \<and> f AND SOPER_CONF \<noteq> 0) \<Longrightarrow>
    privs_reach E (snd (soper_add (pe_mapping E) name cn f pw st))"
| pr_soper_delete: "privs_reach E st \<Longrightarrow> privs_reach E (soper_delete s st)"
| pr_rehash: "privs_reach E st \<Longrightarrow> privs_reach E (mark_all_illegal st)"
| pr_account_add: "privs_reach E st \<Longrightarrow> no_nul name \<Longrightarrow> privs_reach E (snd (priv_myuser_add (pe_mapping E) name st))"
| pr_account_rename: "privs_reach E st \<Longrightarrow> no_nul name \<Longrightarrow> \<not> is_conf_soper st (Some a) \<Longrightarrow>
    pv_names st (irccasecanon (pe_mapping E) name) \<in> {None, Some a} \<Longrightarrow> privs_reach E (priv_myuser_rename (pe_mapping E) a name st)"
| pr_account_delete: "privs_reach E st \<Longrightarrow> privs_reach E (priv_myuser_delete (pe_mapping E) a st)"
| pr_users: "privs_reach E st \<Longrightarrow> privs_reach E (st\<lparr>pv_users := us\<rparr>)"
| pr_soper: "privs_reach E st \<Longrightarrow> privs_reach E (snd (os_cmd_soper E si c parv st))"
| pr_identify: "privs_reach E st \<Longrightarrow> privs_reach E (snd (os_cmd_identify E si parv st))"

lemma blank_ok: "privs_but m privs_blank"
  by (simp add: privs_blank_def privs_but_def classes_ok_def sopers_ok_def classnames_ok_def links_ok_def accounts_ok_def named_ok_def
      counters_ok_def refs_ok_def)

lemma builtin_names: "\<not> strcaseeq ''user'' ''authenticated''" "\<not> strcaseeq ''user'' ''ircop''" "\<not> strcaseeq ''authenticated'' ''ircop''"
  by (simp_all add: strcaseeq_def)

lemma init_ok: "privs_ok m (init_privs privs_blank)"
proof -
  let ?B = OPERCLASS_BUILTIN
  obtain u st1 where a1: "operclass_add ''user'' '''' ?B privs_blank = (u, st1)" by fastforce
  obtain a st2 where a2: "operclass_add ''authenticated'' AC_AUTHENTICATED ?B st1 = (a, st2)" by fastforce
  obtain i st3 where a3: "operclass_add ''ircop'' '''' ?B st2 = (i, st3)" by fastforce
  have B: "?B AND ?B \<noteq> 0" by (simp add: OPERCLASS_BUILTIN_def)
  have e0: "pv_classes privs_blank = Map.empty" by (simp add: privs_blank_def)
  have f1: "operclass_find privs_blank ''user'' = None" by (simp add: operclass_find_def privs_blank_def)
  note o1 = class_add_new [OF blank_ok [of m] f1, of "''''" ?B, unfolded a1 fst_conv snd_conv]
  have f2: "operclass_find st1 ''authenticated'' = None"
    unfolding class_find_None [OF privs_butD(1) [OF o1(1)]] o1(3) e0 using builtin_names by simp
  note o2 = class_add_new [OF o1(1) f2, of AC_AUTHENTICATED ?B, unfolded a2 fst_conv snd_conv]
  have f3: "operclass_find st2 ''ircop'' = None"
    unfolding class_find_None [OF privs_butD(1) [OF o2(1)]] o2(3) o1(3) e0 using builtin_names by simp
  note o3 = class_add_new [OF o2(1) f3, of "''''" ?B, unfolded a3 fst_conv snd_conv]
  let ?st = "st3\<lparr>pv_user_r := Some u, pv_authenticated_r := Some a, pv_ircop_r := Some i\<rparr>"
  have "a \<noteq> u" "i \<noteq> u" "i \<noteq> a" using o2(3,4) o3(4) o1(3) by (auto split: if_splits)
  then have "builtins_ok ?st" using B by (simp add: builtins_ok_def builtin_class_def o3(3) o2(3) o1(3))
  moreover have "privs_but m ?st"
    using o3(1) by (simp add: privs_but_def classes_ok_def sopers_ok_def classnames_ok_def links_ok_def accounts_ok_def named_ok_def
      counters_ok_def refs_ok_def operclass_find_def)
  ultimately show ?thesis using a1 a2 a3 by (simp add: privs_ok_def init_privs_def)
qed

lemma privs_reach_ok: "privs_reach E st \<Longrightarrow> privs_ok (pe_mapping E) st"
proof (induction rule: privs_reach.induct)
  case (pr_soper_add st name f cn pw)
  then show ?case by (intro soper_add_ok) simp_all
next
  case (pr_account_rename st name a)
  then show ?case by (intro myuser_rename_ok)
qed (simp_all add: init_ok class_add_ok class_delete_ok soper_delete_ok mark_ok myuser_add_ok myuser_delete_ok users_ok cmd_soper_ok identify_ok)

text \<open>
  C29: Operators stay consistent.  Whatever is configured, rehashed, registered, renamed, dropped and commanded: no two
  classes have the same name, every operator has the class its class name stands for, or none while there is none, an account
  points to an operator exactly when that operator points to the account, so that no account has another's privileges and no
  pointer dangles, names find their accounts, the counters are exact, and the three built-in classes are there.
\<close>

theorem privs_invariant:
  assumes "privs_reach E st"
  shows "classes_ok st \<and> sopers_ok st \<and> classnames_ok st \<and> links_ok st \<and> accounts_ok (pe_mapping E) st \<and> counters_ok st \<and> builtins_ok st"
  using privs_reach_ok [OF assms] by (simp add: privs_ok_def privs_but_def)

section \<open>No escalation\<close>

lemma strcaseeq_length: "strcaseeq s t \<Longrightarrow> length s = length t"
  unfolding strcaseeq_def by (metis length_map)

lemma strncaseeq_take: "i = length name \<Longrightarrow> strncaseeq str name i \<longleftrightarrow> strcaseeq (take i str) name"
  by (simp add: strncaseeq_def strcaseeq_def)

lemma strchr_space:
  assumes "strchr s (CHR '' '') = Some i"
  shows "s = take i s @ CHR '' '' # drop (Suc i) s" "CHR '' '' \<notin> set (take i s)" "i < length s"
  using strchr_SomeD [OF assms] by (auto simp: id_take_nth_drop [symmetric] Cons_nth_drop_Suc) (metis id_take_nth_drop)

lemma words_step:
  assumes "strchr s (CHR '' '') = Some i"
  shows "set (strtok_words s) - {[]} = (if i = 0 then {} else {take i s}) \<union> (set (strtok_words (dropWhile (\<lambda>c. c = CHR '' '') (drop i s))) - {[]})"
proof -
  let ?sp = "\<lambda>c. c = CHR '' ''"
  note sp = strchr_space [OF assms]
  have skip: "strtok_words (dropWhile ?sp r) = strtok_words r" for r
    by (simp add: strtok_words.simps [of "dropWhile ?sp r"] strtok_words.simps [of r])
  show ?thesis
  proof (cases "i = 0")
    case True
    then show ?thesis by (simp add: skip)
  next
    case False
    have ne: "s \<noteq> []" using sp(3) by auto
    have "hd s \<in> set (take i s)" using False ne by (cases s; cases i) simp_all
    then have ne: "s \<noteq> []" "hd s \<noteq> CHR '' ''" using sp(2) ne by auto
    then have d: "dropWhile ?sp s = s" by (cases s) auto
    have t: "takeWhile (\<lambda>c. c \<noteq> CHR '' '') s = take i s" "dropWhile (\<lambda>c. c \<noteq> CHR '' '') s = drop i s"
    proof -
      have "\<forall>c \<in> set (take i s). c \<noteq> CHR '' ''" using sp(2) by auto
      then have a: "takeWhile (\<lambda>c. c \<noteq> CHR '' '') (take i s @ CHR '' '' # drop (Suc i) s) = take i s"
        "dropWhile (\<lambda>c. c \<noteq> CHR '' '') (take i s @ CHR '' '' # drop (Suc i) s) = CHR '' '' # drop (Suc i) s"
        by (simp_all add: takeWhile_append2 dropWhile_append2)
      have "CHR '' '' # drop (Suc i) s = drop i s" using sp(1) by (metis append_take_drop_id same_append_eq)
      then show "takeWhile (\<lambda>c. c \<noteq> CHR '' '') s = take i s" "dropWhile (\<lambda>c. c \<noteq> CHR '' '') s = drop i s"
        using a unfolding sp(1) [symmetric] by simp_all
    qed
    have "strtok_words s = take i s # strtok_words (drop i s)"
      by (subst strtok_words.simps) (simp add: d t ne)
    then show ?thesis using False sp(3) skip by (auto simp: insert_Diff_if)
  qed
qed

text \<open>The list search finds exactly the words, up to case.\<close>

lemma string_in_list_words:
  "name \<noteq> [] \<Longrightarrow> string_in_list str name \<longleftrightarrow> (\<exists>w \<in> set (strtok_words str) - {[]}. strcaseeq w name)"
proof (induction str name rule: string_in_list.induct)
  case (1 str name)
  show ?case
  proof (cases "strchr str (CHR '' '')")
    case None
    then have ns: "CHR '' '' \<notin> set str" by (simp add: strchr_None_iff)
    show ?thesis
    proof (cases "str = []")
      case True
      then show ?thesis by (simp add: string_in_list.simps strtok_words.simps)
    next
      case False
      then have "hd str \<noteq> CHR '' ''" using ns by (cases str) auto
      then have "dropWhile (\<lambda>c. c = CHR '' '') str = str" using False by (cases str) auto
      moreover have "takeWhile (\<lambda>c. c \<noteq> CHR '' '') str = str" "dropWhile (\<lambda>c. c \<noteq> CHR '' '') str = []"
        using ns by (auto simp: takeWhile_eq_all_conv dropWhile_eq_Nil_conv)
      moreover have "strtok_words [] = []" by (subst strtok_words.simps) simp
      ultimately have "strtok_words str = [str]" using False by (subst strtok_words.simps) (simp only: Let_def if_False)
      then show ?thesis using None False by (subst string_in_list.simps) simp
    qed
  next
    case (Some i)
    have ne: "str \<noteq> []" using strchr_space(3) [OF Some] by auto
    let ?r = "dropWhile (\<lambda>c. c = CHR '' '') (drop i str)"
    have l: "length (take i str) = i" using strchr_space(3) [OF Some] by simp
    have st: "string_in_list str name \<longleftrightarrow> strcaseeq (take i str) name \<or> string_in_list ?r name"
    proof (cases "i = length name \<and> strncaseeq str name i")
      case True
      then show ?thesis using Some ne strncaseeq_take [of i name str] by (subst string_in_list.simps) simp
    next
      case False
      have "\<not> strcaseeq (take i str) name"
      proof
        assume a: "strcaseeq (take i str) name"
        then have "i = length name" using strcaseeq_length l by metis
        then show False using False a strncaseeq_take by blast
      qed
      then show ?thesis using Some ne False by (subst string_in_list.simps) auto
    qed
    have z: "\<not> strcaseeq (take i str) name" if "i = 0"
      using that \<open>name \<noteq> []\<close> strcaseeq_length [of "[]" name] by auto
    show ?thesis
    proof (cases "i = length name \<and> strncaseeq str name i")
      case True
      then have "strcaseeq (take i str) name" using strncaseeq_take by blast
      then show ?thesis unfolding st words_step [OF Some] using z by auto
    next
      case False
      then have "string_in_list ?r name \<longleftrightarrow> (\<exists>w \<in> set (strtok_words ?r) - {[]}. strcaseeq w name)"
        using "1.IH" [OF ne Some False "1.prems"] by simp
      then show ?thesis unfolding st words_step [OF Some] using z by auto
    qed
  qed
qed

lemma string_in_list_cong: "name \<noteq> [] \<Longrightarrow> strcaseeq name name' \<Longrightarrow> string_in_list s name = string_in_list s name'"
proof -
  assume a: "name \<noteq> []" "strcaseeq name name'"
  then have "name' \<noteq> []" using strcaseeq_length by fastforce
  then show ?thesis using a string_in_list_words strcaseeq_trans strcaseeq_sym by meson
qed

lemma has_priv_operclass_cong: "p \<noteq> [] \<Longrightarrow> strcaseeq p q \<Longrightarrow> has_priv_operclass st x p = has_priv_operclass st x q"
  by (simp add: has_priv_operclass_def string_in_list_cong split: option.splits)

lemma has_priv_cong:
  assumes "p \<noteq> []" "strcaseeq p q"
  shows "has_priv st si (Some p) = has_priv st si (Some q)"
  unfolding has_priv_def has_priv_user_def has_priv_myuser_def option.case has_priv_operclass_cong [OF assms] ..

text \<open>Who has all privileges of a class has every privilege the class gives.\<close>

lemma has_all_gives:
  assumes "has_all_operclass st si C" "p \<noteq> []" "string_in_list (oc_privs C) p"
  shows "has_priv st si (Some p)"
proof -
  obtain w where w: "w \<in> set (strtok_words (oc_privs C))" "w \<noteq> []" "strcaseeq w p"
    using assms(3) unfolding string_in_list_words [OF assms(2)] by auto
  have "has_priv st si (Some w)" using assms(1) w(1) unfolding has_all_operclass_def by blast
  then show ?thesis using has_priv_cong [OF w(2,3), of st si] by simp
qed

text \<open>
  What the commands change: nothing but operators of accounts and identifications, and an account's operator only to
  one whose class the source of the command has all of, or to none.
\<close>

definition covered :: "privs \<Rightarrow> priv_source \<Rightarrow> soper \<Rightarrow> bool" where
  "covered st si S \<longleftrightarrow> (\<forall>C. Option.bind (sp_operclass S) (pv_classes st) = Some C \<longrightarrow> has_all_operclass st si C)"

definition same_user :: "priv_user \<Rightarrow> priv_user \<Rightarrow> bool" where
  "same_user U' U \<longleftrightarrow> pu_myuser U' = pu_myuser U \<and> (pu_flags U' = pu_flags U \<or> pu_flags U' = pu_flags U AND NOT UF_SOPER_PASS)"

definition granted_only :: "privs \<Rightarrow> priv_source \<Rightarrow> privs \<Rightarrow> bool" where
  "granted_only st si st' \<longleftrightarrow>
     pv_classes st' = pv_classes st \<and> pv_user_r st' = pv_user_r st \<and> pv_authenticated_r st' = pv_authenticated_r st \<and>
     pv_ircop_r st' = pv_ircop_r st \<and>
     (\<forall>u U'. pv_users st' u = Some U' \<longrightarrow> (\<exists>U. pv_users st u = Some U \<and> same_user U' U)) \<and>
     (\<forall>b. account_soper st' b \<in> {account_soper st b, None} \<or> (\<exists>S. account_soper st' b = Some S \<and> covered st si S))"

lemma granted_refl: "granted_only st si st"
  by (simp add: granted_only_def same_user_def)

lemma account_soper_delete:
  assumes "links_ok st" "pv_sopers st s = Some S"
  shows "account_soper (soper_delete s st) b \<in> {account_soper st b, None}"
proof (cases "sp_myuser S = Some b")
  case True
  then show ?thesis by (cases "pv_accounts st b") (simp_all add: account_soper_def soper_delete_fields [OF assms(2)])
next
  case False
  then have "pv_accounts (soper_delete s st) b = pv_accounts st b"
    by (auto simp: soper_delete_fields [OF assms(2)] split: option.splits)
  then show ?thesis
    by (cases "Option.bind (pv_accounts st b) pa_soper") (simp_all add: account_soper_def soper_delete_fields [OF assms(2)])
qed

lemma account_soper_new:
  assumes ok: "privs_but m st" and a: "pv_accounts st a = Some A"
  shows "account_soper (snd (soper_new (Some a) name cn f pw st)) b =
    (if b = a then Some \<lparr>sp_myuser = Some a, sp_name = None, sp_operclass = operclass_find st cn, sp_classname = cn, sp_flags = f, sp_password = pw\<rparr>
     else account_soper st b)"
proof (cases "b = a")
  case True
  then show ?thesis using a by (simp add: account_soper_def soper_new_fields)
next
  case False
  note d = privs_butD [OF ok]
  have "pa_soper B \<noteq> Some (pv_fresh st)" if "pv_accounts st b = Some B" for B
    using links_unique(1) [OF d(4) that] d(8) by (auto simp: refs_ok_def)
  moreover have "pv_accounts (snd (soper_new (Some a) name cn f pw st)) b = pv_accounts st b" using False by (simp add: soper_new_fields)
  ultimately have "Option.bind (Option.bind (pv_accounts st b) pa_soper) (pv_sopers (snd (soper_new (Some a) name cn f pw st))) =
      Option.bind (Option.bind (pv_accounts st b) pa_soper) (pv_sopers st)"
    unfolding soper_new_fields by (cases "Option.bind (pv_accounts st b) pa_soper"; cases "pv_accounts st b") auto
  then show ?thesis using False by (simp add: account_soper_def soper_new_fields)
qed

lemma delete_granted:
  assumes "privs_ok m st" "pv_sopers st s = Some S"
  shows "granted_only st si (soper_delete s st)"
  using account_soper_delete [OF privs_butD(4) assms(2)] assms(1)
  by (auto simp: granted_only_def soper_delete_fields [OF assms(2)] privs_ok_def same_user_def)

lemma cmd_add_cases:
  "snd (os_cmd_soper_add E si parv st) = st \<or>
   (\<exists>a o' A C pw. operclass_find st (parv ! 1) = Some o' \<and> pv_accounts st a = Some A \<and> pv_classes st o' = Some C \<and>
      has_all_operclass st si C \<and> snd (os_cmd_soper_add E si parv st) =
        snd (soper_add (pe_mapping E) (pa_name A) (oc_name C) 0 pw (case pa_soper A of None \<Rightarrow> st | Some s \<Rightarrow> soper_delete s st)))"
proof -
  define r where "r a A o' C =
    (if account_soper st a \<noteq> None \<and> sp_operclass (the (account_soper st a)) = Some o' then (Inl No_change, st)
     else if \<not> has_all_operclass st si C then (Inl No_privs, st)
     else if (case Option.bind (Option.bind (account_soper st a) sp_operclass) (pv_classes st) of
                None \<Rightarrow> False | Some D \<Rightarrow> \<not> has_all_operclass st si D) then (Inl No_privs, st)
     else (Inr (), snd (soper_add (pe_mapping E) (pa_name A) (oc_name C) 0
        (if length parv < 3 then None else Some (if pe_crypt_loaded E then strlcpy (pe_crypt E (parv ! 2)) PASSLEN else parv ! 2))
        (case pa_soper A of None \<Rightarrow> st | Some s \<Rightarrow> soper_delete s st))) :: priv_result \<times> privs)"
    for a :: nat and A :: priv_account and o' :: nat and C :: operclass
  have r: "snd (r a A o' C) = st \<or> has_all_operclass st si C \<and> (\<exists>pw. snd (r a A o' C) =
      snd (soper_add (pe_mapping E) (pa_name A) (oc_name C) 0 pw (case pa_soper A of None \<Rightarrow> st | Some s \<Rightarrow> soper_delete s st)))" for a A o' C
    unfolding r_def by (simp split del: option.split) blast
  have e: "os_cmd_soper_add E si parv st =
     (if length parv < 2 then (Inl Need_more_params, st)
      else case pe_find_ext E st (parv ! 0) of
        None \<Rightarrow> (Inl No_such_target, st)
      | Some mu \<Rightarrow>
          if is_conf_soper st (Some mu) then (Inl No_privs, st)
          else (case operclass_find st (parv ! 1) of
            None \<Rightarrow> (Inl No_such_target, st)
          | Some o' \<Rightarrow> (case (pv_accounts st mu, pv_classes st o') of (Some A, Some C) \<Rightarrow> r mu A o' C | _ \<Rightarrow> (Inl No_such_target, st))))"
    unfolding os_cmd_soper_add_def r_def Let_def ..
  show ?thesis
  proof (cases "length parv < 2 \<or> pe_find_ext E st (parv ! 0) = None \<or> is_conf_soper st (pe_find_ext E st (parv ! 0)) \<or> operclass_find st (parv ! 1) = None")
    case True
    then show ?thesis unfolding e by (auto split: option.splits)
  next
    case False
    then obtain mu o' where x: "\<not> length parv < 2" "pe_find_ext E st (parv ! 0) = Some mu" "\<not> is_conf_soper st (Some mu)" "operclass_find st (parv ! 1) = Some o'"
      by auto
    have e': "os_cmd_soper_add E si parv st =
        (case (pv_accounts st mu, pv_classes st o') of (Some A, Some C) \<Rightarrow> r mu A o' C | _ \<Rightarrow> (Inl No_such_target, st))"
      unfolding e using x by simp
    show ?thesis
    proof (cases "\<exists>A C. pv_accounts st mu = Some A \<and> pv_classes st o' = Some C")
      case True
      then obtain A C where "pv_accounts st mu = Some A" "pv_classes st o' = Some C" by blast
      then show ?thesis using r [of mu A o' C] x(4) unfolding e' by auto
    next
      case False
      then show ?thesis unfolding e' by (cases "pv_accounts st mu"; cases "pv_classes st o'") auto
    qed
  qed
qed

lemma add_granted:
  assumes ok: "privs_ok (pe_mapping E) st"
  shows "granted_only st si (snd (os_cmd_soper_add E si parv st))"
proof (cases "snd (os_cmd_soper_add E si parv st) = st")
  case True
  then show ?thesis by (simp add: granted_refl)
next
  case False
  let ?m = "pe_mapping E"
  obtain a o' A C pw where t: "operclass_find st (parv ! 1) = Some o'" "pv_accounts st a = Some A" "pv_classes st o' = Some C"
      "has_all_operclass st si C"
    and st': "snd (os_cmd_soper_add E si parv st) =
      snd (soper_add ?m (pa_name A) (oc_name C) 0 pw (case pa_soper A of None \<Rightarrow> st | Some s \<Rightarrow> soper_delete s st))"
    using cmd_add_cases False by blast
  let ?st1 = "case pa_soper A of None \<Rightarrow> st | Some s \<Rightarrow> soper_delete s st"
  note d = privs_butD [OF conjunct1 [OF ok [unfolded privs_ok_def]]]
  have st1: "privs_ok ?m ?st1 \<and> granted_only st si ?st1 \<and> pv_classes ?st1 = pv_classes st \<and> pv_classlist ?st1 = pv_classlist st \<and>
     pv_users ?st1 = pv_users st \<and> pv_names ?st1 = pv_names st \<and> (\<exists>B. pv_accounts ?st1 a = Some B \<and> pa_soper B = None)"
  proof (cases "pa_soper A")
    case None
    then show ?thesis using ok t by (simp add: granted_refl)
  next
    case (Some s)
    obtain S where S: "pv_sopers st s = Some S" "sp_myuser S = Some a" using links_unique(1) [OF d(4) t(2) Some] by blast
    then show ?thesis
      using Some t soper_delete_ok [OF ok] delete_granted [OF ok S(1)] by (simp add: soper_delete_fields [OF S(1)])
  qed
  then obtain B where B: "privs_but ?m ?st1" "pv_accounts ?st1 a = Some B" "pa_soper B = None" unfolding privs_ok_def by blast
  have "pv_names st (irccasecanon ?m (pa_name A)) = Some a" using d(5) t(2) unfolding accounts_ok_def by blast
  then have n: "myuser_find_name ?m ?st1 (pa_name A) = Some a" using st1 by (simp add: myuser_find_name_def)
  have "soper_find ?st1 a = None" using soper_find_iff [OF B(1)] B(2,3) by (cases "soper_find ?st1 a") auto
  then have e: "snd (soper_add ?m (pa_name A) (oc_name C) 0 pw ?st1) = snd (soper_new (Some a) (pa_name A) (oc_name C) 0 pw ?st1)"
    unfolding soper_add_def n by (simp add: Let_def split: prod.splits)
  have "operclass_find ?st1 (oc_name C) = operclass_find st (oc_name C)" using st1 by (intro class_find_cong) auto
  also have "\<dots> = Some o'" using class_find_Some [OF d(1)] t(3) by auto
  finally have c: "operclass_find ?st1 (oc_name C) = Some o'" .
  let ?S = "\<lparr>sp_myuser = Some a, sp_name = None, sp_operclass = Some o', sp_classname = oc_name C, sp_flags = 0, sp_password = pw\<rparr>"
  have new: "account_soper (snd (soper_new (Some a) (pa_name A) (oc_name C) 0 pw ?st1)) b = (if b = a then Some ?S else account_soper ?st1 b)" for b
    unfolding account_soper_new [OF B(1,2)] c ..
  have cov: "covered st si ?S" using t by (simp add: covered_def)
  show ?thesis
    unfolding st' e granted_only_def new soper_new_fields
    using st1 cov unfolding granted_only_def by auto
qed

lemma soper_target_Inr:
  assumes "soper_target E si parv st = Inr (mu, s)"
  shows "\<exists>A. pv_accounts st mu = Some A \<and> pa_soper A = Some s \<and> (\<forall>S. pv_sopers st s = Some S \<longrightarrow> covered st si S)"
proof -
  obtain x where x: "Option.bind (pv_accounts st mu) pa_soper = Some s"
      "\<not> (case Option.bind (Option.bind (pv_sopers st s) sp_operclass) (pv_classes st) of None \<Rightarrow> False | Some D \<Rightarrow> \<not> has_all_operclass st si D)"
    using assms unfolding soper_target_def by (auto split: if_splits option.splits)
  then obtain A where "pv_accounts st mu = Some A" "pa_soper A = Some s" by (cases "pv_accounts st mu") auto
  moreover have "covered st si S" if "pv_sopers st s = Some S" for S using x(2) that by (auto simp: covered_def split: option.splits)
  ultimately show ?thesis by blast
qed

lemma setpass_granted:
  assumes ok: "privs_ok m st" and t: "pv_accounts st mu = Some A" "pa_soper A = Some s" "\<forall>S. pv_sopers st s = Some S \<longrightarrow> covered st si S"
  shows "granted_only st si (upd_soper s (\<lambda>S. S\<lparr>sp_password := pw\<rparr>) st)"
    "granted_only st si (clear_soper_pass mu (upd_soper s (\<lambda>S. S\<lparr>sp_password := pw\<rparr>) st))"
proof -
  note d = privs_butD [OF conjunct1 [OF ok [unfolded privs_ok_def]]]
  obtain S where S: "pv_sopers st s = Some S" "sp_myuser S = Some mu" using links_unique(1) [OF d(4) t(1,2)] by blast
  let ?st = "upd_soper s (\<lambda>S. S\<lparr>sp_password := pw\<rparr>) st"
  have a: "account_soper ?st b = (if Option.bind (pv_accounts st b) pa_soper = Some s then Some (S\<lparr>sp_password := pw\<rparr>) else account_soper st b)" for b
    using S by (cases "Option.bind (pv_accounts st b) pa_soper") (auto simp: account_soper_def upd_soper_def)
  have cov: "covered st si (S\<lparr>sp_password := pw\<rparr>)" using t(3) S(1) by (simp add: covered_def)
  show g: "granted_only st si ?st"
    using a cov by (auto simp: granted_only_def upd_soper_def same_user_def)
  have "account_soper (clear_soper_pass mu ?st) b = account_soper ?st b" for b by (simp add: account_soper_def clear_soper_pass_def)
  then show "granted_only st si (clear_soper_pass mu ?st)"
    using g by (auto simp: granted_only_def clear_soper_pass_def upd_soper_def same_user_def)
qed

lemma soper_granted:
  assumes ok: "privs_ok (pe_mapping E) st"
  shows "granted_only st si (snd (os_cmd_soper E si c parv st))"
proof -
  let ?cmd = "case c of Soper_add \<Rightarrow> os_cmd_soper_add E si parv | Soper_del \<Rightarrow> os_cmd_soper_del E si parv
    | Soper_setpass \<Rightarrow> os_cmd_soper_setpass E si parv"
  have "granted_only st si (snd (?cmd st))"
  proof (cases c)
    case Soper_add
    then show ?thesis using add_granted [OF ok] by simp
  next
    case Soper_del
    have "granted_only st si (soper_delete s st)" for s
      using delete_granted [OF ok, of s] granted_refl by (cases "pv_sopers st s") (simp_all add: soper_delete_def)
    then show ?thesis using Soper_del granted_refl by (simp add: os_cmd_soper_del_def split: sum.splits prod.splits)
  next
    case Soper_setpass
    show ?thesis
    proof (cases "soper_target E si parv st")
      case (Inr x)
      obtain mu s where x: "x = (mu, s)" by fastforce
      obtain A where "pv_accounts st mu = Some A" "pa_soper A = Some s" "\<forall>S. pv_sopers st s = Some S \<longrightarrow> covered st si S"
        using soper_target_Inr [OF Inr [unfolded x]] by blast
      then show ?thesis using setpass_granted [OF ok] Inr x Soper_setpass granted_refl by (auto simp: os_cmd_soper_setpass_def)
    qed (use Soper_setpass granted_refl in \<open>simp add: os_cmd_soper_setpass_def\<close>)
  qed
  then show ?thesis using command_exec_cases [of E si "Some PRIV_GRANT" ?cmd st] granted_refl by (auto simp: os_cmd_soper_def)
qed

lemma granted_operclass: "granted_only st si st' \<Longrightarrow> has_priv_operclass st' x p = has_priv_operclass st x p"
  by (simp add: has_priv_operclass_def granted_only_def)

lemma covered_gives:
  assumes "covered st si S" "has_priv_operclass st (sp_operclass S) p" "p \<noteq> []"
  shows "has_priv st si (Some p)"
proof -
  obtain C where C: "Option.bind (sp_operclass S) (pv_classes st) = Some C" "string_in_list (oc_privs C) p"
    using assms(2) by (auto simp: has_priv_operclass_def split: option.splits)
  then show ?thesis using has_all_gives [OF _ assms(3) C(2)] assms(1) by (simp add: covered_def)
qed

lemma granted_myuser:
  assumes g: "granted_only st si st'" and p: "p \<noteq> []" and h: "has_priv_myuser st' (Some a) (Some p)"
  shows "has_priv_myuser st (Some a) (Some p) \<or> has_priv st si (Some p)"
proof (cases "has_priv_operclass st (pv_authenticated_r st) p")
  case True
  then show ?thesis by (simp add: has_priv_myuser_def)
next
  case False
  have "pv_authenticated_r st' = pv_authenticated_r st" using g by (simp add: granted_only_def)
  then obtain S where S: "account_soper st' a = Some S" "has_priv_operclass st (sp_operclass S) p"
    using h False by (auto simp: has_priv_myuser_def granted_operclass [OF g] split: option.splits if_splits)
  have "account_soper st' a \<in> {account_soper st a, None} \<or> (\<exists>S. account_soper st' a = Some S \<and> covered st si S)"
    using g unfolding granted_only_def by blast
  then consider "account_soper st a = Some S" | "covered st si S" using S(1) by auto
  then show ?thesis
  proof cases
    case 1
    then show ?thesis using S(2) by (simp add: has_priv_myuser_def)
  qed (use covered_gives S(2) p in blast)
qed

text \<open>What an operator gives a client.\<close>

definition soper_gives :: "privs \<Rightarrow> priv_user \<Rightarrow> cstr \<Rightarrow> soper \<Rightarrow> bool" where
  "soper_gives st U p S \<longleftrightarrow>
     (case Option.bind (sp_operclass S) (pv_classes st) of
        None \<Rightarrow> False
      | Some C \<Rightarrow> (oc_flags C AND OPERCLASS_NEEDOPER = 0 \<or> pu_ircop U) \<and> (sp_password S = None \<or> pu_flags U AND UF_SOPER_PASS \<noteq> 0) \<and>
          has_priv_operclass st (sp_operclass S) p)"

lemma has_priv_user_iff:
  "has_priv_user st (Some u) (Some p) \<longleftrightarrow>
     (\<exists>U. pv_users st u = Some U \<and>
        (has_priv_operclass st (pv_user_r st) p \<or> pu_ircop U \<and> has_priv_operclass st (pv_ircop_r st) p \<or>
         pu_myuser U \<noteq> None \<and> has_priv_operclass st (pv_authenticated_r st) p \<or>
         (\<exists>S. Option.bind (pu_myuser U) (account_soper st) = Some S \<and> soper_gives st U p S)))"
  unfolding has_priv_user_def soper_gives_def
  by (cases "pv_users st u"; cases "Option.bind (pu_myuser (the (pv_users st u))) (account_soper st)";
      cases "Option.bind (sp_operclass (the (Option.bind (pu_myuser (the (pv_users st u))) (account_soper st)))) (pv_classes st)") auto

lemma same_user_flags:
  assumes "same_user U' U"
  shows "pu_ircop U' = pu_ircop U" "pu_flags U' AND UF_SOPER_PASS \<noteq> 0 \<Longrightarrow> pu_flags U AND UF_SOPER_PASS \<noteq> 0"
proof -
  have "(f AND NOT UF_SOPER_PASS) AND UF_IRCOP = f AND UF_IRCOP" for f :: u64
    by (simp add: and.assoc UF_SOPER_PASS_def UF_IRCOP_def)
  then show "pu_ircop U' = pu_ircop U" using assms by (auto simp: same_user_def pu_ircop_def)
  have "(f AND NOT UF_SOPER_PASS) AND UF_SOPER_PASS = 0" for f :: u64 by (simp add: and.assoc)
  then show "pu_flags U AND UF_SOPER_PASS \<noteq> 0" if "pu_flags U' AND UF_SOPER_PASS \<noteq> 0"
    using that assms by (auto simp: same_user_def)
qed

lemma granted_user:
  assumes g: "granted_only st si st'" and p: "p \<noteq> []" and h: "has_priv_user st' (Some u) (Some p)"
  shows "has_priv_user st (Some u) (Some p) \<or> has_priv st si (Some p)"
proof -
  have e: "pv_user_r st' = pv_user_r st" "pv_authenticated_r st' = pv_authenticated_r st" "pv_ircop_r st' = pv_ircop_r st"
    "pv_classes st' = pv_classes st" using g by (simp_all add: granted_only_def)
  obtain U' where U': "pv_users st' u = Some U'" using h unfolding has_priv_user_iff by blast
  obtain U where U: "pv_users st u = Some U" "same_user U' U" using g U' unfolding granted_only_def by blast
  note f = same_user_flags [OF U(2)]
  have my: "pu_myuser U' = pu_myuser U" using U(2) by (simp add: same_user_def)
  have h': "has_priv_operclass st (pv_user_r st) p \<or> pu_ircop U \<and> has_priv_operclass st (pv_ircop_r st) p \<or>
      pu_myuser U \<noteq> None \<and> has_priv_operclass st (pv_authenticated_r st) p \<or>
      (\<exists>S. Option.bind (pu_myuser U) (account_soper st') = Some S \<and> soper_gives st' U' p S)"
    using h [unfolded has_priv_user_iff] U' unfolding granted_operclass [OF g] e f(1) [symmetric] my [symmetric] by auto
  consider "has_priv_operclass st (pv_user_r st) p \<or> pu_ircop U \<and> has_priv_operclass st (pv_ircop_r st) p \<or>
      pu_myuser U \<noteq> None \<and> has_priv_operclass st (pv_authenticated_r st) p"
    | S where "Option.bind (pu_myuser U) (account_soper st') = Some S" "soper_gives st' U' p S"
    using h' by blast
  then show ?thesis
  proof cases
    case 1
    then show ?thesis using U(1) unfolding has_priv_user_iff by blast
  next
    case 2
    then obtain a where a: "pu_myuser U = Some a" "account_soper st' a = Some S" by (cases "pu_myuser U") auto
    have gives: "has_priv_operclass st (sp_operclass S) p" "soper_gives st U p S"
      using 2(2) f by (auto simp: soper_gives_def granted_operclass [OF g] e split: option.splits)
    have "account_soper st' a \<in> {account_soper st a, None} \<or> (\<exists>S. account_soper st' a = Some S \<and> covered st si S)"
      using g unfolding granted_only_def by blast
    then consider "account_soper st a = Some S" | "covered st si S" using a(2) by auto
    then show ?thesis
    proof cases
      case 1
      then show ?thesis using U(1) a(1) gives(2) unfolding has_priv_user_iff by auto
    qed (use covered_gives gives(1) p in blast)
  qed
qed

lemma soper_refused: "\<not> has_priv st si (Some PRIV_GRANT) \<Longrightarrow> snd (os_cmd_soper E si c parv st) = st"
  by (simp add: os_cmd_soper_def command_exec_def command_verify_def default_command_authorize_def)

text \<open>
  C30: Nobody grants what they do not have.  If a \<open>SOPER\<close> command, whatever its outcome, leaves an account or a client with a
  privilege it did not have before, then the source of the command may grant privileges and has that privilege
  itself, although classes are lists of names in any case and order, with any spaces between them.
\<close>

theorem soper_no_escalation:
  assumes "privs_reach E st" "os_cmd_soper E si c parv st = (r, st')" "p \<noteq> []"
    and "has_priv_myuser st' (Some a) (Some p) \<and> \<not> has_priv_myuser st (Some a) (Some p) \<or>
         has_priv_user st' (Some u) (Some p) \<and> \<not> has_priv_user st (Some u) (Some p)"
  shows "has_priv st si (Some p) \<and> has_priv st si (Some PRIV_GRANT)"
proof
  have g: "granted_only st si st'" using soper_granted [OF privs_reach_ok [OF assms(1)], of si c parv] assms(2) by simp
  show "has_priv st si (Some p)" using assms(4) granted_myuser [OF g assms(3)] granted_user [OF g assms(3)] by blast
  show "has_priv st si (Some PRIV_GRANT)" using assms(2,4) soper_refused [of st si E c parv] by fastforce
qed

section \<open>Examples\<close>

definition demo_priv_env :: priv_env where
  "demo_priv_env = \<lparr>pe_mapping = MATCH_ASCII, pe_find_ext = (\<lambda>st n. myuser_find_name MATCH_ASCII st n), pe_providers = [], pe_crypt_loaded = False,
     pe_crypt = (\<lambda>s. s), pe_identify_loaded = True, pe_permissive = False, pe_set_access = (\<lambda>a. a)\<rparr>"

text \<open>Two classes, an operator of the configuration named alice, and the accounts alice and bob.\<close>

definition demo_privs :: privs where
  "demo_privs =
     snd (priv_myuser_add MATCH_ASCII ''bob'' (snd (priv_myuser_add MATCH_ASCII ''alice''
       (snd (soper_add MATCH_ASCII ''alice'' ''sra'' SOPER_CONF None
         (snd (operclass_add ''admin'' ''user:admin'' 0
           (snd (operclass_add ''sra'' ''operserv:grant  User:Admin'' 0 (init_privs privs_blank))))))))))"

lemma demo_privs_reach: "privs_reach demo_priv_env demo_privs"
proof -
  have m: "pe_mapping demo_priv_env = MATCH_ASCII" by (simp add: demo_priv_env_def)
  note r = pr_account_add [where E = demo_priv_env, unfolded m]
  show ?thesis unfolding demo_privs_def
    by (intro r pr_soper_add [where E = demo_priv_env, unfolded m] pr_class_add pr_start) (simp_all add: no_nul_def SOPER_CONF_def)
qed

lemma demo_init: "init_privs privs_blank = \<lparr>
  pv_classes = [0 \<mapsto> \<lparr>oc_name = ''user'', oc_privs = '''', oc_flags = 2\<rparr>,
     1 \<mapsto> \<lparr>oc_name = ''authenticated'', oc_privs = ''special:authenticated'', oc_flags = 2\<rparr>,
     2 \<mapsto> \<lparr>oc_name = ''ircop'', oc_privs = '''', oc_flags = 2\<rparr>], pv_classlist = [0, 1, 2],
  pv_sopers = Map.empty, pv_soperlist = [], pv_accounts = Map.empty, pv_names = Map.empty, pv_users = Map.empty,
  pv_user_r = Some 0, pv_authenticated_r = Some 1, pv_ircop_r = Some 2, pv_fresh = 3, pv_cnt_operclass = 3, pv_cnt_soper = 0\<rparr>"
  by (simp add: init_privs_def operclass_add_def operclass_find_def privs_blank_def Let_def strcaseeq_def OPERCLASS_BUILTIN_def AC_AUTHENTICATED_def
    numeral_2_eq_2 numeral_3_eq_3)

lemma canon_ascii: "irccasecanon MATCH_ASCII ''alice'' = ''ALICE''" "irccasecanon MATCH_ASCII ''bob'' = ''BOB''"
  by code_simp+

lemma irccasecmp_refl: "irccasecmp MATCH_ASCII (Some ''alice'') (Some ''alice'') = 0" "irccasecmp MATCH_ASCII (Some ''alice'') (Some ''bob'') \<noteq> 0"
  by code_simp+

definition demo_classes :: "nat \<Rightarrow> operclass option" where
  "demo_classes = [0 \<mapsto> \<lparr>oc_name = ''user'', oc_privs = '''', oc_flags = 2\<rparr>,
     1 \<mapsto> \<lparr>oc_name = ''authenticated'', oc_privs = ''special:authenticated'', oc_flags = 2\<rparr>,
     2 \<mapsto> \<lparr>oc_name = ''ircop'', oc_privs = '''', oc_flags = 2\<rparr>,
     3 \<mapsto> \<lparr>oc_name = ''sra'', oc_privs = ''operserv:grant  User:Admin'', oc_flags = 0\<rparr>,
     4 \<mapsto> \<lparr>oc_name = ''admin'', oc_privs = ''user:admin'', oc_flags = 0\<rparr>]"

lemma demo_privs_eq: "demo_privs = \<lparr>
  pv_classes = demo_classes, pv_classlist = [0, 1, 2, 3, 4],
  pv_sopers = [5 \<mapsto> \<lparr>sp_myuser = Some 6, sp_name = Some ''alice'', sp_operclass = Some 3, sp_classname = ''sra'', sp_flags = 1, sp_password = None\<rparr>],
  pv_soperlist = [5], pv_accounts = [6 \<mapsto> \<lparr>pa_name = ''alice'', pa_soper = Some 5\<rparr>, 7 \<mapsto> \<lparr>pa_name = ''bob'', pa_soper = None\<rparr>],
  pv_names = [''ALICE'' \<mapsto> 6, ''BOB'' \<mapsto> 7], pv_users = Map.empty,
  pv_user_r = Some 0, pv_authenticated_r = Some 1, pv_ircop_r = Some 2, pv_fresh = 8, pv_cnt_operclass = 5, pv_cnt_soper = 1\<rparr>"
proof -
  let ?c = "snd (operclass_add ''admin'' ''user:admin'' 0 (snd (operclass_add ''sra'' ''operserv:grant  User:Admin'' 0 (init_privs privs_blank))))"
  let ?st = "\<lparr> pv_classes = demo_classes, pv_classlist = [0, 1, 2, 3, 4],
    pv_sopers = Map.empty, pv_soperlist = [], pv_accounts = Map.empty, pv_names = Map.empty, pv_users = Map.empty,
    pv_user_r = Some 0, pv_authenticated_r = Some 1, pv_ircop_r = Some 2, pv_fresh = 5, pv_cnt_operclass = 5, pv_cnt_soper = 0\<rparr>"
  have c: "?c = ?st"
    by (simp add: demo_init operclass_add_def operclass_find_def Let_def strcaseeq_def eval_nat_numeral demo_classes_def c_tolower_def is_upper_def)
  let ?s1 = "?st\<lparr>pv_fresh := 6, pv_cnt_soper := 1, pv_soperlist := [5], pv_sopers := [5 \<mapsto> \<lparr>sp_myuser = None, sp_name = Some ''alice'',
    sp_operclass = Some 3, sp_classname = ''sra'', sp_flags = 1, sp_password = None\<rparr>]\<rparr>"
  have f: "operclass_find ?st ''sra'' = Some 3" by (simp add: operclass_find_def strcaseeq_def demo_classes_def c_tolower_def is_upper_def)
  have s: "snd (soper_add MATCH_ASCII ''alice'' ''sra'' SOPER_CONF None ?st) = ?s1"
    using f by (simp add: soper_add_def soper_new_def myuser_find_name_def soper_find_named_def SOPER_CONF_def Let_def)
  show ?thesis
    unfolding demo_privs_def c s
    by (simp add: priv_myuser_add_def myuser_find_name_def canon_ascii soper_find_named_def irccasecmp_refl upd_soper_def Let_def)
qed

text \<open>Alice, who has both privileges, makes bob an operator.\<close>

lemma demo_lists:
  "string_in_list ''operserv:grant  User:Admin'' ''operserv:grant''" "string_in_list ''operserv:grant  User:Admin'' ''user:admin''"
  "string_in_list ''user:admin'' ''user:admin''" "\<not> string_in_list ''special:authenticated'' ''user:admin''"
  "\<not> string_in_list ''special:authenticated'' ''operserv:grant''"
  "strtok_words ''user:admin'' = [''user:admin'']"
  by code_simp+

lemma demo_alice: "account_soper demo_privs 6 = Some \<lparr>sp_myuser = Some 6, sp_name = Some ''alice'', sp_operclass = Some 3,
    sp_classname = ''sra'', sp_flags = 1, sp_password = None\<rparr>" "account_soper demo_privs 7 = None"
  by (simp_all add: account_soper_def demo_privs_eq)

lemma demo_has: "p \<in> {''operserv:grant'', ''user:admin''} \<Longrightarrow> has_priv demo_privs \<lparr>ps_su = None, ps_smu = Some 6\<rparr> (Some p)"
proof -
  have "has_priv_operclass demo_privs (Some 3) ''operserv:grant''" "has_priv_operclass demo_privs (Some 3) ''user:admin''"
    by (simp_all add: has_priv_operclass_def demo_privs_eq demo_classes_def demo_lists)
  then show "p \<in> {''operserv:grant'', ''user:admin''} \<Longrightarrow> has_priv demo_privs \<lparr>ps_su = None, ps_smu = Some 6\<rparr> (Some p)"
    by (auto simp: has_priv_def has_priv_myuser_def demo_alice)
qed

lemma demo_grant:
  "\<exists>st'. os_cmd_soper demo_priv_env \<lparr>ps_su = None, ps_smu = Some 6\<rparr> Soper_add [''bob'', ''admin''] demo_privs = (Inr (), st') \<and>
     has_priv_myuser st' (Some 7) (Some ''user:admin'')"
proof -
  let ?si = "\<lparr>ps_su = None, ps_smu = Some 6\<rparr>"
  let ?new = "soper_new (Some 7) ''bob'' ''admin'' 0 None demo_privs"
  have any: "has_any_privs demo_privs ?si" by (simp add: has_any_privs_def is_soper_def demo_privs_eq)
  have ver: "command_verify demo_priv_env demo_privs ?si (Some PRIV_GRANT) (pe_set_access demo_priv_env (Some PRIV_GRANT))"
    using demo_has by (simp add: command_verify_def default_command_authorize_def demo_priv_env_def PRIV_GRANT_def)
  have ext: "pe_find_ext demo_priv_env demo_privs ''bob'' = Some 7"
    by (simp add: demo_priv_env_def myuser_find_name_def canon_ascii demo_privs_eq)
  have cls: "operclass_find demo_privs ''admin'' = Some 4"
    by (simp add: operclass_find_def strcaseeq_def demo_classes_def c_tolower_def is_upper_def demo_privs_eq)
  have acc: "pv_accounts demo_privs 7 = Some \<lparr>pa_name = ''bob'', pa_soper = None\<rparr>" by (simp add: demo_privs_eq)
  have c4: "pv_classes demo_privs 4 = Some \<lparr>oc_name = ''admin'', oc_privs = ''user:admin'', oc_flags = 0\<rparr>"
    by (simp add: demo_privs_eq demo_classes_def)
  have all: "has_all_operclass demo_privs ?si \<lparr>oc_name = ''admin'', oc_privs = ''user:admin'', oc_flags = 0\<rparr>"
    using demo_has by (simp add: has_all_operclass_def demo_lists)
  have m: "myuser_find_name (pe_mapping demo_priv_env) demo_privs ''bob'' = Some 7"
    by (simp add: demo_priv_env_def myuser_find_name_def canon_ascii demo_privs_eq)
  have sf: "soper_find demo_privs 7 = None" by (simp add: soper_find_def demo_privs_eq)
  have add: "snd (soper_add (pe_mapping demo_priv_env) ''bob'' ''admin'' 0 None demo_privs) = snd ?new"
    unfolding soper_add_def m by (simp add: sf Let_def split: prod.splits)
  have conf: "\<not> is_conf_soper demo_privs (Some 7)" by (simp add: is_conf_soper_def demo_alice)
  have "os_cmd_soper_add demo_priv_env ?si [''bob'', ''admin''] demo_privs = (Inr (), snd ?new)"
    by (simp add: os_cmd_soper_add_def ext cls acc c4 all conf demo_alice add Let_def)
  then have r: "os_cmd_soper demo_priv_env ?si Soper_add [''bob'', ''admin''] demo_privs = (Inr (), snd ?new)"
    using any ver by (simp add: os_cmd_soper_def command_exec_def)
  have b: "privs_but (pe_mapping demo_priv_env) demo_privs" using privs_reach_ok [OF demo_privs_reach] by (simp add: privs_ok_def)
  have "account_soper (snd ?new) 7 = Some \<lparr>sp_myuser = Some 7, sp_name = None, sp_operclass = Some 4, sp_classname = ''admin'',
      sp_flags = 0, sp_password = None\<rparr>" using account_soper_new [OF b acc, of "''bob''" "''admin''" 0 None 7] cls by simp
  moreover have "has_priv_operclass (snd ?new) (Some 4) ''user:admin''"
    by (simp add: has_priv_operclass_def soper_new_fields c4 demo_lists)
  ultimately have "has_priv_myuser (snd ?new) (Some 7) (Some ''user:admin'')" by (simp add: has_priv_myuser_def)
  then show ?thesis using r by blast
qed

theorem soper_no_escalation_witness:
  "has_priv demo_privs \<lparr>ps_su = None, ps_smu = Some 6\<rparr> (Some ''user:admin'')"
proof -
  obtain st' where st': "os_cmd_soper demo_priv_env \<lparr>ps_su = None, ps_smu = Some 6\<rparr> Soper_add [''bob'', ''admin''] demo_privs = (Inr (), st')"
    "has_priv_myuser st' (Some 7) (Some ''user:admin'')" using demo_grant by blast
  have "\<not> has_priv_operclass demo_privs (Some 1) ''user:admin''"
    by (simp add: has_priv_operclass_def demo_privs_eq demo_classes_def demo_lists)
  moreover have "pv_authenticated_r demo_privs = Some 1" by (simp add: demo_privs_eq)
  ultimately have n: "\<not> has_priv_myuser demo_privs (Some 7) (Some ''user:admin'')"
    by (simp add: has_priv_myuser_def demo_alice)
  show ?thesis by (rule soper_no_escalation [OF demo_privs_reach st'(1), of "''user:admin''" 7 0, THEN conjunct1]) (use n st'(2) in simp_all)
qed

theorem privs_invariant_witness: "links_ok demo_privs \<and> builtins_ok demo_privs"
  using privs_invariant [OF demo_privs_reach] by blast

section \<open>The guard of renaming\<close>

text \<open>
  Why both callers of \<open>myuser_rename\<close> (\<open>SET ACCOUNTNAME\<close> and \<open>FUNGROUP\<close> of NickServ) refuse the operators of the
  configuration: \<open>myuser_rename\<close> itself has no such check, and an operator the configuration names is activated for the account
  of that name but keeps the name.  Renamed without the check, the account would share its operator with whoever
  registers the old name, and when that account is dropped the first one would point to a freed operator.
\<close>

lemma rename_needs_guard:
  assumes "privs_reach E st" "pv_accounts st a = Some A" "soper_find_named (pe_mapping E) st name = Some s" "pa_soper A = Some s"
    and "no_nul new" "no_nul name" "irccasecanon (pe_mapping E) name = irccasecanon (pe_mapping E) (pa_name A)"
    and "pv_names st (irccasecanon (pe_mapping E) new) = None"
    and "st1 = priv_myuser_rename (pe_mapping E) a new st" "priv_myuser_add (pe_mapping E) name st1 = (Some b, st2)"
    and "st3 = priv_myuser_delete (pe_mapping E) b st2"
  shows "b \<noteq> a \<and> account_soper st2 a = account_soper st2 b \<and> account_soper st2 b \<noteq> None \<and>
     Option.bind (pv_accounts st3 a) pa_soper = Some s \<and> pv_sopers st3 s = None"
proof -
  let ?m = "pe_mapping E"
  let ?old = "irccasecanon ?m (pa_name A)" and ?new = "irccasecanon ?m new"
  note d = privs_butD [OF conjunct1 [OF privs_reach_ok [OF assms(1), unfolded privs_ok_def]]]
  have o: "pv_names st ?old = Some a" using d(5) assms(2) unfolding accounts_ok_def by blast
  then have ne: "?new \<noteq> ?old" using assms(8) by auto
  obtain S where S: "pv_sopers st s = Some S" "sp_myuser S = Some a" using links_unique(1) [OF d(4) assms(2,4)] by blast
  have s_in: "s \<in> set (pv_soperlist st)" using d(2) S by (auto simp: sopers_ok_def)
  have fresh: "pv_accounts st (pv_fresh st) = None" using d(8) by (simp add: refs_ok_def)
  then have ba: "pv_fresh st \<noteq> a" using assms(2) by auto
  have st1: "st1 = st\<lparr>pv_names := (pv_names st)(?old := None, ?new := Some a), pv_accounts := (pv_accounts st)(a \<mapsto> A\<lparr>pa_name := new\<rparr>)\<rparr>"
    using assms(2,8) ne by (simp add: assms(9) priv_myuser_rename_def upd_account_def dict_add_def)
  have free: "myuser_find_name ?m st1 name = None" using assms(7) ne by (simp add: myuser_find_name_def st1)
  have sn: "soper_find_named ?m st1 name = Some s" using assms(3) by (simp add: soper_find_named_def st1)
  let ?b = "pv_fresh st"
  have "priv_myuser_add ?m name st1 = (Some ?b, upd_soper s (\<lambda>S. S\<lparr>sp_myuser := Some ?b\<rparr>)
      (st1\<lparr>pv_fresh := Suc ?b, pv_names := (pv_names st1)(irccasecanon ?m name := Some ?b),
           pv_accounts := (pv_accounts st1)(?b := Some \<lparr>pa_name = name, pa_soper = Some s\<rparr>)\<rparr>))"
    using free sn by (simp add: priv_myuser_add_def Let_def st1)
  then have b: "b = ?b" and st2: "st2 = upd_soper s (\<lambda>S. S\<lparr>sp_myuser := Some ?b\<rparr>)
      (st1\<lparr>pv_fresh := Suc ?b, pv_names := (pv_names st1)(irccasecanon ?m name := Some ?b),
           pv_accounts := (pv_accounts st1)(?b := Some \<lparr>pa_name = name, pa_soper = Some s\<rparr>)\<rparr>)"
    using assms(10) by auto
  have a2: "pv_accounts st2 a = Some (A\<lparr>pa_name := new\<rparr>)" "pv_accounts st2 b = Some \<lparr>pa_name = name, pa_soper = Some s\<rparr>"
    "pv_sopers st2 s = Some (S\<lparr>sp_myuser := Some b\<rparr>)" "pv_soperlist st2 = pv_soperlist st"
    using ba S by (simp_all add: st2 b upd_soper_def st1)
  have "soper_find st2 b \<noteq> None"
    using s_in a2 unfolding soper_find_def by (auto simp: find_None_iff)
  then obtain t where t: "soper_find st2 b = Some t" by blast
  have st3: "pv_sopers st3 = (pv_sopers st2)(s := None)" "pv_accounts st3 a = pv_accounts st2 a"
    using a2 t ba by (simp_all add: assms(11) priv_myuser_delete_def Let_def soper_delete_fields [OF a2(3)] b)
  have "account_soper st2 a = Some (S\<lparr>sp_myuser := Some b\<rparr>)" "account_soper st2 b = Some (S\<lparr>sp_myuser := Some b\<rparr>)"
    using a2 assms(4) by (simp_all add: account_soper_def)
  then show ?thesis using ba b st3 a2(1) assms(4) by simp
qed

lemma rename_needs_guard_demo:
  "\<exists>st3. st3 = priv_myuser_delete MATCH_ASCII 8 (snd (priv_myuser_add MATCH_ASCII ''alice''
       (priv_myuser_rename MATCH_ASCII 6 ''alicia'' demo_privs))) \<and>
     Option.bind (pv_accounts st3 6) pa_soper = Some 5 \<and> pv_sopers st3 5 = None"
proof -
  have c: "irccasecanon MATCH_ASCII ''alicia'' = ''ALICIA''" by code_simp
  have m: "pe_mapping demo_priv_env = MATCH_ASCII" by (simp add: demo_priv_env_def)
  let ?A = "\<lparr>pa_name = ''alice'', pa_soper = Some 5\<rparr>"
  let ?st1 = "priv_myuser_rename MATCH_ASCII 6 ''alicia'' demo_privs"
  have A: "pv_accounts demo_privs 6 = Some ?A" "pa_soper ?A = Some 5" by (simp_all add: demo_privs_eq)
  have s: "soper_find_named (pe_mapping demo_priv_env) demo_privs ''alice'' = Some 5"
    by (simp add: m soper_find_named_def demo_privs_eq irccasecmp_refl)
  have f: "pv_names demo_privs (irccasecanon (pe_mapping demo_priv_env) ''alicia'') = None" by (simp add: m c demo_privs_eq)
  have n: "no_nul ''alicia''" "no_nul ''alice''" by (simp_all add: no_nul_def)
  have e: "irccasecanon (pe_mapping demo_priv_env) ''alice'' = irccasecanon (pe_mapping demo_priv_env) (pa_name ?A)" by simp
  have "fst (priv_myuser_add MATCH_ASCII ''alice'' ?st1) = Some 8"
    by (simp add: priv_myuser_add_def Let_def myuser_find_name_def priv_myuser_rename_def A canon_ascii c upd_account_def dict_add_def)
       (simp add: demo_privs_eq)
  then have b: "priv_myuser_add (pe_mapping demo_priv_env) ''alice'' ?st1 = (Some 8, snd (priv_myuser_add MATCH_ASCII ''alice'' ?st1))"
    unfolding m by (metis prod.collapse)
  show ?thesis
    using rename_needs_guard [OF demo_privs_reach A(1) s A(2) n e f refl [of "priv_myuser_rename (pe_mapping demo_priv_env) 6 ''alicia'' demo_privs"],
      unfolded m, OF b [unfolded m] refl] by simp
qed

section \<open>The hash as a password\<close>

text \<open>
  The fallback of \<open>crypt_verify_password\<close> compares the input with the stored password as it is, also when that is a
  hash: whoever has read a hash can log in with it.
\<close>

lemma hash_is_password: "crypt_verify_password providers hash hash"
  by (simp add: crypt_verify_password_def)

end
