(* ===== verification/Saslserv.thy ===== *)
theory Saslserv
  imports Codec Object
begin

text \<open>
  The SASL service: the sessions of \<open>modules/saslserv/main.c\<close> and the mechanisms \<open>plain.c\<close>, \<open>external.c\<close>,
  \<open>authcookie.c\<close> and \<open>ecdsa-nist256p-challenge.c\<close> beside it.  What the module asks the rest of the program
  (accounts, passwords, privileges, hooks) are the fields of a record; what it does to the rest of the program
  is a trace of events.  Sessions of a client that was not introduced yet are named by its uid; a pointer to a
  session is modelled by the session's value and its uid, written back with \<open>put_session\<close>.
\<close>

section \<open>Data\<close>

datatype sasl_mech = Plain | External | Authcookie | Ecdsa

definition mech_name :: "sasl_mech \<Rightarrow> cstr" where
  "mech_name m = (case m of Plain \<Rightarrow> ''PLAIN'' | External \<Rightarrow> ''EXTERNAL'' | Authcookie \<Rightarrow> ''AUTHCOOKIE''
     | Ecdsa \<Rightarrow> ''ECDSA-NIST256P-CHALLENGE'')"

type_synonym acct = nat

text \<open>\<open>ecdsa_session_t\<close>: the public key and the challenge exist from the second step on.\<close>

datatype ecdsa_step = Step_accname | Step_response cstr "u8 list"

text \<open>\<open>sasl_session_t\<close>; \<open>ss_buf\<close> is \<open>buf[0 .. len - 1]\<close>.\<close>

record sasl_session =
  ss_uid :: cstr
  ss_buf :: "cstr option"
  ss_marked :: bool
  ss_need_log :: bool
  ss_mech :: "sasl_mech option"
  ss_mechdata :: ecdsa_step
  ss_username :: "cstr option"
  ss_certfp :: "cstr option"
  ss_authzid :: "cstr option"
  ss_host :: "cstr option"
  ss_ip :: "cstr option"
  ss_tls :: bool

text \<open>
  What the module asks the rest of the program: accounts and their metadata, the password and signature
  checks, privileges, hooks.  \<open>se_access\<close> is \<open>myuser_access_verify\<close> of a logged-in client against an account.
\<close>

record sasl_env =
  se_find :: "cstr \<Rightarrow> acct option"
  se_name :: "acct \<Rightarrow> cstr"
  se_nopassword :: "acct \<Rightarrow> bool"
  se_strictaccess :: "acct \<Rightarrow> bool"
  se_waitauth :: "acct \<Rightarrow> bool"
  se_frozen :: "acct \<Rightarrow> bool"
  se_pubkey :: "acct \<Rightarrow> cstr option"
  se_password :: "acct \<Rightarrow> cstr \<Rightarrow> bool"
  se_cookie :: "acct \<Rightarrow> cstr \<Rightarrow> bool"
  se_certfp :: "cstr \<Rightarrow> acct option"
  se_ecdsa :: "cstr \<Rightarrow> cstr \<Rightarrow> u8 list \<Rightarrow> bool"
  se_challenge :: "nat \<Rightarrow> cstr"
  se_can_login :: "acct \<Rightarrow> bool"
  se_priv :: "acct \<Rightarrow> cstr \<Rightarrow> bool"
  se_class :: "acct \<Rightarrow> cstr option"
  se_impersonate_hook :: "acct \<Rightarrow> acct \<Rightarrow> bool"
  se_logins :: "acct \<Rightarrow> nat list"
  se_access :: "nat \<Rightarrow> acct \<Rightarrow> bool"
  se_maxlogins :: nat
  se_use_puid :: bool
  se_stack :: "nat \<Rightarrow> u8 list"

text \<open>Messages sent, calls into other parts, and the life of the \<open>sourceinfo\<close> of \<open>login_user\<close>.\<close>

datatype sasl_event =
    Sasl_sts cstr char cstr
  | Svslogin_sts cstr acct
  | Check_credential cstr acct bool
  | Bad_password acct
  | Myuser_login cstr acct
  | Login_dropped cstr
  | Log_timeout cstr
  | Si_create
  | Si_unref
  | Si_use
  | Notice_strictaccess nat
  | Oob_read
  | Unterminated_write

record sasl_state =
  sl_sessions :: "sasl_session list"
  sl_mechs :: "sasl_mech list"
  sl_random :: nat
  sl_trace :: "sasl_event list"

definition sasl_emit :: "sasl_event list \<Rightarrow> sasl_state \<Rightarrow> sasl_state" where
  "sasl_emit es st = st\<lparr>sl_trace := sl_trace st @ es\<rparr>"

section \<open>Sessions\<close>

definition find_session :: "cstr \<Rightarrow> sasl_state \<Rightarrow> sasl_session option" where
  "find_session uid st = find (\<lambda>p. ss_uid p = uid) (sl_sessions st)"

definition make_session :: "cstr \<Rightarrow> sasl_state \<Rightarrow> sasl_session \<times> sasl_state" where
  "make_session uid st =
     (case find_session uid st of
        Some p \<Rightarrow> (p, st)
      | None \<Rightarrow>
          let p = \<lparr>ss_uid = uid, ss_buf = None, ss_marked = False, ss_need_log = False, ss_mech = None, ss_mechdata = Step_accname,
                   ss_username = None, ss_certfp = None, ss_authzid = None, ss_host = None, ss_ip = None, ss_tls = False\<rparr>
          in (p, st\<lparr>sl_sessions := sl_sessions st @ [p]\<rparr>))"

text \<open>Writing through the pointer to a session; a session is identified by its uid.\<close>

definition put_session :: "sasl_session \<Rightarrow> sasl_state \<Rightarrow> sasl_state" where
  "put_session p st = st\<lparr>sl_sessions := map (\<lambda>q. if ss_uid q = ss_uid p then p else q) (sl_sessions st)\<rparr>"

definition destroy_session :: "sasl_env \<Rightarrow> sasl_session \<Rightarrow> sasl_state \<Rightarrow> sasl_state" where
  "destroy_session E p st =
     sasl_emit (case ss_username p of
                  Some n \<Rightarrow> if ss_need_log p \<and> se_find E n \<noteq> None \<and> \<not> se_use_puid E then [Log_timeout (ss_uid p)] else []
                | None \<Rightarrow> [])
       (st\<lparr>sl_sessions := filter (\<lambda>q. ss_uid q \<noteq> ss_uid p) (sl_sessions st)\<rparr>)"

section \<open>Mechanisms\<close>

datatype sasl_rc = ASASL_FAIL | ASASL_MORE cstr | ASASL_DONE

definition chr8 :: "u8 \<Rightarrow> char" where
  "chr8 b = char_of (unat b)"

text \<open>\<open>memchr(s, '\\0', len)\<close> on the bytes of a message.\<close>

definition memchr_nul :: "cstr \<Rightarrow> nat option" where
  "memchr_nul s = (if NUL \<in> set s then Some (length (takeWhile (\<lambda>c. c \<noteq> NUL) s)) else None)"

text \<open>The string that starts a buffer; \<open>None\<close> when there is no terminator before its end.\<close>

definition string_in :: "cstr \<Rightarrow> cstr option" where
  "string_in buf = (if NUL \<in> set buf then Some (takeWhile (\<lambda>c. c \<noteq> NUL) buf) else None)"

text \<open>A mechanism step: its result, the session, the events.  \<open>msg\<close> are the \<open>len\<close> bytes of the message.\<close>

definition plain_step :: "sasl_env \<Rightarrow> sasl_session \<Rightarrow> cstr \<Rightarrow> sasl_rc \<times> sasl_session \<times> sasl_event list" where
  "plain_step E p msg =
     (case memchr_nul msg of
        None \<Rightarrow> (ASASL_FAIL, p, [])
      | Some i \<Rightarrow>
          if i > 255 \<or> length msg - (i + 1) = 0 then (ASASL_FAIL, p, [])
          else let authz = take i msg; msg1 = drop (i + 1) msg
               in case memchr_nul msg1 of
                    None \<Rightarrow> (ASASL_FAIL, p, [])
                  | Some j \<Rightarrow>
                      if j > 255 \<or> length msg1 - (j + 1) = 0 then (ASASL_FAIL, p, [])
                      else let authc = take j msg1; msg2 = drop (j + 1) msg1;
                               k = (case memchr_nul msg2 of Some k \<Rightarrow> k | None \<Rightarrow> length msg2)
                           in if k > 255 then (ASASL_FAIL, p, [])
                              else case se_find E authc of
                                     None \<Rightarrow> (ASASL_FAIL, p, [])
                                   | Some mu \<Rightarrow>
                                       if se_nopassword E mu then (ASASL_FAIL, p, [])
                                       else let p' = p\<lparr>ss_username := Some authc, ss_authzid := Some authz\<rparr>;
                                                ok = se_password E mu (take k msg2)
                                            in (if ok then ASASL_DONE else ASASL_FAIL, p', [Check_credential (ss_uid p) mu ok]))"

text \<open>\<open>message\<close> is not terminated at its length: the string read from it goes on into the rest of the buffer.\<close>

definition external_step :: "sasl_env \<Rightarrow> sasl_session \<Rightarrow> cstr \<Rightarrow> sasl_rc \<times> sasl_session \<times> sasl_event list" where
  "external_step E p buf =
     (case ss_certfp p of
        None \<Rightarrow> (ASASL_FAIL, p, [])
      | Some fp \<Rightarrow>
          (case se_certfp E fp of
             None \<Rightarrow> (ASASL_FAIL, p, [])
           | Some mu \<Rightarrow>
               (case string_in buf of
                  None \<Rightarrow> (ASASL_FAIL, p, [Oob_read])
                | Some authz \<Rightarrow>
                    (ASASL_DONE, p\<lparr>ss_username := Some (se_name E mu), ss_authzid := Some authz\<rparr>, [Check_credential (ss_uid p) mu True]))))"

text \<open>
  The \<open>authcookie\<close> mechanism uses \<open>strlen\<close> on the message, and subtracts in \<open>size_t\<close>, so that \<open>len <= 0\<close>
  holds of 0 only.
\<close>

type_synonym size_t = "64 word"

definition authcookie_step :: "sasl_env \<Rightarrow> sasl_session \<Rightarrow> cstr \<Rightarrow> nat \<Rightarrow> sasl_rc \<times> sasl_session \<times> sasl_event list" where
  "authcookie_step E p buf len =
     (case string_in buf of
        None \<Rightarrow> (ASASL_FAIL, p, [Oob_read])
      | Some authz \<Rightarrow>
          let len1 = (word_of_nat len :: size_t) - (word_of_nat (length authz) + 1)
          in if length authz > 255 \<or> len1 = 0 then (ASASL_FAIL, p, [])
             else let buf1 = drop (length authz + 1) buf
                  in case string_in buf1 of
                       None \<Rightarrow> (ASASL_FAIL, p, [Oob_read])
                     | Some authc \<Rightarrow>
                         let len2 = len1 - (word_of_nat (length authc) + 1)
                         in if length authc > 255 \<or> len2 = 0 then (ASASL_FAIL, p, [])
                            else case string_in (drop (length authc + 1) buf1) of
                                   None \<Rightarrow> (ASASL_FAIL, p, [Oob_read])
                                 | Some rest \<Rightarrow>
                                     if length rest > 255 then (ASASL_FAIL, p, [])
                                     else case se_find E authc of
                                            None \<Rightarrow> (ASASL_FAIL, p, [])
                                          | Some mu \<Rightarrow>
                                              let ok = se_cookie E mu (take (unat len2) rest)
                                              in (if ok then ASASL_DONE else ASASL_FAIL,
                                                  p\<lparr>ss_username := Some authc, ss_authzid := Some authz\<rparr>, [Check_credential (ss_uid p) mu ok]))"

text \<open>The first step of \<open>ECDSA-NIST256P-CHALLENGE\<close> names the account, the second proves the key.\<close>

definition ecdsa_accname :: "sasl_env \<Rightarrow> nat \<Rightarrow> sasl_session \<Rightarrow> cstr \<Rightarrow> sasl_rc \<times> sasl_session \<times> sasl_event list" where
  "ecdsa_accname E rnd p msg =
     (let (name, authz) = (case memchr_nul msg of
              None \<Rightarrow> (msg, ss_authzid p)
            | Some i \<Rightarrow> (take i msg, Some (takeWhile (\<lambda>c. c \<noteq> NUL) (drop (i + 1) msg))));
          p' = p\<lparr>ss_username := Some name, ss_authzid := authz\<rparr>
      in case Option.bind (se_find E name) (se_pubkey E) of
           None \<Rightarrow> (ASASL_FAIL, p', [])
         | Some key \<Rightarrow>
             (case base64_decode key (Some (replicate BUFSIZE 0)) BUFSIZE of
                Decode_ok n (Some raw) \<Rightarrow>
                  (ASASL_MORE (se_challenge E rnd), p'\<lparr>ss_mechdata := Step_response (se_challenge E rnd) (take n raw)\<rparr>, [])
              | _ \<Rightarrow> (ASASL_FAIL, p', [])))"

definition ecdsa_response :: "sasl_env \<Rightarrow> sasl_session \<Rightarrow> cstr \<Rightarrow> cstr \<Rightarrow> u8 list \<Rightarrow> sasl_rc \<times> sasl_session \<times> sasl_event list" where
  "ecdsa_response E p msg chal key =
     (let ok = se_ecdsa E chal msg key
      in (if ok then ASASL_DONE else ASASL_FAIL, p,
          case Option.bind (ss_username p) (se_find E) of None \<Rightarrow> [] | Some mu \<Rightarrow> [Check_credential (ss_uid p) mu ok]))"

text \<open>\<open>buf\<close> is the whole buffer the message of \<open>len\<close> bytes starts.\<close>

definition mech_step :: "sasl_env \<Rightarrow> nat \<Rightarrow> sasl_mech \<Rightarrow> sasl_session \<Rightarrow> cstr \<Rightarrow> nat \<Rightarrow> sasl_rc \<times> sasl_session \<times> sasl_event list" where
  "mech_step E rnd m p buf len =
     (case m of
        Plain \<Rightarrow> plain_step E p (take len buf)
      | External \<Rightarrow> external_step E p buf
      | Authcookie \<Rightarrow> authcookie_step E p buf len
      | Ecdsa \<Rightarrow>
          (case ss_mechdata p of
             Step_accname \<Rightarrow> ecdsa_accname E rnd p (take len buf)
           | Step_response chal key \<Rightarrow> ecdsa_response E p (take len buf) chal key))"
section \<open>Frames\<close>

text \<open>\<open>sasl_write\<close>: pieces of at most 400 bytes; a last piece of 400, or no data, is followed by an empty one.\<close>

function (sequential) sasl_pieces :: "cstr \<Rightarrow> nat \<Rightarrow> cstr list" where
  "sasl_pieces [] lst = (if lst = 400 then [''+''] else [])"
| "sasl_pieces (c # data) lst =
     (let nbytes = (if length (c # data) > 400 then 400 else length (c # data))
      in take nbytes (c # data) # sasl_pieces (drop nbytes (c # data)) nbytes)"
  by pat_completeness auto
termination sasl_pieces
  by (relation "measure (\<lambda>(data, lst). length data)") auto

definition sasl_write :: "cstr \<Rightarrow> cstr \<Rightarrow> sasl_event list" where
  "sasl_write target data = map (Sasl_sts target (CHR ''C'')) (sasl_pieces data 400)"

text \<open>
  \<open>mechlist_build_string\<close> on a buffer of \<open>buflen\<close> bytes: the bytes written so far, and whether one was
  written behind the end.  \<open>strcpy\<close> writes the name and a terminator, which the comma then replaces.
\<close>

fun mechlist_loop :: "nat \<Rightarrow> cstr list \<Rightarrow> cstr \<Rightarrow> bool \<Rightarrow> cstr \<times> bool" where
  "mechlist_loop buflen [] out bad = (out, bad)"
| "mechlist_loop buflen (name # names) out bad =
     (if length out + length name > buflen then (out, bad)
      else mechlist_loop buflen names (out @ name @ '','') (bad \<or> buflen \<le> length out + length name))"

definition mechlist_build_string :: "nat \<Rightarrow> cstr list \<Rightarrow> cstr \<times> bool" where
  "mechlist_build_string buflen names =
     (let (out, bad) = mechlist_loop buflen names [] False
      in (butlast out, bad \<or> buflen \<le> length (butlast out)))"

section \<open>Logging in\<close>

definition may_impersonate :: "sasl_env \<Rightarrow> acct \<Rightarrow> acct \<Rightarrow> bool" where
  "may_impersonate E src tgt \<longleftrightarrow>
     src = tgt \<or> se_priv E src ''impersonate:any'' \<or>
     se_priv E src (take 511 (''impersonate:class:'' @ (case se_class E tgt of Some c \<Rightarrow> c | None \<Rightarrow> ''user''))) \<or>
     se_priv E src (take 511 (''impersonate:entity:'' @ se_name E tgt)) \<or>
     se_impersonate_hook E src tgt"

text \<open>
  \<open>login_user\<close>.  The events record what happens to its \<open>sourceinfo\<close>: it is created, handed to the hook,
  released, and used and released again.
\<close>

definition login_user :: "sasl_env \<Rightarrow> sasl_session \<Rightarrow> acct option \<times> sasl_session \<times> sasl_event list" where
  "login_user E p =
     (case Option.bind (ss_username p) (se_find E) of
        None \<Rightarrow> (None, p, [])
      | Some src \<Rightarrow>
          if \<not> se_can_login E src then (None, p, [Si_create, Si_use, Si_unref, Si_use])
          else
            let ev = [Si_create, Si_use, Si_unref];
                named = (case ss_authzid p of None \<Rightarrow> False | Some z \<Rightarrow> z \<noteq> []);
                p1 = (if named then p else p\<lparr>ss_authzid := ss_username p\<rparr>);
                tgt = (if named then Option.bind (ss_authzid p) (se_find E) else Some src)
            in case tgt of
                 None \<Rightarrow> (None, p1, ev @ [Si_unref])
               | Some tgt \<Rightarrow>
                   let off = filter (\<lambda>u. \<not> se_access E u tgt) (se_logins E src);
                       ev1 = ev @ (if se_strictaccess E tgt then map Notice_strictaccess off else [])
                   in if se_strictaccess E tgt \<and> off \<noteq> [] then (None, p1, ev1)
                      else if se_frozen E src then (None, p1, ev1 @ [Si_use, Si_unref])
                      else if tgt \<noteq> src \<and> \<not> may_impersonate E src tgt then (None, p1, ev1 @ [Si_use, Si_unref])
                      else if tgt \<noteq> src \<and> (\<not> se_can_login E tgt \<or> se_frozen E tgt) then (None, p1, ev1 @ [Si_use, Si_use, Si_use, Si_unref])
                      else
                        let ev2 = ev1 @ (if tgt \<noteq> src then [Si_use, Si_use] else [])
                        in if se_maxlogins E \<le> length (se_logins E tgt) then (None, p1, ev2 @ [Si_use, Si_unref])
                           else (Some tgt, p1\<lparr>ss_need_log := True\<rparr>, ev2 @ [Si_unref]))"

section \<open>Packets\<close>

text \<open>The end of \<open>sasl_packet\<close> for an authentication that failed.\<close>

definition packet_fail :: "sasl_env \<Rightarrow> sasl_session \<Rightarrow> sasl_state \<Rightarrow> sasl_state" where
  "packet_fail E p st =
     destroy_session E p
       (sasl_emit ((case Option.bind (ss_username p) (se_find E) of None \<Rightarrow> [] | Some mu \<Rightarrow> [Bad_password mu]) @
                   [Sasl_sts (ss_uid p) (CHR ''D'') ''F'']) st)"

definition packet_result :: "sasl_env \<Rightarrow> sasl_rc \<Rightarrow> sasl_session \<Rightarrow> sasl_state \<Rightarrow> sasl_state" where
  "packet_result E rc p0 st0 =
     (let p = p0\<lparr>ss_marked := False\<rparr>; st = put_session p st0
      in case rc of
           ASASL_DONE \<Rightarrow>
             (let (mu, p', ev) = login_user E p; st1 = sasl_emit ev (put_session p' st)
              in case mu of
                   Some mu \<Rightarrow> sasl_emit ((if se_waitauth E mu then [] else [Svslogin_sts (ss_uid p) mu]) @
                                          [Sasl_sts (ss_uid p) (CHR ''D'') ''S'']) st1
                 | None \<Rightarrow> destroy_session E p' (sasl_emit [Sasl_sts (ss_uid p) (CHR ''D'') ''F''] st1))
         | ASASL_MORE out \<Rightarrow>
             if out = [] then sasl_emit [Sasl_sts (ss_uid p) (CHR ''C'') ''+''] st
             else (case base64_encode (map (\<lambda>c. word_of_nat (of_char c)) out) BUFSIZE of
                     Some text \<Rightarrow> sasl_emit (sasl_write (ss_uid p) text) st
                   | None \<Rightarrow> sasl_emit [Unterminated_write] st)
         | ASASL_FAIL \<Rightarrow> packet_fail E p st)"

definition sasl_packet :: "sasl_env \<Rightarrow> sasl_session \<Rightarrow> cstr \<Rightarrow> sasl_state \<Rightarrow> sasl_state" where
  "sasl_packet E p buf st =
     (case ss_mech p of
        None \<Rightarrow>
          if length buf > 60 then destroy_session E p (sasl_emit [Sasl_sts (ss_uid p) (CHR ''D'') ''F''] st)
          else (case find (\<lambda>m. mech_name m = buf) (sl_mechs st) of
                  None \<Rightarrow>
                    destroy_session E p
                      (sasl_emit [Sasl_sts (ss_uid p) (CHR ''M'') (fst (mechlist_build_string 400 (map mech_name (sl_mechs st)))),
                                  Sasl_sts (ss_uid p) (CHR ''D'') ''F''] st)
                | Some m \<Rightarrow> packet_result E (ASASL_MORE []) (p\<lparr>ss_mech := Some m, ss_mechdata := Step_accname\<rparr>) st)
      | Some m \<Rightarrow>
          let step = (\<lambda>text len. let (rc, p', ev) = mech_step E (sl_random st) m p text len
                                 in packet_result E rc p' (sasl_emit ev (st\<lparr>sl_random := sl_random st + 1\<rparr>)))
          in if buf = ''+'' then step [NUL] 0
             else (case base64_decode buf (Some (se_stack E (sl_random st))) BUFSIZE of
                     Decode_ok n (Some raw) \<Rightarrow> if n = 0 then packet_result E ASASL_FAIL p st else step (map chr8 raw) n
                   | _ \<Rightarrow> packet_result E ASASL_FAIL p st))"

section \<open>Messages from the network\<close>

datatype sasl_message = Msg_host cstr cstr "cstr option" | Msg_start cstr "cstr option" | Msg_client cstr | Msg_done | Msg_other

text \<open>Client data: pieces of 400 bytes are collected, a shorter one ends the packet.\<close>

definition sasl_data :: "sasl_env \<Rightarrow> sasl_session \<Rightarrow> cstr \<Rightarrow> sasl_state \<Rightarrow> sasl_state" where
  "sasl_data E p text st =
     (let old = (case ss_buf p of None \<Rightarrow> [] | Some b \<Rightarrow> b)
      in if ss_buf p \<noteq> None \<and> length old + length text + 1 > 8192
         then destroy_session E p (sasl_emit [Sasl_sts (ss_uid p) (CHR ''D'') ''F''] st)
         else if length text < 400
         then let p' = p\<lparr>ss_buf := None\<rparr> in sasl_packet E p' (old @ text) (put_session p' st)
         else put_session (p\<lparr>ss_buf := Some (old @ text)\<rparr>) st)"

definition sasl_input :: "sasl_env \<Rightarrow> cstr \<Rightarrow> sasl_message \<Rightarrow> sasl_state \<Rightarrow> sasl_state" where
  "sasl_input E uid msg st0 =
     (let (p, st) = make_session uid st0
      in case msg of
           Msg_host h i flag \<Rightarrow> put_session (p\<lparr>ss_host := Some h, ss_ip := Some i, ss_tls := ss_tls p \<or> (case flag of None \<Rightarrow> False | Some f \<Rightarrow> f \<noteq> ''P'')\<rparr>) st
         | Msg_start text fp \<Rightarrow>
             (let p' = (if text = ''EXTERNAL'' \<and> fp \<noteq> None then p\<lparr>ss_certfp := fp, ss_tls := True\<rparr> else p)
              in sasl_data E p' text (put_session p' st))
         | Msg_client text \<Rightarrow> sasl_data E p text st
         | Msg_done \<Rightarrow> destroy_session E p st
       | Msg_other \<Rightarrow> st)"

definition sasl_newuser :: "sasl_env \<Rightarrow> cstr \<Rightarrow> sasl_state \<Rightarrow> sasl_state" where
  "sasl_newuser E uid st =
     (case find_session uid st of
        None \<Rightarrow> st
      | Some p0 \<Rightarrow>
          let p = p0\<lparr>ss_need_log := False\<rparr>; st1 = put_session p st
          in case Option.bind (ss_authzid p) (se_find E) of
               None \<Rightarrow> destroy_session E p (sasl_emit [Login_dropped uid] st1)
             | Some mu \<Rightarrow> destroy_session E p (sasl_emit [Myuser_login uid mu] st1))"

text \<open>Every 30 seconds the sessions marked in the previous round go, and the others are marked.\<close>

definition delete_stale :: "sasl_env \<Rightarrow> sasl_state \<Rightarrow> sasl_state" where
  "delete_stale E st =
     fold (\<lambda>p st. if ss_marked p then destroy_session E p st else put_session (p\<lparr>ss_marked := True\<rparr>) st) (sl_sessions st) st"

definition sasl_mech_register :: "sasl_mech \<Rightarrow> sasl_state \<Rightarrow> sasl_state" where
  "sasl_mech_register m st = st\<lparr>sl_mechs := sl_mechs st @ [m]\<rparr>"

definition sasl_mech_unregister :: "sasl_env \<Rightarrow> sasl_mech \<Rightarrow> sasl_state \<Rightarrow> sasl_state" where
  "sasl_mech_unregister E m st =
     (let st1 = fold (\<lambda>p st. if ss_mech p = Some m then destroy_session E p st else st) (sl_sessions st) st
      in st1\<lparr>sl_mechs := remove1 m (sl_mechs st1)\<rparr>)"

section \<open>The session list\<close>

text \<open>Uids are distinct, a session with data has its mechanism, and a partial packet stays below the limit.\<close>

definition sessions_ok :: "sasl_state \<Rightarrow> bool" where
  "sessions_ok st \<longleftrightarrow> distinct (map ss_uid (sl_sessions st))"

lemma sasl_emit_simps [simp]:
  "sl_sessions (sasl_emit es st) = sl_sessions st" "sl_mechs (sasl_emit es st) = sl_mechs st"
  "sl_random (sasl_emit es st) = sl_random st" "sl_trace (sasl_emit es st) = sl_trace st @ es"
  "find_session u (sasl_emit es st) = find_session u st" "sessions_ok (sasl_emit es st) = sessions_ok st"
  "sasl_emit [] st = st" "sasl_emit es' (sasl_emit es st) = sasl_emit (es @ es') st"
  by (simp_all add: sasl_emit_def find_session_def sessions_ok_def)

lemma random_simps [simp]:
  "find_session u (st\<lparr>sl_random := r\<rparr>) = find_session u st" "sessions_ok (st\<lparr>sl_random := r\<rparr>) = sessions_ok st"
  by (simp_all add: find_session_def sessions_ok_def)

lemma put_session_simps [simp]:
  "sl_mechs (put_session p st) = sl_mechs st" "sl_random (put_session p st) = sl_random st"
  "sl_trace (put_session p st) = sl_trace st"
  "map ss_uid (sl_sessions (put_session p st)) = map ss_uid (sl_sessions st)"
  "sessions_ok (put_session p st) = sessions_ok st"
  by (simp_all add: put_session_def sessions_ok_def comp_def if_distrib cong: if_cong)

lemma put_session_emit [simp]: "put_session p (sasl_emit es st) = sasl_emit es (put_session p st)"
  by (simp add: put_session_def sasl_emit_def)

lemma find_session_Some: "find_session u st = Some p \<Longrightarrow> p \<in> set (sl_sessions st) \<and> ss_uid p = u"
  by (auto simp: find_session_def find_Some_iff)

lemma find_session_None: "find_session u st = None \<longleftrightarrow> u \<notin> ss_uid ` set (sl_sessions st)"
  by (auto simp: find_session_def find_None_iff)

lemma find_put:
  assumes "find_session (ss_uid p) st \<noteq> None"
  shows "find_session (ss_uid p) (put_session p st) = Some p"
proof -
  have "find (\<lambda>q. ss_uid q = ss_uid p) ps \<noteq> None \<Longrightarrow>
      find (\<lambda>q. ss_uid q = ss_uid p) (map (\<lambda>q. if ss_uid q = ss_uid p then p else q) ps) = Some p" for ps
    by (induction ps) (auto split: if_splits)
  then show ?thesis using assms by (simp add: find_session_def put_session_def)
qed

lemma find_put_None [simp]: "find_session u (put_session p st) = None \<longleftrightarrow> find_session u st = None"
  using arg_cong [OF put_session_simps(4) [of p st], of set] by (simp only: find_session_None set_map)

lemma put_put [simp]: "ss_uid p = ss_uid q \<Longrightarrow> put_session p (put_session q st) = put_session p st"
  by (simp add: put_session_def comp_def if_distrib cong: if_cong)

lemma put_same:
  assumes "sessions_ok st" "find_session u st = Some p"
  shows "put_session p st = st"
proof -
  have p: "p \<in> set (sl_sessions st)" using find_session_Some [OF assms(2)] by simp
  have "q = p" if "q \<in> set (sl_sessions st)" "ss_uid q = ss_uid p" for q
    using assms(1) that p by (auto simp: sessions_ok_def dest: inj_onD [OF distinct_map [THEN iffD1, THEN conjunct2]])
  then have "map (\<lambda>q. if ss_uid q = ss_uid p then p else q) (sl_sessions st) = sl_sessions st"
    by (intro map_idI) auto
  then show ?thesis by (simp add: put_session_def)
qed

lemma make_session_ok:
  assumes "sessions_ok st" "make_session u st = (p, st')"
  shows "sessions_ok st' \<and> find_session u st' = Some p \<and> ss_uid p = u \<and> sl_trace st' = sl_trace st \<and> sl_mechs st' = sl_mechs st"
proof (cases "find_session u st")
  case None
  have "find_session u st' = Some p" if "sl_sessions st' = sl_sessions st @ [p]" "ss_uid p = u"
  proof -
    have "find P ps = None \<Longrightarrow> P q \<Longrightarrow> find P (ps @ [q]) = Some q" for P ps and q :: sasl_session
      by (induction ps) (auto split: if_splits)
    then show ?thesis using None that by (simp add: find_session_def)
  qed
  then show ?thesis using assms None by (auto simp: make_session_def Let_def sessions_ok_def find_session_None)
next
  case (Some q)
  then show ?thesis using assms find_session_Some [OF Some] by (auto simp: make_session_def)
qed

lemma make_session_found: "find_session u st = Some p \<Longrightarrow> make_session u st = (p, st)"
  by (simp add: make_session_def)

lemma destroy_simps [simp]:
  "sl_mechs (destroy_session E p st) = sl_mechs st" "sl_random (destroy_session E p st) = sl_random st"
  "sl_sessions (destroy_session E p st) = filter (\<lambda>q. ss_uid q \<noteq> ss_uid p) (sl_sessions st)"
  "find_session (ss_uid p) (destroy_session E p st) = None"
  by (auto simp: destroy_session_def find_session_None)

lemma destroy_trace: "\<exists>es. sl_trace (destroy_session E p st) = sl_trace st @ es \<and> set es \<subseteq> {Log_timeout (ss_uid p)}"
  by (auto simp: destroy_session_def split: option.splits)

lemma destroy_ok: "sessions_ok st \<Longrightarrow> sessions_ok (destroy_session E p st)"
  by (auto simp: sessions_ok_def distinct_map_filter)

lemma destroy_put [simp]: "ss_uid q = ss_uid p \<Longrightarrow> destroy_session E p (put_session q st) = destroy_session E p st"
proof -
  assume u: "ss_uid q = ss_uid p"
  have "filter (\<lambda>r. ss_uid r \<noteq> ss_uid p) (map (\<lambda>r. if ss_uid r = ss_uid q then q else r) ps) = filter (\<lambda>r. ss_uid r \<noteq> ss_uid p) ps" for ps
    by (induction ps) (use u in auto)
  then show ?thesis by (simp add: destroy_session_def put_session_def)
qed

lemma destroy_put_emit [simp]:
  "ss_uid q = ss_uid p \<Longrightarrow> destroy_session E p (sasl_emit es (put_session q st)) = destroy_session E p (sasl_emit es st)"
  using destroy_put [of q p E "sasl_emit es st"] by simp

section \<open>Logins\<close>

text \<open>
  \<open>login_approved E u t tr\<close>: in \<open>tr\<close> the credentials of an account were checked for client \<open>u\<close> and found right,
  that account may log in, it is \<open>t\<close> or may impersonate \<open>t\<close>, and the client was told of the success.
\<close>

definition login_allowed :: "sasl_env \<Rightarrow> acct \<Rightarrow> acct \<Rightarrow> bool" where
  "login_allowed E src t \<longleftrightarrow> se_can_login E src \<and> \<not> se_frozen E src \<and>
     (t = src \<or> may_impersonate E src t \<and> se_can_login E t \<and> \<not> se_frozen E t) \<and> length (se_logins E t) < se_maxlogins E"

definition login_approved :: "sasl_env \<Rightarrow> cstr \<Rightarrow> acct \<Rightarrow> sasl_event list \<Rightarrow> bool" where
  "login_approved E u t tr \<longleftrightarrow>
     (\<exists>src. Check_credential u src True \<in> set tr \<and> login_allowed E src t) \<and> Sasl_sts u (CHR ''D'') ''S'' \<in> set tr"

definition no_login :: "sasl_event list \<Rightarrow> bool" where
  "no_login es \<longleftrightarrow> (\<forall>u t. Myuser_login u t \<notin> set es)"

definition logins_ok :: "sasl_env \<Rightarrow> sasl_event list \<Rightarrow> bool" where
  "logins_ok E tr \<longleftrightarrow> (\<forall>pre u t post. tr = pre @ Myuser_login u t # post \<longrightarrow> login_approved E u t pre)"

lemma login_approved_mono: "login_approved E u t tr \<Longrightarrow> login_approved E u t (tr @ es)"
  by (auto simp: login_approved_def)

lemma logins_ok_append:
  assumes "logins_ok E tr" "no_login es"
  shows "logins_ok E (tr @ es)"
  unfolding logins_ok_def
proof (intro allI impI)
  fix pre u t post
  assume eq: "tr @ es = pre @ Myuser_login u t # post"
  have "\<not> length tr \<le> length pre"
  proof
    assume "length tr \<le> length pre"
    then have "drop (length pre - length tr) es = Myuser_login u t # post"
      using arg_cong [OF eq, of "drop (length pre)"] by simp
    then have "Myuser_login u t \<in> set es" by (metis in_set_dropD list.set_intros(1))
    then show False using assms(2) by (simp add: no_login_def)
  qed
  then have "tr = pre @ Myuser_login u t # take (length tr - length pre - 1) post"
    using arg_cong [OF eq, of "take (length tr)"] by (simp add: take_Cons split: nat.splits)
  then show "login_approved E u t pre" using assms(1) unfolding logins_ok_def by blast
qed

lemma logins_ok_snoc:
  assumes "logins_ok E tr" "login_approved E u t tr"
  shows "logins_ok E (tr @ [Myuser_login u t])"
  using assms unfolding logins_ok_def by (auto simp: append_eq_append_conv2 append_eq_Cons_conv Cons_eq_append_conv)

lemma no_login_simps [simp]:
  "no_login []" "no_login (e # es) = ((\<forall>u t. e \<noteq> Myuser_login u t) \<and> no_login es)" "no_login (es @ es') = (no_login es \<and> no_login es')"
  "no_login (map (Sasl_sts u c) xs)" "no_login (map Notice_strictaccess ns)" "no_login (sasl_write u data)"
  by (auto simp: no_login_def sasl_write_def)

lemma login_user_cases:
  assumes "login_user E p = (r, p', ev)"
  shows "no_login ev \<and> ss_uid p' = ss_uid p \<and> ss_mech p' = ss_mech p \<and>
    (\<forall>t. r = Some t \<longrightarrow> (\<exists>src. Option.bind (ss_username p) (se_find E) = Some src \<and> login_allowed E src t) \<and>
       (\<exists>z. ss_authzid p' = Some z \<and> se_find E z = Some t))"
proof (cases "Option.bind (ss_username p) (se_find E)")
  case None
  then show ?thesis using assms by (auto simp: login_user_def)
next
  case (Some src)
  then obtain n where n: "ss_username p = Some n" "se_find E n = Some src" by (cases "ss_username p") auto
  show ?thesis
    using assms n by (auto simp: login_user_def login_allowed_def Let_def split: option.splits if_splits)
qed

text \<open>A mechanism other than the two step one ends its conversation, and succeeds on a credential only.\<close>

definition certfp_names :: "sasl_env \<Rightarrow> bool" where
  "certfp_names E \<longleftrightarrow> (\<forall>fp a. se_certfp E fp = Some a \<longrightarrow> se_find E (se_name E a) = Some a)"

lemma mech_step_cases:
  assumes "mech_step E rnd m p buf len = (rc, p', ev)" "m \<noteq> Ecdsa" "certfp_names E"
  shows "no_login ev \<and> ss_uid p' = ss_uid p \<and> ss_mech p' = ss_mech p \<and> (\<forall>out. rc \<noteq> ASASL_MORE out) \<and>
    (rc = ASASL_DONE \<longrightarrow> (\<exists>src. Check_credential (ss_uid p) src True \<in> set ev \<and> Option.bind (ss_username p') (se_find E) = Some src))"
proof (cases m)
  case Plain
  then show ?thesis using assms(1)
    by (auto simp: mech_step_def plain_step_def Let_def split: option.splits if_splits)
next
  case External
  then show ?thesis using assms(1,3)
    by (auto simp: mech_step_def external_step_def certfp_names_def split: option.splits if_splits)
next
  case Authcookie
  then show ?thesis using assms(1)
    by (auto simp: mech_step_def authcookie_step_def Let_def split: option.splits if_splits)
qed (use assms(2) in simp)

text \<open>The state while the two step mechanism is not loaded.\<close>

definition session_fine :: "sasl_env \<Rightarrow> sasl_event list \<Rightarrow> sasl_session \<Rightarrow> bool" where
  "session_fine E tr p \<longleftrightarrow> ss_mech p \<noteq> Some Ecdsa \<and>
     (\<forall>z. ss_authzid p = Some z \<longrightarrow> (\<exists>t. se_find E z = Some t \<and> login_approved E (ss_uid p) t tr))"

definition sasl_inv :: "sasl_env \<Rightarrow> sasl_state \<Rightarrow> bool" where
  "sasl_inv E st \<longleftrightarrow> sessions_ok st \<and> Ecdsa \<notin> set (sl_mechs st) \<and> logins_ok E (sl_trace st) \<and>
     (\<forall>p \<in> set (sl_sessions st). session_fine E (sl_trace st) p)"

lemma session_fine_mono: "session_fine E tr p \<Longrightarrow> session_fine E (tr @ es) p"
  by (auto simp: session_fine_def intro: login_approved_mono)

lemma inv_emit: "sasl_inv E st \<Longrightarrow> no_login es \<Longrightarrow> sasl_inv E (sasl_emit es st)"
  by (auto simp: sasl_inv_def session_fine_mono logins_ok_append)

lemma inv_put: "sasl_inv E st \<Longrightarrow> session_fine E (sl_trace st) p \<Longrightarrow> sasl_inv E (put_session p st)"
  by (auto simp: sasl_inv_def) (auto simp: put_session_def)

lemma inv_destroy:
  assumes "sasl_inv E st"
  shows "sasl_inv E (destroy_session E p st)"
proof -
  obtain es where "sl_trace (destroy_session E p st) = sl_trace st @ es" "set es \<subseteq> {Log_timeout (ss_uid p)}"
    using destroy_trace by blast
  moreover from this have "no_login es" by (auto simp: no_login_def)
  ultimately show ?thesis
    using assms by (auto simp: sasl_inv_def destroy_ok session_fine_mono logins_ok_append)
qed

lemma inv_random: "sasl_inv E st \<Longrightarrow> sasl_inv E (st\<lparr>sl_random := r\<rparr>)"
  by (simp add: sasl_inv_def)

lemma inv_packet_fail: "sasl_inv E st \<Longrightarrow> ss_uid q = ss_uid p \<Longrightarrow> sasl_inv E (packet_fail E p (put_session q st))"
  by (auto simp: packet_fail_def intro!: inv_destroy inv_emit split: option.splits)

lemma inv_packet_result:
  assumes inv: "sasl_inv E st" and more: "\<And>out. rc = ASASL_MORE out \<Longrightarrow> session_fine E (sl_trace st) p" and m: "ss_mech p \<noteq> Some Ecdsa"
    and check: "rc = ASASL_DONE \<Longrightarrow> \<exists>src. Check_credential (ss_uid p) src True \<in> set (sl_trace st) \<and> Option.bind (ss_username p) (se_find E) = Some src"
  shows "sasl_inv E (packet_result E rc p st)"
proof (cases rc)
  case ASASL_FAIL
  then show ?thesis using inv by (simp add: packet_result_def Let_def inv_packet_fail)
next
  case (ASASL_MORE out)
  have "session_fine E (sl_trace st) (p\<lparr>ss_marked := False\<rparr>)" using more [OF ASASL_MORE] by (simp add: session_fine_def)
  then show ?thesis
    using inv_put [OF inv] ASASL_MORE by (auto simp: packet_result_def Let_def intro!: inv_emit split: option.splits)
next
  case ASASL_DONE
  define q where "q = p\<lparr>ss_marked := False\<rparr>"
  obtain r q' ev where l: "login_user E q = (r, q', ev)" by (metis prod_cases3)
  note c = login_user_cases [OF l]
  have u: "ss_uid q = ss_uid p" "ss_uid q' = ss_uid p" "ss_mech q' = ss_mech p" "ss_username q = ss_username p"
    using c by (simp_all add: q_def)
  show ?thesis
  proof (cases r)
    case None
    then show ?thesis
      using ASASL_DONE inv c l u by (auto simp: packet_result_def Let_def q_def [symmetric] intro!: inv_destroy inv_emit)
  next
    case (Some t)
    define es where "es = ev @ (if se_waitauth E t then [] else [Svslogin_sts (ss_uid p) t]) @ [Sasl_sts (ss_uid p) (CHR ''D'') ''S'']"
    have n: "no_login es" using c by (auto simp: es_def)
    from c Some obtain src z where s: "Option.bind (ss_username q) (se_find E) = Some src" "login_allowed E src t"
        "ss_authzid q' = Some z" "se_find E z = Some t" by blast
    have "Check_credential (ss_uid p) src True \<in> set (sl_trace st)" using check [OF ASASL_DONE] s(1) u by auto
    then have "session_fine E (sl_trace (sasl_emit es st)) q'"
      using s m u by (auto simp: session_fine_def login_approved_def es_def)
    then have "sasl_inv E (put_session q' (sasl_emit es st))" by (rule inv_put [OF inv_emit [OF inv n]])
    moreover have "packet_result E rc p st = put_session q' (sasl_emit es st)"
      using ASASL_DONE Some l u by (simp add: packet_result_def Let_def q_def [symmetric] es_def)
    ultimately show ?thesis by simp
  qed
qed

lemma inv_packet:
  assumes inv: "sasl_inv E st" and p: "session_fine E (sl_trace st) p" and cert: "certfp_names E"
  shows "sasl_inv E (sasl_packet E p buf st)"
proof (cases "ss_mech p")
  case None
  have "ss_mech p \<noteq> Some Ecdsa" using p by (simp add: session_fine_def)
  have "sasl_inv E (packet_result E (ASASL_MORE []) (p\<lparr>ss_mech := Some m, ss_mechdata := Step_accname\<rparr>) st)"
    if "find (\<lambda>m. mech_name m = buf) (sl_mechs st) = Some m" for m
  proof -
    have "m \<in> set (sl_mechs st)" using that by (metis find_Some_iff nth_mem)
    then have "m \<noteq> Ecdsa" using inv by (auto simp: sasl_inv_def)
    then show ?thesis using p by (intro inv_packet_result [OF inv]) (auto simp: session_fine_def)
  qed
  then show ?thesis
    using None inv by (auto simp: sasl_packet_def intro!: inv_destroy inv_emit split: option.splits)
next
  case (Some m)
  then have m: "m \<noteq> Ecdsa" using p by (auto simp: session_fine_def)
  have fail: "sasl_inv E (packet_result E ASASL_FAIL p st)" using p by (intro inv_packet_result [OF inv]) (auto simp: session_fine_def)
  have step: "sasl_inv E (packet_result E rc p' (sasl_emit ev (st\<lparr>sl_random := sl_random st + 1\<rparr>)))"
    if s: "mech_step E (sl_random st) m p dat len = (rc, p', ev)" for dat len rc p' ev
  proof -
    note c = mech_step_cases [OF s m cert]
    have "sasl_inv E (sasl_emit ev (st\<lparr>sl_random := sl_random st + 1\<rparr>))"
      using c by (intro inv_emit inv_random inv) simp
    then show ?thesis using c Some m by (rule_tac inv_packet_result) auto
  qed
  show ?thesis
    using Some fail step by (auto simp: sasl_packet_def Let_def split: decoded.splits option.splits prod.splits)
qed

lemma inv_session: "sasl_inv E st \<Longrightarrow> find_session u st = Some p \<Longrightarrow> session_fine E (sl_trace st) p"
  using find_session_Some by (auto simp: sasl_inv_def)

lemma inv_make:
  assumes "sasl_inv E st" "make_session u st = (p, st')"
  shows "sasl_inv E st' \<and> session_fine E (sl_trace st') p"
proof -
  have ok: "sessions_ok st" using assms(1) by (simp add: sasl_inv_def)
  note m = make_session_ok [OF ok assms(2)]
  have "\<forall>q \<in> set (sl_sessions st'). session_fine E (sl_trace st) q"
    using assms inv_session [OF assms(1)]
    by (auto simp: make_session_def Let_def session_fine_def sasl_inv_def split: option.splits)
  then show ?thesis using m assms(1) find_session_Some by (auto simp: sasl_inv_def)
qed

lemma inv_data:
  assumes inv: "sasl_inv E st" and p: "session_fine E (sl_trace st) p" and cert: "certfp_names E"
  shows "sasl_inv E (sasl_data E p dat st)"
proof -
  have q: "session_fine E (sl_trace st) (p\<lparr>ss_buf := b\<rparr>)" for b using p by (simp add: session_fine_def)
  show ?thesis
    using inv inv_put [OF inv q] inv_packet [OF inv_put [OF inv q] _ cert] q
    by (auto simp: sasl_data_def Let_def intro!: inv_destroy inv_emit)
qed

lemma inv_input:
  assumes inv: "sasl_inv E st" and cert: "certfp_names E"
  shows "sasl_inv E (sasl_input E u msg st)"
proof -
  obtain p st' where m: "make_session u st = (p, st')" by fastforce
  note i = inv_make [OF inv m]
  have q: "session_fine E (sl_trace st') (p\<lparr>ss_host := h, ss_ip := a, ss_tls := b\<rparr>)"
      "session_fine E (sl_trace st') (p\<lparr>ss_certfp := f, ss_tls := b\<rparr>)" for h a b f
    using i by (simp_all add: session_fine_def)
  have d: "sasl_inv E (sasl_data E r dat (put_session r st'))" if "session_fine E (sl_trace st') r" for r dat
    using i that by (intro inv_data inv_put cert) auto
  show ?thesis
    using i q m d by (cases msg) (auto simp: sasl_input_def Let_def intro: inv_put inv_destroy inv_data cert)
qed

lemma inv_newuser:
  assumes inv: "sasl_inv E st"
  shows "sasl_inv E (sasl_newuser E u st)"
proof (cases "find_session u st")
  case None
  then show ?thesis using inv by (simp add: sasl_newuser_def)
next
  case (Some p0)
  have f: "session_fine E (sl_trace st) p0" and u: "ss_uid p0 = u"
    using inv_session [OF inv Some] find_session_Some [OF Some] by auto
  show ?thesis
  proof (cases "Option.bind (ss_authzid p0) (se_find E)")
    case None
    then show ?thesis using Some inv by (auto simp: sasl_newuser_def Let_def intro!: inv_destroy inv_emit)
  next
    case (Some t)
    then have "login_approved E u t (sl_trace st)" using f u by (cases "ss_authzid p0") (auto simp: session_fine_def)
    then have "sasl_inv E (sasl_emit [Myuser_login u t] st)"
      using inv by (auto simp: sasl_inv_def session_fine_mono logins_ok_snoc)
    then show ?thesis using Some \<open>find_session u st = Some p0\<close> by (auto simp: sasl_newuser_def Let_def intro: inv_destroy)
  qed
qed

lemma inv_fold:
  assumes "\<And>x st. x \<in> set xs \<Longrightarrow> sasl_inv E st \<Longrightarrow> sasl_inv E (f x st)" "sasl_inv E st"
  shows "sasl_inv E (fold f xs st)"
  using assms by (induction xs arbitrary: st) auto

lemma inv_stale:
  assumes inv: "sasl_inv E st"
  shows "sasl_inv E (delete_stale E st)"
proof -
  have "sasl_inv E (fold (\<lambda>p st. if ss_marked p then destroy_session E p st else put_session (p\<lparr>ss_marked := True\<rparr>) st) ps st') \<and> True"
    if "sasl_inv E st'" "\<forall>p \<in> set ps. session_fine E (sl_trace st') p" for ps st'
    using that
  proof (induction ps arbitrary: st')
    case (Cons p ps)
    obtain es where es: "sl_trace (destroy_session E p st') = sl_trace st' @ es" using destroy_trace by blast
    show ?case
    proof (cases "ss_marked p")
      case True
      then show ?thesis using Cons.IH [OF inv_destroy [OF Cons.prems(1)]] Cons.prems(2) es by (simp add: session_fine_mono)
    next
      case False
      have "session_fine E (sl_trace st') (p\<lparr>ss_marked := True\<rparr>)" using Cons.prems(2) by (simp add: session_fine_def)
      then show ?thesis using False Cons.IH [OF inv_put [OF Cons.prems(1)]] Cons.prems(2) by simp
    qed
  qed simp
  then show ?thesis using inv by (simp add: delete_stale_def sasl_inv_def)
qed

datatype sasl_op = Op_input cstr sasl_message | Op_newuser cstr | Op_stale | Op_register sasl_mech | Op_unregister sasl_mech

definition sasl_op_run :: "sasl_env \<Rightarrow> sasl_op \<Rightarrow> sasl_state \<Rightarrow> sasl_state" where
  "sasl_op_run E opn st =
     (case opn of Op_input u m \<Rightarrow> sasl_input E u m st | Op_newuser u \<Rightarrow> sasl_newuser E u st | Op_stale \<Rightarrow> delete_stale E st
      | Op_register m \<Rightarrow> sasl_mech_register m st | Op_unregister m \<Rightarrow> sasl_mech_unregister E m st)"

definition sasl_start :: sasl_state where
  "sasl_start = \<lparr>sl_sessions = [], sl_mechs = [], sl_random = 0, sl_trace = []\<rparr>"

lemma inv_op:
  assumes "sasl_inv E st" "certfp_names E" "opn \<noteq> Op_register Ecdsa"
  shows "sasl_inv E (sasl_op_run E opn st)"
proof (cases opn)
  case (Op_register m)
  then show ?thesis using assms by (auto simp: sasl_op_run_def sasl_mech_register_def sasl_inv_def sessions_ok_def)
next
  case (Op_unregister m)
  have "sasl_inv E (fold (\<lambda>p st. if ss_mech p = Some m then destroy_session E p st else st) (sl_sessions st) st)"
    using assms(1) by (intro inv_fold) (auto intro: inv_destroy)
  then show ?thesis
    using Op_unregister by (auto simp: sasl_op_run_def sasl_mech_unregister_def Let_def sasl_inv_def sessions_ok_def dest: notin_set_remove1)
qed (use assms in \<open>simp_all add: sasl_op_run_def inv_input inv_newuser inv_stale\<close>)

lemma inv_run: "sasl_inv E st \<Longrightarrow> certfp_names E \<Longrightarrow> Op_register Ecdsa \<notin> set ops \<Longrightarrow> sasl_inv E (fold (sasl_op_run E) ops st)"
  by (rule inv_fold) (auto intro: inv_op)

lemma sasl_start_inv: "sasl_inv E sasl_start"
  by (simp add: sasl_inv_def sasl_start_def sessions_ok_def logins_ok_def)


text \<open>A small world: accounts 1 (alice) and 2 (bob, who has a public key), passwords are the letter p.\<close>

definition demo_sasl :: sasl_env where
  "demo_sasl =
     \<lparr>se_find = (\<lambda>n. if n = ''alice'' then Some 1 else if n = ''bob'' then Some 2 else None),
      se_name = (\<lambda>a. if a = 1 then ''alice'' else ''bob''), se_nopassword = (\<lambda>_. False), se_strictaccess = (\<lambda>_. False),
      se_waitauth = (\<lambda>_. False), se_frozen = (\<lambda>_. False), se_pubkey = (\<lambda>a. if a = 2 then Some ''AAAA'' else None),
      se_password = (\<lambda>a pw. pw = ''p''), se_cookie = (\<lambda>_ _. False), se_certfp = (\<lambda>_. None), se_ecdsa = (\<lambda>_ _ _. False),
      se_challenge = (\<lambda>_. ''challenge''), se_can_login = (\<lambda>_. True), se_priv = (\<lambda>_ _. False), se_class = (\<lambda>_. None),
      se_impersonate_hook = (\<lambda>_ _. False), se_logins = (\<lambda>_. []), se_access = (\<lambda>_ _. False), se_maxlogins = 5,
      se_use_puid = False, se_stack = (\<lambda>_. replicate BUFSIZE 0)\<rparr>"

section \<open>Messages end to end\<close>

text \<open>The rest of \<open>sasl_packet\<close> behind a mechanism step.\<close>

definition packet_step :: "sasl_env \<Rightarrow> sasl_mech \<Rightarrow> sasl_session \<Rightarrow> cstr \<Rightarrow> nat \<Rightarrow> sasl_state \<Rightarrow> sasl_state" where
  "packet_step E m p buf len st =
     (let (rc, p', ev) = mech_step E (sl_random st) m p buf len
      in packet_result E rc p' (sasl_emit ev (st\<lparr>sl_random := sl_random st + 1\<rparr>)))"

definition stacks_ok :: "sasl_env \<Rightarrow> bool" where
  "stacks_ok E \<longleftrightarrow> (\<forall>n. length (se_stack E n) = BUFSIZE)"

lemma encoding_Nil: "encoding src = [] \<longleftrightarrow> src = []"
  by (cases src rule: encoding.cases) auto

lemma packet_bytes:
  assumes "ss_mech p = Some m" "src \<noteq> []" "length src < BUFSIZE" "stacks_ok E"
  obtains buf where "take (length src) buf = map chr8 src" "sasl_packet E p (encoding src) st = packet_step E m p buf (length src) st"
proof -
  let ?t = "se_stack E (sl_random st)"
  have l: "length ?t = BUFSIZE" using assms(4) by (simp add: stacks_ok_def)
  obtain raw where r: "base64_decode (encoding src) (Some ?t) BUFSIZE = Decode_ok (length src) (Some raw)" "take (length src) raw = src"
    using decode_encoding [of 0 src ?t] assms(3) l by (auto simp: base64_decode_def)
  have "encoding src \<noteq> ''+''" using arg_cong [OF length_encoding [of src], of even] by auto
  then have "sasl_packet E p (encoding src) st = packet_step E m p (map chr8 raw) (length src) st"
    using assms r by (simp add: sasl_packet_def packet_step_def Let_def)
  moreover have "take (length src) (map chr8 raw) = map chr8 src" using r(2) by (simp add: take_map)
  ultimately show thesis by (rule that [rotated])
qed

lemma sasl_client:
  assumes "sessions_ok st" "find_session u st = Some p"
  shows "sasl_input E u (Msg_client s) st = sasl_data E p s st"
  using assms by (simp add: sasl_input_def make_session_found)

text \<open>One piece of client data, seen from the session it leaves.\<close>

lemma client_last:
  assumes ok: "sessions_ok st" "find_session u st = Some p" and s: "length s < 400"
    and l: "\<And>b. ss_buf p = Some b \<Longrightarrow> length b + length s + 1 \<le> 8192"
  shows "sasl_input E u (Msg_client s) st =
    sasl_packet E (p\<lparr>ss_buf := None\<rparr>) ((case ss_buf p of None \<Rightarrow> [] | Some b \<Rightarrow> b) @ s) (put_session (p\<lparr>ss_buf := None\<rparr>) st)"
  using assms by (cases "ss_buf p") (simp_all add: sasl_client sasl_data_def Let_def)

lemma client_more:
  assumes ok: "sessions_ok st" "find_session u st = Some p" and s: "length s = 400"
    and l: "\<And>b. ss_buf p = Some b \<Longrightarrow> length b + length s + 1 \<le> 8192"
  shows "sasl_input E u (Msg_client s) st = put_session (p\<lparr>ss_buf := Some ((case ss_buf p of None \<Rightarrow> [] | Some b \<Rightarrow> b) @ s)\<rparr>) st"
  using assms by (cases "ss_buf p") (simp_all add: sasl_client sasl_data_def Let_def)

text \<open>The pieces of a message, the last one with what the framing adds.\<close>

definition framed :: "cstr \<Rightarrow> cstr" where
  "framed s = (if length s mod 400 = 0 then s @ ''+'' else s)"

lemma pieces_deliver:
  assumes "sessions_ok st" "find_session u st = Some p" "s = [] \<Longrightarrow> lst = 400"
    and "length (case ss_buf p of None \<Rightarrow> [] | Some b \<Rightarrow> b) + length s < 8191"
  shows "fold (\<lambda>x. sasl_input E u (Msg_client x)) (sasl_pieces s lst) st =
    sasl_packet E (p\<lparr>ss_buf := None\<rparr>) ((case ss_buf p of None \<Rightarrow> [] | Some b \<Rightarrow> b) @ framed s) (put_session (p\<lparr>ss_buf := None\<rparr>) st)"
  using assms
proof (induction "length s" arbitrary: s lst st p rule: less_induct)
  case less
  have l: "ss_buf p = Some b \<Longrightarrow> length b + length x + 1 \<le> 8192" if "length x \<le> max 1 (length s)" for b x
    using less.prems(4) that by (auto simp: max_def split: if_splits)
  consider "s = []" | "s \<noteq> []" "length s < 400" | "length s \<ge> 400" by fastforce
  then show ?case
  proof cases
    case 1
    then show ?thesis using less.prems client_last [OF less.prems(1,2) _ l, of "''+''"] by (simp add: framed_def)
  next
    case 2
    then obtain c s' where "s = c # s'" by (cases s) auto
    then have "sasl_pieces s lst = [s]" using 2 by simp
    then show ?thesis using 2 client_last [OF less.prems(1,2) 2(2) l] by (simp add: framed_def)
  next
    case 3
    then obtain c s' where s': "s = c # s'" by (cases s) auto
    then have p: "sasl_pieces s lst = take 400 s # sasl_pieces (drop 400 s) 400"
      using 3 by (auto simp: Let_def not_less le_less_Suc_eq)
    define q where "q = p\<lparr>ss_buf := Some ((case ss_buf p of None \<Rightarrow> [] | Some b \<Rightarrow> b) @ take 400 s)\<rparr>"
    have u: "ss_uid p = u" using find_session_Some [OF less.prems(2)] by simp
    then have q: "ss_uid q = u" by (simp add: q_def)
    have step: "sasl_input E u (Msg_client (take 400 s)) st = put_session q st"
      unfolding q_def using 3 by (intro client_more [OF less.prems(1,2)] l) auto
    have f: "find_session u (put_session q st) = Some q" using find_put [of q st] less.prems(2) q by simp
    have m: "framed s = take 400 s @ framed (drop 400 s)"
      using 3 by (simp add: framed_def le_mod_geq flip: append_assoc)
    have "fold (\<lambda>x. sasl_input E u (Msg_client x)) (sasl_pieces (drop 400 s) 400) (put_session q st) =
        sasl_packet E (q\<lparr>ss_buf := None\<rparr>) ((case ss_buf q of None \<Rightarrow> [] | Some b \<Rightarrow> b) @ framed (drop 400 s))
          (put_session (q\<lparr>ss_buf := None\<rparr>) (put_session q st))"
      using 3 less.prems(1,4) f by (intro less.hyps) (auto simp: q_def split: option.splits)
    then show ?thesis using p step m by (simp add: q_def)
  qed
qed

text \<open>A plus sign behind a base 64 text is no empty piece but one more digit.\<close>

lemma decode_extra:
  assumes "t + length src < length buf"
  shows "decode_loop (length buf) (encoding src @ ''+'') (0, t, Some buf) = Decode_fail"
  using assms
proof (induction src arbitrary: t buf rule: encoding.induct)
  case (1 a b c src)
  define buf2 where "buf2 = take t buf @ [a, b, c] @ drop (t + 3) buf"
  have t3: "t + 3 < length buf \<or> t + 3 = length buf" using 1(2) by auto
  then have l: "length buf2 = length buf" by (auto simp: buf2_def)
  have "t + 3 + length src < length buf2" using 1(2) unfolding l by simp
  from 1(1) [OF this] show ?case
    using decode_group [OF t3, of a b c "encoding src @ ''+''", folded buf2_def] by (simp only: l encoding.simps append_Cons)
next
  case (2 a b)
  then show ?case by (simp add: decode_steps decode_finish_def only_spaces_def is_space_def del: decode_loop.simps(2))
next
  case (3 a)
  then show ?case by (simp add: decode_steps decode_finish_def only_spaces_def is_space_def del: decode_loop.simps(2))
next
  case 4
  have "strchr Base64 (CHR ''+'') = Some 62" by code_simp
  then show ?case using 4 by (simp add: decode_finish_def decode_digit_def is_space_def)
qed

text \<open>A client that has started PLAIN.\<close>

definition demo_session :: sasl_session where
  "demo_session = \<lparr>ss_uid = ''u'', ss_buf = None, ss_marked = False, ss_need_log = False, ss_mech = Some Plain, ss_mechdata = Step_accname,
     ss_username = None, ss_certfp = None, ss_authzid = None, ss_host = None, ss_ip = None, ss_tls = False\<rparr>"

definition demo_started :: sasl_state where
  "demo_started = \<lparr>sl_sessions = [demo_session], sl_mechs = [Plain], sl_random = 0, sl_trace = [Sasl_sts ''u'' (CHR ''C'') ''+'']\<rparr>"

lemma demo_session_ok: "sessions_ok demo_started" "find_session ''u'' demo_started = Some demo_session" "ss_buf demo_session = None"
    "ss_mech demo_session = Some Plain" "stacks_ok demo_sasl" "certfp_names demo_sasl"
  by (simp_all add: sessions_ok_def demo_started_def demo_session_def find_session_def stacks_ok_def certfp_names_def demo_sasl_def)

lemma demo_start:
  "fold (sasl_op_run demo_sasl) [Op_register Plain, Op_input ''u'' (Msg_start ''PLAIN'' None)] sasl_start = demo_started"
  by code_simp

text \<open>
  C37: Messages end to end.  A client that sends the base 64 text of its message in pieces of 400 characters, framed
  as \<open>sasl_write\<close> frames the answers, has exactly the bytes of the message passed to its mechanism, except when
  the length of the text is a multiple of 400: the module does not know the empty last piece that it sends
  itself, takes its plus sign for data, and the authentication fails.
\<close>

theorem sasl_reassembly:
  assumes "sessions_ok st" "find_session u st = Some p" "ss_buf p = None" "ss_mech p = Some m"
    and "base64_encode src n = Some s" "src \<noteq> []" "length src < BUFSIZE" "stacks_ok E"
  shows "\<exists>buf. take (length src) buf = map chr8 src \<and>
    fold (\<lambda>x. sasl_input E u (Msg_client x)) (sasl_pieces s 400) st =
      (if length s mod 400 = 0 then packet_result E ASASL_FAIL p st
       else packet_step E m p buf (length src) st)"
proof -
  have s: "s = encoding src"
    using assms(5) encode_loop_encoding [of n src "[]"] by (auto simp: base64_encode_def split: option.splits if_splits)
  have p: "p\<lparr>ss_buf := None\<rparr> = p" using assms(3) by simp
  have "length s < 8191" using assms(7) by (simp add: s length_encoding BUFSIZE_def)
  then have f: "fold (\<lambda>x. sasl_input E u (Msg_client x)) (sasl_pieces s 400) st = sasl_packet E p (framed s) st"
    using pieces_deliver [OF assms(1,2), of s 400] assms(3) by (simp add: p put_same [OF assms(1,2)])
  obtain buf where b: "take (length src) buf = map chr8 src" "sasl_packet E p (encoding src) st = packet_step E m p buf (length src) st"
    using packet_bytes [OF assms(4,6-8)] by blast
  let ?t = "se_stack E (sl_random st)"
  have l: "length ?t = BUFSIZE" using assms(8) by (simp add: stacks_ok_def)
  then have "base64_decode (encoding src @ ''+'') (Some ?t) BUFSIZE = Decode_fail"
    using decode_extra [of 0 src ?t] assms(7) by (simp add: base64_decode_def)
  moreover have "s \<noteq> []" using assms(6) by (simp add: s encoding_Nil)
  ultimately have "sasl_packet E p (s @ ''+'') st = packet_result E ASASL_FAIL p st"
    using assms(4) by (simp add: sasl_packet_def s)
  then show ?thesis using f b by (intro exI [of _ buf]) (simp add: framed_def s)
qed

text \<open>A message of 300 bytes has a text of 400 characters and is lost.\<close>

theorem sasl_reassembly_witness:
  "\<exists>s. base64_encode (replicate 300 97) BUFSIZE = Some s \<and> length s = 400 \<and>
     fold (\<lambda>x. sasl_input demo_sasl ''u'' (Msg_client x)) (sasl_pieces s 400) demo_started =
     packet_result demo_sasl ASASL_FAIL demo_session demo_started"
proof -
  obtain s where s: "base64_encode (replicate 300 97) BUFSIZE = Some s"
    using encode_loop_fits [of "[]" "replicate 300 97" BUFSIZE] encode_loop_length [of BUFSIZE "replicate 300 97" "[]"]
    by (cases "encode_loop BUFSIZE (replicate 300 97) []") (auto simp: base64_encode_def BUFSIZE_def)
  then have "s = encoding (replicate 300 97)"
    using encode_loop_encoding [of BUFSIZE "replicate 300 97" "[]"] by (auto simp: base64_encode_def split: option.splits if_splits)
  then have l: "length s = 400" by (simp add: length_encoding)
  have h: "replicate 300 (97 :: u8) \<noteq> []" "length (replicate 300 (97 :: u8)) < BUFSIZE" by (simp_all add: BUFSIZE_def)
  show ?thesis
    using sasl_reassembly [OF demo_session_ok(1-4) s h demo_session_ok(5)] s l by auto
qed


section \<open>The two step mechanism\<close>

lemma mech_name_inj: "mech_name m = mech_name m' \<longleftrightarrow> m = m'"
  by (cases m; cases m') (simp_all add: mech_name_def)

lemma find_mech: "m \<in> set ms \<Longrightarrow> find (\<lambda>x. mech_name x = mech_name m) ms = Some m"
  by (induction ms) (auto simp: mech_name_inj)

lemma destroy_quiet: "\<not> ss_need_log p \<Longrightarrow> sl_trace (destroy_session E p st) = sl_trace st"
  by (auto simp: destroy_session_def split: option.splits)

text \<open>A client that starts a mechanism.\<close>

lemma start_mech:
  assumes ok: "sessions_ok st" and new: "find_session u st = None" and m: "m \<in> set (sl_mechs st)" "m \<noteq> External"
  obtains p where "sasl_input E u (Msg_start (mech_name m) None) st = sasl_emit [Sasl_sts u (CHR ''C'') ''+''] (st\<lparr>sl_sessions := sl_sessions st @ [p]\<rparr>)"
    "ss_uid p = u" "ss_mech p = Some m" "ss_mechdata p = Step_accname" "ss_buf p = None" "ss_authzid p = None"
proof -
  define p0 where "p0 = fst (make_session u st)"
  define st1 where "st1 = st\<lparr>sl_sessions := sl_sessions st @ [p0]\<rparr>"
  have ms: "make_session u st = (p0, st1)" using new by (simp add: make_session_def Let_def p0_def st1_def)
  have p0: "ss_uid p0 = u" "ss_mech p0 = None" "ss_buf p0 = None" "ss_authzid p0 = None" "ss_marked p0 = False"
    using new by (simp_all add: p0_def make_session_def Let_def)
  have pn: "p0\<lparr>ss_buf := None\<rparr> = p0" using p0 by simp
  have ok1: "sessions_ok st1" "find_session u st1 = Some p0" using make_session_ok [OF ok ms] by simp_all
  have same: "put_session p0 st1 = st1" by (rule put_same [OF ok1])
  have len: "length (mech_name m) \<le> 60" "length (mech_name m) < 400" "mech_name m \<noteq> ''EXTERNAL''"
    using m(2) by (cases m; simp add: mech_name_def)+
  define p where "p = p0\<lparr>ss_mech := Some m, ss_mechdata := Step_accname\<rparr>"
  have m1: "m \<in> set (sl_mechs st1)" using m(1) by (simp add: st1_def)
  have "sasl_input E u (Msg_start (mech_name m) None) st = sasl_data E p0 (mech_name m) st1"
    using ms len same by (simp add: sasl_input_def Let_def)
  also have "\<dots> = sasl_packet E p0 (mech_name m) st1" using p0 len same by (simp add: sasl_data_def Let_def pn)
  also have "\<dots> = packet_result E (ASASL_MORE []) p st1" using p0 len find_mech [OF m1] by (simp add: sasl_packet_def p_def)
  also have "\<dots> = sasl_emit [Sasl_sts u (CHR ''C'') ''+''] (put_session p st1)"
  proof -
    have "p\<lparr>ss_marked := False\<rparr> = p" "ss_uid p = u" using p0 by (simp_all add: p_def)
    note pm = this
    show ?thesis by (simp add: packet_result_def Let_def pm)
  qed
  also have "put_session p st1 = st\<lparr>sl_sessions := sl_sessions st @ [p]\<rparr>"
  proof -
    have "map (\<lambda>q. if ss_uid q = u then p else q) (sl_sessions st) = sl_sessions st"
      using new by (intro map_idI) (auto simp: find_session_None)
    moreover have "ss_uid p = u" using p0 by (simp add: p_def)
    ultimately show ?thesis using p0(1) by (simp add: put_session_def st1_def)
  qed
  finally have fin: "sasl_input E u (Msg_start (mech_name m) None) st =
      sasl_emit [Sasl_sts u (CHR ''C'') ''+''] (st\<lparr>sl_sessions := sl_sessions st @ [p]\<rparr>)" .
  have pp: "ss_uid p = u" "ss_mech p = Some m" "ss_mechdata p = Step_accname" "ss_buf p = None" "ss_authzid p = None"
    using p0 by (simp_all add: p_def)
  show thesis by (rule that [OF fin pp])
qed

lemma started_ok:
  assumes "sessions_ok st" "find_session u st = None" "ss_uid p = u"
  shows "sessions_ok (sasl_emit es (st\<lparr>sl_sessions := sl_sessions st @ [p]\<rparr>))"
    "find_session u (sasl_emit es (st\<lparr>sl_sessions := sl_sessions st @ [p]\<rparr>)) = Some p"
proof -
  have "find P ps = None \<Longrightarrow> P q \<Longrightarrow> find P (ps @ [q]) = Some q" for P ps and q :: sasl_session
    by (induction ps) (auto split: if_splits)
  then show "sessions_ok (sasl_emit es (st\<lparr>sl_sessions := sl_sessions st @ [p]\<rparr>))"
    "find_session u (sasl_emit es (st\<lparr>sl_sessions := sl_sessions st @ [p]\<rparr>)) = Some p"
    using assms by (auto simp: sessions_ok_def find_session_def find_session_None find_None_iff)
qed

text \<open>
  C36: Login without a credential.  The first message of \<open>ECDSA-NIST256P-CHALLENGE\<close> names an account that has a
  public key and, behind a zero byte, an identity to act as; the module stores the identity in the session
  before it sends the challenge.  A client that is introduced to the network at that point, the challenge not
  answered, is logged into any account it named, although no credential of any account was ever checked for it.
\<close>

theorem ecdsa_bypass:
  assumes "sessions_ok st" "find_session u st = None" "Ecdsa \<in> set (sl_mechs st)" "stacks_ok E"
    and "se_find E own = Some a" "se_pubkey E a = Some key"
    and "base64_decode key (Some (replicate BUFSIZE 0)) BUFSIZE = Decode_ok k (Some raw)"
    and "map chr8 src = own @ NUL # victim" "NUL \<notin> set own" "NUL \<notin> set victim" "se_find E victim = Some v"
    and "base64_encode src n = Some s" "length src \<le> 255"
  shows "\<exists>es. sl_trace (fold (sasl_op_run E)
      [Op_input u (Msg_start ''ECDSA-NIST256P-CHALLENGE'' None), Op_input u (Msg_client s), Op_newuser u] st) =
        sl_trace st @ es @ [Myuser_login u v] \<and>
      (\<forall>w b b'. Check_credential u w b \<notin> set es \<and> Sasl_sts u (CHR ''D'') b' \<notin> set es)"
proof -
  obtain p where st1: "sasl_input E u (Msg_start (mech_name Ecdsa) None) st =
      sasl_emit [Sasl_sts u (CHR ''C'') ''+''] (st\<lparr>sl_sessions := sl_sessions st @ [p]\<rparr>)" (is "_ = ?st1")
    and p: "ss_uid p = u" "ss_mech p = Some Ecdsa" "ss_mechdata p = Step_accname" "ss_buf p = None" "ss_authzid p = None"
    using start_mech [OF assms(1-3), of E] by auto
  note ok1 = started_ok [OF assms(1,2) p(1), of "[Sasl_sts u (CHR ''C'') ''+'']"]
  have s: "s = encoding src"
    using assms(12) encode_loop_encoding [of n src "[]"] by (auto simp: base64_encode_def split: option.splits if_splits)
  have ne: "src \<noteq> []" using assms(8) by auto
  have ls: "length s < 400" using assms(13) by (simp add: s length_encoding)
  have pn: "p\<lparr>ss_buf := None\<rparr> = p" using p by simp
  have bs: "length src < BUFSIZE" using assms(13) by (simp add: BUFSIZE_def)
  obtain buf where buf: "take (length src) buf = map chr8 src"
      "sasl_packet E p (encoding src) ?st1 = packet_step E Ecdsa p buf (length src) ?st1"
    using packet_bytes [OF p(2) ne bs assms(4)] by blast
  have tw: "takeWhile (\<lambda>c. c \<noteq> NUL) (own @ NUL # victim) = own" "takeWhile (\<lambda>c. c \<noteq> NUL) victim = victim"
    using assms(9,10) by (auto simp: takeWhile_append takeWhile_eq_all_conv)
  define p2 where "p2 = p\<lparr>ss_username := Some own, ss_authzid := Some victim,
      ss_mechdata := Step_response (se_challenge E (sl_random st)) (take k raw), ss_marked := False\<rparr>"
  define chal where "chal = se_challenge E (sl_random st)"
  have mem: "memchr_nul (own @ NUL # victim) = Some (length own)" using tw by (simp add: memchr_nul_def)
  have "ecdsa_accname E (sl_random st) p (own @ NUL # victim) =
      (ASASL_MORE chal, p\<lparr>ss_username := Some own, ss_authzid := Some victim, ss_mechdata := Step_response chal (take k raw)\<rparr>, [])"
    unfolding ecdsa_accname_def mem using assms(5-7) tw by (simp add: chal_def)
  then have "packet_step E Ecdsa p buf (length src) ?st1 = packet_result E (ASASL_MORE chal)
      (p\<lparr>ss_username := Some own, ss_authzid := Some victim, ss_mechdata := Step_response chal (take k raw)\<rparr>)
      (?st1\<lparr>sl_random := sl_random ?st1 + 1\<rparr>)"
    using p(3) buf(1) assms(8) by (simp add: packet_step_def mech_step_def)
  moreover have "\<exists>es. packet_result E (ASASL_MORE c) q st' = sasl_emit es (put_session (q\<lparr>ss_marked := False\<rparr>) st') \<and>
      (\<forall>w b b'. Check_credential u w b \<notin> set es \<and> Sasl_sts u (CHR ''D'') b' \<notin> set es)" for c q st'
    by (auto simp: packet_result_def Let_def sasl_write_def split: option.splits)
  ultimately have "\<exists>es. packet_step E Ecdsa p buf (length src) ?st1 = sasl_emit es (put_session p2 (?st1\<lparr>sl_random := sl_random ?st1 + 1\<rparr>)) \<and>
      (\<forall>w b b'. Check_credential u w b \<notin> set es \<and> Sasl_sts u (CHR ''D'') b' \<notin> set es)"
    by (simp add: p2_def chal_def)
  then obtain es where es: "packet_step E Ecdsa p buf (length src) ?st1 = sasl_emit es (put_session p2 (?st1\<lparr>sl_random := sl_random ?st1 + 1\<rparr>))"
    "\<forall>w b b'. Check_credential u w b \<notin> set es \<and> Sasl_sts u (CHR ''D'') b' \<notin> set es" by blast
  let ?st2 = "sasl_emit es (put_session p2 (?st1\<lparr>sl_random := sl_random ?st1 + 1\<rparr>))"
  have st2: "sasl_input E u (Msg_client s) ?st1 = ?st2"
    using client_last [OF ok1 ls] p(4) pn buf(2) es(1) put_same [OF ok1] by (simp add: s)
  have "ss_uid p2 = u" by (simp add: p2_def p)
  then have "find_session u ?st2 = Some p2" using find_put [of p2 "?st1\<lparr>sl_random := sl_random ?st1 + 1\<rparr>"] ok1(2) by simp
  then have "sl_trace (sasl_newuser E u ?st2) = sl_trace ?st2 @ [Myuser_login u v]"
    using assms(11) by (simp add: sasl_newuser_def Let_def destroy_quiet p2_def)
  then have "sl_trace (sasl_newuser E u (sasl_input E u (Msg_client s) (sasl_input E u (Msg_start (mech_name Ecdsa) None) st))) =
      sl_trace st @ (Sasl_sts u (CHR ''C'') ''+'' # es) @ [Myuser_login u v]"
    unfolding st1 st2 by simp
  then show ?thesis
    using es(2) by (intro exI [of _ "Sasl_sts u (CHR ''C'') ''+'' # es"]) (simp add: sasl_op_run_def mech_name_def)
qed

text \<open>Bob has a key; a client that names him, and asks to act as alice, is logged in as alice.\<close>

definition demo_ecdsa :: sasl_state where
  "demo_ecdsa = \<lparr>sl_sessions = [], sl_mechs = [Ecdsa], sl_random = 0, sl_trace = []\<rparr>"

theorem ecdsa_bypass_witness:
  "\<exists>es. sl_trace (fold (sasl_op_run demo_sasl)
      [Op_input ''u'' (Msg_start ''ECDSA-NIST256P-CHALLENGE'' None), Op_input ''u'' (Msg_client ''Ym9iAGFsaWNl''), Op_newuser ''u''] demo_ecdsa) =
        es @ [Myuser_login ''u'' 1]"
proof -
  let ?src = "[98, 111, 98, 0, 97, 108, 105, 99, 101] :: u8 list"
  have st: "sessions_ok demo_ecdsa" "find_session ''u'' demo_ecdsa = None" "Ecdsa \<in> set (sl_mechs demo_ecdsa)"
    by (simp_all add: demo_ecdsa_def sessions_ok_def find_session_def)
  have acc: "se_find demo_sasl ''bob'' = Some 2" "se_pubkey demo_sasl 2 = Some ''AAAA''" "se_find demo_sasl ''alice'' = Some 1"
    by (simp_all add: demo_sasl_def)
  have e0: "encoding [0, 0, 0] = ''AAAA''" by code_simp
  have "length [0, 0, 0 :: u8] < length (replicate BUFSIZE (0 :: u8))" by (simp add: BUFSIZE_def)
  then obtain raw where raw: "base64_decode ''AAAA'' (Some (replicate BUFSIZE 0)) BUFSIZE = Decode_ok 3 (Some raw)"
    using decode_encoding [of 0 "[0, 0, 0]" "replicate BUFSIZE 0"] unfolding e0 by (auto simp: base64_decode_def eval_nat_numeral)
  have m: "map chr8 ?src = ''bob'' @ NUL # ''alice''" "NUL \<notin> set ''bob''" "NUL \<notin> set ''alice''" by code_simp+
  have s: "base64_encode ?src 100 = Some ''Ym9iAGFsaWNl''" by code_simp
  show ?thesis
    using ecdsa_bypass [OF st demo_session_ok(5) acc(1,2) raw m acc(3) s] by (auto simp: demo_ecdsa_def)
qed

section \<open>Isolation and timeouts\<close>

lemma find_put_other [simp]: "ss_uid p \<noteq> u \<Longrightarrow> find_session u (put_session p st) = find_session u st"
proof -
  assume u: "ss_uid p \<noteq> u"
  have "find (\<lambda>q. ss_uid q = u) (map (\<lambda>q. if ss_uid q = ss_uid p then p else q) ps) = find (\<lambda>q. ss_uid q = u) ps" for ps
    by (induction ps) (use u in auto)
  then show ?thesis by (simp add: find_session_def put_session_def)
qed

lemma find_destroy_other [simp]: "ss_uid p \<noteq> u \<Longrightarrow> find_session u (destroy_session E p st) = find_session u st"
proof -
  assume u: "ss_uid p \<noteq> u"
  have "find (\<lambda>q. ss_uid q = u) (filter (\<lambda>q. ss_uid q \<noteq> ss_uid p) ps) = find (\<lambda>q. ss_uid q = u) ps" for ps
    by (induction ps) (use u in auto)
  then show ?thesis by (simp add: find_session_def)
qed

lemma step_uid: "mech_step E rnd m p buf len = (rc, p', ev) \<Longrightarrow> ss_uid p' = ss_uid p"
  by (cases m) (auto simp: mech_step_def plain_step_def external_step_def authcookie_step_def ecdsa_accname_def ecdsa_response_def Let_def
      split: option.splits if_splits ecdsa_step.splits decoded.splits)

lemma find_packet_result [simp]:
  assumes u: "ss_uid p \<noteq> u"
  shows "find_session u (packet_result E rc p st) = find_session u st"
proof -
  obtain r p' ev where l: "login_user E (p\<lparr>ss_marked := False\<rparr>) = (r, p', ev)" by (metis prod_cases3)
  have "ss_uid p' \<noteq> u" using login_user_cases [OF l] u by simp
  then show ?thesis
    using u l by (cases rc) (auto simp: packet_result_def packet_fail_def Let_def split: option.splits)
qed

lemma find_packet [simp]: "ss_uid p \<noteq> u \<Longrightarrow> find_session u (sasl_packet E p buf st) = find_session u st"
  by (auto simp: sasl_packet_def Let_def step_uid split: option.splits decoded.splits prod.splits)

lemma find_data [simp]: "ss_uid p \<noteq> u \<Longrightarrow> find_session u (sasl_data E p s st) = find_session u st"
  by (auto simp: sasl_data_def Let_def)

lemma find_input_other:
  assumes "sessions_ok st" "w \<noteq> u"
  shows "find_session u (sasl_input E w msg st) = find_session u st"
proof -
  obtain p st' where m: "make_session w st = (p, st')" by fastforce
  have p: "ss_uid p \<noteq> u" using make_session_ok [OF assms(1) m] assms(2) by simp
  have "find P ps = None \<Longrightarrow> \<not> P q \<Longrightarrow> find P (ps @ [q]) = None" "find P ps = Some r \<Longrightarrow> find P (ps @ [q]) = Some r" for P ps r and q :: sasl_session
    by (induction ps) (auto split: if_splits)
  then have "find_session u st' = find_session u st"
    using m assms(2) by (cases "find_session u st") (auto simp: make_session_def Let_def find_session_def split: option.splits)
  then show ?thesis using m p by (cases msg) (simp_all add: sasl_input_def Let_def)
qed

lemma find_newuser_other:
  assumes "w \<noteq> u"
  shows "find_session u (sasl_newuser E w st) = find_session u st"
proof (cases "find_session w st")
  case (Some p)
  then have "ss_uid p \<noteq> u" using find_session_Some [OF Some] assms by simp
  then show ?thesis using Some by (simp add: sasl_newuser_def Let_def split: option.splits)
qed (simp add: sasl_newuser_def)

text \<open>A round of the timer.\<close>

lemma stale_sessions:
  assumes "sessions_ok st"
  shows "sl_sessions (delete_stale E st) = map (\<lambda>p. p\<lparr>ss_marked := True\<rparr>) (filter (\<lambda>p. \<not> ss_marked p) (sl_sessions st))"
proof -
  let ?f = "\<lambda>p st. if ss_marked p then destroy_session E p st else put_session (p\<lparr>ss_marked := True\<rparr>) st"
  have "sl_sessions (fold ?f ps st') = done @ map (\<lambda>p. p\<lparr>ss_marked := True\<rparr>) (filter (\<lambda>p. \<not> ss_marked p) ps)"
    if "sl_sessions st' = done @ ps" "distinct (map ss_uid (done @ ps))" for ps st' "done"
    using that
  proof (induction ps arbitrary: st' "done")
    case (Cons p ps)
    have out: "q \<in> set done \<union> set ps \<Longrightarrow> ss_uid q \<noteq> ss_uid p" for q using Cons.prems(2) by (auto simp: rev_image_eqI)
    then have id: "filter (\<lambda>q. ss_uid q \<noteq> ss_uid p) done = done" "filter (\<lambda>q. ss_uid q \<noteq> ss_uid p) ps = ps"
      "map (\<lambda>q. if ss_uid q = ss_uid p then r else q) done = done" "map (\<lambda>q. if ss_uid q = ss_uid p then r else q) ps = ps" for r
      by (auto intro!: filter_True map_idI)
    show ?case
    proof (cases "ss_marked p")
      case True
      then show ?thesis using Cons.IH [of "destroy_session E p st'" "done"] Cons.prems id by simp
    next
      case False
      have "sl_sessions (put_session (p\<lparr>ss_marked := True\<rparr>) st') = (done @ [p\<lparr>ss_marked := True\<rparr>]) @ ps"
        using Cons.prems(1) id by (simp add: put_session_def)
      then show ?thesis using False Cons.IH [of _ "done @ [p\<lparr>ss_marked := True\<rparr>]"] Cons.prems(2) by simp
    qed
  qed simp
  from this [of st "[]" "sl_sessions st"] show ?thesis using assms by (simp add: delete_stale_def sessions_ok_def)
qed

lemma stale_ok: "sessions_ok st \<Longrightarrow> sessions_ok (delete_stale E st)"
  using stale_sessions [of st E] by (simp add: sessions_ok_def comp_def distinct_map_filter)

lemma stale_find:
  assumes "sessions_ok st"
  shows "find_session u (delete_stale E st) =
    (case find_session u st of Some p \<Rightarrow> if ss_marked p then None else Some (p\<lparr>ss_marked := True\<rparr>) | None \<Rightarrow> None)"
proof -
  have "distinct (map ss_uid ps) \<Longrightarrow>
      find (\<lambda>p. ss_uid p = u) (map (\<lambda>p. p\<lparr>ss_marked := True\<rparr>) (filter (\<lambda>p. \<not> ss_marked p) ps)) =
      (case find (\<lambda>p. ss_uid p = u) ps of Some p \<Rightarrow> if ss_marked p then None else Some (p\<lparr>ss_marked := True\<rparr>) | None \<Rightarrow> None)" for ps
  proof (induction ps)
    case (Cons a ps)
    show ?case
    proof (cases "ss_uid a = u")
      case True
      then have "find (\<lambda>p. ss_uid p = u) ps = None" using Cons.prems by (force simp: find_None_iff image_iff)
      then show ?thesis using True Cons by auto
    next
      case False
      then show ?thesis using Cons by auto
    qed
  qed simp
  then show ?thesis using assms by (simp add: find_session_def stale_sessions sessions_ok_def)
qed

lemma sessions_ok_packet: "sessions_ok st \<Longrightarrow> sessions_ok (packet_result E rc p st)"
  by (cases rc) (auto simp: packet_result_def packet_fail_def Let_def split: option.splits prod.splits intro!: destroy_ok)

lemma sessions_ok_sasl_packet:
  assumes "sessions_ok st"
  shows "sessions_ok (sasl_packet E p buf st)"
proof (cases "ss_mech p")
  case None
  then show ?thesis using assms
    by (simp add: sasl_packet_def destroy_ok sessions_ok_packet split: option.splits)
next
  case (Some m)
  have "sessions_ok (packet_result E rc p' (sasl_emit ev (st\<lparr>sl_random := r\<rparr>)))" for rc p' ev r
    using assms by (intro sessions_ok_packet) simp
  then show ?thesis
    using Some sessions_ok_packet [OF assms] by (simp add: sasl_packet_def Let_def split: decoded.split option.split prod.split)
qed

lemma sessions_ok_data: "sessions_ok st \<Longrightarrow> sessions_ok (sasl_data E p s st)"
  by (simp add: sasl_data_def Let_def destroy_ok sessions_ok_sasl_packet)

lemma sessions_ok_op:
  assumes "sessions_ok st"
  shows "sessions_ok (sasl_op_run E opn st)"
proof (cases opn)
  case (Op_input u m)
  obtain p st' where ms: "make_session u st = (p, st')" by fastforce
  have "sessions_ok st'" using make_session_ok [OF assms ms] by simp
  then show ?thesis
    using Op_input ms by (cases m) (auto simp: sasl_op_run_def sasl_input_def Let_def intro!: destroy_ok sessions_ok_data)
next
  case (Op_newuser u)
  then show ?thesis
    using assms by (auto simp: sasl_op_run_def sasl_newuser_def Let_def intro!: destroy_ok split: option.splits)
next
  case (Op_unregister m)
  have "sessions_ok (fold (\<lambda>p st. if ss_mech p = Some m then destroy_session E p st else st) ps st')" if "sessions_ok st'" for ps st'
    using that by (induction ps arbitrary: st') (auto simp: destroy_ok)
  then show ?thesis
    using Op_unregister assms by (auto simp: sasl_op_run_def sasl_mech_unregister_def Let_def) (simp add: sessions_ok_def)
next
  case (Op_register m)
  then show ?thesis using assms by (simp add: sasl_op_run_def sasl_mech_register_def sessions_ok_def)
qed (use assms in \<open>simp add: sasl_op_run_def stale_ok\<close>)

definition op_about :: "cstr \<Rightarrow> sasl_op \<Rightarrow> bool" where
  "op_about u opn = (case opn of Op_input w _ \<Rightarrow> w = u | Op_newuser w \<Rightarrow> w = u | _ \<Rightarrow> False)"

text \<open>What concerns other clients leaves a session alone, or ends it with its mechanism or its time.\<close>

lemma op_other:
  assumes "sessions_ok st" "\<not> op_about u opn"
  shows "find_session u (sasl_op_run E opn st) = find_session u st \<or> find_session u (sasl_op_run E opn st) = None \<or>
    opn = Op_stale"
proof (cases opn)
  case (Op_unregister m)
  have "find_session u (fold (\<lambda>p st. if ss_mech p = Some m then destroy_session E p st else st) ps st') \<in> {find_session u st', None}" for ps st'
  proof (induction ps arbitrary: st')
    case (Cons p ps)
    have "find_session u (destroy_session E p st') \<in> {find_session u st', None}"
      by (cases "ss_uid p = u") auto
    then show ?case using Cons.IH [of "destroy_session E p st'"] Cons.IH [of st'] by auto
  qed simp
  from this [of "sl_sessions st" st] show ?thesis
    using Op_unregister by (auto simp: sasl_op_run_def sasl_mech_unregister_def Let_def find_session_def)
next
  case (Op_register m)
  then show ?thesis by (simp add: sasl_op_run_def sasl_mech_register_def find_session_def)
qed (use assms in \<open>auto simp: op_about_def sasl_op_run_def find_input_other find_newuser_other\<close>)

lemma gone_or_marked:
  assumes "sessions_ok st" "\<And>p. find_session u st = Some p \<Longrightarrow> ss_marked p" "\<forall>opn \<in> set ops. \<not> op_about u opn"
  shows "sessions_ok (fold (sasl_op_run E) ops st) \<and> (\<forall>p. find_session u (fold (sasl_op_run E) ops st) = Some p \<longrightarrow> ss_marked p)"
  using assms
proof (induction ops arbitrary: st)
  case (Cons opn ops)
  have "ss_marked p" if "find_session u (sasl_op_run E opn st) = Some p" for p
  proof (cases "opn = Op_stale")
    case True
    then show ?thesis using that Cons.prems(1) by (auto simp: sasl_op_run_def stale_find split: option.splits if_splits)
  next
    case False
    then show ?thesis using op_other [OF Cons.prems(1), of u opn E] Cons.prems(2,3) that by auto
  qed
  then have "sessions_ok (fold (sasl_op_run E) ops (sasl_op_run E opn st)) \<and>
      (\<forall>p. find_session u (fold (sasl_op_run E) ops (sasl_op_run E opn st)) = Some p \<longrightarrow> ss_marked p)"
    using Cons.prems(3) by (intro Cons.IH sessions_ok_op Cons.prems(1)) auto
  then show ?case by simp
qed simp

text \<open>
  C38: Sessions end.  A session that its client does not touch between two rounds of the timer is gone after the
  second, whatever the other clients do and whichever modules come and go in between.
\<close>

theorem stale_session_ends:
  assumes "sessions_ok st" "\<forall>opn \<in> set ops. \<not> op_about u opn"
  shows "find_session u (delete_stale E (fold (sasl_op_run E) ops (delete_stale E st))) = None"
proof -
  have m: "find_session u (delete_stale E st) = Some p \<Longrightarrow> ss_marked p" for p
    using assms(1) by (auto simp: stale_find split: option.splits if_splits)
  have g: "sessions_ok (fold (sasl_op_run E) ops (delete_stale E st)) \<and>
      (\<forall>p. find_session u (fold (sasl_op_run E) ops (delete_stale E st)) = Some p \<longrightarrow> ss_marked p)"
    by (rule gone_or_marked [OF stale_ok [OF assms(1)] m assms(2)])
  then show ?thesis by (auto simp: stale_find split: option.splits)
qed

text \<open>A second client aborts while the first only named a mechanism.\<close>

theorem stale_session_ends_witness:
  "find_session ''u'' (delete_stale demo_sasl (fold (sasl_op_run demo_sasl) [Op_input ''w'' Msg_done]
     (delete_stale demo_sasl demo_started))) = None"
  using demo_session_ok by (intro stale_session_ends) (auto simp: op_about_def)

section \<open>The life of the source information\<close>

text \<open>
  Use after free at every SASL login.  \<open>login_user\<close> gives up its only reference to the \<open>sourceinfo\<close> right behind the
  hook, which disposes of the object and calls its destructor; every way on through the function uses the freed
  object or releases it again, a successful login included, except the refusal for \<open>STRICTACCESS\<close>.
\<close>

theorem login_user_after_free:
  assumes "login_user E p = (r, p', ev)" "ev \<noteq> []"
  shows "refcount (fst (object_unref (object_init True obj))) = - 1 \<and> Call_destructor \<in> set (snd (object_unref (object_init True obj))) \<and>
    (\<exists>rest. ev = Si_create # Si_use # Si_unref # rest \<and>
       ((Si_use \<in> set rest \<or> Si_unref \<in> set rest) \<or> r = None \<and> (\<exists>n. Notice_strictaccess n \<in> set rest)) \<and>
       (\<forall>t. r = Some t \<longrightarrow> Si_unref \<in> set rest))"
proof -
  have o: "refcount (fst (object_unref (object_init True obj))) = - 1" "Call_destructor \<in> set (snd (object_unref (object_init True obj)))"
    by (simp_all add: object_unref_def object_init_def object_sink_ref_def object_dispose_def)
  show ?thesis
  proof (cases "Option.bind (ss_username p) (se_find E)")
    case None
    then show ?thesis using assms by (simp add: login_user_def)
  next
    case (Some src)
    then obtain n where n: "ss_username p = Some n" "se_find E n = Some src" by (cases "ss_username p") auto
    have "filter P xs \<noteq> [] \<Longrightarrow> \<exists>n. Notice_strictaccess n \<in> set (map Notice_strictaccess (filter P xs))" for P xs
      by (auto simp: filter_empty_conv)
    then have "\<exists>rest. ev = Si_create # Si_use # Si_unref # rest \<and>
       ((Si_use \<in> set rest \<or> Si_unref \<in> set rest) \<or> r = None \<and> (\<exists>n. Notice_strictaccess n \<in> set rest)) \<and>
       (\<forall>t. r = Some t \<longrightarrow> Si_unref \<in> set rest)"
      using assms n by (auto simp: login_user_def Let_def split: option.splits if_splits)
    then show ?thesis using o by blast
  qed
qed

theorem login_user_after_free_witness:
  "refcount (fst (object_unref (object_init True \<lparr>refcount = 0, destructor = False, metadata = None :: nat option, privatedata = None :: nat option\<rparr>))) = - 1 \<and>
   fst (login_user demo_sasl (demo_session\<lparr>ss_username := Some ''alice''\<rparr>)) = Some 1"
proof -
  have l: "login_user demo_sasl (demo_session\<lparr>ss_username := Some ''alice''\<rparr>) =
      (Some 1, demo_session\<lparr>ss_username := Some ''alice'', ss_authzid := Some ''alice'', ss_need_log := True\<rparr>,
       [Si_create, Si_use, Si_unref, Si_unref])"
    by (simp add: login_user_def demo_sasl_def demo_session_def Let_def)
  show ?thesis
    using login_user_after_free [OF l, of "\<lparr>refcount = 0, destructor = False, metadata = None :: nat option, privatedata = None :: nat option\<rparr>"] l
    by simp
qed

text \<open>
  The access list option \<open>STRICTACCESS\<close> is no restriction on SASL logins of an account nobody is using: only
  clients that are logged in already are held against the list.
\<close>

lemma strictaccess_ignored:
  assumes "Option.bind (ss_username p) (se_find E) = Some src" "se_logins E src = []"
  shows "login_user E p = login_user (E\<lparr>se_strictaccess := \<lambda>_. False\<rparr>) p"
  using assms by (simp add: login_user_def may_impersonate_def Let_def cong: option.case_cong if_cong)

text \<open>The mechanism list is written behind its buffer when it ends exactly at the end of it.\<close>

lemma mechlist_overflow: "snd (mechlist_build_string (length name) [name])"
  by (simp add: mechlist_build_string_def)

end
