(* ===== verification/Access.thy ===== *)
theory Access
  imports Cidr Flags
begin

text \<open>
  Channel access lists (\<open>account.c\<close>: the \<open>chanacs\<close> functions, succession, the access list side of
  \<open>myuser_delete\<close>, \<open>mychan_delete\<close> and channel expiry; \<open>entity.c\<close>: validation; \<open>successor_acl.c\<close>).
  Entries, entities and registered channels are heap cells named by numbers, each list holds the numbers of its
  entries in the order of the code's lists, an entry being on the list of its channel and on that of its entity.
  The validators of groups and external targets, which modules provide, are parameters.
\<close>

section \<open>Data\<close>

datatype ent_type = ENT_USER | ENT_GROUP | ENT_EXTTARGET

text \<open>\<open>myentity_t\<close>, and of \<open>myuser_t\<close> what access depends on.\<close>

record acs_entity =
  en_type :: ent_type
  en_name :: cstr
  en_id :: cstr
  en_refs :: int
  en_chanacs :: "nat list"
  en_flags :: u32
  en_logins :: "nat list"
  en_lastlogin :: nat

text \<open>\<open>struct chanacs_\<close>; the host is that of an entry without entity.\<close>

record chanacs =
  ca_chan :: nat
  ca_entity :: "nat option"
  ca_host :: cstr
  ca_level :: u32
  ca_tmodified :: nat
  ca_setter :: cstr

record mychan =
  mc_name :: cstr
  mc_chanacs :: "nat list"
  mc_registered :: nat
  mc_used :: nat
  mc_bits :: u32

text \<open>What access asks of a client.\<close>

record acs_user =
  au_nick :: cstr
  au_user :: cstr
  au_vhost :: cstr
  au_chost :: cstr
  au_ip :: cstr
  au_account :: "nat option"

datatype acs_event = Succession nat nat | Channel_drop nat | Notify_successor nat nat

record acs_state =
  am_acs :: "nat \<Rightarrow> chanacs option"
  am_ents :: "nat \<Rightarrow> acs_entity option"
  am_chans :: "nat \<Rightarrow> mychan option"
  am_mclist :: "cstr \<Rightarrow> nat option"
  am_next :: nat
  am_count :: int
  am_log :: "acs_event list"

text \<open>
  The surroundings: \<open>ca_all\<close>, time, limits, the validators of entities that are not accounts
  (\<open>ve_match\<close>, \<open>ve_match_user\<close>, \<open>ve_can_register\<close>), the privilege \<open>PRIV_REG_NOLIMIT\<close> of accounts, the flag of
  \<open>chanserv/successor_acl\<close>, when loaded, the members of the channel on the network, and the hook that may forbid
  an expiry.
\<close>

record acs_env =
  ve_ca_all :: u32
  ve_now :: nat
  ve_maxchans :: nat
  ve_expiry :: nat
  ve_match :: "nat \<Rightarrow> nat \<Rightarrow> bool"
  ve_match_user :: "nat \<Rightarrow> acs_user \<Rightarrow> bool"
  ve_can_register :: "nat \<Rightarrow> bool"
  ve_reg_nolimit :: "nat \<Rightarrow> bool"
  ve_successor :: "u32 option"
  ve_casemap :: int
  ve_cidr :: bool
  ve_members :: "nat \<Rightarrow> acs_user list"
  ve_keep :: "nat \<Rightarrow> bool"

definition MU_WAITAUTH :: u32 where [flag_simps]: "MU_WAITAUTH = 0x00000008"
definition MU_REGNOLIMIT :: u32 where [flag_simps]: "MU_REGNOLIMIT = 0x00010000"
definition MC_HOLD :: u32 where [flag_simps]: "MC_HOLD = 0x00000001"

definition acs_emit :: "acs_event list \<Rightarrow> acs_state \<Rightarrow> acs_state" where
  "acs_emit es st = st\<lparr>am_log := am_log st @ es\<rparr>"

section \<open>Walking a channel's list\<close>

fun entries_of :: "acs_state \<Rightarrow> nat list \<Rightarrow> (nat \<times> chanacs) list" where
  "entries_of st [] = []"
| "entries_of st (i # is') = (case am_acs st i of None \<Rightarrow> entries_of st is' | Some A \<Rightarrow> (i, A) # entries_of st is')"

definition chan_entries :: "acs_state \<Rightarrow> nat \<Rightarrow> (nat \<times> chanacs) list" where
  "chan_entries st c = (case am_chans st c of None \<Rightarrow> [] | Some C \<Rightarrow> entries_of st (mc_chanacs C))"

definition is_user :: "acs_state \<Rightarrow> nat \<Rightarrow> bool" where
  "is_user st e \<longleftrightarrow> (case am_ents st e of None \<Rightarrow> False | Some E \<Rightarrow> en_type E = ENT_USER)"

text \<open>\<open>level == 0 || (ca->level & level) == level\<close>.\<close>

definition has_level :: "u32 \<Rightarrow> chanacs \<Rightarrow> bool" where
  "has_level level A \<longleftrightarrow> level = 0 \<or> ca_level A AND level = level"

text \<open>\<open>vt->match_entity(ca, mt)\<close>: an account has the linear validator.\<close>

definition match_entity :: "acs_env \<Rightarrow> acs_state \<Rightarrow> nat \<Rightarrow> nat \<Rightarrow> bool" where
  "match_entity E st ce e = (if is_user st ce then ce = e else ve_match E ce e)"

definition chanacs_find_literal :: "acs_state \<Rightarrow> nat \<Rightarrow> nat \<Rightarrow> u32 \<Rightarrow> nat option" where
  "chanacs_find_literal st c e level =
     map_option fst (find (\<lambda>(i, A). ca_entity A = Some e \<and> has_level level A) (chan_entries st c))"

definition chanacs_find :: "acs_env \<Rightarrow> acs_state \<Rightarrow> nat \<Rightarrow> nat \<Rightarrow> u32 \<Rightarrow> nat option" where
  "chanacs_find E st c e level =
     (case chanacs_find_literal st c e level of
        Some i \<Rightarrow> Some i
      | None \<Rightarrow>
          map_option fst (find (\<lambda>(i, A). (case ca_entity A of None \<Rightarrow> False | Some ce \<Rightarrow> match_entity E st ce e \<and> has_level level A))
            (chan_entries st c)))"

definition or_levels :: "chanacs list \<Rightarrow> u32" where
  "or_levels As = foldl (\<lambda>r A. r OR ca_level A) 0 As"

definition chanacs_entity_flags :: "acs_env \<Rightarrow> acs_state \<Rightarrow> nat \<Rightarrow> nat \<Rightarrow> u32" where
  "chanacs_entity_flags E st c e =
     or_levels (filter (\<lambda>A. (case ca_entity A of None \<Rightarrow> False | Some ce \<Rightarrow> ce = e \<or> match_entity E st ce e)) (map snd (chan_entries st c)))"

definition chanacs_entity_has_flag :: "acs_env \<Rightarrow> acs_state \<Rightarrow> nat \<Rightarrow> nat \<Rightarrow> u32 \<Rightarrow> bool" where
  "chanacs_entity_has_flag E st c e level \<longleftrightarrow> chanacs_entity_flags E st c e AND level \<noteq> 0"

definition chanacs_find_host :: "acs_env \<Rightarrow> acs_state \<Rightarrow> nat \<Rightarrow> cstr \<Rightarrow> u32 \<Rightarrow> nat option" where
  "chanacs_find_host E st c host level =
     map_option fst (find (\<lambda>(i, A). ca_entity A = None \<and> match (ve_casemap E) (Some (ca_host A)) (Some host) = 0 \<and> has_level level A)
       (chan_entries st c))"

definition chanacs_host_flags :: "acs_env \<Rightarrow> acs_state \<Rightarrow> nat \<Rightarrow> cstr \<Rightarrow> u32" where
  "chanacs_host_flags E st c host =
     or_levels (filter (\<lambda>A. ca_entity A = None \<and> match (ve_casemap E) (Some (ca_host A)) (Some host) = 0) (map snd (chan_entries st c)))"

definition chanacs_find_host_literal :: "acs_state \<Rightarrow> nat \<Rightarrow> cstr \<Rightarrow> u32 \<Rightarrow> nat option" where
  "chanacs_find_host_literal st c host level =
     map_option fst (find (\<lambda>(i, A). ca_entity A = None \<and> strcasecmp (ca_host A) host = 0 \<and> has_level level A) (chan_entries st c))"

section \<open>Access of a client\<close>

definition MASKLEN :: nat where "MASKLEN = NICKLEN + USERLEN + HOSTLEN"

definition hostmask_of :: "acs_user \<Rightarrow> cstr \<Rightarrow> cstr" where
  "hostmask_of u host = strlcpy (au_nick u @ ''!'' @ au_user u @ ''@'' @ host) MASKLEN"

text \<open>The test of \<open>generic_next_matching_host_chanacs\<close>.\<close>

definition host_matches :: "acs_env \<Rightarrow> acs_user \<Rightarrow> chanacs \<Rightarrow> bool" where
  "host_matches E u A \<longleftrightarrow> ca_entity A = None \<and>
     (match (ve_casemap E) (Some (ca_host A)) (Some (hostmask_of u (au_vhost u))) = 0 \<or>
      match (ve_casemap E) (Some (ca_host A)) (Some (hostmask_of u (au_chost u))) = 0 \<or>
      match (ve_casemap E) (Some (ca_host A)) (Some (hostmask_of u (au_ip u))) = 0 \<or>
      ve_cidr E \<and> match_cidr (ve_casemap E) (Some (ca_host A)) (Some (hostmask_of u (au_ip u))) = Returns 0)"

fun next_matching_host_chanacs :: "acs_env \<Rightarrow> acs_user \<Rightarrow> (nat \<times> chanacs) list \<Rightarrow> (nat \<times> chanacs) list" where
  "next_matching_host_chanacs E u [] = []"
| "next_matching_host_chanacs E u (n # ns) = (if host_matches E u (snd n) then n # ns else next_matching_host_chanacs E u ns)"

lemma next_matching_length: "length (next_matching_host_chanacs E u ns) \<le> length ns"
  by (induction ns) auto

function find_host_loop :: "acs_env \<Rightarrow> acs_user \<Rightarrow> u32 \<Rightarrow> (nat \<times> chanacs) list \<Rightarrow> nat option" where
  "find_host_loop E u level [] = None"
| "find_host_loop E u level (n # ns) =
     (if ca_level (snd n) AND level = level then Some (fst n)
      else find_host_loop E u level (next_matching_host_chanacs E u ns))"
  by pat_completeness auto
termination find_host_loop
  by (relation "measure (\<lambda>(E, u, level, ns). length ns)") (auto simp: less_Suc_eq_le next_matching_length)

definition chanacs_find_host_by_user :: "acs_env \<Rightarrow> acs_state \<Rightarrow> nat \<Rightarrow> acs_user \<Rightarrow> u32 \<Rightarrow> nat option" where
  "chanacs_find_host_by_user E st c u level = find_host_loop E u level (next_matching_host_chanacs E u (chan_entries st c))"

function host_flags_loop :: "acs_env \<Rightarrow> acs_user \<Rightarrow> u32 \<Rightarrow> (nat \<times> chanacs) list \<Rightarrow> u32" where
  "host_flags_loop E u r [] = r"
| "host_flags_loop E u r (n # ns) = host_flags_loop E u (r OR ca_level (snd n)) (next_matching_host_chanacs E u ns)"
  by pat_completeness auto
termination host_flags_loop
  by (relation "measure (\<lambda>(E, u, r, ns). length ns)") (auto simp: less_Suc_eq_le next_matching_length)

definition chanacs_host_flags_by_user :: "acs_env \<Rightarrow> acs_state \<Rightarrow> nat \<Rightarrow> acs_user \<Rightarrow> u32" where
  "chanacs_host_flags_by_user E st c u = host_flags_loop E u 0 (next_matching_host_chanacs E u (chan_entries st c))"

definition chanacs_entity_flags_by_user :: "acs_env \<Rightarrow> acs_state \<Rightarrow> nat \<Rightarrow> acs_user \<Rightarrow> u32" where
  "chanacs_entity_flags_by_user E st c u =
     or_levels (filter (\<lambda>A. (case ca_entity A of None \<Rightarrow> False | Some ce \<Rightarrow> \<not> is_user st ce \<and> ve_match_user E ce u)) (map snd (chan_entries st c)))"

definition waiting_auth :: "acs_state \<Rightarrow> acs_user \<Rightarrow> bool" where
  "waiting_auth st u \<longleftrightarrow> (case Option.bind (au_account u) (am_ents st) of None \<Rightarrow> False | Some A \<Rightarrow> en_flags A AND MU_WAITAUTH \<noteq> 0)"

definition chanacs_user_flags :: "acs_env \<Rightarrow> acs_state \<Rightarrow> nat \<Rightarrow> acs_user \<Rightarrow> u32" where
  "chanacs_user_flags E st c u =
     (let r = (case au_account u of None \<Rightarrow> 0 | Some e \<Rightarrow> chanacs_entity_flags E st c e);
          r = r OR chanacs_entity_flags_by_user E st c u;
          r = (if waiting_auth st u then r AND NOT (ve_ca_all E AND NOT CA_AKICK) else r)
      in r OR chanacs_host_flags_by_user E st c u)"

definition chanacs_user_has_flag :: "acs_env \<Rightarrow> acs_state \<Rightarrow> nat \<Rightarrow> acs_user \<Rightarrow> u32 \<Rightarrow> bool" where
  "chanacs_user_has_flag E st c u level \<longleftrightarrow>
     (case au_account u of None \<Rightarrow> False | Some e \<Rightarrow> chanacs_entity_has_flag E st c e level) \<or>
     chanacs_user_flags E st c u AND level \<noteq> 0"

text \<open>\<open>chanacs_source_flags\<close>: of a command's source, a client or (over the web service) an account.\<close>

definition chanacs_source_flags :: "acs_env \<Rightarrow> acs_state \<Rightarrow> nat \<Rightarrow> acs_user option \<Rightarrow> nat option \<Rightarrow> u32" where
  "chanacs_source_flags E st c su smu =
     (case su of Some u \<Rightarrow> chanacs_user_flags E st c u
      | None \<Rightarrow> (case smu of Some e \<Rightarrow> chanacs_entity_flags E st c e | None \<Rightarrow> 0))"

section \<open>Adding and releasing entries\<close>

definition upd_chan :: "nat \<Rightarrow> (mychan \<Rightarrow> mychan) \<Rightarrow> acs_state \<Rightarrow> acs_state" where
  "upd_chan c f st = st\<lparr>am_chans := (am_chans st)(c := map_option f (am_chans st c))\<rparr>"

definition upd_ent :: "nat \<Rightarrow> (acs_entity \<Rightarrow> acs_entity) \<Rightarrow> acs_state \<Rightarrow> acs_state" where
  "upd_ent e f st = st\<lparr>am_ents := (am_ents st)(e := map_option f (am_ents st e))\<rparr>"

definition setter_uid :: "cstr option \<Rightarrow> cstr" where
  "setter_uid s = (case s of None \<Rightarrow> [] | Some uid \<Rightarrow> strlcpy uid IDLEN)"

datatype acs_target = T_entity nat | T_host cstr

text \<open>\<open>chanacs_add\<close> and \<open>chanacs_add_host\<close>; an external target counts its references.\<close>

definition chanacs_add_target :: "acs_env \<Rightarrow> acs_state \<Rightarrow> nat \<Rightarrow> acs_target \<Rightarrow> u32 \<Rightarrow> nat \<Rightarrow> cstr option \<Rightarrow> nat option \<times> acs_state" where
  "chanacs_add_target E st c t level ts setter =
     (case am_chans st c of
        None \<Rightarrow> (None, st)
      | Some C \<Rightarrow>
          if char_at (mc_name C) 0 \<noteq> CHR ''#'' then (None, st)
          else
            let i = am_next st;
                A = \<lparr>ca_chan = c, ca_entity = (case t of T_entity e \<Rightarrow> Some e | T_host _ \<Rightarrow> None),
                     ca_host = (case t of T_entity _ \<Rightarrow> [] | T_host h \<Rightarrow> h), ca_level = level AND ve_ca_all E,
                     ca_tmodified = ts, ca_setter = setter_uid setter\<rparr>;
                st1 = st\<lparr>am_next := Suc i, am_acs := (am_acs st)(i := Some A), am_count := am_count st + 1\<rparr>;
                st2 = upd_chan c (\<lambda>C. C\<lparr>mc_chanacs := mc_chanacs C @ [i]\<rparr>) st1
            in (Some i,
                case t of T_host _ \<Rightarrow> st2
                | T_entity e \<Rightarrow>
                    upd_ent e (\<lambda>X. X\<lparr>en_chanacs := en_chanacs X @ [i],
                                     en_refs := (if en_type X = ENT_EXTTARGET then en_refs X + 1 else en_refs X)\<rparr>) st2))"

definition chanacs_add :: "acs_env \<Rightarrow> acs_state \<Rightarrow> nat \<Rightarrow> nat \<Rightarrow> u32 \<Rightarrow> nat \<Rightarrow> cstr option \<Rightarrow> nat option \<times> acs_state" where
  "chanacs_add E st c e level ts setter = chanacs_add_target E st c (T_entity e) level ts setter"

definition chanacs_add_host :: "acs_env \<Rightarrow> acs_state \<Rightarrow> nat \<Rightarrow> cstr \<Rightarrow> u32 \<Rightarrow> nat \<Rightarrow> cstr option \<Rightarrow> nat option \<times> acs_state" where
  "chanacs_add_host E st c h level ts setter = chanacs_add_target E st c (T_host h) level ts setter"

text \<open>Releasing an entry, \<open>object_unref(ca)\<close>, runs \<open>chanacs_delete\<close>; the last reference to an external target ends it.\<close>

definition drop_entity_ref :: "nat \<Rightarrow> acs_state \<Rightarrow> acs_state" where
  "drop_entity_ref e st =
     (case am_ents st e of
        None \<Rightarrow> st
      | Some X \<Rightarrow>
          if en_type X \<noteq> ENT_EXTTARGET then st
          else if en_refs X = 1 then st\<lparr>am_ents := (am_ents st)(e := None)\<rparr>
          else if en_refs X > 1 then upd_ent e (\<lambda>X. X\<lparr>en_refs := en_refs X - 1\<rparr>) st
          else st)"

definition chanacs_delete :: "nat \<Rightarrow> acs_state \<Rightarrow> acs_state" where
  "chanacs_delete i st =
     (case am_acs st i of
        None \<Rightarrow> st
      | Some A \<Rightarrow>
          let st1 = upd_chan (ca_chan A) (\<lambda>C. C\<lparr>mc_chanacs := remove1 i (mc_chanacs C)\<rparr>) st;
              st2 = (case ca_entity A of
                       None \<Rightarrow> st1
                     | Some e \<Rightarrow> drop_entity_ref e (upd_ent e (\<lambda>X. X\<lparr>en_chanacs := remove1 i (en_chanacs X)\<rparr>) st1))
          in st2\<lparr>am_acs := (am_acs st2)(i := None), am_count := am_count st2 - 1\<rparr>)"

section \<open>Changing access\<close>

text \<open>
  The arithmetic of a change on an existing entry, shared by \<open>chanacs_modify\<close> and \<open>chanacs_change\<close>: the result,
  the flags really added and removed, and the new level when there is one.
\<close>

definition modify_level :: "u32 \<Rightarrow> u32 \<Rightarrow> u32 \<Rightarrow> u32 \<Rightarrow> bool \<times> u32 \<times> u32 \<times> u32 option" where
  "modify_level level addf removef restrict =
     (let addf = addf AND NOT level; removef = removef AND (level AND NOT addf)
      in if addf OR removef = 0 then (True, addf, removef, None)
         else if NOT restrict AND addf \<noteq> 0 then (False, addf, removef, None)
         else if NOT restrict AND removef \<noteq> 0 then (False, addf, removef, None)
         else if NOT restrict AND level \<noteq> 0 then (False, addf, removef, None)
         else (True, addf, removef, Some ((level OR addf) AND NOT removef)))"

definition set_level :: "acs_env \<Rightarrow> nat \<Rightarrow> u32 \<Rightarrow> cstr option \<Rightarrow> acs_state \<Rightarrow> acs_state" where
  "set_level E i level setter st =
     st\<lparr>am_acs := (am_acs st)(i := map_option (\<lambda>A. A\<lparr>ca_level := level, ca_tmodified := ve_now E, ca_setter := setter_uid setter\<rparr>) (am_acs st i))\<rparr>"

definition chanacs_modify :: "acs_env \<Rightarrow> acs_state \<Rightarrow> nat \<Rightarrow> u32 \<Rightarrow> u32 \<Rightarrow> u32 \<Rightarrow> cstr option \<Rightarrow> bool \<times> u32 \<times> u32 \<times> acs_state" where
  "chanacs_modify E st i addf removef restrict setter =
     (case am_acs st i of
        None \<Rightarrow> (False, addf, removef, st)
      | Some A \<Rightarrow>
          let (ok, a, r, new) = modify_level (ca_level A) addf removef restrict
          in (ok, a, r, case new of None \<Rightarrow> st | Some l \<Rightarrow> set_level E i l setter st))"

definition chanacs_modify_simple :: "acs_env \<Rightarrow> acs_state \<Rightarrow> nat \<Rightarrow> u32 \<Rightarrow> u32 \<Rightarrow> cstr option \<Rightarrow> bool \<times> acs_state" where
  "chanacs_modify_simple E st i addf removef setter =
     (let (ok, _, _, st') = chanacs_modify E st i (addf AND ve_ca_all E) (removef AND ve_ca_all E) (ve_ca_all E) setter in (ok, st'))"

definition find_target :: "acs_state \<Rightarrow> nat \<Rightarrow> acs_target \<Rightarrow> nat option" where
  "find_target st c t = (case t of T_entity e \<Rightarrow> chanacs_find_literal st c e 0 | T_host h \<Rightarrow> chanacs_find_host_literal st c h 0)"

definition chanacs_open :: "acs_env \<Rightarrow> acs_state \<Rightarrow> nat \<Rightarrow> acs_target \<Rightarrow> bool \<Rightarrow> cstr option \<Rightarrow> nat option \<times> acs_state" where
  "chanacs_open E st c t create setter =
     (case find_target st c t of
        Some i \<Rightarrow> (Some i, st)
      | None \<Rightarrow> if create then chanacs_add_target E st c t 0 (ve_now E) setter else (None, st))"

text \<open>\<open>chanacs_close\<close>: an entry without flags goes.\<close>

definition chanacs_close :: "nat \<Rightarrow> acs_state \<Rightarrow> acs_state" where
  "chanacs_close i st = (case am_acs st i of Some A \<Rightarrow> if ca_level A = 0 then chanacs_delete i st else st | None \<Rightarrow> st)"

definition chanacs_change :: "acs_env \<Rightarrow> acs_state \<Rightarrow> nat \<Rightarrow> acs_target \<Rightarrow> u32 \<Rightarrow> u32 \<Rightarrow> u32 \<Rightarrow> cstr option \<Rightarrow> bool \<times> u32 \<times> u32 \<times> acs_state" where
  "chanacs_change E st c t addf removef restrict setter =
     (case find_target st c t of
        None \<Rightarrow>
          if addf = 0 then (True, addf, 0, st)
          else if NOT restrict AND addf \<noteq> 0 then (False, addf, 0, st)
          else (True, addf, 0, snd (chanacs_add_target E st c t addf (ve_now E) setter))
      | Some i \<Rightarrow>
          (case am_acs st i of
             None \<Rightarrow> (False, addf, removef, st)
           | Some A \<Rightarrow>
               let (ok, a, r, new) = modify_level (ca_level A) addf removef restrict
               in (ok, a, r, case new of None \<Rightarrow> st | Some l \<Rightarrow> chanacs_close i (set_level E i l setter st))))"

definition chanacs_change_simple :: "acs_env \<Rightarrow> acs_state \<Rightarrow> nat \<Rightarrow> acs_target \<Rightarrow> u32 \<Rightarrow> u32 \<Rightarrow> cstr option \<Rightarrow> bool \<times> acs_state" where
  "chanacs_change_simple E st c t addf removef setter =
     (let (ok, _, _, st') = chanacs_change E st c t (addf AND ve_ca_all E) (removef AND ve_ca_all E) (ve_ca_all E) setter in (ok, st'))"

section \<open>Founders and successors\<close>

definition mychan_num_flags :: "acs_state \<Rightarrow> nat \<Rightarrow> u32 \<Rightarrow> nat" where
  "mychan_num_flags st c flag = length (filter (\<lambda>(i, A). ca_entity A \<noteq> None \<and> ca_level A AND flag \<noteq> 0) (chan_entries st c))"

definition mychan_num_founders :: "acs_state \<Rightarrow> nat \<Rightarrow> nat" where
  "mychan_num_founders st c = mychan_num_flags st c CA_FOUNDER"

definition add_auto_flags :: "u32 \<Rightarrow> u32" where
  "add_auto_flags flags =
     (let f1 = (if flags AND CA_OP \<noteq> 0 then flags OR CA_AUTOOP else flags);
          f2 = (if f1 AND CA_HALFOP \<noteq> 0 then f1 OR CA_AUTOHALFOP else f1)
      in (if f2 AND CA_VOICE \<noteq> 0 then f2 OR CA_AUTOVOICE else f2))"

definition count_channels_with :: "acs_state \<Rightarrow> nat \<Rightarrow> u32 \<Rightarrow> nat" where
  "count_channels_with st e flagset =
     (case am_ents st e of None \<Rightarrow> 0
      | Some X \<Rightarrow> length (filter (\<lambda>(i, A). ca_level A AND flagset \<noteq> 0) (entries_of st (en_chanacs X))))"

definition myentity_can_register_channel :: "acs_env \<Rightarrow> acs_state \<Rightarrow> nat \<Rightarrow> bool" where
  "myentity_can_register_channel E st e =
     (case am_ents st e of
        None \<Rightarrow> False
      | Some X \<Rightarrow>
          (if en_type X = ENT_USER then en_flags X AND MU_REGNOLIMIT \<noteq> 0 \<or> ve_reg_nolimit E e else ve_can_register E e) \<or>
          count_channels_with st e CA_FOUNDER < ve_maxchans E)"

definition RECENTLY_SEEN :: nat where "RECENTLY_SEEN = 7 * 86400"

text \<open>The variables of \<open>mychan_pick_candidate\<close>: \<open>recent_ok\<close>, and the best entity so far with its level and recency.\<close>

type_synonym candidate = "bool \<times> (nat \<times> u32 \<times> bool) option"

definition recently_seen :: "acs_env \<Rightarrow> acs_entity \<Rightarrow> bool" where
  "recently_seen E X \<longleftrightarrow> en_logins X \<noteq> [] \<or> int (ve_now E) - int (en_lastlogin X) < int RECENTLY_SEEN"

definition pick_step :: "acs_env \<Rightarrow> acs_state \<Rightarrow> u32 \<Rightarrow> candidate \<Rightarrow> chanacs \<Rightarrow> candidate" where
  "pick_step E st minlevel s A =
     (let (recent, hi) = s
      in if ca_level A AND CA_AKICK \<noteq> 0 then s
         else (case ca_entity A of
           None \<Rightarrow> s
         | Some e \<Rightarrow>
             if ca_level A AND CA_FOUNDER \<noteq> 0 then s
             else if ca_level A AND minlevel \<noteq> minlevel then s
             else
               let recent' = (case am_ents st e of Some X \<Rightarrow> if en_type X = ENT_USER then recently_seen E X else recent | None \<Rightarrow> recent);
                   level = add_auto_flags (ca_level A);
                   beaten = (case hi of None \<Rightarrow> False
                             | Some (h, hl, hr) \<Rightarrow> hl AND NOT level \<noteq> 0 \<or> (hl = level \<and> (\<not> recent' \<or> hr)))
               in if beaten then (recent', hi)
                  else if myentity_can_register_channel E st e then (recent', Some (e, level, recent'))
                  else (recent', hi)))"

definition mychan_pick_candidate :: "acs_env \<Rightarrow> acs_state \<Rightarrow> nat \<Rightarrow> u32 \<Rightarrow> nat option" where
  "mychan_pick_candidate E st c minlevel =
     (case snd (foldl (pick_step E st minlevel) (False, None) (map snd (chan_entries st c))) of
        None \<Rightarrow> None
      | Some (e, _, _) \<Rightarrow> if is_user st e then Some e else None)"

fun first_candidate :: "acs_env \<Rightarrow> acs_state \<Rightarrow> nat \<Rightarrow> u32 list \<Rightarrow> nat option" where
  "first_candidate E st c [] = None"
| "first_candidate E st c (l # ls) = (case mychan_pick_candidate E st c l of Some e \<Rightarrow> Some e | None \<Rightarrow> first_candidate E st c ls)"

text \<open>The hook of \<open>successor_acl.c\<close> comes first, when the module is loaded.\<close>

definition mychan_pick_successor :: "acs_env \<Rightarrow> acs_state \<Rightarrow> nat \<Rightarrow> nat option" where
  "mychan_pick_successor E st c =
     first_candidate E st c
       ((case ve_successor E of None \<Rightarrow> [] | Some f \<Rightarrow> [f]) @ [CA_RECOVER, CA_FLAGS] @
        (if ve_ca_all E AND CA_USEOWNER \<noteq> 0 then [CA_USEOWNER OR CA_AUTOOP] else []) @ [CA_OP, 0])"

section \<open>Registered channels\<close>

definition mychan_find :: "acs_env \<Rightarrow> acs_state \<Rightarrow> cstr \<Rightarrow> nat option" where
  "mychan_find E st name = am_mclist st (irccasecanon (ve_casemap E) name)"

definition mychan_add :: "acs_env \<Rightarrow> cstr \<Rightarrow> acs_state \<Rightarrow> nat \<times> acs_state" where
  "mychan_add E name st =
     (case mychan_find E st name of
        Some c \<Rightarrow> (c, st)
      | None \<Rightarrow>
          let c = am_next st
          in (c, st\<lparr>am_next := Suc c,
                    am_chans := (am_chans st)(c := Some \<lparr>mc_name = name, mc_chanacs = [], mc_registered = ve_now E, mc_used = 0, mc_bits = 0\<rparr>),
                    am_mclist := (am_mclist st)(irccasecanon (ve_casemap E) name := Some c)\<rparr>))"

text \<open>\<open>object_unref(mc)\<close>: the entries go one by one, then the channel.\<close>

definition mychan_delete :: "acs_env \<Rightarrow> nat \<Rightarrow> acs_state \<Rightarrow> acs_state" where
  "mychan_delete E c st =
     (case am_chans st c of
        None \<Rightarrow> st
      | Some C \<Rightarrow>
          let st1 = fold chanacs_delete (mc_chanacs C) st
          in st1\<lparr>am_mclist := (am_mclist st1)(irccasecanon (ve_casemap E) (mc_name C) := None), am_chans := (am_chans st1)(c := None)\<rparr>)"

definition mychan_isused :: "acs_env \<Rightarrow> acs_state \<Rightarrow> nat \<Rightarrow> bool" where
  "mychan_isused E st c \<longleftrightarrow> (\<exists>u \<in> set (ve_members E c). chanacs_user_flags E st c u AND CA_USEDUPDATE \<noteq> 0)"

text \<open>The loop of \<open>expire_check\<close> over the registered channels, for one of them; seconds are cast to 32 bits.\<close>

definition expire_channel :: "acs_env \<Rightarrow> nat \<Rightarrow> acs_state \<Rightarrow> acs_state" where
  "expire_channel E c st =
     (case am_chans st c of
        None \<Rightarrow> st
      | Some C \<Rightarrow>
          if ve_keep E c then st
          else if int (ve_now E) - int (mc_used C) \<ge> 86400 - 3660 \<and> mychan_isused E st c
          then upd_chan c (\<lambda>C. C\<lparr>mc_used := ve_now E\<rparr>) st
          else if ve_expiry E > 0 \<and> mc_used C < ve_now E \<and> (ve_now E - mc_used C) mod 2 ^ 32 \<ge> ve_expiry E
          then (if mc_bits C AND MC_HOLD \<noteq> 0 then st else mychan_delete E c (acs_emit [Channel_drop c] st))
          else st)"

section \<open>Dropping an account\<close>

text \<open>
  One entry of the account: a channel whose only founder the account is goes to a successor or is dropped.  Of
  \<open>successor_acl.c\<close>, \<open>channel_succession_hook\<close> takes the successor flag off the new founder.
\<close>

definition succession :: "acs_env \<Rightarrow> nat \<Rightarrow> nat \<Rightarrow> acs_state \<Rightarrow> acs_state" where
  "succession E c s st =
     (let st1 = snd (chanacs_change_simple E st c (T_entity s) (CA_FOUNDER OR CA_FLAGS) 0 None);
          st2 = acs_emit [Succession c s] st1
      in case ve_successor E of None \<Rightarrow> st2 | Some f \<Rightarrow> snd (chanacs_change_simple E st2 c (T_entity s) 0 f None))"

definition delete_entry :: "acs_env \<Rightarrow> nat \<Rightarrow> chanacs \<Rightarrow> acs_state \<Rightarrow> acs_state" where
  "delete_entry E i A st =
     (if ca_level A AND CA_FOUNDER \<noteq> 0 \<and> mychan_num_founders st (ca_chan A) = 1
      then (case mychan_pick_successor E st (ca_chan A) of
              Some s \<Rightarrow> chanacs_delete i (succession E (ca_chan A) s st)
            | None \<Rightarrow> mychan_delete E (ca_chan A) (acs_emit [Channel_drop (ca_chan A)] st))
      else chanacs_delete i st)"

text \<open>
  \<open>MOWGLI_ITER_FOREACH_SAFE\<close> over the entries of the account: the next node is read before the body runs.
  \<open>None\<close> stands for a node that was freed meanwhile, and for fuel that does not suffice.
\<close>

fun next_in :: "nat list \<Rightarrow> nat \<Rightarrow> nat option" where
  "next_in [] i = None"
| "next_in (j # js) i = (if i = j then (case js of [] \<Rightarrow> None | k # _ \<Rightarrow> Some k) else next_in js i)"

definition entity_entries :: "acs_state \<Rightarrow> nat \<Rightarrow> nat list" where
  "entity_entries st e = (case am_ents st e of None \<Rightarrow> [] | Some X \<Rightarrow> en_chanacs X)"

fun delete_loop :: "acs_env \<Rightarrow> nat \<Rightarrow> nat \<Rightarrow> nat option \<Rightarrow> acs_state \<Rightarrow> acs_state option" where
  "delete_loop E mu fuel None st = Some st"
| "delete_loop E mu 0 (Some i) st = None"
| "delete_loop E mu (Suc fuel) (Some i) st =
     (case am_acs st i of
        None \<Rightarrow> None
      | Some A \<Rightarrow> delete_loop E mu fuel (next_in (entity_entries st mu) i) (delete_entry E i A st))"

definition myuser_delete_access :: "acs_env \<Rightarrow> nat \<Rightarrow> acs_state \<Rightarrow> acs_state option" where
  "myuser_delete_access E mu st =
     delete_loop E mu (length (entity_entries st mu)) (case entity_entries st mu of [] \<Rightarrow> None | i # _ \<Rightarrow> Some i) st"

section \<open>Well-formed access lists\<close>

text \<open>
  Every entry is on the list of its channel and of its entity, once, and the lists hold nothing else; a channel is
  found by its name; an external target lives as long as an entry refers to it; levels are flags in use.
\<close>

definition entries_ok :: "acs_state \<Rightarrow> bool" where
  "entries_ok st \<longleftrightarrow> (\<forall>i A. am_acs st i = Some A \<longrightarrow> i < am_next st \<and>
     (\<exists>C. am_chans st (ca_chan A) = Some C \<and> i \<in> set (mc_chanacs C)) \<and>
     (\<forall>e. ca_entity A = Some e \<longrightarrow> (\<exists>X. am_ents st e = Some X \<and> i \<in> set (en_chanacs X))))"

definition chans_ok :: "acs_state \<Rightarrow> bool" where
  "chans_ok st \<longleftrightarrow> (\<forall>c C. am_chans st c = Some C \<longrightarrow> c < am_next st \<and> distinct (mc_chanacs C) \<and>
     (\<forall>i \<in> set (mc_chanacs C). \<exists>A. am_acs st i = Some A \<and> ca_chan A = c))"

definition ents_ok :: "acs_state \<Rightarrow> bool" where
  "ents_ok st \<longleftrightarrow> (\<forall>e X. am_ents st e = Some X \<longrightarrow> distinct (en_chanacs X) \<and>
     (en_type X = ENT_EXTTARGET \<longrightarrow> int (length (en_chanacs X)) \<le> en_refs X) \<and>
     (\<forall>i \<in> set (en_chanacs X). \<exists>A. am_acs st i = Some A \<and> ca_entity A = Some e))"

definition names_found :: "acs_env \<Rightarrow> acs_state \<Rightarrow> bool" where
  "names_found E st \<longleftrightarrow>
     (\<forall>c C. am_chans st c = Some C \<longrightarrow> am_mclist st (irccasecanon (ve_casemap E) (mc_name C)) = Some c) \<and>
     (\<forall>k c. am_mclist st k = Some c \<longrightarrow> (\<exists>C. am_chans st c = Some C \<and> irccasecanon (ve_casemap E) (mc_name C) = k))"

definition count_ok :: "acs_state \<Rightarrow> bool" where
  "count_ok st \<longleftrightarrow> finite (dom (am_acs st)) \<and> am_count st = int (card (dom (am_acs st)))"

definition levels_ok :: "acs_env \<Rightarrow> acs_state \<Rightarrow> bool" where
  "levels_ok E st \<longleftrightarrow> (\<forall>i A. am_acs st i = Some A \<longrightarrow> ca_level A AND NOT (ve_ca_all E) = 0)"

text \<open>No channel has two entries for one entity.\<close>

definition unique_ok :: "acs_state \<Rightarrow> bool" where
  "unique_ok st \<longleftrightarrow> (\<forall>i j A B e. am_acs st i = Some A \<longrightarrow> am_acs st j = Some B \<longrightarrow> ca_chan A = ca_chan B \<longrightarrow>
     ca_entity A = Some e \<longrightarrow> ca_entity B = Some e \<longrightarrow> i = j)"

definition acs_ok :: "acs_env \<Rightarrow> acs_state \<Rightarrow> bool" where
  "acs_ok E st \<longleftrightarrow> entries_ok st \<and> chans_ok st \<and> ents_ok st \<and> names_found E st \<and> count_ok st \<and> levels_ok E st \<and> unique_ok st"

lemma acs_okD:
  assumes "acs_ok E st"
  shows "entries_ok st" "chans_ok st" "ents_ok st" "names_found E st" "count_ok st" "levels_ok E st" "unique_ok st"
  using assms by (simp_all add: acs_ok_def)

lemma upd_simps [simp]:
  "am_acs (upd_chan c f st) = am_acs st" "am_ents (upd_chan c f st) = am_ents st" "am_mclist (upd_chan c f st) = am_mclist st"
  "am_next (upd_chan c f st) = am_next st" "am_count (upd_chan c f st) = am_count st" "am_log (upd_chan c f st) = am_log st"
  "am_chans (upd_chan c f st) = (am_chans st)(c := map_option f (am_chans st c))"
  "am_acs (upd_ent e g st) = am_acs st" "am_chans (upd_ent e g st) = am_chans st" "am_mclist (upd_ent e g st) = am_mclist st"
  "am_next (upd_ent e g st) = am_next st" "am_count (upd_ent e g st) = am_count st" "am_log (upd_ent e g st) = am_log st"
  "am_ents (upd_ent e g st) = (am_ents st)(e := map_option g (am_ents st e))"
  by (simp_all add: upd_chan_def upd_ent_def)

lemma emit_acs [simp]:
  "am_acs (acs_emit es st) = am_acs st" "am_ents (acs_emit es st) = am_ents st" "am_chans (acs_emit es st) = am_chans st"
  "am_mclist (acs_emit es st) = am_mclist st" "am_next (acs_emit es st) = am_next st" "am_count (acs_emit es st) = am_count st"
  "am_log (acs_emit es st) = am_log st @ es"
  by (simp_all add: acs_emit_def)

lemma ok_emit [simp]: "acs_ok E (acs_emit es st) = acs_ok E st"
  by (simp add: acs_ok_def entries_ok_def chans_ok_def ents_ok_def names_found_def count_ok_def levels_ok_def unique_ok_def)

text \<open>The state after an entry went, cell by cell.\<close>

lemma delete_cells:
  assumes "am_acs st i = Some A"
  shows "am_acs (chanacs_delete i st) = (am_acs st)(i := None)"
    "am_chans (chanacs_delete i st) = (am_chans st)(ca_chan A := map_option (\<lambda>C. C\<lparr>mc_chanacs := remove1 i (mc_chanacs C)\<rparr>) (am_chans st (ca_chan A)))"
    "am_mclist (chanacs_delete i st) = am_mclist st" "am_next (chanacs_delete i st) = am_next st"
    "am_count (chanacs_delete i st) = am_count st - 1" "am_log (chanacs_delete i st) = am_log st"
  using assms
  by (auto simp: chanacs_delete_def Let_def drop_entity_ref_def split: option.splits)

lemma delete_ents:
  assumes "am_acs st i = Some A"
  shows "am_ents (chanacs_delete i st) =
    (case ca_entity A of None \<Rightarrow> am_ents st
     | Some e \<Rightarrow> (am_ents st)(e :=
         (case am_ents st e of None \<Rightarrow> None
          | Some X \<Rightarrow> if en_type X = ENT_EXTTARGET \<and> en_refs X = 1 then None
                      else Some (X\<lparr>en_chanacs := remove1 i (en_chanacs X),
                                   en_refs := (if en_type X = ENT_EXTTARGET \<and> en_refs X > 1 then en_refs X - 1 else en_refs X)\<rparr>))))"
  using assms
  by (auto simp: chanacs_delete_def Let_def drop_entity_ref_def split: option.splits)

lemma delete_none: "am_acs st i = None \<Longrightarrow> chanacs_delete i st = st"
  by (simp add: chanacs_delete_def)

lemma entries_of_mem: "(i, A) \<in> set (entries_of st is') \<longleftrightarrow> i \<in> set is' \<and> am_acs st i = Some A"
  by (induction is') (auto split: option.splits)

lemma entries_mem:
  assumes "acs_ok E st"
  shows "(i, A) \<in> set (chan_entries st c) \<longleftrightarrow> am_acs st i = Some A \<and> ca_chan A = c"
proof -
  have e: "entries_ok st" "chans_ok st" using acs_okD [OF assms] by simp_all
  have "\<exists>C. am_chans st c = Some C \<and> i \<in> set (mc_chanacs C)" if "am_acs st i = Some A" "ca_chan A = c"
    using e(1) that unfolding entries_ok_def by blast
  moreover have "ca_chan A = c" if "am_chans st c = Some C" "i \<in> set (mc_chanacs C)" "am_acs st i = Some A" for C
    using e(2) that unfolding chans_ok_def by fastforce
  ultimately show ?thesis by (cases "am_chans st c") (auto simp: chan_entries_def entries_of_mem)
qed

lemma entries_snd: "acs_ok E st \<Longrightarrow> A \<in> set (map snd (chan_entries st c)) \<longleftrightarrow> (\<exists>i. am_acs st i = Some A \<and> ca_chan A = c)"
  using entries_mem [of E st] by (auto simp: image_iff) (metis snd_conv)

lemma has_level_0 [simp]: "has_level 0 A"
  by (simp add: has_level_def)

lemma literal_None:
  assumes "acs_ok E st"
  shows "chanacs_find_literal st c e 0 = None \<longleftrightarrow> (\<forall>i A. am_acs st i = Some A \<longrightarrow> ca_chan A = c \<longrightarrow> ca_entity A \<noteq> Some e)"
  using entries_mem [OF assms] by (force simp: chanacs_find_literal_def find_None_iff)

lemma literal_Some:
  assumes "acs_ok E st" "chanacs_find_literal st c e 0 = Some i"
  shows "\<exists>A. am_acs st i = Some A \<and> ca_chan A = c \<and> ca_entity A = Some e"
proof -
  obtain A where "find (\<lambda>(i, A). ca_entity A = Some e \<and> has_level 0 A) (chan_entries st c) = Some (i, A)"
    using assms(2) by (auto simp: chanacs_find_literal_def)
  then have "(i, A) \<in> set (chan_entries st c)" "ca_entity A = Some e" by (auto simp: find_Some_iff dest: nth_mem)
  then show ?thesis using entries_mem [OF assms(1)] by blast
qed

lemma host_Some:
  assumes "acs_ok E st" "chanacs_find_host_literal st c h 0 = Some i"
  shows "\<exists>A. am_acs st i = Some A \<and> ca_chan A = c \<and> ca_entity A = None \<and> strcasecmp (ca_host A) h = 0"
proof -
  obtain A where "find (\<lambda>(i, A). ca_entity A = None \<and> strcasecmp (ca_host A) h = 0 \<and> has_level 0 A) (chan_entries st c) = Some (i, A)"
    using assms(2) by (auto simp: chanacs_find_host_literal_def)
  then have "(i, A) \<in> set (chan_entries st c)" "ca_entity A = None" "strcasecmp (ca_host A) h = 0"
    by (auto simp: find_Some_iff) (metis nth_mem)
  then show ?thesis using entries_mem [OF assms(1)] by blast
qed

lemma target_Some:
  assumes "acs_ok E st" "find_target st c t = Some i"
  shows "\<exists>A. am_acs st i = Some A \<and> ca_chan A = c \<and> ca_entity A = (case t of T_entity e \<Rightarrow> Some e | T_host _ \<Rightarrow> None)"
  using assms literal_Some host_Some by (fastforce simp: find_target_def split: acs_target.splits)

section \<open>Preservation\<close>

lemma ok_delete:
  assumes ok: "acs_ok E st"
  shows "acs_ok E (chanacs_delete i st)"
proof (cases "am_acs st i")
  case None
  then show ?thesis using ok by (simp add: delete_none)
next
  case (Some A)
  note d = delete_cells [OF Some] delete_ents [OF Some]
  note o = acs_okD [OF ok]
  obtain C where C: "am_chans st (ca_chan A) = Some C" "i \<in> set (mc_chanacs C)" using o(1) Some unfolding entries_ok_def by blast
  have en: "\<exists>X. am_ents st e = Some X \<and> i \<in> set (en_chanacs X)" if "ca_entity A = Some e" for e
    using o(1) Some that unfolding entries_ok_def by blast
  have dC: "distinct (mc_chanacs C)" using o(2) C unfolding chans_ok_def by blast
  have xd: "distinct (en_chanacs X)" if "am_ents st e = Some X" for e X using o(3) that unfolding ents_ok_def by blast
  have bk: "am_acs st j = Some B \<Longrightarrow> ca_entity B = Some e \<Longrightarrow> am_ents st e = Some X \<Longrightarrow> j \<in> set (en_chanacs X)" for j B e X
    using o(1) unfolding entries_ok_def by (metis option.inject)
  have single: "en_chanacs X = [i]" if "ca_entity A = Some e" "am_ents st e = Some X" "en_type X = ENT_EXTTARGET" "en_refs X = 1" for e X
  proof -
    have "i \<in> set (en_chanacs X)" using bk [OF Some that(1,2)] .
    moreover have "length (en_chanacs X) \<le> 1" using o(3) that unfolding ents_ok_def by fastforce
    ultimately show ?thesis by (cases "en_chanacs X") auto
  qed
  have "entries_ok (chanacs_delete i st)"
    unfolding entries_ok_def d
  proof (intro allI impI, goal_cases)
    case (1 j B)
    then have j: "am_acs st j = Some B" "j \<noteq> i" by (auto split: if_splits)
    have oj: "j < am_next st" "\<exists>C. am_chans st (ca_chan B) = Some C \<and> j \<in> set (mc_chanacs C)" using o(1) j unfolding entries_ok_def by blast+
    have ent: "\<exists>X. (case ca_entity A of None \<Rightarrow> am_ents st | Some e \<Rightarrow> (am_ents st)(e :=
         (case am_ents st e of None \<Rightarrow> None
          | Some X \<Rightarrow> if en_type X = ENT_EXTTARGET \<and> en_refs X = 1 then None
                      else Some (X\<lparr>en_chanacs := remove1 i (en_chanacs X),
                                   en_refs := (if en_type X = ENT_EXTTARGET \<and> en_refs X > 1 then en_refs X - 1 else en_refs X)\<rparr>)))) e = Some X \<and>
           j \<in> set (en_chanacs X)" if e: "ca_entity B = Some e" for e
    proof -
      obtain X where X: "am_ents st e = Some X" "j \<in> set (en_chanacs X)" using o(1) j(1) e unfolding entries_ok_def by blast
      show ?thesis
      proof (cases "ca_entity A = Some e")
        case True
        have "\<not> (en_type X = ENT_EXTTARGET \<and> en_refs X = 1)" using single [OF True X(1)] X(2) j(2) by auto
        then show ?thesis using True X j(2) by auto
      next
        case False
        then show ?thesis using X by (auto split: option.splits)
      qed
    qed
    show ?case using oj j(2) ent by (auto simp: fun_upd_def)
  qed
  moreover have "chans_ok (chanacs_delete i st)"
    using o(2) C dC Some unfolding chans_ok_def d by (fastforce split: if_splits)
  moreover have "ents_ok (chanacs_delete i st)"
    unfolding ents_ok_def d
  proof (intro allI impI, goal_cases)
    case (1 e X)
    show ?case
    proof (cases "ca_entity A = Some e")
      case True
      then obtain Y where Y: "am_ents st e = Some Y" "i \<in> set (en_chanacs Y)" using en by blast
      then have X: "X = Y\<lparr>en_chanacs := remove1 i (en_chanacs Y), en_refs := (if en_type Y = ENT_EXTTARGET \<and> en_refs Y > 1 then en_refs Y - 1 else en_refs Y)\<rparr>"
          "\<not> (en_type Y = ENT_EXTTARGET \<and> en_refs Y = 1)"
        using 1 True by (auto split: if_splits)
      have Yo: "distinct (en_chanacs Y)" "en_type Y = ENT_EXTTARGET \<Longrightarrow> int (length (en_chanacs Y)) \<le> en_refs Y"
          "\<forall>j \<in> set (en_chanacs Y). \<exists>B. am_acs st j = Some B \<and> ca_entity B = Some e"
        using o(3) Y(1) unfolding ents_ok_def by blast+
      have "length (remove1 i (en_chanacs Y)) = length (en_chanacs Y) - 1" "length (en_chanacs Y) > 0"
        using Y(2) by (auto simp: length_remove1)
      then show ?thesis using X Yo by (auto simp: set_remove1_eq)
    next
      case False
      then have X: "am_ents st e = Some X" using 1 by (auto split: option.splits if_splits)
      have "i \<notin> set (en_chanacs X)" using o(3) X Some False unfolding ents_ok_def by fastforce
      moreover have "distinct (en_chanacs X) \<and> (en_type X = ENT_EXTTARGET \<longrightarrow> int (length (en_chanacs X)) \<le> en_refs X) \<and>
          (\<forall>j \<in> set (en_chanacs X). \<exists>B. am_acs st j = Some B \<and> ca_entity B = Some e)"
        using o(3) X unfolding ents_ok_def by blast
      ultimately show ?thesis by (auto simp: fun_upd_def)
    qed
  qed
  moreover have "names_found E (chanacs_delete i st)"
    using o(4) C unfolding names_found_def d by (auto split: if_splits) (metis option.inject)
  moreover have "count_ok (chanacs_delete i st)"
  proof -
    have dm: "dom ((am_acs st)(i := None)) = dom (am_acs st) - {i}" "i \<in> dom (am_acs st)" using Some by auto
    have f: "finite (dom (am_acs st))" "am_count st = int (card (dom (am_acs st)))" using o(5) by (simp_all add: count_ok_def)
    then have "card (dom (am_acs st)) > 0" using dm(2) card_gt_0_iff by blast
    then show ?thesis using f dm by (simp add: count_ok_def d card_Diff_singleton of_nat_diff)
  qed
  moreover have "levels_ok E (chanacs_delete i st)" using o(6) unfolding levels_ok_def d by (auto split: if_splits)
  moreover have "unique_ok (chanacs_delete i st)"
    unfolding unique_ok_def d
  proof (intro allI impI, goal_cases)
    case (1 j k B D e)
    then have "am_acs st j = Some B" "am_acs st k = Some D" by (auto split: if_splits)
    then show ?case using o(7) 1(3-5) unfolding unique_ok_def by blast
  qed
  ultimately show ?thesis by (simp add: acs_ok_def)
qed

lemma new_cell:
  assumes "acs_ok E st"
  shows "am_acs st (am_next st) = None" "am_chans st (am_next st) = None"
proof -
  show "am_acs st (am_next st) = None"
    using acs_okD(1) [OF assms] unfolding entries_ok_def by (metis less_irrefl option.exhaust)
  show "am_chans st (am_next st) = None"
    using acs_okD(2) [OF assms] unfolding chans_ok_def by (metis less_irrefl option.exhaust)
qed

definition target_ok :: "acs_state \<Rightarrow> acs_target \<Rightarrow> bool" where
  "target_ok st t \<longleftrightarrow> (case t of T_entity e \<Rightarrow> am_ents st e \<noteq> None | T_host _ \<Rightarrow> True)"

text \<open>The cells of the state after a new entry.\<close>

definition new_entry :: "acs_env \<Rightarrow> nat \<Rightarrow> acs_target \<Rightarrow> u32 \<Rightarrow> nat \<Rightarrow> cstr option \<Rightarrow> chanacs" where
  "new_entry E c t level ts setter =
     \<lparr>ca_chan = c, ca_entity = (case t of T_entity e \<Rightarrow> Some e | T_host _ \<Rightarrow> None),
      ca_host = (case t of T_entity _ \<Rightarrow> [] | T_host h \<Rightarrow> h), ca_level = level AND ve_ca_all E,
      ca_tmodified = ts, ca_setter = setter_uid setter\<rparr>"

lemma add_cells:
  assumes "am_chans st c = Some C" "char_at (mc_name C) 0 = CHR ''#''" "chanacs_add_target E st c t level ts setter = (r, st')"
  shows "r = Some (am_next st)" "am_acs st' = (am_acs st)(am_next st := Some (new_entry E c t level ts setter))"
    "am_chans st' = (am_chans st)(c := Some (C\<lparr>mc_chanacs := mc_chanacs C @ [am_next st]\<rparr>))"
    "am_mclist st' = am_mclist st" "am_next st' = Suc (am_next st)" "am_count st' = am_count st + 1" "am_log st' = am_log st"
    "am_ents st' = (case t of T_host _ \<Rightarrow> am_ents st | T_entity e \<Rightarrow> (am_ents st)(e := map_option (\<lambda>X. X\<lparr>en_chanacs := en_chanacs X @ [am_next st],
                                     en_refs := (if en_type X = ENT_EXTTARGET then en_refs X + 1 else en_refs X)\<rparr>) (am_ents st e)))"
  using assms by (auto simp: chanacs_add_target_def Let_def new_entry_def split: acs_target.splits)

lemma add_refused:
  "am_chans st c = None \<or> (\<exists>C. am_chans st c = Some C \<and> char_at (mc_name C) 0 \<noteq> CHR ''#'') \<Longrightarrow>
   chanacs_add_target E st c t level ts setter = (None, st)"
  by (auto simp: chanacs_add_target_def split: option.splits)

lemma ok_add:
  assumes ok: "acs_ok E st" and t: "target_ok st t" and new: "find_target st c t = None"
  shows "acs_ok E (snd (chanacs_add_target E st c t level ts setter))"
proof (cases "\<exists>C. am_chans st c = Some C \<and> char_at (mc_name C) 0 = CHR ''#''")
  case False
  then show ?thesis using ok add_refused [of st c] by (cases "am_chans st c") auto
next
  case True
  then obtain C where C: "am_chans st c = Some C" "char_at (mc_name C) 0 = CHR ''#''" by blast
  obtain r st' where a: "chanacs_add_target E st c t level ts setter = (r, st')" by fastforce
  note d = add_cells [OF C a]
  note o = acs_okD [OF ok]
  note n = new_cell [OF ok]
  let ?N = "new_entry E c t level ts setter"
  let ?i = "am_next st"
  have N: "ca_chan ?N = c" "ca_entity ?N = (case t of T_entity e \<Rightarrow> Some e | T_host _ \<Rightarrow> None)" "ca_level ?N = level AND ve_ca_all E"
    by (simp_all add: new_entry_def)
  have dC: "distinct (mc_chanacs C)" "?i \<notin> set (mc_chanacs C)" using o(2) C(1) n(1) unfolding chans_ok_def by fastforce+
  have iX: "?i \<notin> set (en_chanacs X)" if "am_ents st e = Some X" for e X using o(3) that n(1) unfolding ents_ok_def by fastforce
  have "entries_ok st'"
    unfolding entries_ok_def d
  proof (intro allI impI, goal_cases)
    case (1 j B)
    show ?case
    proof (cases "j = ?i")
      case True
      have "B = ?N" using 1 True by simp
      show ?thesis
      proof (cases t)
        case (T_entity e)
        then obtain Y where "am_ents st e = Some Y" using t by (auto simp: target_ok_def)
        then show ?thesis using T_entity True \<open>B = ?N\<close> N by simp
      next
        case (T_host h)
        then show ?thesis using True \<open>B = ?N\<close> N by simp
      qed
    next
      case False
      then have j: "am_acs st j = Some B" using 1 by simp
      have oj: "j < ?i" "\<exists>C. am_chans st (ca_chan B) = Some C \<and> j \<in> set (mc_chanacs C)"
        "\<And>e. ca_entity B = Some e \<Longrightarrow> \<exists>X. am_ents st e = Some X \<and> j \<in> set (en_chanacs X)"
        using o(1) j unfolding entries_ok_def by blast+
      have p2: "\<exists>D. ((am_chans st)(c \<mapsto> C\<lparr>mc_chanacs := mc_chanacs C @ [?i]\<rparr>)) (ca_chan B) = Some D \<and> j \<in> set (mc_chanacs D)"
        using oj(2) C(1) by (cases "ca_chan B = c") auto
      have p3: "\<exists>X. (case t of T_host _ \<Rightarrow> am_ents st | T_entity e \<Rightarrow> (am_ents st)(e := map_option (\<lambda>X. X\<lparr>en_chanacs := en_chanacs X @ [?i],
                 en_refs := (if en_type X = ENT_EXTTARGET then en_refs X + 1 else en_refs X)\<rparr>) (am_ents st e))) e = Some X \<and> j \<in> set (en_chanacs X)"
        if e: "ca_entity B = Some e" for e
      proof -
        obtain X where X: "am_ents st e = Some X" "j \<in> set (en_chanacs X)" using oj(3) [OF e] by blast
        consider "t = T_entity e" | e' where "t = T_entity e'" "e' \<noteq> e" | h where "t = T_host h" by (cases t) auto
        from this X show ?thesis by cases auto
      qed
      show ?thesis using oj(1) p2 p3 by simp
    qed
  qed
  moreover have "chans_ok st'"
    using o(2) C dC n N unfolding chans_ok_def d by (fastforce split: if_splits)
  moreover have "ents_ok st'"
    unfolding ents_ok_def d
  proof (intro allI impI, goal_cases)
    case (1 e X)
    show ?case
    proof (cases "t = T_entity e")
      case True
      then obtain Y where Y: "am_ents st e = Some Y" using t by (auto simp: target_ok_def)
      then have X: "X = Y\<lparr>en_chanacs := en_chanacs Y @ [?i], en_refs := (if en_type Y = ENT_EXTTARGET then en_refs Y + 1 else en_refs Y)\<rparr>"
        using 1 True by simp
      have "distinct (en_chanacs Y)" "en_type Y = ENT_EXTTARGET \<Longrightarrow> int (length (en_chanacs Y)) \<le> en_refs Y"
          "\<forall>j \<in> set (en_chanacs Y). \<exists>B. am_acs st j = Some B \<and> ca_entity B = Some e"
        using o(3) Y unfolding ents_ok_def by blast+
      then show ?thesis using X True iX [OF Y] N by auto
    next
      case False
      then have X: "am_ents st e = Some X" using 1 by (auto split: acs_target.splits if_splits)
      have "distinct (en_chanacs X) \<and> (en_type X = ENT_EXTTARGET \<longrightarrow> int (length (en_chanacs X)) \<le> en_refs X) \<and>
          (\<forall>j \<in> set (en_chanacs X). \<exists>B. am_acs st j = Some B \<and> ca_entity B = Some e)"
        using o(3) X unfolding ents_ok_def by blast
      then show ?thesis using iX [OF X] by (auto simp: fun_upd_def)
    qed
  qed
  moreover have "names_found E st'"
    using o(4) C unfolding names_found_def d by (auto split: if_splits) (metis option.inject)
  moreover have "count_ok st'"
    using o(5) n(1) unfolding count_ok_def d by (auto simp: domIff)
  moreover have "levels_ok E st'" using o(6) N unfolding levels_ok_def d by (auto split: if_splits simp: word_bw_assocs)
  moreover have "unique_ok st'"
    unfolding unique_ok_def d
  proof (intro allI impI, goal_cases)
    case (1 j k B D e)
    have out: "False" if "am_acs st m = Some F" "ca_chan F = c" "ca_entity F = Some e" "ca_entity ?N = Some e" for m F
    proof -
      have "t = T_entity e" using that(4) N(2) by (auto split: acs_target.splits)
      then have "chanacs_find_literal st c e 0 = None" using new by (simp add: find_target_def)
      then show False using literal_None [OF ok] that by blast
    qed
    consider "j = ?i" "k = ?i" | "j = ?i" "k \<noteq> ?i" | "j \<noteq> ?i" "k = ?i" | "j \<noteq> ?i" "k \<noteq> ?i" by blast
    then show ?case
    proof cases
      case 2
      then show ?thesis using 1 out [of k D] N(1) by auto
    next
      case 3
      then show ?thesis using 1 out [of j B] N(1) by auto
    next
      case 4
      then have "am_acs st j = Some B" "am_acs st k = Some D" using 1 by simp_all
      then show ?thesis using o(7) 1(3-5) unfolding unique_ok_def by blast
    qed simp
  qed
  ultimately show ?thesis using a by (simp add: acs_ok_def)
qed

lemma ok_set_level:
  assumes ok: "acs_ok E st" and l: "level AND NOT (ve_ca_all E) = 0"
  shows "acs_ok E (set_level E i level setter st)"
proof (cases "am_acs st i")
  case None
  then have "set_level E i level setter st = st" by (simp add: set_level_def fun_upd_idem)
  then show ?thesis using ok by simp
next
  case (Some A)
  let ?B = "A\<lparr>ca_level := level, ca_tmodified := ve_now E, ca_setter := setter_uid setter\<rparr>"
  have d: "am_acs (set_level E i level setter st) = (am_acs st)(i := Some ?B)"
      "am_chans (set_level E i level setter st) = am_chans st" "am_ents (set_level E i level setter st) = am_ents st"
      "am_mclist (set_level E i level setter st) = am_mclist st" "am_next (set_level E i level setter st) = am_next st"
      "am_count (set_level E i level setter st) = am_count st"
    using Some by (simp_all add: set_level_def)
  have same: "\<exists>F. am_acs st j = Some F \<and> ca_chan F = ca_chan D \<and> ca_entity F = ca_entity D" if "((am_acs st)(i := Some ?B)) j = Some D" for j D
    using that Some by (auto split: if_splits)
  have bk: "\<exists>D. ((am_acs st)(i := Some ?B)) j = Some D \<and> ca_chan F = ca_chan D \<and> ca_entity F = ca_entity D" if "am_acs st j = Some F" for j F
    using that Some by (cases "j = i") auto
  note o = acs_okD [OF ok]
  have "entries_ok (set_level E i level setter st)"
    using o(1) same unfolding entries_ok_def d by (metis (no_types, lifting))
  moreover have "chans_ok (set_level E i level setter st)"
    using o(2) bk unfolding chans_ok_def d by (metis (no_types, lifting))
  moreover have "ents_ok (set_level E i level setter st)"
    using o(3) bk unfolding ents_ok_def d by (metis (no_types, lifting))
  moreover have "names_found E (set_level E i level setter st)" using o(4) unfolding names_found_def d by blast
  moreover have "count_ok (set_level E i level setter st)"
    using o(5) Some unfolding count_ok_def d by (auto simp: insert_absorb domI)
  moreover have "levels_ok E (set_level E i level setter st)" using o(6) l unfolding levels_ok_def d by auto
  moreover have "unique_ok (set_level E i level setter st)"
    using o(7) same unfolding unique_ok_def d by (metis (no_types, lifting))
  ultimately show ?thesis by (simp add: acs_ok_def)
qed

section \<open>Flag arithmetic\<close>

lemma bit_u32: "bit (a :: u32) n \<Longrightarrow> n < 32"
  using bit_imp_le_length [of a n] by simp

lemma within_iff: "(a :: u32) AND NOT b = 0 \<longleftrightarrow> (\<forall>n. bit a n \<longrightarrow> bit b n)"
  by (simp add: bit_eq_iff bit_simps) (blast dest: bit_u32)

lemma meets_iff: "(a :: u32) AND b \<noteq> 0 \<longleftrightarrow> (\<exists>n. bit a n \<and> bit b n)"
  by (simp add: bit_eq_iff bit_simps) (blast dest: bit_u32)

lemma within_and: "((a :: u32) AND b) AND NOT b = 0"
  by (simp add: within_iff bit_simps)

lemma modify_within:
  assumes "modify_level level a r restrict = (ok, a', r', Some l)" "level AND NOT allf = 0" "a AND NOT allf = 0"
  shows "l AND NOT allf = 0"
  using assms by (auto simp: modify_level_def Let_def within_iff bit_simps split: if_splits)

section \<open>Operations keep the lists well formed\<close>

lemma ok_chan_bits:
  assumes ok: "acs_ok E st" and f: "\<And>C. mc_name (f C) = mc_name C \<and> mc_chanacs (f C) = mc_chanacs C"
  shows "acs_ok E (upd_chan c f st)"
proof -
  note o = acs_okD [OF ok]
  have "chans_ok (upd_chan c f st)" using o(2) f unfolding chans_ok_def by (auto split: if_splits)
  moreover have "entries_ok (upd_chan c f st)" using o(1) f unfolding entries_ok_def by fastforce
  moreover have "names_found E (upd_chan c f st)" 
  proof -
    have 1: "\<exists>D. am_chans st e = Some D \<and> mc_name D = mc_name C" if "am_chans (upd_chan c f st) e = Some C" for e C
      using that f by (auto split: if_splits)
    have 2: "\<exists>C. am_chans (upd_chan c f st) e = Some C \<and> mc_name C = mc_name D" if "am_chans st e = Some D" for e D
      using that f by auto
    have 3: "am_mclist (upd_chan c f st) = am_mclist st" by simp
    show ?thesis using o(4) 1 2 unfolding names_found_def 3 by metis
  qed
  ultimately show ?thesis using o by (simp add: acs_ok_def ents_ok_def count_ok_def levels_ok_def unique_ok_def)
qed

lemma ok_close: "acs_ok E st \<Longrightarrow> acs_ok E (chanacs_close i st)"
  by (simp add: chanacs_close_def ok_delete split: option.split)

lemma ok_change:
  assumes ok: "acs_ok E st" and t: "target_ok st t" and a: "addf AND NOT (ve_ca_all E) = 0"
  shows "acs_ok E (snd (snd (snd (chanacs_change E st c t addf removef restrict setter))))"
proof (cases "find_target st c t")
  case None
  then show ?thesis using ok_add [OF ok t None] ok by (simp add: chanacs_change_def)
next
  case (Some i)
  then obtain A where A: "am_acs st i = Some A" using target_Some [OF ok Some] by blast
  have l: "ca_level A AND NOT (ve_ca_all E) = 0" using acs_okD(6) [OF ok] A unfolding levels_ok_def by blast
  obtain okb a' r' new where m: "modify_level (ca_level A) addf removef restrict = (okb, a', r', new)" by (metis prod_cases4)
  have "acs_ok E (set_level E i l' setter st)" if "new = Some l'" for l'
    using modify_within [of "ca_level A" addf removef restrict okb a' r' l' "ve_ca_all E"] m that l a by (intro ok_set_level ok) simp
  then show ?thesis using Some A m ok by (simp add: chanacs_change_def ok_close split: option.split)
qed

lemma ok_change_simple:
  assumes "acs_ok E st" "target_ok st t"
  shows "acs_ok E (snd (chanacs_change_simple E st c t addf removef setter))"
proof -
  have "acs_ok E (snd (snd (snd (chanacs_change E st c t (addf AND ve_ca_all E) (removef AND ve_ca_all E) (ve_ca_all E) setter))))"
    by (rule ok_change [OF assms within_and])
  then show ?thesis by (auto simp: chanacs_change_simple_def split: prod.split)
qed

lemma ok_modify:
  assumes ok: "acs_ok E st" and a: "addf AND NOT (ve_ca_all E) = 0"
  shows "acs_ok E (snd (snd (snd (chanacs_modify E st i addf removef restrict setter))))"
proof (cases "am_acs st i")
  case None
  then show ?thesis using ok by (simp add: chanacs_modify_def)
next
  case (Some A)
  have l: "ca_level A AND NOT (ve_ca_all E) = 0" using acs_okD(6) [OF ok] Some unfolding levels_ok_def by blast
  obtain okb a' r' new where m: "modify_level (ca_level A) addf removef restrict = (okb, a', r', new)" by (metis prod_cases4)
  have "acs_ok E (set_level E i l' setter st)" if "new = Some l'" for l'
    using modify_within [of "ca_level A" addf removef restrict okb a' r' l' "ve_ca_all E"] m that l a by (intro ok_set_level ok) simp
  then show ?thesis using Some m ok by (simp add: chanacs_modify_def split: option.split)
qed

lemma ok_open: "acs_ok E st \<Longrightarrow> target_ok st t \<Longrightarrow> acs_ok E (snd (chanacs_open E st c t create setter))"
  using ok_add [of E st t c] by (cases "find_target st c t") (simp_all add: chanacs_open_def)

lemma ok_mychan_add:
  assumes ok: "acs_ok E st"
  shows "acs_ok E (snd (mychan_add E name st))"
proof (cases "mychan_find E st name")
  case None
  note o = acs_okD [OF ok]
  have n: "am_mclist st (irccasecanon (ve_casemap E) name) = None" using None by (simp add: mychan_find_def)
  let ?st = "snd (mychan_add E name st)"
  have d: "am_acs ?st = am_acs st" "am_ents ?st = am_ents st" "am_count ?st = am_count st" "am_next ?st = Suc (am_next st)"
    "am_chans ?st = (am_chans st)(am_next st \<mapsto> \<lparr>mc_name = name, mc_chanacs = [], mc_registered = ve_now E, mc_used = 0, mc_bits = 0\<rparr>)"
    "am_mclist ?st = (am_mclist st)(irccasecanon (ve_casemap E) name \<mapsto> am_next st)"
    using None by (simp_all add: mychan_add_def Let_def)
  note c = new_cell(2) [OF ok]
  have "entries_ok ?st"
    using o(1) c unfolding entries_ok_def d by (metis fun_upd_other less_Suc_eq option.distinct(1))
  moreover have "chans_ok ?st" using o(2) unfolding chans_ok_def d by (auto simp: less_Suc_eq)
  moreover have "ents_ok ?st" using o(3) unfolding ents_ok_def d by blast
  moreover have "names_found E ?st" using o(4) n c unfolding names_found_def d by (auto split: if_splits) (metis option.simps(3))+
  ultimately show ?thesis using o unfolding acs_ok_def count_ok_def levels_ok_def unique_ok_def d by blast
qed (use ok in \<open>simp add: mychan_add_def\<close>)

section \<open>Dropping a channel\<close>

lemma fold_delete:
  assumes "acs_ok E st" "am_chans st c = Some C"
  shows "acs_ok E (fold chanacs_delete (mc_chanacs C) st) \<and>
    am_chans (fold chanacs_delete (mc_chanacs C) st) = (am_chans st)(c \<mapsto> C\<lparr>mc_chanacs := []\<rparr>) \<and>
    am_acs (fold chanacs_delete (mc_chanacs C) st) = (\<lambda>j. if j \<in> set (mc_chanacs C) then None else am_acs st j) \<and>
    am_mclist (fold chanacs_delete (mc_chanacs C) st) = am_mclist st \<and>
    am_next (fold chanacs_delete (mc_chanacs C) st) = am_next st \<and>
    am_log (fold chanacs_delete (mc_chanacs C) st) = am_log st"
  using assms
proof (induction "mc_chanacs C" arbitrary: st C)
  case Nil
  then have "(am_chans st)(c \<mapsto> C\<lparr>mc_chanacs := []\<rparr>) = am_chans st" by (auto simp: fun_upd_idem_iff)
  then show ?case using Nil by (simp flip: Nil(1))
next
  case (Cons i js)
  have "\<exists>A. am_acs st i = Some A \<and> ca_chan A = c"
    using acs_okD(2) [OF Cons.prems(1)] Cons.prems(2) Cons.hyps(2) unfolding chans_ok_def by (metis list.set_intros(1))
  then obtain A where A: "am_acs st i = Some A" "ca_chan A = c" by blast
  note d = delete_cells [OF A(1)]
  let ?C = "C\<lparr>mc_chanacs := js\<rparr>"
  have c': "am_chans (chanacs_delete i st) = (am_chans st)(c \<mapsto> ?C)"
    using A Cons.prems(2) by (simp add: d flip: Cons.hyps(2))
  have "am_chans (chanacs_delete i st) c = Some ?C" "js = mc_chanacs ?C" by (simp_all add: c')
  from Cons.hyps(1) [OF this(2) ok_delete [OF Cons.prems(1)] this(1)] show ?case
    by (auto simp: c' d simp flip: Cons.hyps(2))
qed

lemma ok_remove_chan:
  assumes ok: "acs_ok E st" and C: "am_chans st c = Some C" "mc_chanacs C = []"
  shows "acs_ok E (st\<lparr>am_mclist := (am_mclist st)(irccasecanon (ve_casemap E) (mc_name C) := None), am_chans := (am_chans st)(c := None)\<rparr>)"
    (is "acs_ok E ?st")
proof -
  note o = acs_okD [OF ok]
  have "entries_ok ?st" using o(1) C unfolding entries_ok_def by fastforce
  moreover have "chans_ok ?st" using o(2) unfolding chans_ok_def by auto
  moreover have "names_found E ?st" using o(4) C unfolding names_found_def by (auto split: if_splits) (metis option.inject)+
  ultimately show ?thesis using o by (simp add: acs_ok_def ents_ok_def count_ok_def levels_ok_def unique_ok_def)
qed

lemma mychan_delete_cells:
  assumes "acs_ok E st" "am_chans st c = Some C"
  shows "acs_ok E (mychan_delete E c st)" "am_chans (mychan_delete E c st) = (am_chans st)(c := None)"
    "am_acs (mychan_delete E c st) = (\<lambda>j. if j \<in> set (mc_chanacs C) then None else am_acs st j)"
    "am_log (mychan_delete E c st) = am_log st"
  using fold_delete [OF assms] ok_remove_chan [of E "fold chanacs_delete (mc_chanacs C) st" c "C\<lparr>mc_chanacs := []\<rparr>"] assms(2)
  by (simp_all add: mychan_delete_def Let_def)

lemma ok_mychan_delete: "acs_ok E st \<Longrightarrow> acs_ok E (mychan_delete E c st)"
  using mychan_delete_cells(1) by (cases "am_chans st c") (simp_all add: mychan_delete_def)

lemma ok_expire: "acs_ok E st \<Longrightarrow> acs_ok E (expire_channel E c st)"
  by (auto simp: expire_channel_def intro!: ok_mychan_delete ok_chan_bits split: option.split)

end
