(* ===== verification/Succession.thy ===== *)
theory Succession
  imports Access
begin

text \<open>
  What the access list operations of \<open>Access\<close> achieve: candidates for a channel and the succession when an account is
  dropped, the invariant of every history of operations, the effect of a change of flags, and two ways in which
  the code falls short.
\<close>

section \<open>Succession\<close>

definition env_ok :: "acs_env \<Rightarrow> bool" where
  "env_ok E \<longleftrightarrow> (CA_FOUNDER OR CA_FLAGS) AND NOT (ve_ca_all E) = 0 \<and>
     (\<forall>f. ve_successor E = Some f \<longrightarrow> f AND (CA_FOUNDER OR CA_FLAGS) = 0)"

text \<open>\<open>e\<close> has an entry with the founder flag in \<open>c\<close>.\<close>

definition founder_of :: "acs_state \<Rightarrow> nat \<Rightarrow> nat \<Rightarrow> bool" where
  "founder_of st c e \<longleftrightarrow> (\<exists>i A. am_acs st i = Some A \<and> ca_chan A = c \<and> ca_entity A = Some e \<and> ca_level A AND CA_FOUNDER \<noteq> 0)"

lemma entries_distinct:
  assumes "acs_ok E st"
  shows "distinct (chan_entries st c)"
proof -
  have "distinct is' \<Longrightarrow> distinct (entries_of st is')" for is'
    by (induction is') (auto simp: entries_of_mem split: option.splits)
  then show ?thesis using acs_okD(2) [OF assms] unfolding chan_entries_def chans_ok_def by (auto split: option.splits)
qed

lemma founders_pos:
  assumes ok: "acs_ok E st"
  shows "mychan_num_founders st c \<noteq> 0 \<longleftrightarrow> (\<exists>e. founder_of st c e)"
  using entries_mem [OF ok]
  by (fastforce simp: mychan_num_founders_def mychan_num_flags_def founder_of_def filter_empty_conv)

text \<open>A founder that is not the only one leaves another.\<close>

lemma founders_other:
  assumes ok: "acs_ok E st" and e: "founder_of st c e" and n: "mychan_num_founders st c \<noteq> 1"
  shows "\<exists>d. d \<noteq> e \<and> founder_of st c d"
proof (rule ccontr)
  assume no: "\<not> ?thesis"
  let ?P = "\<lambda>(i, A). ca_entity A \<noteq> None \<and> ca_level A AND CA_FOUNDER \<noteq> 0"
  obtain i A where A: "am_acs st i = Some A" "ca_chan A = c" "ca_entity A = Some e" "ca_level A AND CA_FOUNDER \<noteq> 0"
    using e by (auto simp: founder_of_def)
  have "(j, B) = (i, A)" if "(j, B) \<in> set (filter ?P (chan_entries st c))" for j B
  proof -
    have B: "am_acs st j = Some B" "ca_chan B = c" "ca_entity B \<noteq> None" "ca_level B AND CA_FOUNDER \<noteq> 0"
      using that entries_mem [OF ok] by auto
    then obtain d where d: "ca_entity B = Some d" by blast
    then have "founder_of st c d" using B by (auto simp: founder_of_def)
    then have "d = e" using no by blast
    then have "j = i" using acs_okD(7) [OF ok] A B d unfolding unique_ok_def by metis
    then show ?thesis using A B by simp
  qed
  then have sub: "set (filter ?P (chan_entries st c)) \<subseteq> {(i, A)}" by auto
  have "(i, A) \<in> set (filter ?P (chan_entries st c))" using A entries_mem [OF ok] by auto
  then have "set (filter ?P (chan_entries st c)) = {(i, A)}" using sub by blast
  then have "length (filter ?P (chan_entries st c)) = 1"
    using distinct_card [OF distinct_filter [OF entries_distinct [OF ok]], of ?P c] by simp
  then show False using n by (simp add: mychan_num_founders_def mychan_num_flags_def)
qed

text \<open>The candidate comes from an entry of the channel that is neither founder nor banned.\<close>

definition candidate_entry :: "acs_state \<Rightarrow> nat \<Rightarrow> u32 \<Rightarrow> nat \<Rightarrow> chanacs \<Rightarrow> bool" where
  "candidate_entry st c minlevel e A \<longleftrightarrow> A \<in> set (map snd (chan_entries st c)) \<and> ca_entity A = Some e \<and>
     ca_level A AND CA_AKICK = 0 \<and> ca_level A AND CA_FOUNDER = 0 \<and> ca_level A AND minlevel = minlevel"

lemma pick_fold:
  assumes "foldl (pick_step E st l) (rc, hi) As = (rc', Some (e, lev, r))"
  shows "hi = Some (e, lev, r) \<or> (\<exists>A \<in> set As. ca_entity A = Some e \<and> ca_level A AND CA_AKICK = 0 \<and> ca_level A AND CA_FOUNDER = 0 \<and>
     ca_level A AND l = l \<and> lev = add_auto_flags (ca_level A) \<and> myentity_can_register_channel E st e)"
  using assms
proof (induction As arbitrary: rc hi)
  case (Cons A As)
  obtain rc1 hi1 where s: "pick_step E st l (rc, hi) A = (rc1, hi1)" by fastforce
  then have "foldl (pick_step E st l) (rc1, hi1) As = (rc', Some (e, lev, r))" using Cons.prems by simp
  from Cons.IH [OF this] consider "hi1 = Some (e, lev, r)" | "\<exists>A \<in> set As. ca_entity A = Some e \<and> ca_level A AND CA_AKICK = 0 \<and> ca_level A AND CA_FOUNDER = 0 \<and>
     ca_level A AND l = l \<and> lev = add_auto_flags (ca_level A) \<and> myentity_can_register_channel E st e" by blast
  then show ?case
  proof cases
    case 1
    then show ?thesis using s by (auto simp: pick_step_def Let_def split: if_splits option.splits)
  qed auto
qed simp

lemma candidate_entryD:
  assumes "mychan_pick_candidate E st c l = Some e"
  shows "is_user st e \<and> myentity_can_register_channel E st e \<and> (\<exists>A. candidate_entry st c l e A)"
proof -
  obtain rc lev r where f: "foldl (pick_step E st l) (False, None) (map snd (chan_entries st c)) = (rc, Some (e, lev, r))" "is_user st e"
    using assms by (auto simp: mychan_pick_candidate_def split: option.splits if_splits prod.splits) (metis prod.collapse)
  show ?thesis using pick_fold [OF f(1)] f(2) by (auto simp: candidate_entry_def)
qed

lemma successor_candidate: "mychan_pick_successor E st c = Some e \<Longrightarrow> \<exists>l. mychan_pick_candidate E st c l = Some e"
proof -
  have "first_candidate E st c ls = Some e \<Longrightarrow> \<exists>l. mychan_pick_candidate E st c l = Some e" for ls
    by (induction ls) (auto split: option.splits)
  then show "mychan_pick_successor E st c = Some e \<Longrightarrow> ?thesis" by (simp add: mychan_pick_successor_def)
qed

lemma successor_entry:
  assumes ok: "acs_ok E st" and s: "mychan_pick_successor E st c = Some e"
  shows "is_user st e \<and> \<not> founder_of st c e \<and> (\<exists>j B. am_acs st j = Some B \<and> ca_chan B = c \<and> ca_entity B = Some e)"
proof -
  obtain l where "mychan_pick_candidate E st c l = Some e" using successor_candidate [OF s] by blast
  then obtain A where u: "is_user st e" and A: "candidate_entry st c l e A" using candidate_entryD by blast
  then obtain j where j: "am_acs st j = Some A" "ca_chan A = c" "ca_entity A = Some e" "ca_level A AND CA_FOUNDER = 0"
    using entries_snd [OF ok] by (auto simp: candidate_entry_def)
  have "\<not> founder_of st c e"
  proof
    assume "founder_of st c e"
    then obtain i B where B: "am_acs st i = Some B" "ca_chan B = c" "ca_entity B = Some e" "ca_level B AND CA_FOUNDER \<noteq> 0"
      by (auto simp: founder_of_def)
    then have "i = j" using acs_okD(7) [OF ok] j unfolding unique_ok_def by metis
    then show False using B j by simp
  qed
  then show ?thesis using u j by blast
qed

lemma modify_spec:
  assumes "modify_level level a r restrict = (ok, a', r', new)"
  shows "a' = a AND NOT level \<and> r' = r AND level \<and>
    (ok \<longrightarrow> (case new of None \<Rightarrow> level | Some l \<Rightarrow> l) = (level AND NOT r) OR (a AND NOT level)) \<and>
    (new \<noteq> None \<longrightarrow> ok \<and> level AND NOT restrict = 0 \<and> a' AND NOT restrict = 0 \<and> r' AND NOT restrict = 0) \<and>
    (ok \<longleftrightarrow> (a' = 0 \<and> r' = 0) \<or> new \<noteq> None)"
  using assms
  by (auto simp: modify_level_def Let_def split: if_splits) (auto simp: bit_eq_iff bit_simps)

lemma founder_bit: "(x :: u32) AND CA_FOUNDER \<noteq> 0 \<longleftrightarrow> bit x 13"
proof -
  have "CA_FOUNDER = 2 ^ 13" by (simp add: CA_FOUNDER_def)
  then show ?thesis unfolding \<open>CA_FOUNDER = 2 ^ 13\<close> by (simp only: and_exp_eq_0_iff_not_bit not_not)
qed

lemma modify_allowed:
  assumes "level AND NOT allf = 0" "a AND NOT allf = 0"
  shows "fst (modify_level level a (r AND allf) allf)"
proof -
  have "NOT allf AND (a AND NOT level) = 0" "NOT allf AND ((r AND allf) AND x) = 0" "NOT allf AND level = 0" for x
    using assms by (auto simp: and.commute [of "NOT allf"] within_iff bit_simps)
  then show ?thesis by (simp add: modify_level_def Let_def)
qed

text \<open>A change on the entry of an entity that keeps or gives the founder flag touches that entry alone.\<close>

lemma change_founder:
  assumes ok: "acs_ok E st" and B: "am_acs st j = Some B" "ca_chan B = c" "ca_entity B = Some s"
    and a: "a AND NOT (ve_ca_all E) = 0" and f: "bit (ca_level B) 13 \<or> bit a 13" "\<not> bit r 13"
  shows "\<exists>B'. am_acs (snd (chanacs_change_simple E st c (T_entity s) a r setter)) = (am_acs st)(j \<mapsto> B') \<and> ca_chan B' = c \<and>
      ca_entity B' = Some s \<and> bit (ca_level B') 13 \<and>
      am_chans (snd (chanacs_change_simple E st c (T_entity s) a r setter)) = am_chans st \<and>
      am_ents (snd (chanacs_change_simple E st c (T_entity s) a r setter)) = am_ents st \<and>
      am_log (snd (chanacs_change_simple E st c (T_entity s) a r setter)) = am_log st"
proof -
  obtain i where i: "find_target st c (T_entity s) = Some i"
    using literal_None [OF ok, of c s] B by (auto simp: find_target_def)
  then obtain A where "am_acs st i = Some A" "ca_chan A = c" "ca_entity A = Some s" using target_Some [OF ok i] by auto
  then have ij: "i = j" using acs_okD(7) [OF ok] B unfolding unique_ok_def by metis
  let ?all = "ve_ca_all E"
  have aa: "a AND ?all = a" using a unfolding within_iff by (auto intro!: bit_eqI simp: bit_and_iff)
  obtain okb a' r' new where m: "modify_level (ca_level B) a (r AND ?all) ?all = (okb, a', r', new)" by (metis prod_cases4)
  note sp = modify_spec [OF m]
  show ?thesis
  proof (cases new)
    case None
    have "ca_level B AND NOT ?all = 0" using acs_okD(6) [OF ok] B(1) unfolding levels_ok_def by blast
    then have "okb" using modify_allowed [OF _ a, of "ca_level B" r] m by simp
    then have "a' = 0" using sp None by blast
    then have "a AND NOT (ca_level B) = 0" using sp by simp
    then have "bit (ca_level B) 13" using f(1) unfolding within_iff by blast
    then show ?thesis
      using i ij m None B by (auto simp: chanacs_change_simple_def chanacs_change_def aa fun_upd_idem intro!: exI [of _ B])
  next
    case (Some l)
    then have l: "l = (ca_level B AND NOT (r AND ?all)) OR (a AND NOT (ca_level B))" using sp by auto
    then have b: "bit l 13" using f by (auto simp: bit_simps)
    then have "l \<noteq> 0" by auto
    then show ?thesis
      using i ij m Some B b
      by (auto simp: chanacs_change_simple_def chanacs_change_def aa chanacs_close_def set_level_def
          intro!: exI [of _ "B\<lparr>ca_level := l, ca_tmodified := ve_now E, ca_setter := setter_uid setter\<rparr>"])
  qed
qed

lemma succession_cells:
  assumes ok: "acs_ok E st" and env: "env_ok E" and B: "am_acs st j = Some B" "ca_chan B = c" "ca_entity B = Some s"
  shows "acs_ok E (succession E c s st) \<and> (\<exists>B'. am_acs (succession E c s st) = (am_acs st)(j \<mapsto> B') \<and> ca_chan B' = c \<and>
      ca_entity B' = Some s \<and> bit (ca_level B') 13) \<and> am_chans (succession E c s st) = am_chans st \<and>
      am_ents (succession E c s st) = am_ents st \<and> am_log (succession E c s st) = am_log st @ [Succession c s]"
proof -
  let ?st1 = "snd (chanacs_change_simple E st c (T_entity s) (CA_FOUNDER OR CA_FLAGS) 0 None)"
  let ?st2 = "acs_emit [Succession c s] ?st1"
  have t: "target_ok st (T_entity s)" using acs_okD(1) [OF ok] B unfolding entries_ok_def target_ok_def by fastforce
  have fl: "bit (CA_FOUNDER OR CA_FLAGS) 13" "(CA_FOUNDER OR CA_FLAGS) AND NOT (ve_ca_all E) = 0"
    using env by (auto simp: env_ok_def bit_simps flag_simps)
  obtain B1 where 1: "am_acs ?st1 = (am_acs st)(j \<mapsto> B1)" "ca_chan B1 = c" "ca_entity B1 = Some s" "bit (ca_level B1) 13"
      "am_chans ?st1 = am_chans st" "am_ents ?st1 = am_ents st" "am_log ?st1 = am_log st"
    using change_founder [OF ok B fl(2), of 0 None] fl(1) by auto
  have ok1: "acs_ok E ?st1" by (rule ok_change_simple [OF ok t])
  show ?thesis
  proof (cases "ve_successor E")
    case None
    then show ?thesis using 1 ok1 by (auto simp: succession_def intro!: exI [of _ B1])
  next
    case (Some f)
    have nf: "\<not> bit f 13" using env Some fl(1) by (auto simp: env_ok_def bit_eq_iff bit_simps)
    have ok2: "acs_ok E ?st2" "am_acs ?st2 j = Some B1" using ok1 1 by simp_all
    have t2: "target_ok ?st2 (T_entity s)" using t 1 by (simp add: target_ok_def)
    obtain B2 where 2: "am_acs (snd (chanacs_change_simple E ?st2 c (T_entity s) 0 f None)) = (am_acs ?st2)(j \<mapsto> B2)" "ca_chan B2 = c"
        "ca_entity B2 = Some s" "bit (ca_level B2) 13"
        "am_chans (snd (chanacs_change_simple E ?st2 c (T_entity s) 0 f None)) = am_chans ?st2"
        "am_ents (snd (chanacs_change_simple E ?st2 c (T_entity s) 0 f None)) = am_ents ?st2"
        "am_log (snd (chanacs_change_simple E ?st2 c (T_entity s) 0 f None)) = am_log ?st2"
      using change_founder [OF ok2 1(2,3), of 0 f None] 1(4) nf by auto
    have "acs_ok E (snd (chanacs_change_simple E ?st2 c (T_entity s) 0 f None))" by (rule ok_change_simple [OF ok2(1) t2])
    then show ?thesis using Some 1 2 by (auto simp: succession_def intro!: exI [of _ B2])
  qed
qed

text \<open>What one entry of the account does to the lists of the other channels: nothing.\<close>

definition same_chan :: "acs_state \<Rightarrow> acs_state \<Rightarrow> nat \<Rightarrow> bool" where
  "same_chan st st' c \<longleftrightarrow> am_chans st' c = am_chans st c \<and> chan_entries st' c = chan_entries st c"

lemma same_chan_trans: "same_chan st st' c \<Longrightarrow> same_chan st' st'' c \<Longrightarrow> same_chan st st'' c"
  by (simp add: same_chan_def)

lemma entries_cong: "(\<And>i. i \<in> set is' \<Longrightarrow> am_acs st' i = am_acs st i) \<Longrightarrow> entries_of st' is' = entries_of st is'"
  by (induction is') (auto split: option.splits)

lemma same_chanI:
  assumes "acs_ok E st" "am_chans st' c = am_chans st c" "\<And>i A. am_acs st i = Some A \<Longrightarrow> ca_chan A = c \<Longrightarrow> am_acs st' i = Some A"
  shows "same_chan st st' c"
proof (cases "am_chans st c")
  case (Some C)
  have "am_acs st' i = am_acs st i" if "i \<in> set (mc_chanacs C)" for i
    using acs_okD(2) [OF assms(1)] Some that assms(3) unfolding chans_ok_def by metis
  then show ?thesis using assms(2) Some entries_cong [of "mc_chanacs C" st' st] by (simp add: same_chan_def chan_entries_def)
qed (use assms(2) in \<open>simp add: same_chan_def chan_entries_def\<close>)

lemma same_founders:
  assumes "acs_ok E st" "acs_ok E st'" "same_chan st st' c"
  shows "founder_of st' c e \<longleftrightarrow> founder_of st c e" "mychan_num_founders st' c = mychan_num_founders st c"
proof -
  have "founder_of s c e \<longleftrightarrow> (\<exists>(i, A) \<in> set (chan_entries s c). ca_entity A = Some e \<and> ca_level A AND CA_FOUNDER \<noteq> 0)" if "acs_ok E s" for s
    using entries_mem [OF that] by (fastforce simp: founder_of_def)
  then show "founder_of st' c e \<longleftrightarrow> founder_of st c e" using assms by (simp add: same_chan_def)
  show "mychan_num_founders st' c = mychan_num_founders st c"
    using assms(3) by (simp add: same_chan_def mychan_num_founders_def mychan_num_flags_def)
qed

section \<open>The entries of an account\<close>

lemma entity_entries_delete:
  assumes ok: "acs_ok E st" and u: "is_user st e"
  shows "entity_entries (chanacs_delete i st) e = remove1 i (entity_entries st e) \<and> is_user (chanacs_delete i st) e"
proof (cases "am_acs st i")
  case None
  obtain X where X: "am_ents st e = Some X" using u by (auto simp: is_user_def split: option.splits)
  have "i \<notin> set (en_chanacs X)" using acs_okD(3) [OF ok] X None unfolding ents_ok_def by fastforce
  then show ?thesis using None X u by (simp add: delete_none entity_entries_def remove1_idem)
next
  case (Some A)
  obtain X where X: "am_ents st e = Some X" "en_type X = ENT_USER" using u by (auto simp: is_user_def split: option.splits)
  show ?thesis
  proof (cases "ca_entity A = Some e")
    case True
    then show ?thesis using X by (simp add: entity_entries_def is_user_def delete_ents [OF Some])
  next
    case False
    then have "i \<notin> set (en_chanacs X)" using acs_okD(3) [OF ok] X(1) Some unfolding ents_ok_def by fastforce
    then show ?thesis using X False by (auto simp: entity_entries_def is_user_def delete_ents [OF Some] remove1_idem split: option.splits)
  qed
qed

lemma fold_entity_entries:
  assumes "acs_ok E st" "is_user st e"
  shows "entity_entries (fold chanacs_delete js st) e = filter (\<lambda>i. i \<notin> set js) (entity_entries st e) \<and> is_user (fold chanacs_delete js st) e"
  using assms
proof (induction js arbitrary: st)
  case (Cons j js)
  have d: "distinct (entity_entries st e)"
    using acs_okD(3) [OF Cons.prems(1)] unfolding ents_ok_def entity_entries_def by (auto split: option.splits)
  note s = entity_entries_delete [OF Cons.prems, of j]
  have "entity_entries (fold chanacs_delete (j # js) st) e = filter (\<lambda>i. i \<notin> set js) (remove1 j (entity_entries st e)) \<and>
      is_user (fold chanacs_delete (j # js) st) e"
    using Cons.IH [OF ok_delete [OF Cons.prems(1)]] s by simp
  then show ?case using d by (auto simp: distinct_remove1_removeAll removeAll_filter_not_eq intro: filter_cong)
qed simp

lemma entity_entries_mem:
  assumes ok: "acs_ok E st" and u: "is_user st e"
  shows "i \<in> set (entity_entries st e) \<longleftrightarrow> (\<exists>A. am_acs st i = Some A \<and> ca_entity A = Some e)"
proof -
  obtain X where X: "am_ents st e = Some X" using u by (auto simp: is_user_def split: option.splits)
  have 1: "\<exists>A. am_acs st i = Some A \<and> ca_entity A = Some e" if "i \<in> set (en_chanacs X)"
    using acs_okD(3) [OF ok] X that unfolding ents_ok_def by blast
  have 2: "i \<in> set (en_chanacs X)" if "am_acs st i = Some A" "ca_entity A = Some e" for A
    using acs_okD(1) [OF ok] X that unfolding entries_ok_def by (metis option.inject)
  show ?thesis using X 1 2 by (auto simp: entity_entries_def)
qed

text \<open>
  What dropping an account may do to a channel: leave it alone, give it away, or drop it when the account was its
  only founder and there was no successor.
\<close>

definition kept_or_dropped :: "acs_state \<Rightarrow> acs_state \<Rightarrow> nat \<Rightarrow> nat \<Rightarrow> bool" where
  "kept_or_dropped st st' mu c \<longleftrightarrow>
     (if am_chans st' c = None then Channel_drop c \<in> set (am_log st') \<and> (\<forall>e. founder_of st c e \<longleftrightarrow> e = mu)
      else (\<exists>e. e \<noteq> mu \<and> founder_of st' c e))"

lemma delete_entry_ok:
  assumes ok: "acs_ok E st" and env: "env_ok E" and u: "is_user st mu"
    and A: "am_acs st i = Some A" "ca_entity A = Some mu"
  shows "acs_ok E (delete_entry E i A st)"
    "entity_entries (delete_entry E i A st) mu = remove1 i (entity_entries st mu)" "is_user (delete_entry E i A st) mu"
    "\<And>c. c \<noteq> ca_chan A \<Longrightarrow> same_chan st (delete_entry E i A st) c"
    "\<exists>es. am_log (delete_entry E i A st) = am_log st @ es"
    "\<exists>e. founder_of st (ca_chan A) e \<Longrightarrow> kept_or_dropped st (delete_entry E i A st) mu (ca_chan A)"
proof -
  let ?c = "ca_chan A"
  let ?st' = "delete_entry E i A st"
  obtain C where C: "am_chans st ?c = Some C" "i \<in> set (mc_chanacs C)" using acs_okD(1) [OF ok] A(1) unfolding entries_ok_def by blast
  have d: "distinct (entity_entries st mu)"
    using acs_okD(3) [OF ok] unfolding ents_ok_def entity_entries_def by (auto split: option.splits)
  have only: "j = i" if "j \<in> set (mc_chanacs C)" "j \<in> set (entity_entries st mu)" for j
  proof -
    obtain B where "am_acs st j = Some B" "ca_entity B = Some mu" using entity_entries_mem [OF ok u] \<open>j \<in> set (entity_entries st mu)\<close> by blast
    moreover have "ca_chan B = ?c" if "am_acs st j = Some B" for B
      using acs_okD(2) [OF ok] C(1) \<open>j \<in> set (mc_chanacs C)\<close> that unfolding chans_ok_def by fastforce
    ultimately show ?thesis using acs_okD(7) [OF ok] A unfolding unique_ok_def by metis
  qed
  have ks: "founder_of st ?c mu \<longleftrightarrow> ca_level A AND CA_FOUNDER \<noteq> 0"
    using A acs_okD(7) [OF ok] unfolding founder_of_def unique_ok_def by (metis option.inject)
  consider (keep) "\<not> (ca_level A AND CA_FOUNDER \<noteq> 0 \<and> mychan_num_founders st ?c = 1)"
    | (give) s where "ca_level A AND CA_FOUNDER \<noteq> 0" "mychan_num_founders st ?c = 1" "mychan_pick_successor E st ?c = Some s"
    | (drop) "ca_level A AND CA_FOUNDER \<noteq> 0" "mychan_num_founders st ?c = 1" "mychan_pick_successor E st ?c = None"
    by (cases "mychan_pick_successor E st ?c") auto
  then have "acs_ok E ?st' \<and> (entity_entries ?st' mu = remove1 i (entity_entries st mu) \<and> is_user ?st' mu) \<and>
      (\<forall>c. c \<noteq> ?c \<longrightarrow> same_chan st ?st' c) \<and> (\<exists>es. am_log ?st' = am_log st @ es) \<and>
      ((\<exists>e. founder_of st ?c e) \<longrightarrow> kept_or_dropped st ?st' mu ?c)"
  proof cases
    case keep
    then have st': "?st' = chanacs_delete i st" by (auto simp: delete_entry_def)
    note dc = delete_cells [OF A(1)]
    have f: "founder_of (chanacs_delete i st) ?c e" if fo: "founder_of st ?c e" "e \<noteq> mu" for e
    proof -
      obtain j B where B: "am_acs st j = Some B" "ca_chan B = ?c" "ca_entity B = Some e" "ca_level B AND CA_FOUNDER \<noteq> 0"
        using fo(1) by (auto simp: founder_of_def)
      then have "j \<noteq> i" using A fo(2) by auto
      then show ?thesis using B by (auto simp: founder_of_def dc)
    qed
    have "\<exists>e. e \<noteq> mu \<and> founder_of st ?c e" if fo: "\<exists>e. founder_of st ?c e"
    proof (cases "founder_of st ?c mu")
      case True
      then have "mychan_num_founders st ?c \<noteq> 1" using keep ks by blast
      then show ?thesis using founders_other [OF ok True] by blast
    next
      case False
      then show ?thesis using fo by metis
    qed
    moreover have "am_chans (chanacs_delete i st) ?c \<noteq> None" using C(1) by (simp add: dc)
    ultimately have "(\<exists>e. founder_of st ?c e) \<longrightarrow> kept_or_dropped st ?st' mu ?c"
      using f unfolding st' kept_or_dropped_def by (metis (no_types, lifting))
    moreover have "same_chan st ?st' c" if "c \<noteq> ?c" for c
      unfolding st' using A(1) that by (intro same_chanI [OF ok]) (auto simp: dc)
    ultimately show ?thesis
      unfolding st' using ok_delete [OF ok] entity_entries_delete [OF ok u, of i] by (simp add: dc)
  next
    case (give s)
    obtain j B where s: "is_user st s" "\<not> founder_of st ?c s" "am_acs st j = Some B" "ca_chan B = ?c" "ca_entity B = Some s"
      using successor_entry [OF ok give(3)] by blast
    let ?s1 = "succession E ?c s st"
    have smu: "s \<noteq> mu" using s(2) ks give(1) by blast
    then have ji: "j \<noteq> i" using s A by auto
    obtain B' where c1: "acs_ok E ?s1" "am_acs ?s1 = (am_acs st)(j \<mapsto> B')" "ca_chan B' = ?c" "ca_entity B' = Some s" "bit (ca_level B') 13"
        "am_chans ?s1 = am_chans st" "am_ents ?s1 = am_ents st" "am_log ?s1 = am_log st @ [Succession ?c s]"
      using succession_cells [OF ok env s(3-5)] by blast
    have A1: "am_acs ?s1 i = Some A" using c1(2) ji A(1) by simp
    note dc = delete_cells [OF A1]
    have st': "?st' = chanacs_delete i ?s1" using give by (simp add: delete_entry_def)
    have e1: "entity_entries ?s1 e = entity_entries st e" "is_user ?s1 e = is_user st e" for e
      using c1(7) by (simp_all add: entity_entries_def is_user_def)
    have "founder_of ?st' ?c s"
      unfolding st' founder_of_def using c1 ji by (intro exI [of _ j] exI [of _ B']) (simp add: dc founder_bit)
    moreover have "am_chans ?st' ?c \<noteq> None" using C(1) c1 by (simp add: st' dc)
    ultimately have "kept_or_dropped st ?st' mu ?c" using smu by (auto simp: kept_or_dropped_def)
    moreover have "same_chan st ?st' c" if "c \<noteq> ?c" for c
      unfolding st' using A(1) s(3,4) that c1 by (intro same_chanI [OF ok]) (auto simp: dc)
    moreover have "is_user ?s1 mu" using u e1 by simp
    ultimately show ?thesis
      unfolding st' using ok_delete [OF c1(1), of i] entity_entries_delete [OF c1(1), of mu i] e1 by (simp add: dc c1(8))
  next
    case drop
    let ?s1 = "acs_emit [Channel_drop ?c] st"
    have ok1: "acs_ok E ?s1" "am_chans ?s1 ?c = Some C" using ok C by simp_all
    note mc = mychan_delete_cells [OF ok1]
    have st': "?st' = mychan_delete E ?c ?s1" using drop by (simp add: delete_entry_def)
    have u1: "is_user ?s1 mu" "entity_entries ?s1 mu = entity_entries st mu" using u by (simp_all add: is_user_def entity_entries_def)
    have ents: "am_ents ?st' = am_ents (fold chanacs_delete (mc_chanacs C) ?s1)" using C(1) by (simp add: st' mychan_delete_def Let_def)
    have "entity_entries ?st' mu = filter (\<lambda>j. j \<notin> set (mc_chanacs C)) (entity_entries st mu) \<and> is_user ?st' mu"
      using fold_entity_entries [OF ok1(1) u1(1), of "mc_chanacs C"] u1(2) ents by (simp add: entity_entries_def is_user_def)
    moreover have "filter (\<lambda>j. j \<notin> set (mc_chanacs C)) (entity_entries st mu) = remove1 i (entity_entries st mu)"
      using only C(2) d by (auto simp: distinct_remove1_removeAll removeAll_filter_not_eq intro!: filter_cong)
    moreover have "\<forall>e. founder_of st ?c e \<longleftrightarrow> e = mu"
    proof
      fix e
      have "founder_of st ?c mu" using ks drop(1) by blast
      moreover have "e = mu" if fo: "founder_of st ?c e"
      proof (rule ccontr)
        assume ne: "e \<noteq> mu"
        obtain k B where B: "am_acs st k = Some B" "ca_chan B = ?c" "ca_entity B = Some e" "ca_level B AND CA_FOUNDER \<noteq> 0"
          using fo by (auto simp: founder_of_def)
        let ?P = "\<lambda>(i, A). ca_entity A \<noteq> None \<and> ca_level A AND CA_FOUNDER \<noteq> 0"
        have "(k, B) \<in> set (filter ?P (chan_entries st ?c))" "(i, A) \<in> set (filter ?P (chan_entries st ?c))"
          using entries_mem [OF ok] B A drop(1) by auto
        moreover have "length (filter ?P (chan_entries st ?c)) = 1" using drop(2) by (simp add: mychan_num_founders_def mychan_num_flags_def)
        moreover have "length xs = 1 \<Longrightarrow> x \<in> set xs \<Longrightarrow> y \<in> set xs \<Longrightarrow> x = y" for xs and x y :: "nat \<times> chanacs"
          by (cases xs) auto
        ultimately have "(k, B) = (i, A)" by blast
        then show False using B A ne by simp
      qed
      ultimately show "founder_of st ?c e \<longleftrightarrow> e = mu" by blast
    qed
    then have "kept_or_dropped st ?st' mu ?c" using mc by (simp add: st' kept_or_dropped_def)
    moreover have "same_chan st ?st' c" if "c \<noteq> ?c" for c
    proof (rule same_chanI [OF ok])
      show "am_chans ?st' c = am_chans st c" using that by (simp add: st' mc)
      fix k B assume B: "am_acs st k = Some B" "ca_chan B = c"
      then have "k \<notin> set (mc_chanacs C)" using acs_okD(2) [OF ok] C(1) that unfolding chans_ok_def by fastforce
      then show "am_acs ?st' k = Some B" using B by (simp add: st' mc)
    qed
    ultimately show ?thesis unfolding st' using mc by simp
  qed
  then show "acs_ok E ?st'" "entity_entries ?st' mu = remove1 i (entity_entries st mu)" "is_user ?st' mu"
    "\<And>c. c \<noteq> ca_chan A \<Longrightarrow> same_chan st ?st' c" "\<exists>es. am_log ?st' = am_log st @ es"
    "\<exists>e. founder_of st ?c e \<Longrightarrow> kept_or_dropped st ?st' mu ?c" by blast+
qed

definition has_entry :: "acs_state \<Rightarrow> nat \<Rightarrow> nat \<Rightarrow> bool" where
  "has_entry st e c \<longleftrightarrow> (\<exists>i A. am_acs st i = Some A \<and> ca_chan A = c \<and> ca_entity A = Some e)"

lemma same_has_entry: "acs_ok E st \<Longrightarrow> acs_ok E st' \<Longrightarrow> same_chan st st' c \<Longrightarrow> has_entry st' e c \<longleftrightarrow> has_entry st e c"
proof -
  have "has_entry s e c \<longleftrightarrow> (\<exists>(i, A) \<in> set (chan_entries s c). ca_entity A = Some e)" if "acs_ok E s" for s
    using entries_mem [OF that] by (fastforce simp: has_entry_def)
  then show "acs_ok E st \<Longrightarrow> acs_ok E st' \<Longrightarrow> same_chan st st' c \<Longrightarrow> ?thesis" by (simp add: same_chan_def)
qed

lemma next_in_head: "next_in (i # is') i = (case is' of [] \<Rightarrow> None | k # _ \<Rightarrow> Some k)"
  by simp

lemma delete_loop_ok:
  assumes "acs_ok E st" "env_ok E" "is_user st mu" "entity_entries st mu = es"
  shows "\<exists>st'. delete_loop E mu (length es) (case es of [] \<Rightarrow> None | i # _ \<Rightarrow> Some i) st = Some st' \<and> acs_ok E st' \<and> is_user st' mu \<and>
    entity_entries st' mu = [] \<and> (\<exists>ev. am_log st' = am_log st @ ev) \<and>
    (\<forall>c. \<not> has_entry st mu c \<longrightarrow> same_chan st st' c) \<and>
    (\<forall>c. has_entry st mu c \<longrightarrow> (\<exists>e. founder_of st c e) \<longrightarrow> kept_or_dropped st st' mu c)"
  using assms
proof (induction es arbitrary: st)
  case Nil
  then have "\<not> has_entry st mu c" for c using entity_entries_mem [OF Nil(1,3)] by (auto simp: has_entry_def)
  then show ?case using Nil by (auto simp: same_chan_def)
next
  case (Cons i es)
  note ok = Cons.prems(1) and env = Cons.prems(2) and u = Cons.prems(3)
  obtain A where A: "am_acs st i = Some A" "ca_entity A = Some mu"
    using entity_entries_mem [OF ok u, of i] Cons.prems(4) by auto
  let ?st1 = "delete_entry E i A st"
  note d = delete_entry_ok [OF ok env u A]
  have e1: "entity_entries ?st1 mu = es" using d(2) Cons.prems(4) by simp
  obtain st' where st': "delete_loop E mu (length es) (case es of [] \<Rightarrow> None | i # _ \<Rightarrow> Some i) ?st1 = Some st'" "acs_ok E st'" "is_user st' mu"
      "entity_entries st' mu = []" "\<exists>ev. am_log st' = am_log ?st1 @ ev"
      "\<And>c. \<not> has_entry ?st1 mu c \<Longrightarrow> same_chan ?st1 st' c"
      "\<And>c. has_entry ?st1 mu c \<Longrightarrow> \<exists>e. founder_of ?st1 c e \<Longrightarrow> kept_or_dropped ?st1 st' mu c"
    using Cons.IH [OF d(1) env d(3) e1] by blast
  have run: "delete_loop E mu (length (i # es)) (case i # es of [] \<Rightarrow> None | i # _ \<Rightarrow> Some i) st = Some st'"
    using st'(1) A(1) Cons.prems(4) by simp
  have gone: "\<not> has_entry ?st1 mu (ca_chan A)"
  proof
    assume "has_entry ?st1 mu (ca_chan A)"
    then obtain k B where B: "am_acs ?st1 k = Some B" "ca_chan B = ca_chan A" "ca_entity B = Some mu" by (auto simp: has_entry_def)
    then have k: "k \<in> set es" using entity_entries_mem [OF d(1,3)] e1 by blast
    have "distinct (entity_entries st mu)"
      using acs_okD(3) [OF ok] unfolding ents_ok_def entity_entries_def by (auto split: option.splits)
    then have dist: "distinct (i # es)" using Cons.prems(4) by simp
    obtain B0 where B0: "am_acs st k = Some B0" "ca_entity B0 = Some mu" using entity_entries_mem [OF ok u, of k] Cons.prems(4) k by auto
    have "ca_chan B0 \<noteq> ca_chan A" using acs_okD(7) [OF ok] A B0 dist k unfolding unique_ok_def by (metis distinct.simps(2))
    then have "same_chan st ?st1 (ca_chan B0)" by (rule d(4))
    moreover have "(k, B0) \<in> set (chan_entries st (ca_chan B0))" using entries_mem [OF ok] B0(1) by blast
    ultimately have "(k, B0) \<in> set (chan_entries ?st1 (ca_chan B0))" by (simp add: same_chan_def)
    then have "am_acs ?st1 k = Some B0" using entries_mem [OF d(1)] by blast
    then show False using B \<open>ca_chan B0 \<noteq> ca_chan A\<close> by simp
  qed
  have other: "has_entry ?st1 mu c \<longleftrightarrow> has_entry st mu c" "same_chan st ?st1 c" if "c \<noteq> ca_chan A" for c
    using same_has_entry [OF ok d(1) d(4) [OF that]] d(4) [OF that] by simp_all
  have "same_chan st st' c" if "\<not> has_entry st mu c" for c
  proof -
    have "c \<noteq> ca_chan A" using that A by (auto simp: has_entry_def)
    then show ?thesis using other st'(6) that same_chan_trans by blast
  qed
  moreover have "kept_or_dropped st st' mu c" if h: "has_entry st mu c" and f: "\<exists>e. founder_of st c e" for c
  proof (cases "c = ca_chan A")
    case True
    have "same_chan ?st1 st' c" using st'(6) gone True by blast
    then have "am_chans st' c = am_chans ?st1 c" "\<And>e. founder_of st' c e \<longleftrightarrow> founder_of ?st1 c e"
      using same_founders(1) [OF d(1) st'(2)] by (simp_all add: same_chan_def)
    then show ?thesis using d(6) f True st'(5) unfolding kept_or_dropped_def by auto
  next
    case False
    have fo: "founder_of ?st1 c = founder_of st c" using same_founders(1) [OF ok d(1) other(2) [OF False]] by (rule ext)
    show ?thesis using st'(7) [of c] other(1) [OF False] h f unfolding kept_or_dropped_def fo by blast
  qed
  moreover have "\<exists>ev. am_log st' = am_log st @ ev" using st'(5) d(5) by auto
  ultimately show ?case using run st'(2-4) by blast
qed


section \<open>Histories\<close>

text \<open>Entities come and go empty-handed; everything else goes through the operations above.\<close>

inductive acs_reach :: "acs_env \<Rightarrow> acs_state \<Rightarrow> bool" for E where
  acs_init: "acs_reach E \<lparr>am_acs = Map.empty, am_ents = Map.empty, am_chans = Map.empty, am_mclist = Map.empty, am_next = 0, am_count = 0, am_log = []\<rparr>"
| acs_new_entity: "acs_reach E st \<Longrightarrow> am_ents st e = None \<Longrightarrow> en_chanacs X = [] \<Longrightarrow> 0 \<le> en_refs X \<Longrightarrow>
     acs_reach E (st\<lparr>am_ents := (am_ents st)(e \<mapsto> X)\<rparr>)"
| acs_end_entity: "acs_reach E st \<Longrightarrow> entity_entries st e = [] \<Longrightarrow> acs_reach E (st\<lparr>am_ents := (am_ents st)(e := None)\<rparr>)"
| acs_mychan_add: "acs_reach E st \<Longrightarrow> acs_reach E (snd (mychan_add E name st))"
| acs_mychan_delete: "acs_reach E st \<Longrightarrow> acs_reach E (mychan_delete E c st)"
| acs_expire: "acs_reach E st \<Longrightarrow> acs_reach E (expire_channel E c st)"
| acs_change: "acs_reach E st \<Longrightarrow> target_ok st t \<Longrightarrow> addf AND NOT (ve_ca_all E) = 0 \<Longrightarrow>
     acs_reach E (snd (snd (snd (chanacs_change E st c t addf removef restrict setter))))"
| acs_open: "acs_reach E st \<Longrightarrow> target_ok st t \<Longrightarrow> acs_reach E (snd (chanacs_open E st c t create setter))"
| acs_modify: "acs_reach E st \<Longrightarrow> addf AND NOT (ve_ca_all E) = 0 \<Longrightarrow>
     acs_reach E (snd (snd (snd (chanacs_modify E st i addf removef restrict setter))))"
| acs_close: "acs_reach E st \<Longrightarrow> acs_reach E (chanacs_close i st)"
| acs_drop_account: "acs_reach E st \<Longrightarrow> env_ok E \<Longrightarrow> is_user st mu \<Longrightarrow> myuser_delete_access E mu st = Some st' \<Longrightarrow> acs_reach E st'"

lemma ok_ents:
  assumes ok: "acs_ok E st" and e: "entity_entries st e = []"
    and X: "\<And>X. v = Some X \<Longrightarrow> en_chanacs X = [] \<and> 0 \<le> en_refs X"
  shows "acs_ok E (st\<lparr>am_ents := (am_ents st)(e := v)\<rparr>)" (is "acs_ok E ?st")
proof -
  note o = acs_okD [OF ok]
  have "entries_ok ?st"
    using o(1) e unfolding entries_ok_def entity_entries_def by (fastforce split: option.splits)
  moreover have "ents_ok ?st" using o(3) X unfolding ents_ok_def by (cases v) auto
  ultimately show ?thesis using o by (simp add: acs_ok_def chans_ok_def names_found_def count_ok_def levels_ok_def unique_ok_def)
qed

lemma reach_ok: "acs_reach E st \<Longrightarrow> acs_ok E st"
proof (induction rule: acs_reach.induct)
  case acs_init
  show ?case
    by (simp add: acs_ok_def entries_ok_def chans_ok_def ents_ok_def names_found_def count_ok_def levels_ok_def unique_ok_def)
next
  case (acs_new_entity st e X)
  then show ?case by (intro ok_ents) (auto simp: entity_entries_def)
next
  case (acs_end_entity st e)
  then show ?case by (intro ok_ents) auto
next
  case (acs_drop_account st mu st')
  then show ?case using delete_loop_ok [OF acs_drop_account.IH acs_drop_account.hyps(2,3) refl] by (auto simp: myuser_delete_access_def)
qed (auto intro: ok_mychan_add ok_mychan_delete ok_expire ok_change ok_open ok_modify ok_close)

text \<open>A channel in which account 1, account 2 and a group have an entry each.\<close>

definition demo_user :: "cstr \<Rightarrow> nat \<Rightarrow> acs_entity" where
  "demo_user n i = \<lparr>en_type = (if i = 3 then ENT_GROUP else ENT_USER), en_name = n, en_id = ''AAAAAAAAA'', en_refs = 1, en_chanacs = [i],
     en_flags = 0, en_logins = [], en_lastlogin = 0\<rparr>"

definition demo_env_acs :: acs_env where
  "demo_env_acs = \<lparr>ve_ca_all = CA_ALL_ALL, ve_now = 1000000, ve_maxchans = 5, ve_expiry = 0, ve_match = (\<lambda>_ _. False),
     ve_match_user = (\<lambda>_ _. False), ve_can_register = (\<lambda>_. False), ve_reg_nolimit = (\<lambda>_. False), ve_successor = None,
     ve_casemap = 0, ve_cidr = False, ve_members = (\<lambda>_. []), ve_keep = (\<lambda>_. False)\<rparr>"

definition demo_lists :: "u32 \<Rightarrow> u32 \<Rightarrow> u32 \<Rightarrow> acs_state" where
  "demo_lists l1 l2 l3 =
     \<lparr>am_acs = (\<lambda>i. if i \<in> {1, 2, 3} then
          Some \<lparr>ca_chan = 0, ca_entity = Some i, ca_host = [], ca_level = (if i = 1 then l1 else if i = 2 then l2 else l3),
                 ca_tmodified = 0, ca_setter = []\<rparr> else None),
      am_ents = (\<lambda>e. if e \<in> {1, 2, 3} then Some (demo_user ''name'' e) else None),
      am_chans = (\<lambda>c. if c = 0 then Some \<lparr>mc_name = ''#C'', mc_chanacs = [1, 2, 3], mc_registered = 0, mc_used = 0, mc_bits = 0\<rparr> else None),
      am_mclist = (\<lambda>k. if k = irccasecanon 0 ''#C'' then Some 0 else None), am_next = 4, am_count = 3, am_log = []\<rparr>"

lemma demo_lists_ok:
  assumes "l1 AND NOT CA_ALL_ALL = 0" "l2 AND NOT CA_ALL_ALL = 0" "l3 AND NOT CA_ALL_ALL = 0"
  shows "acs_ok demo_env_acs (demo_lists l1 l2 l3)"
proof -
  have "dom (am_acs (demo_lists l1 l2 l3)) = {1, 2, 3}" by (auto simp: demo_lists_def split: if_splits)
  then have "count_ok (demo_lists l1 l2 l3)" by (simp add: count_ok_def) (simp add: demo_lists_def)
  moreover have "entries_ok (demo_lists l1 l2 l3)" by (auto simp: entries_ok_def demo_lists_def demo_user_def)
  moreover have "chans_ok (demo_lists l1 l2 l3)" by (auto simp: chans_ok_def demo_lists_def)
  moreover have "ents_ok (demo_lists l1 l2 l3)" by (auto simp: ents_ok_def demo_lists_def demo_user_def)
  moreover have "names_found demo_env_acs (demo_lists l1 l2 l3)" by (auto simp: names_found_def demo_lists_def demo_env_acs_def)
  moreover have "levels_ok demo_env_acs (demo_lists l1 l2 l3)" using assms by (auto simp: levels_ok_def demo_lists_def demo_env_acs_def)
  moreover have "unique_ok (demo_lists l1 l2 l3)" by (auto simp: unique_ok_def demo_lists_def)
  ultimately show ?thesis by (simp add: acs_ok_def)
qed

lemma demo_entries:
  "chan_entries (demo_lists l1 l2 l3) 0 = map (\<lambda>(i, l). (i, \<lparr>ca_chan = 0, ca_entity = Some i, ca_host = [], ca_level = l, ca_tmodified = 0, ca_setter = []\<rparr>))
     [(1, l1), (2, l2), (3, l3)]"
  by (simp add: chan_entries_def demo_lists_def)

text \<open>The founder, an operator, and a group with voice; then the group is an operator that may change flags.\<close>

definition demo_acs :: acs_state where
  "demo_acs = demo_lists (CA_FOUNDER OR CA_FLAGS) CA_OP CA_VOICE"

definition demo_group :: acs_state where
  "demo_group = demo_lists (CA_FOUNDER OR CA_FLAGS) CA_OP (CA_OP OR CA_FLAGS)"

lemma demo_acs_ok: "acs_ok demo_env_acs demo_acs" "acs_ok demo_env_acs demo_group"
  unfolding demo_acs_def demo_group_def by (intro demo_lists_ok; simp add: flag_simps)+

text \<open>
  C23: Access lists stay well formed.  Whatever is done to channels, entries, flags and accounts: each entry is once
  on the list of its channel and of its entity and the lists hold nothing else, channels are found by their names,
  no entity has two entries in a channel, flags are flags in use, an external target lives while an entry
  refers to it, and the counter of entries is their number.
\<close>

theorem acs_invariant:
  assumes "acs_reach E st"
  shows "entries_ok st \<and> chans_ok st \<and> ents_ok st \<and> names_found E st \<and> count_ok st \<and> levels_ok E st \<and> unique_ok st"
  using reach_ok [OF assms] by (simp add: acs_ok_def)

text \<open>A channel is registered twice.\<close>

theorem acs_invariant_witness:
  "count_ok (snd (mychan_add demo_env_acs ''#c'' (snd (mychan_add demo_env_acs ''#C''
     \<lparr>am_acs = Map.empty, am_ents = Map.empty, am_chans = Map.empty, am_mclist = Map.empty, am_next = 0, am_count = 0, am_log = []\<rparr>))))"
  using acs_invariant [OF acs_mychan_add [OF acs_mychan_add [OF acs_init]]] by blast

section \<open>What a change does\<close>

text \<open>The flags of the entry of an entity.\<close>

definition acs_level :: "acs_state \<Rightarrow> nat \<Rightarrow> nat \<Rightarrow> u32" where
  "acs_level st c e = (case Option.bind (chanacs_find_literal st c e 0) (am_acs st) of None \<Rightarrow> 0 | Some A \<Rightarrow> ca_level A)"

lemma level_entry:
  assumes "acs_ok E st" "am_acs st i = Some A" "ca_chan A = c" "ca_entity A = Some e"
  shows "acs_level st c e = ca_level A"
proof -
  obtain j where j: "chanacs_find_literal st c e 0 = Some j" using literal_None [OF assms(1)] assms(2-4) by (cases "chanacs_find_literal st c e 0") auto
  then obtain B where "am_acs st j = Some B" "ca_chan B = c" "ca_entity B = Some e" using literal_Some [OF assms(1)] by blast
  then have "j = i" using acs_okD(7) [OF assms(1)] assms(2-4) unfolding unique_ok_def by metis
  then show ?thesis using j assms(2) by (simp add: acs_level_def)
qed

lemma level_none: "acs_ok E st \<Longrightarrow> \<not> has_entry st e c \<Longrightarrow> acs_level st c e = 0"
  using literal_None [of E st c e] by (auto simp: acs_level_def has_entry_def)

lemma level_cong:
  assumes "acs_ok E st" "acs_ok E st'"
    and "\<And>i A. ca_chan A = c \<Longrightarrow> ca_entity A = Some e \<Longrightarrow> am_acs st' i = Some A \<longleftrightarrow> am_acs st i = Some A"
  shows "acs_level st' c e = acs_level st c e"
proof (cases "has_entry st e c")
  case True
  then obtain i A where A: "am_acs st i = Some A" "ca_chan A = c" "ca_entity A = Some e" by (auto simp: has_entry_def)
  then have "am_acs st' i = Some A" using assms(3) by simp
  then show ?thesis using level_entry [OF assms(1) A] level_entry [OF assms(2) _ A(2,3)] by simp
next
  case False
  then have "\<not> has_entry st' e c" using assms(3) by (auto simp: has_entry_def)
  then show ?thesis using level_none assms(1,2) False by metis
qed

text \<open>
  C25: Changing flags.  A change of an entity's flags on a channel is refused exactly when it would change something
  and the flags before or after it are not all among those the setter may change; a refused change changes
  nothing at all.  An accepted one removes the given flags and adds the others, except that a flag that was set
  and is to be both added and removed goes; the flags of no other entity or channel change.
\<close>

theorem chanacs_change_entity:
  assumes ok: "acs_ok E st" and t: "target_ok st (T_entity e)" and a: "addf AND NOT (ve_ca_all E) = 0"
    and C: "am_chans st c = Some C" "char_at (mc_name C) 0 = CHR ''#''"
    and ch: "chanacs_change E st c (T_entity e) addf removef restrict setter = (allowed, addf', removef', st')"
  shows "(let old = acs_level st c e; new = (old AND NOT removef) OR (addf AND NOT old)
    in (allowed \<longleftrightarrow> new = old \<or> (old AND NOT restrict = 0 \<and> new AND NOT restrict = 0)) \<and>
       (\<forall>d f. acs_level st' d f = (if allowed \<and> d = c \<and> f = e then new else acs_level st d f)) \<and>
       (\<not> allowed \<longrightarrow> st' = st))"
proof -
  have ok': "acs_ok E st'" using ok_change [OF ok t a, of c removef restrict setter] ch by simp
  show ?thesis
  proof (cases "find_target st c (T_entity e)")
    case None
    then have none: "\<not> has_entry st e c" using literal_None [OF ok] by (auto simp: find_target_def has_entry_def)
    have z: "acs_level st c e = 0" by (rule level_none [OF ok none])
    show ?thesis
    proof (cases "addf \<noteq> 0 \<and> NOT restrict AND addf = 0")
      case True
      let ?r = "chanacs_add_target E st c (T_entity e) addf (ve_now E) setter"
      have s: "allowed" "st' = snd ?r" using None True ch by (auto simp: chanacs_change_def)
      obtain r where r: "?r = (r, st')" using s(2) by (metis prod.collapse)
      note d = add_cells [OF C r]
      let ?N = "new_entry E c (T_entity e) addf (ve_now E) setter"
      have N: "ca_chan ?N = c" "ca_entity ?N = Some e" "ca_level ?N = addf"
        using a by (auto simp: new_entry_def within_iff intro!: bit_eqI) (auto simp: bit_and_iff)
      have "am_acs st' (am_next st) = Some ?N" by (simp add: d(2))
      then have "acs_level st' c e = addf" using level_entry [OF ok' _ N(1,2)] N(3) by simp
      moreover have "acs_level st' b f = acs_level st b f" if "\<not> (b = c \<and> f = e)" for b f
        using that N new_cell(1) [OF ok] by (intro level_cong [OF ok ok']) (auto simp: d(2))
      ultimately show ?thesis using s z True by (auto simp: Let_def and.commute [of _ "NOT restrict"])
    next
      case False
      then have s: "st' = st" "allowed \<longleftrightarrow> addf = 0" using None ch by (auto simp: chanacs_change_def split: if_splits)
      then show ?thesis using z False by (auto simp: Let_def and.commute [of _ "NOT restrict"])
    qed
  next
    case (Some i)
    then obtain A where A: "am_acs st i = Some A" "ca_chan A = c" "ca_entity A = Some e" using target_Some [OF ok Some] by auto
    have old: "acs_level st c e = ca_level A" by (rule level_entry [OF ok A])
    obtain okb a' r' new where m: "modify_level (ca_level A) addf removef restrict = (okb, a', r', new)" by (metis prod_cases4)
    note sp = modify_spec [OF m]
    let ?new = "(ca_level A AND NOT removef) OR (addf AND NOT (ca_level A))"
    have ab: "allowed = okb" using ch Some A m by (simp add: chanacs_change_def)
    have same: "?new = ca_level A \<longleftrightarrow> addf AND NOT (ca_level A) = 0 \<and> removef AND ca_level A = 0"
      by (auto simp: bit_eq_iff bit_simps)
    have sub: "ca_level A AND NOT restrict = 0 \<Longrightarrow> ?new AND NOT restrict = 0 \<longleftrightarrow>
        (addf AND NOT (ca_level A)) AND NOT restrict = 0 \<and> (removef AND ca_level A) AND NOT restrict = 0"
      by (auto simp: within_iff bit_simps)
    have al: "okb \<longleftrightarrow> ?new = ca_level A \<or> (ca_level A AND NOT restrict = 0 \<and> ?new AND NOT restrict = 0)"
    proof
      assume okb
      then show "?new = ca_level A \<or> (ca_level A AND NOT restrict = 0 \<and> ?new AND NOT restrict = 0)"
        using sp sub same by auto
    next
      assume h: "?new = ca_level A \<or> (ca_level A AND NOT restrict = 0 \<and> ?new AND NOT restrict = 0)"
      have "NOT restrict AND a' = 0 \<and> NOT restrict AND r' = 0 \<and> NOT restrict AND ca_level A = 0 \<or> a' = 0 \<and> r' = 0"
        using h sp sub same by (auto simp: and.commute [of "NOT restrict"])
      then show okb using m sp by (auto simp: modify_level_def Let_def split: if_splits)
    qed
    show ?thesis
    proof (cases new)
      case None
      have "st' = st" using ch Some A m None by (simp add: chanacs_change_def)
      moreover have "okb \<Longrightarrow> ?new = ca_level A" using sp None by auto
      ultimately show ?thesis using al ab old by (auto simp: Let_def)
    next
      case (Some l)
      have l: "l = ?new" "okb" using sp Some by auto
      let ?B = "A\<lparr>ca_level := l, ca_tmodified := ve_now E, ca_setter := setter_uid setter\<rparr>"
      have st': "st' = chanacs_close i (set_level E i l setter st)" using ch \<open>find_target st c (T_entity e) = Some i\<close> A m Some by (simp add: chanacs_change_def)
      have acs: "am_acs st' = (am_acs st)(i := if l = 0 then None else Some ?B)"
        using A by (auto simp: st' chanacs_close_def set_level_def delete_cells)
      have "acs_level st' c e = l"
      proof (cases "l = 0")
        case True
        then have "\<not> has_entry st' e c" using acs acs_okD(7) [OF ok] A unfolding has_entry_def unique_ok_def by (auto split: if_splits)
        then show ?thesis using level_none [OF ok'] True by simp
      next
        case False
        then show ?thesis using level_entry [OF ok', of i ?B c e] acs A by simp
      qed
      moreover have "acs_level st' b f = acs_level st b f" if "\<not> (b = c \<and> f = e)" for b f
        using that A acs by (intro level_cong [OF ok ok']) (auto split: if_splits)
      ultimately show ?thesis using al ab old l by (auto simp: Let_def)
    qed
  qed
qed

section \<open>Dropping an account\<close>

text \<open>
  C24: Dropping an account leaves no channel without founder.  The walk over the entries of the account ends and
  never steps on a freed entry, although its body releases the current entry, and with a channel all entries of
  that channel; the lists stay well formed and no entry of the account is left.  A channel the account had no
  access to is untouched.  A channel with a founder in which the account had access still has a founder, another
  one, or it was dropped, which happens only to a channel of which the account was the only founder.
\<close>

theorem myuser_delete_succession:
  assumes "acs_ok E st" "env_ok E" "is_user st mu"
  shows "\<exists>st'. myuser_delete_access E mu st = Some st' \<and> acs_ok E st' \<and> (\<forall>c. \<not> has_entry st' mu c) \<and>
    (\<forall>c. \<not> has_entry st mu c \<longrightarrow> same_chan st st' c) \<and>
    (\<forall>c. has_entry st mu c \<longrightarrow> (\<exists>e. founder_of st c e) \<longrightarrow>
       (if am_chans st' c = None then Channel_drop c \<in> set (am_log st') \<and> (\<forall>e. founder_of st c e \<longleftrightarrow> e = mu)
        else (\<exists>e. e \<noteq> mu \<and> founder_of st' c e)))"
proof -
  obtain st' where st': "myuser_delete_access E mu st = Some st'" "acs_ok E st'" "is_user st' mu" "entity_entries st' mu = []"
      "\<forall>c. \<not> has_entry st mu c \<longrightarrow> same_chan st st' c"
      "\<forall>c. has_entry st mu c \<longrightarrow> (\<exists>e. founder_of st c e) \<longrightarrow> kept_or_dropped st st' mu c"
    using delete_loop_ok [OF assms refl] unfolding myuser_delete_access_def by blast
  have "\<not> has_entry st' mu c" for c using entity_entries_mem [OF st'(2,3)] st'(4) by (auto simp: has_entry_def)
  then show ?thesis using st' unfolding kept_or_dropped_def by blast
qed

lemma demo_env_ok: "env_ok demo_env_acs"
  by (simp add: env_ok_def demo_env_acs_def flag_simps)

text \<open>Alice, the founder of the demo channel, is dropped.\<close>

theorem myuser_delete_succession_witness:
  "\<exists>st'. myuser_delete_access demo_env_acs 1 demo_acs = Some st' \<and> \<not> has_entry st' 1 0 \<and>
     (Channel_drop 0 \<in> set (am_log st') \<or> (\<exists>e. e \<noteq> 1 \<and> founder_of st' 0 e))"
proof -
  have u: "is_user demo_acs 1" by (simp add: is_user_def demo_acs_def demo_lists_def demo_user_def)
  have h: "has_entry demo_acs 1 0" "founder_of demo_acs 0 1"
    unfolding has_entry_def founder_of_def by (intro exI [of _ 1]; simp add: demo_acs_def demo_lists_def flag_simps)+
  show ?thesis using myuser_delete_succession [OF demo_acs_ok(1) demo_env_ok u] h by metis
qed

theorem chanacs_change_entity_witness:
  "\<exists>st'. snd (snd (snd (chanacs_change demo_env_acs demo_acs 0 (T_entity 2) CA_VOICE CA_OP CA_ALL_ALL None))) = st' \<and>
     acs_level st' 0 2 = CA_VOICE"
proof -
  obtain al a r st' where ch: "chanacs_change demo_env_acs demo_acs 0 (T_entity 2) CA_VOICE CA_OP CA_ALL_ALL None = (al, a, r, st')"
    by (metis prod_cases4)
  obtain C where C: "am_chans demo_acs 0 = Some C" "char_at (mc_name C) 0 = CHR ''#''" by (simp add: demo_acs_def demo_lists_def)
  have t: "target_ok demo_acs (T_entity 2)" by (simp add: target_ok_def demo_acs_def demo_lists_def)
  have w: "CA_VOICE AND NOT (ve_ca_all demo_env_acs) = 0" by (simp add: demo_env_acs_def flag_simps)
  have l: "acs_level demo_acs 0 2 = CA_OP"
    using level_entry [OF demo_acs_ok(1), of 2] by (simp add: demo_acs_def demo_lists_def)
  have f: "(CA_OP AND NOT CA_OP) OR (CA_VOICE AND NOT CA_OP) = CA_VOICE" "CA_OP AND NOT CA_ALL_ALL = 0" "CA_VOICE AND NOT CA_ALL_ALL = 0"
    by (simp_all add: flag_simps)
  have "acs_level st' 0 2 = CA_VOICE"
    using chanacs_change_entity [OF demo_acs_ok(1) t w C ch] l f by (simp add: Let_def)
  then show ?thesis using ch by simp
qed

section \<open>Candidates\<close>

text \<open>An entry whose entity may take the channel: not banned, not a founder, with the flags asked for.\<close>

definition eligible :: "acs_env \<Rightarrow> acs_state \<Rightarrow> u32 \<Rightarrow> chanacs \<Rightarrow> bool" where
  "eligible E st l A \<longleftrightarrow> ca_level A AND CA_AKICK = 0 \<and> ca_level A AND CA_FOUNDER = 0 \<and> ca_level A AND l = l \<and>
     (\<exists>e. ca_entity A = Some e \<and> myentity_can_register_channel E st e)"

text \<open>The flags of \<open>A\<close>, the automatic ones added, are a proper subset of those of \<open>B\<close>.\<close>

definition outranked :: "u32 \<Rightarrow> u32 \<Rightarrow> bool" where
  "outranked l m \<longleftrightarrow> l AND NOT m = 0 \<and> l \<noteq> m"

definition best_of :: "acs_env \<Rightarrow> acs_state \<Rightarrow> u32 \<Rightarrow> candidate \<Rightarrow> chanacs list \<Rightarrow> bool" where
  "best_of E st l s As \<longleftrightarrow>
     (case snd s of
        None \<Rightarrow> \<forall>B \<in> set As. \<not> eligible E st l B
      | Some (e, lev, r) \<Rightarrow> \<forall>B \<in> set As. eligible E st l B \<longrightarrow> \<not> outranked lev (add_auto_flags (ca_level B)))"

lemma outranked_within: "(h :: u32) AND NOT l = 0 \<Longrightarrow> \<not> outranked h m \<Longrightarrow> \<not> outranked l m"
  by (auto simp: outranked_def within_iff intro!: bit_eqI)

lemma best_step:
  assumes "best_of E st l (rc, hi) As"
  shows "best_of E st l (pick_step E st l (rc, hi) A) (As @ [A])"
proof -
  obtain rc' hi' where s: "pick_step E st l (rc, hi) A = (rc', hi')" by fastforce
  show ?thesis
  proof (cases "ca_level A AND CA_AKICK = 0 \<and> ca_level A AND CA_FOUNDER = 0 \<and> ca_level A AND l = l \<and> ca_entity A \<noteq> None")
    case False
    then have "\<not> eligible E st l A" by (auto simp: eligible_def)
    moreover have "hi' = hi" using s False by (auto simp: pick_step_def Let_def split: if_splits option.splits)
    ultimately show ?thesis using assms s by (auto simp: best_of_def split: option.splits)
  next
    case True
    then obtain e where e: "ca_entity A = Some e" by blast
    let ?lev = "add_auto_flags (ca_level A)"
    consider (new) r where "hi' = Some (e, ?lev, r)" "\<And>h hl hr. hi = Some (h, hl, hr) \<Longrightarrow> hl AND NOT ?lev = 0"
      | (old) h hl hr where "hi' = hi" "hi = Some (h, hl, hr)" "hl AND NOT ?lev \<noteq> 0 \<or> hl = ?lev"
      | (reg) "hi' = hi" "\<not> myentity_can_register_channel E st e"
    proof -
      define r' where "r' = (case am_ents st e of Some X \<Rightarrow> if en_type X = ENT_USER then recently_seen E X else rc | None \<Rightarrow> rc)"
      define beaten where "beaten = (case hi of None \<Rightarrow> False | Some (h, hl, hr) \<Rightarrow> hl AND NOT ?lev \<noteq> 0 \<or> (hl = ?lev \<and> (\<not> r' \<or> hr)))"
      have st: "pick_step E st l (rc, hi) A = (if beaten then (r', hi)
          else if myentity_can_register_channel E st e then (r', Some (e, ?lev, r')) else (r', hi))"
        unfolding pick_step_def Let_def prod.case e option.case r'_def [symmetric] beaten_def [symmetric] using True by simp
      consider "beaten" | "\<not> beaten" "myentity_can_register_channel E st e" | "\<not> beaten" "\<not> myentity_can_register_channel E st e" by blast
      then show thesis
      proof cases
        case 1
        then obtain h hl hr where x: "hi = Some (h, hl, hr)" "hl AND NOT ?lev \<noteq> 0 \<or> hl = ?lev"
          unfolding beaten_def by (auto split: option.splits)
        have "hi' = hi" using s st 1 by simp
        then show ?thesis using old x by blast
      next
        case 2
        have "hi' = Some (e, ?lev, r')" using s unfolding st using 2 by auto
        moreover have "hl AND NOT ?lev = 0" if "hi = Some (h, hl, hr)" for h hl hr using 2(1) that unfolding beaten_def by simp
        ultimately show ?thesis using new by blast
      next
        case 3
        then show ?thesis using reg s st by simp
      qed
    qed
    then show ?thesis
    proof cases
      case new
      have "\<not> outranked ?lev ?lev" by (simp add: outranked_def)
      moreover have "\<not> outranked ?lev m" if "hi = Some (h, hl, hr)" "\<not> outranked hl m" for h hl hr m
        using outranked_within new(2) that by blast
      ultimately show ?thesis
        using assms s new(1) by (cases hi) (auto simp: best_of_def eligible_def)
    next
      case old
      then show ?thesis using assms s by (auto simp: best_of_def outranked_def)
    next
      case reg
      then have "\<not> eligible E st l A" using e by (simp add: eligible_def)
      then show ?thesis using assms s reg(1) by (auto simp: best_of_def split: option.splits)
    qed
  qed
qed

lemma best_fold: "best_of E st l s As \<Longrightarrow> best_of E st l (foldl (pick_step E st l) s Bs) (As @ Bs)"
proof (induction Bs arbitrary: s As)
  case (Cons B Bs)
  have "best_of E st l (pick_step E st l s B) (As @ [B])" using best_step [of E st l "fst s" "snd s"] Cons.prems by simp
  then show ?case using Cons.IH by fastforce
qed simp

lemma best_channel: "best_of E st l (foldl (pick_step E st l) (False, None) (map snd (chan_entries st c))) (map snd (chan_entries st c))"
  using best_fold [of E st l "(False, None)" "[]" "map snd (chan_entries st c)"] by (simp add: best_of_def)

text \<open>
  C26: Candidates.  The account \<open>mychan_pick_candidate\<close> names has an entry that is neither a ban nor a founder's and
  has the flags asked for, may register a channel, and no entry of another eligible entity, group or account, has
  all its flags and more.
\<close>

theorem pick_candidate_maximal:
  assumes "mychan_pick_candidate E st c l = Some e"
  shows "is_user st e \<and> (\<exists>A \<in> set (map snd (chan_entries st c)). eligible E st l A \<and> ca_entity A = Some e \<and>
    (\<forall>B \<in> set (map snd (chan_entries st c)). eligible E st l B \<longrightarrow> \<not> outranked (add_auto_flags (ca_level A)) (add_auto_flags (ca_level B))))"
proof -
  let ?As = "map snd (chan_entries st c)"
  obtain rc lev r where f: "foldl (pick_step E st l) (False, None) ?As = (rc, Some (e, lev, r))" "is_user st e"
    using assms by (auto simp: mychan_pick_candidate_def split: option.splits if_splits prod.splits) (metis prod.collapse)
  obtain A where A: "A \<in> set ?As" "ca_entity A = Some e" "ca_level A AND CA_AKICK = 0" "ca_level A AND CA_FOUNDER = 0"
     "ca_level A AND l = l" "lev = add_auto_flags (ca_level A)" "myentity_can_register_channel E st e"
    using pick_fold [OF f(1)] by auto
  have "best_of E st l (rc, Some (e, lev, r)) ?As" using best_channel [of E st l c] f(1) by simp
  then have b: "\<forall>B \<in> set ?As. eligible E st l B \<longrightarrow> \<not> outranked lev (add_auto_flags (ca_level B))" by (simp add: best_of_def)
  have "eligible E st l A" using A by (simp add: eligible_def)
  then show ?thesis using f(2) A b by blast
qed

lemma demo_register: "e \<in> {1, 2, 3} \<Longrightarrow> myentity_can_register_channel demo_env_acs (demo_lists l1 l2 l3) e"
  by (auto simp: myentity_can_register_channel_def demo_lists_def demo_user_def count_channels_with_def demo_env_acs_def)

lemma demo_pick: "mychan_pick_candidate demo_env_acs demo_acs 0 CA_OP = Some 2"
  by (simp add: mychan_pick_candidate_def demo_acs_def demo_entries pick_step_def flag_simps demo_register Let_def)
    (simp add: is_user_def demo_lists_def demo_user_def)

theorem pick_candidate_maximal_witness: "mychan_pick_candidate demo_env_acs demo_acs 0 CA_OP = Some 2 \<and> is_user demo_acs 2"
  using demo_pick pick_candidate_maximal [of demo_env_acs demo_acs 0 CA_OP 2] by blast

text \<open>
  C27: A group hides the accounts.  When a group that may register channels outranks every other eligible entry, the search
  ends with the group and, as the result is \<open>user(hi_mt)\<close>, finds nobody, although an eligible account is there: a
  channel can be dropped that somebody could have taken.
\<close>

theorem group_hides_candidates:
  assumes "G \<in> set (map snd (chan_entries st c))" "eligible E st l G" "ca_entity G = Some g" "\<not> is_user st g"
    and "\<And>B. B \<in> set (map snd (chan_entries st c)) \<Longrightarrow> eligible E st l B \<Longrightarrow> ca_entity B \<noteq> Some g \<Longrightarrow>
      outranked (add_auto_flags (ca_level B)) (add_auto_flags (ca_level G))"
  shows "mychan_pick_candidate E st c l = None"
proof -
  let ?As = "map snd (chan_entries st c)"
  obtain rc hi where f: "foldl (pick_step E st l) (False, None) ?As = (rc, hi)" by fastforce
  have b: "best_of E st l (rc, hi) ?As" using best_channel [of E st l c] f by simp
  show ?thesis
  proof (cases hi)
    case (Some x)
    then obtain e lev r where x: "hi = Some (e, lev, r)" by (cases x) auto
    obtain A where A: "A \<in> set ?As" "ca_entity A = Some e" "lev = add_auto_flags (ca_level A)" "eligible E st l A"
      using pick_fold [OF f [unfolded x]] by (auto simp: eligible_def)
    have "\<not> outranked lev (add_auto_flags (ca_level G))" using b assms(1,2) unfolding x best_of_def by simp blast
    then have "e = g" using assms(5) [OF A(1,4)] A(2,3) by auto
    then show ?thesis using f x assms(4) by (simp add: mychan_pick_candidate_def)
  qed (use f in \<open>simp add: mychan_pick_candidate_def\<close>)
qed

theorem group_hides_candidates_witness:
  "mychan_pick_candidate demo_env_acs demo_group 0 CA_OP = None \<and> mychan_pick_candidate demo_env_acs demo_acs 0 CA_OP = Some 2"
proof -
  let ?A = "\<lambda>i l. \<lparr>ca_chan = 0, ca_entity = Some i, ca_host = [], ca_level = l, ca_tmodified = 0, ca_setter = []\<rparr>"
  have e: "set (map snd (chan_entries demo_group 0)) = {?A 1 (CA_FOUNDER OR CA_FLAGS), ?A 2 CA_OP, ?A 3 (CA_OP OR CA_FLAGS)}"
    by (simp add: demo_group_def demo_entries)
  have g: "\<not> is_user demo_group 3" by (simp add: is_user_def demo_group_def demo_lists_def demo_user_def)
  have G: "?A 3 (CA_OP OR CA_FLAGS) \<in> set (map snd (chan_entries demo_group 0))" "eligible demo_env_acs demo_group CA_OP (?A 3 (CA_OP OR CA_FLAGS))"
    unfolding e by (simp_all add: eligible_def demo_group_def demo_register flag_simps)
  have o: "outranked (add_auto_flags CA_OP) (add_auto_flags (CA_OP OR CA_FLAGS))"
    by (simp add: outranked_def add_auto_flags_def flag_simps)
  have f: "\<not> eligible demo_env_acs demo_group CA_OP (?A 1 (CA_FOUNDER OR CA_FLAGS))" by (simp add: eligible_def flag_simps)
  have "mychan_pick_candidate demo_env_acs demo_group 0 CA_OP = None"
  proof (rule group_hides_candidates [OF G _ g])
    fix B assume "B \<in> set (map snd (chan_entries demo_group 0))" "eligible demo_env_acs demo_group CA_OP B" "ca_entity B \<noteq> Some 3"
    then have "B = ?A 2 CA_OP" unfolding e using f by auto
    then show "outranked (add_auto_flags (ca_level B)) (add_auto_flags (ca_level (?A 3 (CA_OP OR CA_FLAGS))))" using o by simp
  qed simp
  with demo_pick show ?thesis by blast
qed

section \<open>Accounts that wait for verification\<close>

text \<open>
  C28: The filter for unverified accounts is bypassed.  \<open>chanacs_user_flags\<close> takes every flag but +b from a client whose
  account waits for the verification of its email address.  \<open>chanacs_user_has_flag\<close> first asks for the flags of
  the account itself, without the filter, and says yes where \<open>chanacs_user_flags\<close> says no.
\<close>

theorem waitauth_bypass:
  assumes "waiting_auth st u" "au_account u = Some e" "chanacs_entity_flags E st c e AND level \<noteq> 0"
    and "level AND NOT (ve_ca_all E AND NOT CA_AKICK) = 0" "chanacs_host_flags_by_user E st c u AND level = 0"
  shows "chanacs_user_flags E st c u AND level = 0 \<and> chanacs_user_has_flag E st c u level"
proof
  have "(x AND NOT m) AND level = 0" if "level AND NOT m = 0" for x m :: u32
    by (rule ccontr) (use that in \<open>auto simp: meets_iff within_iff bit_simps\<close>)
  then have "(x AND NOT (ve_ca_all E AND NOT CA_AKICK)) AND level = 0" for x using assms(4) by blast
  then have "((x AND NOT (ve_ca_all E AND NOT CA_AKICK)) OR chanacs_host_flags_by_user E st c u) AND level = 0" for x
    using assms(5) by (simp add: bit.conj_disj_distrib2)
  then show "chanacs_user_flags E st c u AND level = 0" using assms(1,2) by (simp add: chanacs_user_flags_def Let_def)
  show "chanacs_user_has_flag E st c u level"
    using assms(2,3) by (simp add: chanacs_user_has_flag_def chanacs_entity_has_flag_def)
qed

definition demo_waiting :: acs_state where
  "demo_waiting = upd_ent 2 (\<lambda>X. X\<lparr>en_flags := MU_WAITAUTH\<rparr>) demo_acs"

theorem waitauth_bypass_witness:
  "let u = \<lparr>au_nick = ''bob'', au_user = ''b'', au_vhost = ''h'', au_chost = ''h'', au_ip = ''1.2.3.4'', au_account = Some 2\<rparr>
   in chanacs_user_flags demo_env_acs demo_waiting 0 u AND CA_OP = 0 \<and> chanacs_user_has_flag demo_env_acs demo_waiting 0 u CA_OP"
  unfolding Let_def
proof (rule waitauth_bypass)
  let ?u = "\<lparr>au_nick = ''bob'', au_user = ''b'', au_vhost = ''h'', au_chost = ''h'', au_ip = ''1.2.3.4'', au_account = Some 2\<rparr>"
  have e: "chan_entries demo_waiting 0 = chan_entries demo_acs 0"
  proof -
    have "entries_of (upd_ent 2 f st) is' = entries_of st is'" for f st is' by (rule entries_cong) simp
    note r = this
    show ?thesis unfolding demo_waiting_def chan_entries_def r by simp
  qed
  have us: "is_user demo_waiting 1" "is_user demo_waiting 2" "\<not> is_user demo_waiting 3"
    by (simp_all add: demo_waiting_def is_user_def demo_acs_def demo_lists_def demo_user_def)
  show "waiting_auth demo_waiting ?u"
    by (simp add: waiting_auth_def demo_waiting_def demo_acs_def demo_lists_def demo_user_def flag_simps)
  show "chanacs_entity_flags demo_env_acs demo_waiting 0 2 AND CA_OP \<noteq> 0"
    unfolding chanacs_entity_flags_def e demo_acs_def demo_entries
    using us by (simp add: match_entity_def or_levels_def demo_env_acs_def flag_simps)
  show "chanacs_host_flags_by_user demo_env_acs demo_waiting 0 ?u AND CA_OP = 0"
    unfolding chanacs_host_flags_by_user_def e demo_acs_def demo_entries by (simp add: host_matches_def)
qed (simp_all add: demo_env_acs_def flag_simps)

end
