(* ===== verification/Spec2Isabelle.thy ===== *)
theory Spec2Isabelle
  imports Prelude Match Cidr Flags Object Bans Modestack Chanmode Datastream NetworkReach Parse Codec Uids Privs Saslserv Succession
begin

text \<open>
  Verification development for ChatServices, an IRC services daemon (a fork of Atheme).  The program links to an
  IRC network as a server, follows what happens there (clients, channels, servers), and offers services (NickServ,
  ChanServ, OperServ, SaslServ, \<dots>) that register accounts and channels and enforce their settings.  The core is
  \<open>libathemecore\<close>, to which modules add protocols and services.  The development models that core and those modules that carry
  its security: the transport parsers, the SASL service, succession and the operator commands.

  \<^bold>\<open>How the parts interact.\<close>  Bytes of the uplink arrive in the receive queue of a connection (Datastream), are cut into
  lines, tokenized, attributed to a source and handed to a command handler (Parse).  Handlers change the picture of the
  network (Network: clients, channels, memberships, servers) and the modes of channels (Chanmode); what services
  answer to mode changes is collected by the mode stacker (Modestack) and goes out through the send queue (Datastream).
  New clients are checked against the bans of the network (Bans), whose masks are wildcards (Match) or addresses
  (Cidr).  A client that logs in (Saslserv, with Codec for the base 64 of its messages) is an entity with a UID (Uids), whose rights on a
  channel are the flags (Flags) of its entries on access lists (Access, Succession) and whose rights as an operator come from its
  operclass (Privs).  Accounts and channels are reference counted objects with metadata (Object).

  \<^bold>\<open>Conventions.\<close>  A struct is a record, an enum or a tagged union a datatype, a bit mask a word of its C width, a C string
  the list of its bytes without the terminator (theory Prelude, \<open>char_at\<close> reads the terminator at the end).  Pointers are
  references (natural numbers) into stores \<open>nat \<Rightarrow> record option\<close>, so that a dangling pointer is a reference without an object; a
  dictionary is a map from canonical keys; a linked list is a list in its order, its iteration a recursion.  A function
  that changes state takes and returns the record of the state; a fault or an early return is a value (\<open>option\<close>, a sum, a
  datatype of outcomes).  Messages to the network, hooks and replies that matter are a trace of events in the
  state.

  \<^bold>\<open>Theories and code.\<close>
  \<^item> Prelude: C strings and characters, the C library functions and \<open>strlcpy\<close>, \<open>strlcat\<close>, buffer sizes of
    \<open>common.h\<close>, decimal numbers.
  \<^item> Match: \<open>match.c\<close>. Case mappings with their tables, \<open>irccasecmp\<close>, canonical forms, \<open>match\<close> as the C loop over two
    indices.  \<open>glob\<close> is the language of a mask; \<open>match\<close> is sound and, within its bound, complete for it.
  \<^item> Cidr: \<open>cidr.c\<close>. Address parsers, \<open>comp_with_mask\<close>, \<open>match_ips\<close>, \<open>match_cidr\<close>; an address matches when its first bits
    are those of the network.
  \<^item> Flags: \<open>flags.c\<close>, \<open>flags.h\<close>. The table of access flags, parsing and printing, \<open>allow_flags\<close>; the letter tables of
    accounts, channels and operclasses are instances of the locale \<open>flag_codec\<close>.
  \<^item> Object: \<open>object.c\<close>. Reference counts, disposal, metadata.  The patricia trees of libmowgli are a parameter; the locale
    \<open>dictionary\<close> states their contract and \<open>metadata_store\<close> extends it.
  \<^item> Bans: \<open>node.c\<close>, \<open>svsignore.c\<close>. AKILLs, real name bans, reservations, ignores and their expiry (locale \<open>timed_bans\<close>,
    interpreted for the three lists).
  \<^item> Modestack, Chanmode: \<open>cmode.c\<close> and the bans of \<open>channels.c\<close>.  The stack stands for a function on channels (an abstract
    specification it refines); applying a mode change, mode locks and \<open>check_modes\<close>.
  \<^item> Datastream: \<open>datastream.c\<close> and the line handler of \<open>packet.c\<close>.  Queues of blocks are byte strings (locale
    \<open>byte_fifo\<close>); the kernel is a parameter that answers each read and write.
  \<^item> Network, NetworkInv, NetworkLive, NetworkTree, NetworkReach: \<open>users.c\<close>, \<open>servers.c\<close>, \<open>channels.c\<close>, parts of
    \<open>services.c\<close> and \<open>servtree.c\<close>.  Network holds the model; the others the invariant, its preservation by each operation, the
    server tree, and the states reachable from the start of services.
  \<^item> Parse: \<open>tokenize.c\<close>, \<open>pmodule.c\<close>, \<open>transport/rfc1459/parse.c\<close>, \<open>transport/p10.c\<close>.
  \<^item> Codec: \<open>base64.c\<close>, \<open>ubase64.c\<close>.
  \<^item> Uids: \<open>uid.c\<close>, \<open>protocol/base36uid.c\<close>, \<open>entity.c\<close>. Both generators are odometers (locale \<open>uid_counter\<close>, interpreted for both).
  \<^item> Access, Succession: the access list, founder and succession functions of \<open>account.c\<close> and \<open>entity.c\<close>, the host entries of
    \<open>phandler.c\<close>. Access holds the model and its invariant, Succession the histories and what changes and drops achieve.
  \<^item> Privs: \<open>privs.c\<close>, \<open>operserv/soper.c\<close>, \<open>operserv/identify.c\<close>, the authorization of \<open>commandtree.c\<close>, the verification of
    passwords of \<open>crypto.c\<close>, the rehash marks of \<open>node.c\<close> for operators.
  \<^item> Saslserv: \<open>saslserv/main.c\<close> and the mechanisms PLAIN, EXTERNAL, AUTHCOOKIE and ECDSA-NIST256P-CHALLENGE.

  \<^bold>\<open>What the lemmas show.\<close>  Each theory has the same order: data and operations, the abstract notion or invariant, its preservation or
  the refinement, and the properties (numbered C1, C2, \<dots>) with an instance of each.  Invariants over histories
  (\<open>net_reach\<close>, \<open>acs_reach\<close>, \<open>privs_reach\<close> and others) are inductive step relations from the start of the program, so that no property
  rests on an assumed well-formedness.  Where the code is wrong, the theorem states what it does, with a concrete instance, and the
  surrounding properties name the case they exclude.

  \<^bold>\<open>Bounds and fuel.\<close>  \<open>match\<close> stops after \<open>MAX_ITERATIONS\<close> = 512 further iterations, as the code does; completeness holds for
  \<open>strlen(name) * (strlen(mask) + 2) \<le> 512\<close>.  The search for a free flag has 32 steps of fuel, since a word of 32 bits is
  zero after as many shifts.  \<open>server_delete\<close> recurses over the children with a depth bound; every bound above the number of
  references handed out is enough and gives the same result (C3).  The loop over the entries of a dropped account has the number of
  entries as fuel, and is proved to end in a result (C24).  The loop that reads lines is a \<open>partial_function\<close>, and
  is proved to return.  All other recursions terminate by structure or by a measure.  Counters of the code are words of
  their width and are equal to lengths modulo that width.

  \<^bold>\<open>Parameters.\<close>  Code that is not in the repository or depends on the outside is an argument: libmowgli's dictionaries, the
  kernel's answers to \<open>read\<close> and \<open>write\<close>, the clock, hooks, password and signature algorithms, the wire formats of the
  protocol modules, the validators of groups and external targets.

  \<^bold>\<open>Not modelled.\<close>  Socket and resolver I/O, configuration files and databases, logging, help and language files, module loading
  and start-up are I/O or store values.  MD5, arc4random and the modules of \<open>modules/crypto\<close> are third-party or
  numeric code without state of its own.  The protocol modules translate between wire formats and the operations of Network; each is
  a table that the models take as a parameter.  The command handlers of the services other than those above check their
  arguments, call the operations modelled here and print.  Of \<open>account.c\<close> the grouped nicks, certificate
  fingerprints, memos and old names are left out, of \<open>match.c\<close> the regular expressions, which belong to the system's
  library.
\<close>

end
